(* ===== verification/MH_Prelude.thy ===== *)
theory MH_Prelude
  imports Main "HOL-Library.Word" "HOL-Library.Monad_Syntax" "HOL-Library.Sublist"
begin

text \<open>
  Shared vocabulary of the development: the machine integer types of the C++ sources, checked
  access to arrays, and the generic facts on lists, options and words that the components use.

  An array or span access of the source is unchecked: outside the bounds it is undefined
  behaviour. The model makes that visible. \<open>rd\<close> and \<open>wr\<close> return \<open>None\<close> outside the bounds, so a
  routine that is modelled as a computation in the option type returns \<open>None\<close> exactly when the
  source would touch memory outside the array (or, for the loops defined with
  \<^theory_text>\<open>partial_function\<close>, when it would not end); a theorem that such a routine returns
  \<open>Some\<close> is a memory safety and termination statement.
\<close>

unbundle bit_operations_syntax

type_synonym u8 = "8 word"
type_synonym u32 = "32 word"
type_synonym u64 = "64 word"

text \<open>A frame address (\<open>void*\<close> or \<open>uintptr_t\<close>).\<close>

type_synonym ptr = "64 word"

named_theorems access_simps \<open>evaluation of checked array access\<close>
named_theorems bit_access \<open>bit-level reading of words and word buffers\<close>

section \<open>Checked array access\<close>

definition rd :: "'a list \<Rightarrow> nat \<Rightarrow> 'a option" where
  "rd xs i = (if i < length xs then Some (xs ! i) else None)"

definition wr :: "'a list \<Rightarrow> nat \<Rightarrow> 'a \<Rightarrow> 'a list option" where
  "wr xs i v = (if i < length xs then Some (xs[i := v]) else None)"

lemma rd_in [access_simps]: "i < length xs \<Longrightarrow> rd xs i = Some (xs ! i)"
  by (simp add: rd_def)

lemma wr_in [access_simps]: "i < length xs \<Longrightarrow> wr xs i v = Some (xs[i := v])"
  by (simp add: wr_def)

lemma rd_eq_Some_iff: "rd xs i = Some v \<longleftrightarrow> i < length xs \<and> xs ! i = v"
  by (auto simp: rd_def)

lemma wr_eq_Some_iff: "wr xs i v = Some ys \<longleftrightarrow> i < length xs \<and> ys = xs[i := v]"
  by (auto simp: wr_def)

section \<open>Bounded quantifiers\<close>

lemma all_from_Suc:
  fixes p :: nat
  assumes "p < n"
  shows "(\<forall>k. p \<le> k \<and> k < n \<longrightarrow> P k) \<longleftrightarrow> P p \<and> (\<forall>k. Suc p \<le> k \<and> k < n \<longrightarrow> P k)"
  using assms by (metis Suc_leD le_neq_implies_less less_eq_Suc_le order_refl)

section \<open>Containers\<close>

text \<open>
  The maps of the source are association lists; their order stands for the unspecified iteration
  order of a hash map. \<open>map_insert\<close> is \<open>insert\<close> of the standard maps: it leaves the value of a key
  that is present as it is.
\<close>

definition map_insert :: "'k \<Rightarrow> 'v \<Rightarrow> ('k \<times> 'v) list \<Rightarrow> ('k \<times> 'v) list" where
  "map_insert k v m = (case map_of m k of None \<Rightarrow> (k, v) # m | Some _ \<Rightarrow> m)"

lemma map_of_map_insert:
  "map_of (map_insert k v m) k' = (if k = k' \<and> map_of m k = None then Some v else map_of m k')"
  by (auto simp: map_insert_def split: option.split)

lemma length_map_insert: "map_of m k = None \<Longrightarrow> length (map_insert k v m) = Suc (length m)"
  by (simp add: map_insert_def)

text \<open>Changing the value of a key that is present, through the reference or iterator that a lookup returned.\<close>

definition map_modify :: "'k \<Rightarrow> ('v \<Rightarrow> 'v) \<Rightarrow> ('k \<times> 'v) list \<Rightarrow> ('k \<times> 'v) list" where
  "map_modify k f m = map (\<lambda>(k', v). (k', if k' = k then f v else v)) m"

lemma map_of_map_modify: "map_of (map_modify k f m) k' = (if k' = k then map_option f (map_of m k) else map_of m k')"
  by (induction m) (auto simp: map_modify_def)

lemma keys_map_modify [simp]: "map fst (map_modify k f m) = map fst m"
  by (induction m) (auto simp: map_modify_def)

lemma distinct_map_insert: "distinct (map fst m) \<Longrightarrow> distinct (map fst (map_insert k v m))"
  by (auto simp: map_insert_def map_of_eq_None_iff split: option.split)

lemma key_map_insert: "k \<in> fst ` set (map_insert k v m)"
  by (force simp: map_insert_def split: option.split dest: map_of_SomeD)

end
