(* ===== verification/Alloc_Info.thy ===== *)
theory Alloc_Info
  imports MH_Prelude
begin

text \<open>
  Allocation records and their running sums (\<open>src/source/memhawk/src/impl/alloc_info.h\<close>).

  The signed 64-bit fields of \<open>AllocSummary\<close> are 64-bit words read in two's complement
  (\<^const>\<open>sint\<close>); sums wrap. Summaries form a commutative group-like structure under the
  \<open>operator+=\<close> of the source, which the instance of \<open>comm_monoid_add\<close> makes available to the
  summation lemmas of the library.
\<close>

record AllocInfo =
  ai_size :: u64
  ai_offset :: u32
  ai_traceId :: u32

definition mk_AllocInfo :: "u64 \<Rightarrow> u32 \<Rightarrow> AllocInfo" where
  "mk_AllocInfo sz off = \<lparr>ai_size = sz, ai_offset = off, ai_traceId = 0\<rparr>"

datatype AllocSummary =
  AllocSummary (sm_size: u64) (sm_overhead: u64) (sm_active: u64) (sm_totalCount: u64) (sm_totalBytes: u64)

text \<open>\<open>operator+=\<close> of two summaries.\<close>

definition summary_add :: "AllocSummary \<Rightarrow> AllocSummary \<Rightarrow> AllocSummary" where
  "summary_add s rhs =
     AllocSummary (sm_size s + sm_size rhs) (sm_overhead s + sm_overhead rhs) (sm_active s + sm_active rhs)
       (sm_totalCount s + sm_totalCount rhs) (sm_totalBytes s + sm_totalBytes rhs)"

text \<open>\<open>operator+=\<close> and \<open>operator-=\<close> with an \<open>AllocInfo\<close>.\<close>

definition summary_add_info :: "AllocSummary \<Rightarrow> AllocInfo \<Rightarrow> AllocSummary" where
  "summary_add_info s rhs =
     AllocSummary (sm_size s + ai_size rhs) (sm_overhead s + ucast (ai_offset rhs)) (sm_active s + 1)
       (sm_totalCount s + 1) (sm_totalBytes s + ai_size rhs)"

definition summary_sub_info :: "AllocSummary \<Rightarrow> AllocInfo \<Rightarrow> AllocSummary" where
  "summary_sub_info s rhs =
     AllocSummary (sm_size s - ai_size rhs) (sm_overhead s - ucast (ai_offset rhs)) (sm_active s - 1)
       (sm_totalCount s) (sm_totalBytes s)"

section \<open>Summaries as a commutative monoid\<close>

instantiation AllocSummary :: comm_monoid_add
begin

definition zero_AllocSummary :: AllocSummary where
  "zero_AllocSummary = AllocSummary 0 0 0 0 0"

definition plus_AllocSummary :: "AllocSummary \<Rightarrow> AllocSummary \<Rightarrow> AllocSummary" where
  "plus_AllocSummary a b = summary_add a b"

instance
  by standard
    (simp_all add: plus_AllocSummary_def zero_AllocSummary_def summary_add_def ac_simps)

end

lemma summary_sel_plus [simp]:
  "sm_size (a + b) = sm_size a + sm_size b"
  "sm_overhead (a + b) = sm_overhead a + sm_overhead b"
  "sm_active (a + b) = sm_active a + sm_active b"
  "sm_totalCount (a + b) = sm_totalCount a + sm_totalCount b"
  "sm_totalBytes (a + b) = sm_totalBytes a + sm_totalBytes b"
  by (simp_all add: plus_AllocSummary_def summary_add_def)

lemma summary_add_plus [simp]: "summary_add a b = a + b"
  by (simp add: plus_AllocSummary_def)

lemma summary_sel_zero [simp]:
  "sm_size 0 = 0" "sm_overhead 0 = 0" "sm_active 0 = 0" "sm_totalCount 0 = 0" "sm_totalBytes 0 = 0"
  by (simp_all add: zero_AllocSummary_def)

text \<open>What one allocation and one deallocation contribute to a summary.\<close>

definition alloc_delta :: "AllocInfo \<Rightarrow> AllocSummary" where
  "alloc_delta i = AllocSummary (ai_size i) (ucast (ai_offset i)) 1 1 (ai_size i)"

definition free_delta :: "AllocInfo \<Rightarrow> AllocSummary" where
  "free_delta i = AllocSummary (- ai_size i) (- ucast (ai_offset i)) (- 1) 0 0"

lemma summary_add_info_delta [simp]: "summary_add_info s i = s + alloc_delta i"
  by (rule AllocSummary.expand) (simp add: summary_add_info_def alloc_delta_def)

lemma summary_sub_info_delta [simp]: "summary_sub_info s i = s + free_delta i"
  by (rule AllocSummary.expand) (simp add: summary_sub_info_def free_delta_def)

lemma alloc_free_delta:
  "alloc_delta i + free_delta i = AllocSummary 0 0 0 1 (ai_size i)"
  by (rule AllocSummary.expand) (simp add: alloc_delta_def free_delta_def)

end
