(* ===== verification/Lru_Cache.thy ===== *)
theory Lru_Cache
  imports MH_Prelude "HOL-Library.Multiset"
begin

text \<open>
  The LRU cache (\<open>src/source/memhawk/src/impl/lru_cache.h\<close>). The container of the source has two
  views of the same elements, a hash index with unique keys and a sequence; the model is the
  sequence itself, front (least recently used) to back, in which keys are unique. Undefined behaviour
  is \<open>None\<close>: reading the front of an empty sequence, and relocating an element that \<open>modify\<close> has
  erased because its new key collides with another element.
\<close>

section \<open>The model\<close>

record ('k, 'v) lru =
  m_index :: "('k \<times> 'v) list"
  m_capacity :: nat

definition LruCache :: "nat \<Rightarrow> ('k, 'v) lru" where
  "LruCache capacity = \<lparr>m_index = [], m_capacity = capacity\<rparr>"

definition lru_keys :: "('k, 'v) lru \<Rightarrow> 'k list" where
  "lru_keys c = map fst (m_index c)"

text \<open>Moving the element with a given key to the back of the sequence.\<close>

definition Relocate :: "'k \<Rightarrow> ('k \<times> 'v) list \<Rightarrow> ('k \<times> 'v) list" where
  "Relocate key xs = filter (\<lambda>e. fst e \<noteq> key) xs @ filter (\<lambda>e. fst e = key) xs"

definition lru_Insert :: "('k, 'v) lru \<Rightarrow> 'k \<Rightarrow> 'v \<Rightarrow> (('k, 'v) lru \<times> 'k option) option" where
  "lru_Insert c key v =
     (if length (m_index c) \<ge> m_capacity c then
        (case m_index c of
           [] \<Rightarrow> None
         | (oldKey, _) # rest \<Rightarrow>
             if key \<in> fst ` set rest then None
             else Some (c\<lparr>m_index := Relocate key ((key, v) # rest)\<rparr>, Some oldKey))
      else if key \<in> set (lru_keys c) then Some (c\<lparr>m_index := Relocate key (m_index c)\<rparr>, None)
      else Some (c\<lparr>m_index := Relocate key (m_index c @ [(key, v)])\<rparr>, None))"

definition lru_Touch :: "('k, 'v) lru \<Rightarrow> 'k \<Rightarrow> ('k, 'v) lru \<times> 'v option" where
  "lru_Touch c key =
     (case map_of (m_index c) key of
        Some v \<Rightarrow> (c\<lparr>m_index := Relocate key (m_index c)\<rparr>, Some v)
      | None \<Rightarrow> (c, None))"

definition lru_Erase :: "('k, 'v) lru \<Rightarrow> 'k \<Rightarrow> ('k, 'v) lru \<times> bool" where
  "lru_Erase c key =
     (c\<lparr>m_index := filter (\<lambda>e. fst e \<noteq> key) (m_index c)\<rparr>, key \<in> set (lru_keys c))"

definition lru_Size :: "('k, 'v) lru \<Rightarrow> nat" where
  "lru_Size c = length (m_index c)"

section \<open>Invariant and element-level facts\<close>

definition lru_ok :: "('k, 'v) lru \<Rightarrow> bool" where
  "lru_ok c \<longleftrightarrow> distinct (lru_keys c) \<and> length (m_index c) \<le> m_capacity c \<and> 0 < m_capacity c"

lemma set_Relocate [simp]: "set (Relocate k xs) = set xs"
  by (auto simp: Relocate_def)

lemma length_Relocate [simp]: "length (Relocate k xs) = length xs"
  using sum_length_filter_compl [of "\<lambda>e. fst e \<noteq> k" xs] by (simp add: Relocate_def)

lemma keys_Relocate:
  assumes "distinct (map fst xs)" "k \<in> fst ` set xs"
  shows "map fst (Relocate k xs) = filter (\<lambda>x. x \<noteq> k) (map fst xs) @ [k]"
proof -
  have "map fst (filter (\<lambda>e. fst e = k) xs) = [k]"
    using assms by (induction xs) (force simp: filter_empty_conv)+
  moreover have "map fst (filter (\<lambda>e. fst e \<noteq> k) xs) = filter (\<lambda>x. x \<noteq> k) (map fst xs)"
    by (simp add: filter_map comp_def)
  ultimately show ?thesis by (simp add: Relocate_def)
qed

lemma distinct_keys_Relocate [simp]:
  "distinct (map fst (Relocate k xs)) \<longleftrightarrow> distinct (map fst xs)"
proof -
  have "mset (map fst (Relocate k xs)) = mset (map fst xs)" for xs :: "('a \<times> 'b) list"
    by (induction xs) (auto simp: Relocate_def)
  then show ?thesis by (metis mset_eq_imp_distinct_iff)
qed

lemma LruCache_ok: "0 < n \<Longrightarrow> lru_ok (LruCache n)"
  by (simp add: lru_ok_def LruCache_def lru_keys_def)

lemma lru_Touch_ok: "lru_ok c \<Longrightarrow> lru_ok (fst (lru_Touch c k))"
  by (simp add: lru_Touch_def lru_ok_def lru_keys_def split: option.split)

lemma lru_Touch_elems: "set (m_index (fst (lru_Touch c k))) = set (m_index c)"
  by (simp add: lru_Touch_def split: option.split)

lemma lru_Touch_capacity [simp]: "m_capacity (fst (lru_Touch c k)) = m_capacity c"
  by (simp add: lru_Touch_def split: option.split)

lemma lru_Touch_result: "snd (lru_Touch c k) = map_of (m_index c) k"
  by (simp add: lru_Touch_def split: option.split)

lemma lru_Erase_ok: "lru_ok c \<Longrightarrow> lru_ok (fst (lru_Erase c k))"
  by (auto simp: lru_Erase_def lru_ok_def lru_keys_def distinct_map_filter intro: order_trans [OF length_filter_le])

lemma lru_Insert_absent:
  assumes "lru_ok c" "k \<notin> set (lru_keys c)"
  obtains (room) "length (m_index c) < m_capacity c"
      "lru_Insert c k v = Some (c\<lparr>m_index := m_index c @ [(k, v)]\<rparr>, None)"
    | (full) e rest where "length (m_index c) = m_capacity c" "m_index c = e # rest"
      "lru_Insert c k v = Some (c\<lparr>m_index := rest @ [(k, v)]\<rparr>, Some (fst e))"
proof (cases "length (m_index c) < m_capacity c")
  case True
  moreover have "\<forall>e \<in> set (m_index c). fst e \<noteq> k"
    using assms by (auto simp: lru_keys_def)
  ultimately show ?thesis
    using assms by (intro room) (simp_all add: lru_Insert_def Relocate_def)
next
  case False
  with assms obtain e rest where xs: "m_index c = e # rest"
    by (cases "m_index c") (auto simp: lru_ok_def)
  moreover have "\<forall>e \<in> set rest. fst e \<noteq> k"
    using assms xs by (auto simp: lru_keys_def)
  moreover have "k \<notin> fst ` set rest"
    using assms xs by (auto simp: lru_keys_def)
  ultimately show ?thesis
    using False assms
    by (intro full [of e rest]) (auto simp: lru_Insert_def Relocate_def lru_ok_def split: prod.splits)
qed

lemma lru_Insert_ok:
  assumes "lru_ok c" "k \<notin> set (lru_keys c)"
  shows "\<exists>c' ev. lru_Insert c k v = Some (c', ev) \<and> lru_ok c' \<and> (k, v) \<in> set (m_index c') \<and>
    set (m_index c') \<subseteq> insert (k, v) (set (m_index c)) \<and> m_capacity c' = m_capacity c"
proof (rule lru_Insert_absent [OF assms, of v])
  assume "length (m_index c) < m_capacity c"
    "lru_Insert c k v = Some (c\<lparr>m_index := m_index c @ [(k, v)]\<rparr>, None)"
  with assms show ?thesis by (auto simp: lru_ok_def lru_keys_def)
next
  fix e rest
  assume "length (m_index c) = m_capacity c" "m_index c = e # rest"
    "lru_Insert c k v = Some (c\<lparr>m_index := rest @ [(k, v)]\<rparr>, Some (fst e))"
  with assms show ?thesis by (auto simp: lru_ok_def lru_keys_def)
qed

section \<open>The cache as an interface\<close>

text \<open>
  What a client relies on: the elements a cache holds, and how \<open>touch\<close> and \<open>insert\<close> change them. The
  client lemmas are about a relation \<open>P\<close> between keys and values that a client keeps for every
  element: a hit then returns a value related to its key.
\<close>

locale key_value_cache =
  fixes elems :: "'c \<Rightarrow> ('k \<times> 'v) set"
    and touch :: "'c \<Rightarrow> 'k \<Rightarrow> 'c \<times> 'v option"
    and ins :: "'c \<Rightarrow> 'k \<Rightarrow> 'v \<Rightarrow> ('c \<times> 'k option) option"
    and invar :: "'c \<Rightarrow> bool"
  assumes touch_invar: "invar c \<Longrightarrow> invar (fst (touch c k))"
    and touch_elems: "invar c \<Longrightarrow> elems (fst (touch c k)) = elems c"
    and touch_hit: "invar c \<Longrightarrow> snd (touch c k) = Some v \<Longrightarrow> (k, v) \<in> elems c"
    and touch_miss: "invar c \<Longrightarrow> snd (touch c k) = None \<Longrightarrow> (k, v) \<notin> elems c"
    and ins_absent: "invar c \<Longrightarrow> (\<And>v'. (k, v') \<notin> elems c) \<Longrightarrow>
      \<exists>c' ev. ins c k v = Some (c', ev) \<and> invar c' \<and> (k, v) \<in> elems c' \<and> elems c' \<subseteq> insert (k, v) (elems c)"
begin

definition coherent :: "('k \<Rightarrow> 'v \<Rightarrow> bool) \<Rightarrow> 'c \<Rightarrow> bool" where
  "coherent P c \<longleftrightarrow> invar c \<and> (\<forall>(k, v) \<in> elems c. P k v)"

lemma touch_coherent:
  assumes "coherent P c"
  shows "coherent P (fst (touch c k))" "snd (touch c k) = Some v \<Longrightarrow> P k v"
  using assms by (auto simp: coherent_def touch_invar touch_elems dest: touch_hit)

lemma miss_insert_coherent:
  assumes "coherent P c" "snd (touch c k) = None" "P k v"
  shows "\<exists>c' ev. ins (fst (touch c k)) k v = Some (c', ev) \<and> coherent P c'"
proof -
  have "\<And>v'. (k, v') \<notin> elems (fst (touch c k))"
    using assms by (auto simp: coherent_def touch_elems dest: touch_miss)
  moreover have "invar (fst (touch c k))" using assms by (simp add: coherent_def touch_invar)
  ultimately obtain c' ev where "ins (fst (touch c k)) k v = Some (c', ev)" "invar c'"
    "elems c' \<subseteq> insert (k, v) (elems (fst (touch c k)))"
    using ins_absent [of "fst (touch c k)" k v] by blast
  with assms show ?thesis by (auto simp: coherent_def touch_elems)
qed

end

interpretation lru: key_value_cache "\<lambda>c. set (m_index c)" lru_Touch lru_Insert lru_ok
proof
  fix c :: "('a, 'b) lru" and k v
  assume ok: "lru_ok c"
  show "lru_ok (fst (lru_Touch c k))" using ok by (rule lru_Touch_ok)
  show "set (m_index (fst (lru_Touch c k))) = set (m_index c)" by (rule lru_Touch_elems)
  show "(k, v) \<in> set (m_index c)" if "snd (lru_Touch c k) = Some v"
    using that by (simp add: lru_Touch_result map_of_SomeD)
  show "(k, v) \<notin> set (m_index c)" if "snd (lru_Touch c k) = None"
    using that by (auto simp: lru_Touch_result map_of_eq_None_iff image_iff)
  assume "\<And>v'. (k, v') \<notin> set (m_index c)"
  then have "k \<notin> set (lru_keys c)" by (auto simp: lru_keys_def)
  with ok show "\<exists>c' ev. lru_Insert c k v = Some (c', ev) \<and> lru_ok c' \<and> (k, v) \<in> set (m_index c') \<and>
      set (m_index c') \<subseteq> insert (k, v) (set (m_index c))"
    using lru_Insert_ok [of c k v] by fast
qed

section \<open>Least recently used\<close>

text \<open>
  The operations in any order, with the list of the keys used so far (a hit of \<open>Touch\<close> and an
  \<open>Insert\<close> use their key). \<open>Insert\<close> is called with a key that is not in the cache, as
  \<open>ThreadTracker\<close> calls it after a miss.
\<close>

inductive lru_run :: "nat \<Rightarrow> ('k, 'v) lru \<Rightarrow> 'k list \<Rightarrow> bool" for cap where
  start: "lru_run cap (LruCache cap) []"
| hit: "lru_run cap c us \<Longrightarrow> lru_Touch c k = (c', Some v) \<Longrightarrow> lru_run cap c' (us @ [k])"
| miss: "lru_run cap c us \<Longrightarrow> lru_Touch c k = (c', None) \<Longrightarrow> lru_run cap c' us"
| insert_new: "lru_run cap c us \<Longrightarrow> k \<notin> set (lru_keys c) \<Longrightarrow> lru_Insert c k v = Some (c', ev) \<Longrightarrow>
    lru_run cap c' (us @ [k])"
| erase: "lru_run cap c us \<Longrightarrow> lru_Erase c k = (c', b) \<Longrightarrow> lru_run cap c' us"

text \<open>
  \<open>remdups\<close> keeps last occurrences, so \<open>remdups us\<close> lists the used keys by their last use; the cache
  holds its keys in exactly that order.
\<close>

definition recency_ordered :: "('k, 'v) lru \<Rightarrow> 'k list \<Rightarrow> bool" where
  "recency_ordered c us \<longleftrightarrow> lru_keys c = filter (\<lambda>k. k \<in> set (lru_keys c)) (remdups us)"

lemma remdups_snoc: "remdups (xs @ [x]) = filter (\<lambda>y. y \<noteq> x) (remdups xs) @ [x]"
  by (induction xs) auto

lemma filter_remdups_snoc:
  assumes "ks = filter (\<lambda>k. k \<in> set ks) (remdups us)" "distinct ks"
    and "ks' = filter (\<lambda>y. y \<noteq> k) ls @ [k]" "suffix ls ks"
  shows "ks' = filter (\<lambda>k. k \<in> set ks') (remdups (us @ [k]))"
proof -
  obtain pre where pre: "ks = pre @ ls" using assms(4) by (auto simp: suffix_def)
  have "filter (\<lambda>x. x \<in> set ls) pre = []"
    using assms(2) by (auto simp: pre filter_empty_conv)
  then have "filter (\<lambda>x. x \<in> set ls) ks = ls" by (simp add: pre filter_id_conv)
  moreover have "filter (\<lambda>x. x \<in> set ls) ks = filter (\<lambda>x. x \<in> set ls) (remdups us)"
    using assms(1) by (metis (mono_tags, lifting) filter_cong filter_filter pre set_append Un_iff)
  ultimately have "ls = filter (\<lambda>x. x \<in> set ls) (remdups us)" by simp
  then have "filter (\<lambda>y. y \<noteq> k) ls = filter (\<lambda>y. y \<noteq> k \<and> y \<in> set ls) (remdups us)"
    by (metis (mono_tags, lifting) filter_cong filter_filter)
  then show ?thesis
    unfolding remdups_snoc assms(3) by (auto intro!: filter_cong)
qed

lemma lru_run_capacity: "lru_run cap c us \<Longrightarrow> m_capacity c = cap"
  by (induction rule: lru_run.induct)
    (auto simp: LruCache_def lru_Touch_def lru_Erase_def lru_Insert_def split: option.splits if_splits list.splits)

lemma lru_keys_update [simp]: "lru_keys (c\<lparr>m_index := xs\<rparr>) = map fst xs"
  by (simp add: lru_keys_def)

lemma lru_run_invar:
  assumes "lru_run cap c us" "0 < cap"
  shows "lru_ok c \<and> recency_ordered c us"
  using assms(1)
proof (induction rule: lru_run.induct)
  case start
  show ?case using \<open>0 < cap\<close> LruCache_ok by (simp add: recency_ordered_def lru_keys_def LruCache_def lru_ok_def)
next
  case (hit c us k c' v)
  then have "map_of (m_index c) k = Some v" and c': "c' = c\<lparr>m_index := Relocate k (m_index c)\<rparr>"
    by (auto simp: lru_Touch_def split: option.splits)
  then have "k \<in> fst ` set (m_index c)" by (force dest: map_of_SomeD)
  then have "lru_keys c' = filter (\<lambda>x. x \<noteq> k) (lru_keys c) @ [k]"
    using hit.IH by (simp add: c' keys_Relocate lru_ok_def lru_keys_def)
  moreover have "lru_ok c'" using hit lru_Touch_ok [of c k] by simp
  ultimately show ?case
    using hit.IH filter_remdups_snoc [of "lru_keys c" us "lru_keys c'" k "lru_keys c"]
    unfolding recency_ordered_def lru_ok_def by blast
next
  case (miss c us k c')
  then show ?case by (auto simp: lru_Touch_def split: option.splits)
next
  case (insert_new c us k v c' ev)
  have ok: "lru_ok c'" using insert_new lru_Insert_ok [of c k v] by auto
  have "\<exists>ls. lru_keys c' = ls @ [k] \<and> suffix ls (lru_keys c)"
    by (rule lru_Insert_absent [of c k v]) (use insert_new in \<open>auto simp: lru_keys_def suffix_def\<close>)
  then obtain ls where ls: "lru_keys c' = ls @ [k]" "suffix ls (lru_keys c)" by blast
  then have "filter (\<lambda>y. y \<noteq> k) ls = ls"
    using insert_new.hyps(2) by (auto simp: filter_id_conv suffix_def)
  then have "lru_keys c' = filter (\<lambda>y. y \<noteq> k) ls @ [k]" using ls(1) by simp
  then show ?case
    using ok ls insert_new.IH filter_remdups_snoc [of "lru_keys c" us "lru_keys c'" k ls]
    unfolding recency_ordered_def lru_ok_def by blast
next
  case (erase c us k c' b)
  then have c': "lru_keys c' = filter (\<lambda>x. x \<noteq> k) (lru_keys c)"
    by (auto simp: lru_Erase_def lru_keys_def filter_map comp_def)
  have rec: "lru_keys c = filter (\<lambda>x. x \<in> set (lru_keys c)) (remdups us)"
    using erase.IH by (simp add: recency_ordered_def)
  have "lru_keys c' = filter (\<lambda>x. x \<noteq> k) (filter (\<lambda>x. x \<in> set (lru_keys c)) (remdups us))"
    using c' rec by simp
  also have "\<dots> = filter (\<lambda>x. x \<in> set (lru_keys c')) (remdups us)"
    unfolding c' by (auto intro: filter_cong)
  finally show ?case
    using erase lru_Erase_ok [of c k] by (simp add: recency_ordered_def)
qed

section \<open>Properties\<close>

text \<open>
  C27. After any sequence of \<open>Touch\<close>, \<open>Erase\<close> and \<open>Insert\<close> (of keys that are not present) from the
  empty cache of positive capacity, an \<open>Insert\<close> of a new key succeeds; the new element is found by the
  next \<open>Touch\<close>. When the cache has room nothing is evicted; when it is full, the evicted key is the
  stored key whose last use is the oldest, and every other element stays.
\<close>

theorem lru_Insert_evicts_least_recent:
  assumes "lru_run cap c us" "0 < cap" "k \<notin> set (lru_keys c)"
  shows "\<exists>c' ev. lru_Insert c k v = Some (c', ev) \<and> lru_Size c' \<le> cap \<and> snd (lru_Touch c' k) = Some v \<and>
    (if lru_Size c < cap then ev = None \<and> m_index c' = m_index c @ [(k, v)]
     else ev = Some (hd (filter (\<lambda>x. x \<in> set (lru_keys c)) (remdups us))) \<and>
       set (m_index c') = insert (k, v) {e \<in> set (m_index c). Some (fst e) \<noteq> ev})"
proof -
  have ok: "lru_ok c" "recency_ordered c us" and cap: "m_capacity c = cap"
    using assms lru_run_invar lru_run_capacity by blast+
  have k: "map_of (m_index c) k = None"
    using assms(3) by (simp add: lru_keys_def map_of_eq_None_iff)
  show ?thesis
  proof (rule lru_Insert_absent [OF ok(1) assms(3), of v])
    assume "length (m_index c) < m_capacity c"
      "lru_Insert c k v = Some (c\<lparr>m_index := m_index c @ [(k, v)]\<rparr>, None)"
    then show ?thesis by (simp add: lru_Size_def cap lru_Touch_result k map_add_def)
  next
    fix e rest
    assume full: "length (m_index c) = m_capacity c" "m_index c = e # rest"
      "lru_Insert c k v = Some (c\<lparr>m_index := rest @ [(k, v)]\<rparr>, Some (fst e))"
    have "fst e \<notin> fst ` set rest" "k \<notin> fst ` set rest"
      using ok(1) assms(3) full(2) by (auto simp: lru_ok_def lru_keys_def)
    moreover from this have "map_of rest k = None" by (simp add: map_of_eq_None_iff)
    moreover have "hd (filter (\<lambda>x. x \<in> set (lru_keys c)) (remdups us)) = fst e"
      using ok(2) full(2) unfolding recency_ordered_def by (metis list.sel(1) list.simps(9) lru_keys_def)
    ultimately show ?thesis
      using full by (auto simp: lru_Size_def cap lru_Touch_result map_add_def image_iff)
  qed
qed

definition lru_demo :: "(nat, nat) lru" where
  "lru_demo = \<lparr>m_index = [(2, 20), (1, 10)], m_capacity = 2\<rparr>"

lemma lru_demo_run: "lru_run 2 lru_demo [1, 2, 1]"
proof -
  have a: "lru_run 2 \<lparr>m_index = [(1::nat, 10::nat)], m_capacity = 2\<rparr> ([] @ [1])"
    by (rule lru_run.insert_new [OF lru_run.start, where v = 10 and ev = None])
      (simp_all add: lru_Insert_def LruCache_def lru_keys_def Relocate_def)
  have b: "lru_run 2 \<lparr>m_index = [(1::nat, 10::nat), (2, 20)], m_capacity = 2\<rparr> (([] @ [1]) @ [2])"
    by (rule lru_run.insert_new [OF a, where v = 20 and ev = None])
      (simp_all add: lru_Insert_def lru_keys_def Relocate_def)
  have "lru_run 2 lru_demo ((([] @ [1]) @ [2]) @ [1])"
    by (rule lru_run.hit [OF b, where v = 10]) (simp add: lru_Touch_def Relocate_def lru_demo_def)
  then show ?thesis by simp
qed

theorem lru_Insert_evicts_least_recent_witness:
  "\<exists>c'. lru_Insert lru_demo 3 30 = Some (c', Some 2) \<and> snd (lru_Touch c' 3) = Some 30"
  using lru_Insert_evicts_least_recent [OF lru_demo_run, of 3 30]
  by (auto simp: lru_demo_def lru_keys_def lru_Size_def)

end
