(* ===== verification/Algo.thy ===== *)
theory Algo
  imports MH_Prelude
begin

text \<open>
  Recursion collapsing (\<open>src/source/memhawk/src/impl/algo.cpp\<close>): three in-place routines that
  drop immediately repeated blocks of frames from a stack trace. \<open>CollapseRecursionNaive\<close> compares
  the coming frames with the frames already kept; \<open>CollapseRecursionOpt\<close> fills the table \<open>maxDp\<close>
  with the longest block that repeats at each position and then compacts; \<open>CollapseRecursionAvx\<close>
  fills the same table from eight comparisons at a time. Every routine returns the modified array
  and the new size.

  Counters of the source that index arrays are natural numbers here; the 32-bit wrap of the shift
  counter and of \<open>maxIndex\<close>, the truncation of the size to 32 bits and the 8-bit run counter and
  table entries are kept.
\<close>

section \<open>The model\<close>

definition MaxUnwindDepth :: nat where
  "MaxUnwindDepth = 64"

definition MaxCollapseDepth :: nat where
  "MaxCollapseDepth = 8"

subsection \<open>\<open>CollapseRecursionNaive\<close>\<close>

text \<open>The inner comparison loop over \<open>p\<close>.\<close>

function naive_match :: "'a list \<Rightarrow> nat \<Rightarrow> nat \<Rightarrow> nat \<Rightarrow> nat \<Rightarrow> bool option" where
  "naive_match data cur left spanSize p =
     (if p < spanSize then
        do { a \<leftarrow> rd data (cur + p);
             b \<leftarrow> rd data (left + p + 1 - spanSize);
             if a \<noteq> b then Some False else naive_match data cur left spanSize (Suc p) }
      else Some True)"
  by pat_completeness auto
termination
  by (relation "measure (\<lambda>(_, _, _, spanSize, p). spanSize - p)") auto

text \<open>The loop over \<open>spanSize\<close>; the result is \<open>cycleSize\<close>.\<close>

function naive_cycle :: "'a list \<Rightarrow> nat \<Rightarrow> nat \<Rightarrow> nat \<Rightarrow> nat \<Rightarrow> nat \<Rightarrow> nat option" where
  "naive_cycle data end depth left cur spanSize =
     (if spanSize \<le> depth \<and> cur + spanSize \<le> end then
        (if spanSize > left + 1 then Some 0
         else do { matched \<leftarrow> naive_match data cur left spanSize 0;
                   if matched then Some spanSize
                   else naive_cycle data end depth left cur (Suc spanSize) })
      else Some 0)"
  by pat_completeness auto
termination
  by (relation "measure (\<lambda>(_, _, depth, _, _, spanSize). Suc depth - spanSize)") auto

text \<open>The main loop.\<close>

function naive_loop :: "'a list \<Rightarrow> nat \<Rightarrow> nat \<Rightarrow> nat \<Rightarrow> nat \<Rightarrow> ('a list \<times> nat) option" where
  "naive_loop data end depth left cur =
     (if cur < end then
        do { cycleSize \<leftarrow> naive_cycle data end depth left cur 1;
             if cycleSize > 0 then naive_loop data end depth left (cur + cycleSize)
             else do { v \<leftarrow> rd data cur;
                       data' \<leftarrow> wr data (left + 1) v;
                       naive_loop data' end depth (left + 1) (cur + 1) } }
      else Some (data, left + 1))"
  by pat_completeness auto
termination
  by (relation "measure (\<lambda>(_, end, _, _, cur). end - cur)") auto

definition CollapseRecursionNaive :: "'a list \<Rightarrow> nat \<Rightarrow> ('a list \<times> nat) option" where
  "CollapseRecursionNaive data depth = naive_loop data (length data) depth 0 1"

subsection \<open>\<open>CollapseRecursionOpt\<close>\<close>

text \<open>
  The inner loop for one \<open>shift\<close>: \<open>prevValue\<close> is \<open>data[cur - 1]\<close>, and the run counter \<open>dp\<close> is an
  8-bit integer that is compared with the 32-bit \<open>shift\<close>.
\<close>

function opt_dp_loop ::
  "'a list \<Rightarrow> nat \<Rightarrow> nat \<Rightarrow> nat \<Rightarrow> 'a \<Rightarrow> u8 \<Rightarrow> nat \<Rightarrow> u8 list \<Rightarrow> u8 list option" where
  "opt_dp_loop data end shift cur prevValue dp shifted maxDp =
     (if shifted < end then
        do { nextValue \<leftarrow> rd data shifted;
             (dp', maxDp') \<leftarrow>
               (if prevValue \<noteq> nextValue then Some (0, maxDp)
                else (let dp1 = dp + 1 in
                      if shift \<le> unat dp1
                      then do { m \<leftarrow> wr maxDp cur (word_of_nat shift); Some (dp1, m) }
                      else Some (dp1, maxDp)));
             prevValue' \<leftarrow> rd data cur;
             opt_dp_loop data end shift (cur + 1) prevValue' dp' (shifted + 1) maxDp' }
      else Some maxDp)"
  by pat_completeness auto
termination
  by (relation "measure (\<lambda>(_, end, _, _, _, _, shifted, _). end - shifted)") auto

text \<open>
  The loop over \<open>shift\<close>. The counter is a \<open>uint32_t\<close>: it wraps, and the loop does not end when
  \<open>depth\<close> is at least \<open>2 ^ 32 - 1\<close>.
\<close>

partial_function (option) opt_shift_loop ::
  "'a list \<Rightarrow> nat \<Rightarrow> nat \<Rightarrow> u32 \<Rightarrow> u8 list \<Rightarrow> u8 list option" where
  "opt_shift_loop data end depth shift maxDp =
     (if unat shift \<le> depth then
        do { first \<leftarrow> rd data 0;
             m \<leftarrow> opt_dp_loop data end (unat shift) 1 first 0 (unat shift) maxDp;
             opt_shift_loop data end depth (shift + 1) m }
      else Some maxDp)"

text \<open>The compacting loop, which \<open>CollapseRecursionOpt\<close> and \<open>CollapseRecursionAvx\<close> share.\<close>

function compact_loop :: "'a list \<Rightarrow> u8 list \<Rightarrow> nat \<Rightarrow> nat \<Rightarrow> nat \<Rightarrow> ('a list \<times> nat) option" where
  "compact_loop data maxDp end left cur =
     (if cur < end then
        do { m \<leftarrow> rd maxDp cur;
             if m = 0 then
               do { v \<leftarrow> rd data cur;
                    data' \<leftarrow> wr data (left + 1) v;
                    compact_loop data' maxDp end (left + 1) (cur + 1) }
             else compact_loop data maxDp end left (cur + unat m) }
      else Some (data, left + 1))"
  by pat_completeness auto
termination
  by (relation "measure (\<lambda>(_, _, end, _, cur). end - cur)") (auto simp: unat_gt_0 diff_less_mono2)

definition CollapseRecursionOpt :: "'a list \<Rightarrow> nat \<Rightarrow> ('a list \<times> nat) option" where
  "CollapseRecursionOpt data depth =
     (if depth = 0 \<or> length data < 2 then Some (data, length data)
      else let end = unat (word_of_nat (length data) :: u32) in
        do { a \<leftarrow> rd data 0;
             b \<leftarrow> rd data 1;
             maxDp \<leftarrow> wr (replicate MaxUnwindDepth 0) 0 (of_bool (a = b));
             maxDp' \<leftarrow> opt_shift_loop data end depth 1 maxDp;
             compact_loop data maxDp' end 0 1 })"

subsection \<open>\<open>CollapseRecursionAvx\<close>\<close>

text \<open>
  An unaligned load of eight elements, and the comparison mask of two such loads: bit \<open>j\<close> is set
  iff lane \<open>j\<close> is equal in both.
\<close>

definition load8 :: "'a list \<Rightarrow> nat \<Rightarrow> 'a list option" where
  "load8 data i = (if i + 8 \<le> length data then Some (take 8 (drop i data)) else None)"

definition cmpeq_mask :: "'a list \<Rightarrow> 'a list \<Rightarrow> u8" where
  "cmpeq_mask xs ys = horner_sum of_bool 2 (map2 (=) xs ys)"

text \<open>The loop over the bits of one mask.\<close>

function avx_mask_loop :: "nat \<Rightarrow> nat \<Rightarrow> nat \<Rightarrow> u8 \<Rightarrow> u8 \<Rightarrow> u8 list \<Rightarrow> (u8 \<times> u8 list) option" where
  "avx_mask_loop shift i j mask_bits lastDp maxDp =
     (if j < 8 then
        (if mask_bits AND 1 = 0 then avx_mask_loop shift i (j + 1) (drop_bit 1 mask_bits) 0 maxDp
         else (let dp1 = lastDp + 1 in
               if shift \<le> unat dp1 then
                 do { m \<leftarrow> wr maxDp (i + j + 1) (word_of_nat shift);
                      avx_mask_loop shift i (j + 1) (drop_bit 1 mask_bits) dp1 m }
               else avx_mask_loop shift i (j + 1) (drop_bit 1 mask_bits) dp1 maxDp))
      else Some (lastDp, maxDp))"
  by pat_completeness auto
termination
  by (relation "measure (\<lambda>(_, _, j, _). 8 - j)") auto

text \<open>The loop over strides of eight positions; it also returns where the remainder starts.\<close>

function avx_stride_loop ::
  "'a list \<Rightarrow> nat \<Rightarrow> nat \<Rightarrow> nat \<Rightarrow> u8 \<Rightarrow> u8 list \<Rightarrow> (nat \<times> u8 \<times> u8 list) option" where
  "avx_stride_loop data shift maxIndex i lastDp maxDp =
     (if i + 8 \<le> maxIndex then
        do { current \<leftarrow> load8 data i;
             shifted_elements \<leftarrow> load8 data (i + shift);
             (lastDp', maxDp') \<leftarrow>
               avx_mask_loop shift i 0 (cmpeq_mask current shifted_elements) lastDp maxDp;
             avx_stride_loop data shift maxIndex (i + 8) lastDp' maxDp' }
      else Some (i, lastDp, maxDp))"
  by pat_completeness auto
termination
  by (relation "measure (\<lambda>(_, _, maxIndex, i, _). maxIndex - i)") auto

text \<open>The loop over the remaining positions.\<close>

function avx_tail_loop ::
  "'a list \<Rightarrow> nat \<Rightarrow> nat \<Rightarrow> nat \<Rightarrow> u8 \<Rightarrow> u8 list \<Rightarrow> u8 list option" where
  "avx_tail_loop data shift maxIndex i lastDp maxDp =
     (if i < maxIndex then
        do { a \<leftarrow> rd data i;
             b \<leftarrow> rd data (i + shift);
             if a \<noteq> b then avx_tail_loop data shift maxIndex (i + 1) 0 maxDp
             else (let dp1 = lastDp + 1 in
                   if shift \<le> unat dp1 then
                     do { m \<leftarrow> wr maxDp (i + 1) (word_of_nat shift);
                          avx_tail_loop data shift maxIndex (i + 1) dp1 m }
                   else avx_tail_loop data shift maxIndex (i + 1) dp1 maxDp) }
      else Some maxDp)"
  by pat_completeness auto
termination
  by (relation "measure (\<lambda>(_, _, maxIndex, i, _). maxIndex - i)") auto

text \<open>The loop over \<open>shift\<close>; \<open>maxIndex\<close> is the difference truncated to 32 bits.\<close>

partial_function (option) avx_shift_loop ::
  "'a list \<Rightarrow> nat \<Rightarrow> u32 \<Rightarrow> u8 list \<Rightarrow> u8 list option" where
  "avx_shift_loop data depth shift maxDp =
     (if unat shift \<le> depth then
        (let maxIndex = unat (word_of_nat (length data) - shift) in
         if maxIndex = 0 then Some maxDp
         else do { (i, lastDp, m) \<leftarrow> avx_stride_loop data (unat shift) maxIndex 0 0 maxDp;
                   m' \<leftarrow> avx_tail_loop data (unat shift) maxIndex i lastDp m;
                   avx_shift_loop data depth (shift + 1) m' })
      else Some maxDp)"

definition CollapseRecursionAvx :: "'a list \<Rightarrow> nat \<Rightarrow> ('a list \<times> nat) option" where
  "CollapseRecursionAvx data depth =
     (if depth = 0 \<or> length data < 2 then Some (data, length data)
      else do { maxDp \<leftarrow> avx_shift_loop data depth 1 (replicate MaxUnwindDepth 0);
                compact_loop data maxDp (length data) 0 1 })"

text \<open>The dispatch on \<open>COMPILER_SUPPORTS_AVX512\<close>.\<close>

definition CollapseRecursion :: "bool \<Rightarrow> 'a list \<Rightarrow> nat \<Rightarrow> ('a list \<times> nat) option" where
  "CollapseRecursion avx512 data depth =
     (if avx512 then CollapseRecursionAvx data depth else CollapseRecursionOpt data depth)"

declare opt_shift_loop.simps [code] avx_shift_loop.simps [code]

declare naive_match.simps [simp del] naive_cycle.simps [simp del] naive_loop.simps [simp del]
  opt_dp_loop.simps [simp del] compact_loop.simps [simp del]
  avx_mask_loop.simps [simp del] avx_stride_loop.simps [simp del] avx_tail_loop.simps [simp del]

section \<open>Reference definitions\<close>

text \<open>
  \<open>repeats_at data p cur\<close>: the \<open>p\<close> frames from \<open>cur\<close> on repeat the \<open>p\<close> frames just before \<open>cur\<close>.
  \<open>max_rep\<close> is the longest such block of at most \<open>depth\<close> frames (\<open>0\<close> if there is none), and
  \<open>collapse_ref\<close> walks the trace and skips the longest repeated block wherever there is one.
\<close>

definition repeats_at :: "'a list \<Rightarrow> nat \<Rightarrow> nat \<Rightarrow> bool" where
  "repeats_at data p cur \<longleftrightarrow>
     0 < p \<and> p \<le> cur \<and> cur + p \<le> length data \<and>
     (\<forall>k<p. data ! (cur - p + k) = data ! (cur + k))"

fun max_rep :: "'a list \<Rightarrow> nat \<Rightarrow> nat \<Rightarrow> nat" where
  "max_rep data 0 cur = 0"
| "max_rep data (Suc d) cur =
     (if repeats_at data (Suc d) cur then Suc d else max_rep data d cur)"

function collapse_from :: "'a list \<Rightarrow> nat \<Rightarrow> nat \<Rightarrow> 'a list" where
  "collapse_from data depth cur =
     (if cur < length data then
        (if max_rep data depth cur = 0
         then data ! cur # collapse_from data depth (cur + 1)
         else collapse_from data depth (cur + max_rep data depth cur))
      else [])"
  by pat_completeness auto
termination
  by (relation "measure (\<lambda>(data, _, cur). length data - cur)") auto

declare collapse_from.simps [simp del]

definition collapse_ref :: "'a list \<Rightarrow> nat \<Rightarrow> 'a list" where
  "collapse_ref data depth = take 1 data @ collapse_from data depth 1"

text \<open>One deletion of an immediately repeated block of at most \<open>d\<close> frames.\<close>

inductive drop_repeat :: "nat \<Rightarrow> 'a list \<Rightarrow> 'a list \<Rightarrow> bool" for d where
  drop_second: "u \<noteq> [] \<Longrightarrow> length u \<le> d \<Longrightarrow> drop_repeat d (xs @ u @ u @ ys) (xs @ u @ ys)"

section \<open>The table of repeated blocks\<close>

text \<open>The length of the run of equal pairs \<open>data[i] = data[i + s]\<close> that ends just before \<open>i\<close>.\<close>

fun run_len :: "'a list \<Rightarrow> nat \<Rightarrow> nat \<Rightarrow> nat" where
  "run_len data s 0 = 0"
| "run_len data s (Suc i) = (if data ! i = data ! (i + s) then Suc (run_len data s i) else 0)"

lemma run_len_le: "run_len data s i \<le> i"
  by (induction i) auto

lemma le_run_len_iff:
  "m \<le> run_len data s i \<longleftrightarrow> m \<le> i \<and> (\<forall>k<m. data ! (i - m + k) = data ! (i - m + k + s))"
proof (induction i arbitrary: m)
  case 0
  then show ?case by auto
next
  case (Suc i)
  show ?case
  proof (cases m)
    case (Suc m')
    have "(\<forall>k<Suc m'. data ! (i - m' + k) = data ! (i - m' + k + s)) \<longleftrightarrow>
      data ! i = data ! (i + s) \<and> (\<forall>k<m'. data ! (i - m' + k) = data ! (i - m' + k + s))"
      if "m' \<le> i"
      using that by (auto simp: less_Suc_eq)
    then show ?thesis
      using Suc.IH [of m'] by (auto simp: Suc)
  qed simp
qed

lemma repeats_at_run_len:
  assumes "0 < s" "cur + s \<le> length data"
  shows "repeats_at data s cur \<longleftrightarrow> s \<le> run_len data s cur"
  using assms by (auto simp: le_run_len_iff repeats_at_def)

lemma run_len_8bit:
  assumes "i < 256"
  shows "unat (word_of_nat (run_len data s i) :: u8) = run_len data s i"
  using assms run_len_le [of data s i] by (simp add: unat_of_nat)

lemma run_len_step:
  "data ! i = data ! (i + s) \<Longrightarrow>
   (word_of_nat (run_len data s i) :: u8) + 1 = word_of_nat (run_len data s (Suc i))"
  by (simp add: add.commute)

text \<open>One row of work on the table: entries \<open>lo..<hi\<close> for one shift.\<close>

definition fill_row :: "'a list \<Rightarrow> nat \<Rightarrow> nat \<Rightarrow> nat \<Rightarrow> u8 list \<Rightarrow> u8 list" where
  "fill_row data s lo hi m =
     map (\<lambda>c. if lo \<le> c \<and> c < hi \<and> repeats_at data s c then word_of_nat s else m ! c) [0..<length m]"

lemma length_fill_row [simp]: "length (fill_row data s lo hi m) = length m"
  by (simp add: fill_row_def)

lemma fill_row_nth:
  "c < length m \<Longrightarrow>
   fill_row data s lo hi m ! c = (if lo \<le> c \<and> c < hi \<and> repeats_at data s c then word_of_nat s else m ! c)"
  by (simp add: fill_row_def)

lemma fill_row_none:
  assumes "\<And>c. lo \<le> c \<Longrightarrow> c < hi \<Longrightarrow> \<not> repeats_at data s c"
  shows "fill_row data s lo hi m = m"
  by (rule nth_equalityI) (auto simp: fill_row_nth dest: assms)

lemma fill_row_Suc:
  assumes "lo < hi" "lo < length m"
  shows "fill_row data s lo hi m =
    fill_row data s (Suc lo) hi (if repeats_at data s lo then m[lo := word_of_nat s] else m)"
  using assms by (intro nth_equalityI) (auto simp: fill_row_nth nth_list_update le_Suc_eq Suc_le_eq order_le_less)

lemma fill_row_trans:
  "lo \<le> mid \<Longrightarrow> mid \<le> hi \<Longrightarrow>
   fill_row data s mid hi (fill_row data s lo mid m) = fill_row data s lo hi m"
  by (rule nth_equalityI) (auto simp: fill_row_nth)

lemma opt_dp_loop_fill_row:
  assumes "0 < s" "0 < cur" "length data \<le> length m" "length data \<le> 256"
  shows "opt_dp_loop data (length data) s cur (data ! (cur - 1))
           (word_of_nat (run_len data s (cur - 1))) (cur + s - 1) m =
         Some (fill_row data s cur (length data) m)"
  using assms
proof (induction "length data - cur" arbitrary: cur m rule: less_induct)
  case less
  show ?case
  proof (cases "cur + s - 1 < length data")
    case False
    then have "\<And>c. cur \<le> c \<Longrightarrow> \<not> repeats_at data s c"
      by (auto simp: repeats_at_def)
    with False show ?thesis
      by (subst opt_dp_loop.simps) (simp add: fill_row_none)
  next
    case True
    define i where "i = cur - 1"
    have cur: "cur = Suc i" using less.prems by (simp add: i_def)
    have bounds: "cur < length data" "cur < length m" "i + s < length data" "cur < 256"
      using True less.prems cur by auto
    have rep: "repeats_at data s cur \<longleftrightarrow> s \<le> run_len data s cur"
      using repeats_at_run_len [of s cur data] less.prems True by auto
    have IH: "opt_dp_loop data (length data) s (cur + 1) (data ! cur)
        (word_of_nat (run_len data s cur)) (cur + s) m' =
        Some (fill_row data s (cur + 1) (length data) m')" if "length m' = length m" for m'
      using less.hyps [of "cur + 1" m'] less.prems bounds that by simp
    show ?thesis
    proof (cases "data ! i = data ! (i + s)")
      case True
      with bounds cur rep IH show ?thesis
        using run_len_step [OF True] run_len_8bit [of cur data s]
        by (subst opt_dp_loop.simps)
          (simp add: access_simps Let_def fill_row_Suc [of "Suc i"] del: of_nat_Suc)
    next
      case False
      then have "run_len data s cur = 0" by (simp add: cur)
      with False bounds cur rep IH [of m] less.prems show ?thesis
        by (subst opt_dp_loop.simps) (simp add: access_simps fill_row_Suc [of "Suc i"])
    qed
  qed
qed

text \<open>The rows for the shifts \<open>s, ..., depth\<close>.\<close>

definition fill_rows :: "'a list \<Rightarrow> nat \<Rightarrow> nat \<Rightarrow> u8 list \<Rightarrow> u8 list" where
  "fill_rows data s depth m = fold (\<lambda>p. fill_row data p 1 (length data)) [s..<Suc depth] m"

lemma fill_rows_Suc:
  "s \<le> depth \<Longrightarrow>
   fill_rows data s depth m = fill_rows data (Suc s) depth (fill_row data s 1 (length data) m)"
  by (simp add: fill_rows_def upt_conv_Cons del: upt_Suc)

lemma fill_rows_done: "depth < s \<Longrightarrow> fill_rows data s depth m = m"
  by (simp add: fill_rows_def)

lemma length_fill_rows [simp]: "length (fill_rows data s depth m) = length m"
  unfolding fill_rows_def by (rule fold_invariant [where Q = "\<lambda>_. True"]) auto

lemma fill_rows_beyond: "length data \<le> s \<Longrightarrow> fill_rows data s depth m = m"
proof (induction "Suc depth - s" arbitrary: s m)
  case 0
  then show ?case by (simp add: fill_rows_done)
next
  case (Suc n)
  then have "fill_row data s 1 (length data) m = m"
    by (intro fill_row_none) (auto simp: repeats_at_def)
  with Suc show ?case by (simp add: fill_rows_Suc)
qed

lemma fill_rows_max_rep:
  assumes "length data \<le> length m" "length data \<le> 256" "0 < c" "c < length data" "m ! c = 0"
  shows "unat (fill_rows data 1 depth m ! c) = max_rep data depth c"
proof (induction depth)
  case 0
  with assms show ?case by (simp add: fill_rows_def)
next
  case (Suc d)
  have "fill_rows data 1 (Suc d) m = fill_row data (Suc d) 1 (length data) (fill_rows data 1 d m)"
    by (simp add: fill_rows_def)
  moreover have "Suc d < 256" if "repeats_at data (Suc d) c"
    using that assms by (auto simp: repeats_at_def)
  ultimately show ?case
    using assms Suc by (auto simp: fill_row_nth unat_of_nat simp del: of_nat_Suc)
qed

lemma fill_rows_nth_cong:
  assumes "length m = length m'" "c < length m" "m ! c = m' ! c"
  shows "fill_rows data s depth m ! c = fill_rows data s depth m' ! c"
proof -
  have "fold (\<lambda>p. fill_row data p 1 (length data)) ps m ! c =
      fold (\<lambda>p. fill_row data p 1 (length data)) ps m' ! c" for ps
    using assms by (induction ps arbitrary: m m') (simp_all add: fill_row_nth)
  then show ?thesis by (simp add: fill_rows_def)
qed

lemma opt_shift_loop_fill_rows:
  assumes "data \<noteq> []" "length data \<le> length m" "length data \<le> 256"
    and "0 < s" "depth < 2 ^ 32 - 1" "s \<le> depth + 1"
  shows "opt_shift_loop data (length data) depth (word_of_nat s) m = Some (fill_rows data s depth m)"
  using assms
proof (induction "Suc depth - s" arbitrary: s m)
  case 0
  then have "s = depth + 1" by simp
  with 0 show ?case
    by (subst opt_shift_loop.simps) (simp add: unat_of_nat fill_rows_done del: of_nat_Suc)
next
  case (Suc n)
  have us: "unat (word_of_nat s :: u32) = s"
    using Suc.prems by (simp add: unat_of_nat)
  have row: "opt_dp_loop data (length data) s 1 (data ! 0) 0 s m = Some (fill_row data s 1 (length data) m)"
    using opt_dp_loop_fill_row [of s 1 data m] Suc.prems by simp
  have step: "opt_shift_loop data (length data) depth (word_of_nat (Suc s)) (fill_row data s 1 (length data) m)
      = Some (fill_rows data (Suc s) depth (fill_row data s 1 (length data) m))"
    using Suc.hyps(2) Suc.prems by (intro Suc.hyps(1)) auto
  have inc: "(word_of_nat s :: u32) + 1 = word_of_nat (Suc s)" by simp
  have "s \<le> depth" using Suc.hyps(2) by simp
  then show ?case
    using Suc.prems
    by (subst opt_shift_loop.simps)
      (simp add: us inc row step access_simps fill_rows_Suc [of s] del: of_nat_Suc One_nat_def)
qed

section \<open>The AVX table\<close>

lemma cmpeq_mask_bit:
  assumes "load8 data i = Some xs" "load8 data j = Some ys"
  shows "bit (cmpeq_mask xs ys) k \<longleftrightarrow> k < 8 \<and> data ! (i + k) = data ! (j + k)"
  using assms
  by (auto simp: cmpeq_mask_def load8_def bit_horner_sum_bit_word_iff split: if_splits)

lemma avx_mask_loop_fill_row:
  assumes "0 < s" "i + 8 + s \<le> length data" "length data \<le> length m" "length data \<le> 256" "j \<le> 8"
    and "\<And>k. bit msk k \<longleftrightarrow> k < 8 - j \<and> data ! (i + j + k) = data ! (i + j + k + s)"
  shows "avx_mask_loop s i j msk (word_of_nat (run_len data s (i + j))) m =
    Some (word_of_nat (run_len data s (i + 8)), fill_row data s (i + j + 1) (i + 9) m)"
  using assms
proof (induction "8 - j" arbitrary: j msk m)
  case 0
  then show ?case by (subst avx_mask_loop.simps) (simp add: fill_row_none)
next
  case (Suc n)
  then have j: "j < 8" by simp
  have rep: "repeats_at data s (i + j + 1) \<longleftrightarrow> s \<le> run_len data s (i + j + 1)"
    using repeats_at_run_len [of s "i + j + 1" data] Suc.prems j by auto
  have lsb: "msk AND 1 = 0 \<longleftrightarrow> data ! (i + j) \<noteq> data ! (i + j + s)"
    using Suc.prems(6) [of 0] j by (simp add: and_one_eq bit_0 mod_2_eq_odd)
  have bits: "bit (drop_bit 1 msk) k \<longleftrightarrow> k < 8 - (j + 1) \<and>
      data ! (i + (j + 1) + k) = data ! (i + (j + 1) + k + s)" for k
    using Suc.prems(6) [of "Suc k"] j by (auto simp: bit_drop_bit_eq)
  have IH: "avx_mask_loop s i (j + 1) (drop_bit 1 msk) (word_of_nat (run_len data s (i + j + 1))) m' =
      Some (word_of_nat (run_len data s (i + 8)), fill_row data s (i + j + 2) (i + 9) m')"
    if "length m' = length m" for m'
    using Suc.hyps(1) [of "j + 1" m' "drop_bit 1 msk"] Suc.hyps(2) Suc.prems bits that by simp
  have fill: "fill_row data s (i + j + 1) (i + 9) m = fill_row data s (i + j + 2) (i + 9)
      (if repeats_at data s (i + j + 1) then m[i + j + 1 := word_of_nat s] else m)"
    using fill_row_Suc [of "i + j + 1" "i + 9" m data s] Suc.prems j by simp
  show ?case
  proof (cases "data ! (i + j) = data ! (i + j + s)")
    case True
    have "(word_of_nat (run_len data s (i + j)) :: u8) + 1 = word_of_nat (run_len data s (i + j + 1))"
      using run_len_step [OF True] by simp
    moreover have "unat (word_of_nat (run_len data s (i + j + 1)) :: u8) = run_len data s (i + j + 1)"
      using Suc.prems j by (intro run_len_8bit) simp
    ultimately show ?thesis
      using True lsb rep IH fill j Suc.prems
      by (subst avx_mask_loop.simps) (auto simp: access_simps Let_def simp del: of_nat_Suc run_len.simps)
  next
    case False
    then have "run_len data s (i + j + 1) = 0" by simp
    with False lsb rep IH [of m] fill j Suc.prems show ?thesis
      by (subst avx_mask_loop.simps) (simp del: run_len.simps)
  qed
qed

lemma avx_tail_loop_fill_row:
  assumes "0 < s" "s \<le> length data" "length data \<le> length m" "length data \<le> 256"
  shows "avx_tail_loop data s (length data - s) i (word_of_nat (run_len data s i)) m =
    Some (fill_row data s (i + 1) (length data) m)"
  using assms
proof (induction "length data - s - i" arbitrary: i m)
  case 0
  then have "fill_row data s (i + 1) (length data) m = m"
    by (intro fill_row_none) (auto simp: repeats_at_def)
  moreover have "\<not> i < length data - s" using 0 by simp
  ultimately show ?case by (subst avx_tail_loop.simps) simp
next
  case (Suc n)
  have b: "i + s < length data" "i < length data - s" "i + 1 < length data" using Suc.hyps(2) Suc.prems by auto
  have rep: "repeats_at data s (i + 1) \<longleftrightarrow> s \<le> run_len data s (i + 1)"
    using repeats_at_run_len [of s "i + 1" data] Suc.prems b by auto
  have IH: "avx_tail_loop data s (length data - s) (i + 1) (word_of_nat (run_len data s (i + 1))) m' =
      Some (fill_row data s (i + 2) (length data) m')" if "length m' = length m" for m'
    using Suc.hyps(1) [of "i + 1" m'] Suc.hyps(2) Suc.prems that by simp
  have fill: "fill_row data s (i + 1) (length data) m = fill_row data s (i + 2) (length data)
      (if repeats_at data s (i + 1) then m[i + 1 := word_of_nat s] else m)"
    using fill_row_Suc [of "i + 1" "length data" m data s] Suc.prems b by simp
  show ?case
  proof (cases "data ! i = data ! (i + s)")
    case True
    have "(word_of_nat (run_len data s i) :: u8) + 1 = word_of_nat (run_len data s (i + 1))"
      using run_len_step [OF True] by simp
    moreover have "unat (word_of_nat (run_len data s (i + 1)) :: u8) = run_len data s (i + 1)"
      using Suc.prems b by (intro run_len_8bit) simp
    ultimately show ?thesis
      using True rep IH fill b Suc.prems
      by (subst avx_tail_loop.simps) (auto simp: access_simps Let_def simp del: of_nat_Suc run_len.simps)
  next
    case False
    then have "run_len data s (i + 1) = 0" by simp
    with False rep IH [of m] fill b Suc.prems show ?thesis
      by (subst avx_tail_loop.simps) (simp add: access_simps del: run_len.simps)
  qed
qed

lemma avx_stride_loop_fill_row:
  assumes "0 < s" "s \<le> length data" "length data \<le> length m" "length data \<le> 256"
    and "i \<le> length data - s"
  shows "\<exists>i'. i \<le> i' \<and> i' \<le> length data - s \<and>
    avx_stride_loop data s (length data - s) i (word_of_nat (run_len data s i)) m =
    Some (i', word_of_nat (run_len data s i'), fill_row data s (i + 1) (i' + 1) m)"
  using assms
proof (induction "length data - i" arbitrary: i m rule: less_induct)
  case less
  show ?case
  proof (cases "i + 8 \<le> length data - s")
    case False
    with less.prems show ?thesis
      by (intro exI [of _ i]) (subst avx_stride_loop.simps, simp add: fill_row_none)
  next
    case True
    define xs ys where "xs = take 8 (drop i data)" and "ys = take 8 (drop (i + s) data)"
    with True less.prems have load: "load8 data i = Some xs" "load8 data (i + s) = Some ys"
      by (auto simp: load8_def)
    let ?m = "fill_row data s (i + 1) (i + 9) m"
    have lanes: "avx_mask_loop s i 0 (cmpeq_mask xs ys) (word_of_nat (run_len data s i)) m =
        Some (word_of_nat (run_len data s (i + 8)), ?m)"
      using avx_mask_loop_fill_row [of s i data m 0 "cmpeq_mask xs ys"] True less.prems
      by (simp add: cmpeq_mask_bit [OF load] ac_simps)
    have "length data - (i + 8) < length data - i" using True less.prems by simp
    from less.hyps [OF this, of ?m] True less.prems obtain i' where i':
      "i + 8 \<le> i'" "i' \<le> length data - s"
      "avx_stride_loop data s (length data - s) (i + 8) (word_of_nat (run_len data s (i + 8))) ?m =
       Some (i', word_of_nat (run_len data s i'), fill_row data s (i + 9) (i' + 1) ?m)"
      by (auto simp: ac_simps numeral_eq_Suc)
    show ?thesis
      using i' True
      by (intro exI [of _ i'], subst avx_stride_loop.simps)
        (simp add: load lanes fill_row_trans)
  qed
qed

lemma avx_shift_loop_fill_rows:
  assumes "2 \<le> length data" "length data \<le> length m" "length data \<le> 256"
    and "0 < s" "depth < 2 ^ 32 - 1" "s \<le> depth + 1" "s \<le> length data"
  shows "avx_shift_loop data depth (word_of_nat s) m = Some (fill_rows data s depth m)"
  using assms
proof (induction "Suc depth - s" arbitrary: s m)
  case 0
  then have "s = depth + 1" by simp
  with 0 show ?case
    by (subst avx_shift_loop.simps) (simp add: unat_of_nat fill_rows_done del: of_nat_Suc)
next
  case (Suc n)
  have us: "unat (word_of_nat s :: u32) = s" "s \<le> depth"
    using Suc.prems Suc.hyps(2) by (simp_all add: unat_of_nat)
  have mi: "unat (word_of_nat (length data) - word_of_nat s :: u32) = length data - s"
    using Suc.prems by (simp add: of_nat_diff [symmetric] unat_of_nat del: of_nat_diff)
  show ?case
  proof (cases "length data = s")
    case True
    with us mi show ?thesis
      by (subst avx_shift_loop.simps) (simp add: fill_rows_beyond)
  next
    case False
    obtain i where i: "i \<le> length data - s"
      "avx_stride_loop data s (length data - s) 0 0 m =
       Some (i, word_of_nat (run_len data s i), fill_row data s 1 (i + 1) m)"
      using avx_stride_loop_fill_row [of s data m 0] Suc.prems by auto
    have tail: "avx_tail_loop data s (length data - s) i (word_of_nat (run_len data s i))
        (fill_row data s 1 (i + 1) m) = Some (fill_row data s 1 (length data) m)"
      using avx_tail_loop_fill_row [of s data "fill_row data s 1 (i + 1) m" i] Suc.prems i(1)
      by (simp add: fill_row_trans)
    have step: "avx_shift_loop data depth (word_of_nat (Suc s)) (fill_row data s 1 (length data) m)
        = Some (fill_rows data (Suc s) depth (fill_row data s 1 (length data) m))"
      using Suc.hyps(2) Suc.prems False by (intro Suc.hyps(1)) auto
    have inc: "(word_of_nat s :: u32) + 1 = word_of_nat (Suc s)" by simp
    show ?thesis
      using False Suc.prems us(2)
      by (subst avx_shift_loop.simps)
        (simp add: us mi i(2) tail inc step fill_rows_Suc [of s] Let_def del: of_nat_Suc One_nat_def)
  qed
qed

section \<open>Compaction\<close>

lemma compact_loop_cong:
  fixes data :: "'a list"
  assumes "length t1 = length t2" "\<And>c. cur \<le> c \<Longrightarrow> c < length t1 \<Longrightarrow> t1 ! c = t2 ! c"
  shows "compact_loop data t1 end left cur = compact_loop data t2 end left cur"
  using assms(2)
proof (induction "end - cur" arbitrary: data left cur rule: less_induct)
  case less
  have IH: "compact_loop d t1 end l (cur + k) = compact_loop d t2 end l (cur + k)"
    if "0 < k" "cur < end" for d :: "'a list" and l k
    using that less.prems by (intro less.hyps) auto
  have rd_eq: "rd t1 cur = rd t2 cur"
    using assms(1) less.prems [of cur] by (simp add: rd_def)
  have "compact_loop data t1 end left cur = compact_loop data t2 end left cur" if "cur < end"
    using that IH [of 1] IH
    by (subst (1 2) compact_loop.simps) (auto simp: rd_eq unat_gt_0 intro!: Option.bind_cong)
  then show ?case
    by (cases "cur < end") (simp, subst (1 2) compact_loop.simps, simp)
qed

lemma compact_loop_collapse_from:
  assumes "length data = length orig" "drop cur data = drop cur orig" "left < cur"
    and "length orig \<le> length t" "0 < cur" "left < length orig"
    and "\<And>c. 0 < c \<Longrightarrow> c < length orig \<Longrightarrow> unat (t ! c) = max_rep orig depth c"
  shows "\<exists>out. compact_loop data t (length orig) left cur = Some out \<and>
    length (fst out) = length orig \<and> snd out \<le> length orig \<and>
    take (snd out) (fst out) = take (left + 1) data @ collapse_from orig depth cur"
  using assms
proof (induction "length orig - cur" arbitrary: data left cur rule: less_induct)
  case less
  show ?case
  proof (cases "cur < length orig")
    case False
    with less.prems show ?thesis
      by (subst compact_loop.simps, subst collapse_from.simps) auto
  next
    case True
    have t: "rd t cur = Some (t ! cur)" "unat (t ! cur) = max_rep orig depth cur"
      using True less.prems by (auto simp: access_simps)
    have v: "data ! cur = orig ! cur"
      using True less.prems by (metis hd_drop_conv_nth)
    have skip: "drop (cur + k) data = drop (cur + k) orig" for k
      using less.prems(2) by (metis drop_drop add.commute)
    show ?thesis
    proof (cases "t ! cur = 0")
      case True': True
      let ?data = "data[left + 1 := data ! cur]"
      have w: "rd data cur = Some (data ! cur)" "wr data (left + 1) (data ! cur) = Some ?data"
        using True less.prems by (auto simp: access_simps)
      have "drop (cur + 1) ?data = drop (cur + 1) orig"
        using skip [of 1] less.prems by simp
      moreover have lt: "length orig - (cur + 1) < length orig - cur" using True by simp
      ultimately obtain out where out: "compact_loop ?data t (length orig) (left + 1) (cur + 1) = Some out"
        "length (fst out) = length orig" "snd out \<le> length orig"
        "take (snd out) (fst out) = take (left + 2) ?data @ collapse_from orig depth (cur + 1)"
        using less.hyps [OF lt, of ?data "left + 1"] True less.prems by auto
      moreover have "take (left + 2) ?data = take (left + 1) data @ [orig ! cur]"
        using True less.prems v by (simp add: take_Suc_conv_app_nth)
      ultimately show ?thesis
        using True True' t w by (subst compact_loop.simps, subst collapse_from.simps) simp
    next
      case False
      then have pos: "0 < unat (t ! cur)" by (simp add: unat_gt_0)
      with True have lt: "length orig - (cur + unat (t ! cur)) < length orig - cur" by simp
      obtain out where out: "compact_loop data t (length orig) left (cur + unat (t ! cur)) = Some out"
        "length (fst out) = length orig" "snd out \<le> length orig"
        "take (snd out) (fst out) =
          take (left + 1) data @ collapse_from orig depth (cur + unat (t ! cur))"
        using less.hyps [OF lt, of data left] skip True less.prems by auto
      then show ?thesis
        using True False t pos by (subst compact_loop.simps, subst collapse_from.simps) simp
    qed
  qed
qed

text \<open>Both optimised routines return the reference result, for any table the source allocates.\<close>

lemma opt_table:
  assumes "2 \<le> length data" "length data \<le> MaxUnwindDepth" "depth < 2 ^ 32 - 1"
  shows "CollapseRecursionOpt data depth =
    (if depth = 0 then Some (data, length data)
     else compact_loop data
       (fill_rows data 1 depth ((replicate MaxUnwindDepth 0)[0 := of_bool (data ! 0 = data ! 1)]))
       (length data) 0 1)"
proof -
  have l: "unat (word_of_nat (length data) :: u32) = length data" "data \<noteq> []" "1 < length data"
    using assms by (auto simp: unat_of_nat MaxUnwindDepth_def)
  show ?thesis
    using assms opt_shift_loop_fill_rows [of data _ 1 depth]
    by (simp add: CollapseRecursionOpt_def l rd_def wr_def MaxUnwindDepth_def Let_def
        del: One_nat_def)
qed

lemma avx_table:
  assumes "2 \<le> length data" "length data \<le> MaxUnwindDepth" "depth < 2 ^ 32 - 1"
  shows "CollapseRecursionAvx data depth =
    (if depth = 0 then Some (data, length data)
     else compact_loop data (fill_rows data 1 depth (replicate MaxUnwindDepth 0)) (length data) 0 1)"
  using assms avx_shift_loop_fill_rows [of data "replicate MaxUnwindDepth 0" 1 depth]
  by (simp add: CollapseRecursionAvx_def MaxUnwindDepth_def del: One_nat_def)

lemma collapse_from_zero: "collapse_from data 0 cur = drop cur data"
  by (induction "length data - cur" arbitrary: cur)
    (subst collapse_from.simps, simp add: Cons_nth_drop_Suc)+

lemma collapse_ref_zero: "collapse_ref data 0 = data"
  unfolding collapse_ref_def collapse_from_zero by simp

lemma collapse_ref_short: "length data < 2 \<Longrightarrow> collapse_ref data depth = data"
  unfolding collapse_ref_def by (subst collapse_from.simps) auto

lemma avx_eq_opt:
  assumes "length data \<le> MaxUnwindDepth" "depth < 2 ^ 32 - 1"
  shows "CollapseRecursionAvx data depth = CollapseRecursionOpt data depth"
proof (cases "length data < 2")
  case True
  then show ?thesis by (simp add: CollapseRecursionAvx_def CollapseRecursionOpt_def)
next
  case False
  have "fill_rows data 1 depth (replicate MaxUnwindDepth 0) ! c =
      fill_rows data 1 depth ((replicate MaxUnwindDepth 0)[0 := v]) ! c"
    if "1 \<le> c" "c < MaxUnwindDepth" for c v
    using that by (intro fill_rows_nth_cong) simp_all
  with False assms show ?thesis
    by (auto simp: opt_table avx_table intro!: compact_loop_cong)
qed

lemma opt_correct:
  assumes "length data \<le> MaxUnwindDepth" "depth < 2 ^ 32 - 1"
  shows "\<exists>out. CollapseRecursionOpt data depth = Some out \<and> length (fst out) = length data \<and>
    snd out \<le> length data \<and> take (snd out) (fst out) = collapse_ref data depth"
proof (cases "length data < 2 \<or> depth = 0")
  case True
  then show ?thesis
    by (auto simp: CollapseRecursionOpt_def collapse_ref_zero collapse_ref_short)
next
  case False
  let ?m = "(replicate MaxUnwindDepth (0 :: u8))[0 := of_bool (data ! 0 = data ! 1)]"
  have "unat (fill_rows data 1 depth ?m ! c) = max_rep data depth c" if "0 < c" "c < length data" for c
    using that assms by (intro fill_rows_max_rep) (auto simp: MaxUnwindDepth_def)
  then have "\<exists>out. compact_loop data (fill_rows data 1 depth ?m) (length data) 0 1 = Some out \<and>
    length (fst out) = length data \<and> snd out \<le> length data \<and>
    take (snd out) (fst out) = take (0 + 1) data @ collapse_from data depth 1"
    using False assms by (intro compact_loop_collapse_from) (auto simp: MaxUnwindDepth_def)
  with False assms show ?thesis
    by (simp add: opt_table collapse_ref_def)
qed

section \<open>Only repeated blocks are dropped\<close>

lemma drop_repeat_set: "drop_repeat d xs ys \<Longrightarrow> set ys = set xs"
  by (auto elim: drop_repeat.cases)

lemma drop_repeat_length: "drop_repeat d xs ys \<Longrightarrow> length ys < length xs"
  by (auto elim: drop_repeat.cases)

lemma drop_repeat_hd: "drop_repeat d xs ys \<Longrightarrow> hd ys = hd xs"
  by (auto elim!: drop_repeat.cases simp: hd_append)

lemma drop_repeats_facts:
  "(drop_repeat d)\<^sup>*\<^sup>* xs ys \<Longrightarrow> set ys = set xs \<and> length ys \<le> length xs \<and> hd ys = hd xs"
  by (induction rule: rtranclp_induct)
    (auto dest: drop_repeat_set drop_repeat_length drop_repeat_hd)

lemma repeats_at_split:
  assumes "repeats_at data p cur"
  shows "take (cur + p) data = take (cur - p) data @ take p (drop cur data) @ take p (drop cur data)"
    and "take cur data = take (cur - p) data @ take p (drop cur data)"
proof -
  have eq: "take p (drop (cur - p) data) = take p (drop cur data)"
    using assms by (intro nth_equalityI) (auto simp: repeats_at_def)
  show "take cur data = take (cur - p) data @ take p (drop cur data)"
    using assms take_add [of "cur - p" p data] by (simp add: repeats_at_def eq)
  then show "take (cur + p) data = take (cur - p) data @ take p (drop cur data) @ take p (drop cur data)"
    using take_add [of cur p data] by simp
qed

lemma repeats_at_drop_repeat:
  assumes "repeats_at data p cur" "p \<le> d"
  shows "drop_repeat d (take (cur + p) data @ ys) (take cur data @ ys)"
  using assms drop_repeat.intros [of "take p (drop cur data)" d "take (cur - p) data" ys]
  by (simp add: repeats_at_split [OF assms(1)]) (simp add: repeats_at_def)

lemma max_rep_repeats:
  "max_rep data d cur \<noteq> 0 \<Longrightarrow> repeats_at data (max_rep data d cur) cur \<and> max_rep data d cur \<le> d"
  by (induction d) auto

lemma collapse_from_sound:
  "cur \<le> length data \<Longrightarrow> (drop_repeat d)\<^sup>*\<^sup>* data (take cur data @ collapse_from data d cur)"
proof (induction "length data - cur" arbitrary: cur rule: less_induct)
  case less
  show ?case
  proof (cases "cur < length data")
    case False
    with less.prems show ?thesis by (subst collapse_from.simps) simp
  next
    case True
    show ?thesis
    proof (cases "max_rep data d cur = 0")
      case True': True
      have "(drop_repeat d)\<^sup>*\<^sup>* data (take (cur + 1) data @ collapse_from data d (cur + 1))"
        using True by (intro less.hyps) auto
      with True True' show ?thesis
        by (subst collapse_from.simps) (simp add: take_Suc_conv_app_nth)
    next
      case False
      let ?p = "max_rep data d cur"
      have rep: "repeats_at data ?p cur" "?p \<le> d" using max_rep_repeats [OF False] by auto
      have "(drop_repeat d)\<^sup>*\<^sup>* data (take (cur + ?p) data @ collapse_from data d (cur + ?p))"
        using True False rep(1) by (intro less.hyps) (auto simp: repeats_at_def)
      with repeats_at_drop_repeat [OF rep] True False show ?thesis
        by (subst collapse_from.simps) (auto intro: rtranclp.rtrancl_into_rtrancl)
    qed
  qed
qed

lemma collapse_ref_sound: "(drop_repeat d)\<^sup>*\<^sup>* data (collapse_ref data d)"
proof (cases "data = []")
  case True
  then show ?thesis by (simp add: collapse_ref_short)
next
  case False
  then have "1 \<le> length data" by (cases data) auto
  then show ?thesis
    using collapse_from_sound [of 1 data d] by (simp add: collapse_ref_def)
qed

section \<open>The naive routine\<close>

lemma naive_match_spec:
  assumes "cur + span \<le> length data" "span \<le> left + 1" "left < cur" "p \<le> span"
  shows "naive_match data cur left span p =
    Some (\<forall>k. p \<le> k \<and> k < span \<longrightarrow> data ! (cur + k) = data ! (left + 1 - span + k))"
  using assms
proof (induction "span - p" arbitrary: p)
  case 0
  then show ?case by (subst naive_match.simps) auto
next
  case (Suc n)
  have IH: "naive_match data cur left span (Suc p) =
    Some (\<forall>k. Suc p \<le> k \<and> k < span \<longrightarrow> data ! (cur + k) = data ! (left + 1 - span + k))"
    using Suc.hyps(2) Suc.prems by (intro Suc.hyps(1)) auto
  have idx: "Suc (left + p) - span = left + 1 - span + p" using Suc.prems by simp
  have "p < span" "cur + p < length data" "left + 1 - span + p < length data"
    using Suc.prems Suc.hyps(2) by auto
  then show ?case
    by (subst naive_match.simps) (simp add: IH idx access_simps all_from_Suc [of p span])
qed

text \<open>
  What the search for a cycle returns: \<open>c > 0\<close> is a block of at most \<open>depth\<close> coming frames that
  repeats the last \<open>c\<close> kept frames; \<open>0\<close> means that no block of at least \<open>span\<close> frames does.
\<close>

definition kept_repeat :: "'a list \<Rightarrow> nat \<Rightarrow> nat \<Rightarrow> nat \<Rightarrow> nat \<Rightarrow> bool" where
  "kept_repeat data depth left cur c \<longleftrightarrow>
     c \<le> depth \<and> c \<le> left + 1 \<and> cur + c \<le> length data \<and>
     (\<forall>k<c. data ! (cur + k) = data ! (left + 1 - c + k))"

lemma naive_cycle_spec:
  assumes "left < cur" "0 < span"
  shows "\<exists>c. naive_cycle data (length data) depth left cur span = Some c \<and>
    (0 < c \<longrightarrow> kept_repeat data depth left cur c) \<and>
    (c = 0 \<longrightarrow> (\<forall>q\<ge>span. \<not> kept_repeat data depth left cur q))"
  using assms
proof (induction "Suc depth - span" arbitrary: span)
  case 0
  then show ?case by (subst naive_cycle.simps) (auto simp: kept_repeat_def)
next
  case (Suc n)
  then have "span \<le> depth" and n: "n = Suc depth - Suc span" by simp_all
  show ?case
  proof (cases "cur + span \<le> length data \<and> span \<le> left + 1")
    case False
    then have "naive_cycle data (length data) depth left cur span = Some 0"
      by (subst naive_cycle.simps) auto
    with False show ?thesis by (auto simp: kept_repeat_def)
  next
    case True
    then have m: "naive_match data cur left span 0 = Some (kept_repeat data depth left cur span)"
      using naive_match_spec [of cur span data left 0] \<open>span \<le> depth\<close> Suc.prems
      by (simp add: kept_repeat_def)
    show ?thesis
    proof (cases "kept_repeat data depth left cur span")
      case True': True
      with True m \<open>span \<le> depth\<close> have "naive_cycle data (length data) depth left cur span = Some span"
        by (subst naive_cycle.simps) simp
      with True' Suc.prems show ?thesis by auto
    next
      case False
      with True m \<open>span \<le> depth\<close>
      have "naive_cycle data (length data) depth left cur span =
          naive_cycle data (length data) depth left cur (Suc span)"
        by (subst naive_cycle.simps) simp
      with Suc.hyps(1) [OF n Suc.prems(1) zero_less_Suc] False show ?thesis
        by (metis Suc_leI le_neq_implies_less)
    qed
  qed
qed

lemma block_drop_repeat:
  assumes "0 < c" "left < cur" "kept_repeat data d left cur c"
  shows "drop_repeat d (take (left + 1) data @ drop cur data)
    (take (left + 1) data @ drop (cur + c) data)"
proof -
  let ?u = "take c (drop cur data)"
  have eq: "take c (drop (left + 1 - c) data) = ?u"
    using assms by (intro nth_equalityI) (auto simp: kept_repeat_def)
  have "take (left + 1) data = take (left + 1 - c) data @ ?u"
    using assms take_add [of "left + 1 - c" c data] eq by (simp add: kept_repeat_def)
  moreover have "drop cur data = ?u @ drop (cur + c) data"
    by (metis append_take_drop_id drop_drop add.commute)
  ultimately show ?thesis
    using drop_repeat.intros [of ?u d "take (left + 1 - c) data" "drop (cur + c) data"] assms
    by (auto simp: kept_repeat_def simp del: append_take_drop_id)
qed

text \<open>Keeping an element: the kept part grows by it, and what is kept and still ahead stays the same.\<close>

lemma naive_keep:
  assumes "left < cur" "cur < length data"
  shows "take (left + 2) (data[left + 1 := data ! cur]) = take (left + 1) data @ [data ! cur]"
    "take (left + 2) (data[left + 1 := data ! cur]) @ drop (cur + 1) (data[left + 1 := data ! cur]) = take (left + 1) data @ drop cur data"
    "data ! cur \<noteq> data ! left \<Longrightarrow> distinct_adj (take (left + 1) data) \<Longrightarrow> distinct_adj (take (left + 2) (data[left + 1 := data ! cur]))"
proof -
  show tk: "take (left + 2) (data[left + 1 := data ! cur]) = take (left + 1) data @ [data ! cur]"
    using assms by (simp add: take_Suc_conv_app_nth)
  show "take (left + 2) (data[left + 1 := data ! cur]) @ drop (cur + 1) (data[left + 1 := data ! cur]) = take (left + 1) data @ drop cur data"
    unfolding tk using assms by (simp add: Cons_nth_drop_Suc)
  show "data ! cur \<noteq> data ! left \<Longrightarrow> distinct_adj (take (left + 1) data) \<Longrightarrow> distinct_adj (take (left + 2) (data[left + 1 := data ! cur]))"
    unfolding tk using assms by (auto simp: distinct_adj_append_iff take_Suc_conv_app_nth)
qed

lemma naive_loop_sound:
  assumes "left < cur" "left < length data"
  shows "\<exists>out. naive_loop data (length data) depth left cur = Some out \<and>
    length (fst out) = length data \<and> snd out \<le> length data \<and>
    (drop_repeat depth)\<^sup>*\<^sup>* (take (left + 1) data @ drop cur data) (take (snd out) (fst out)) \<and>
    (0 < depth \<and> distinct_adj (take (left + 1) data) \<longrightarrow> distinct_adj (take (snd out) (fst out)))"
  using assms
proof (induction "length data - cur" arbitrary: data left cur rule: less_induct)
  case less
  show ?case
  proof (cases "cur < length data")
    case False
    with less.prems show ?thesis by (subst naive_loop.simps) auto
  next
    case True
    obtain c where c: "naive_cycle data (length data) depth left cur 1 = Some c"
      "0 < c \<longrightarrow> kept_repeat data depth left cur c"
      "c = 0 \<longrightarrow> (\<forall>q\<ge>1. \<not> kept_repeat data depth left cur q)"
      using naive_cycle_spec [OF less.prems(1) zero_less_one] by blast
    show ?thesis
    proof (cases "0 < c")
      case True': True
      with True have lt: "length data - (cur + c) < length data - cur" by simp
      have step: "drop_repeat depth (take (left + 1) data @ drop cur data)
          (take (left + 1) data @ drop (cur + c) data)"
        using block_drop_repeat [OF True' less.prems(1)] c(2) True' by simp
      have "naive_loop data (length data) depth left cur =
          naive_loop data (length data) depth left (cur + c)"
        using True True' c(1) by (subst naive_loop.simps) simp
      with less.hyps [OF lt _ less.prems(2)] less.prems(1) step show ?thesis
        by (metis converse_rtranclp_into_rtranclp trans_less_add1)
    next
      case False
      let ?data = "data[left + 1 := data ! cur]"
      have w: "rd data cur = Some (data ! cur)" "wr data (left + 1) (data ! cur) = Some ?data"
        using True less.prems by (auto simp: access_simps)
      note keep = naive_keep [OF less.prems(1) True]
      have ne: "data ! cur \<noteq> data ! left" if "0 < depth"
        using c(3) False that True by (auto simp: kept_repeat_def dest: spec [of _ 1])
      have lt: "length ?data - (cur + 1) < length data - cur" and "left + 1 < cur + 1"
        and "left + 1 < length ?data"
        using True less.prems by simp_all
      from less.hyps [OF this] obtain out where out:
        "naive_loop ?data (length ?data) depth (left + 1) (cur + 1) = Some out"
        "length (fst out) = length ?data" "snd out \<le> length ?data"
        "(drop_repeat depth)\<^sup>*\<^sup>* (take (left + 1 + 1) ?data @ drop (cur + 1) ?data) (take (snd out) (fst out))"
        "0 < depth \<and> distinct_adj (take (left + 1 + 1) ?data) \<longrightarrow> distinct_adj (take (snd out) (fst out))"
        by blast
      moreover have "naive_loop data (length data) depth left cur = Some out"
        using True False c(1) w out(1) by (subst naive_loop.simps) simp
      ultimately show ?thesis
        using keep(2,3) ne by (intro exI [of _ out]) (simp add: numeral_2_eq_2)
    qed
  qed
qed

section \<open>Depth one: adjacent duplicates\<close>

lemma drop_repeat_1_remdups_adj: "drop_repeat 1 xs ys \<Longrightarrow> remdups_adj ys = remdups_adj xs"
proof (induction rule: drop_repeat.induct)
  case (drop_second u xs ys)
  then obtain a where u: "u = [a]" by (cases u) auto
  have "remdups_adj (zs @ a # a # ys) = remdups_adj (zs @ a # ys)" for zs
    by (induction zs rule: remdups_adj.induct) auto
  then show ?case by (simp add: u)
qed

lemma drop_repeats_1_remdups_adj:
  assumes "(drop_repeat 1)\<^sup>*\<^sup>* xs ys" "distinct_adj ys"
  shows "ys = remdups_adj xs"
proof -
  from assms(1) have "remdups_adj ys = remdups_adj xs"
    by (induction rule: rtranclp_induct) (simp, metis drop_repeat_1_remdups_adj)
  with assms(2) show ?thesis by (simp add: distinct_adj_altdef)
qed

lemma repeats_at_1: "repeats_at data 1 cur \<longleftrightarrow> 0 < cur \<and> cur < length data \<and> data ! (cur - 1) = data ! cur"
  by (auto simp: repeats_at_def)

lemma collapse_from_1_distinct_adj:
  assumes "0 < cur" "cur \<le> length data"
  shows "distinct_adj (data ! (cur - 1) # collapse_from data 1 cur)"
  using assms
proof (induction "length data - cur" arbitrary: cur)
  case 0
  then show ?case by (subst collapse_from.simps) simp
next
  case (Suc n)
  then have "cur < length data" by simp
  have "distinct_adj (data ! cur # collapse_from data 1 (cur + 1))"
    using Suc.hyps(1) [of "cur + 1"] Suc.hyps(2) \<open>cur < length data\<close> by simp
  moreover have "max_rep data 1 cur = of_bool (data ! (cur - 1) = data ! cur)"
    using Suc.prems \<open>cur < length data\<close> repeats_at_1 [of data cur] by simp
  ultimately show ?case
    using Suc.hyps(2) Suc.prems by (subst collapse_from.simps) (auto simp: distinct_adj_Cons)
qed

lemma collapse_ref_1: "collapse_ref data 1 = remdups_adj data"
proof (cases data)
  case (Cons a as)
  then have "distinct_adj (collapse_ref data 1)"
    using collapse_from_1_distinct_adj [of 1 data] by (simp add: collapse_ref_def)
  then show ?thesis
    using drop_repeats_1_remdups_adj collapse_ref_sound by blast
qed (simp add: collapse_ref_short)

lemma naive_correct:
  assumes "data \<noteq> []"
  shows "\<exists>out. CollapseRecursionNaive data depth = Some out \<and> length (fst out) = length data \<and>
    snd out \<le> length data \<and> (drop_repeat depth)\<^sup>*\<^sup>* data (take (snd out) (fst out)) \<and>
    (0 < depth \<longrightarrow> distinct_adj (take (snd out) (fst out)))"
proof -
  have "take (0 + 1) data @ drop 1 data = data" "distinct_adj (take (0 + 1) data)"
    using assms by (cases data; simp)+
  then show ?thesis
    using naive_loop_sound [of 0 1 data depth] assms
    by (simp add: CollapseRecursionNaive_def)
qed

section \<open>Properties\<close>

text \<open>
  C15. The table-driven routine is memory safe, ends, and returns the reference result: for a span
  of at most \<open>MaxUnwindDepth\<close> frames and any depth below \<open>2 ^ 32 - 1\<close>, every array access is in
  bounds and the kept frames are exactly those of \<open>collapse_ref\<close>, which skips at every position the
  longest block of at most \<open>depth\<close> frames that repeats the frames just before it.
\<close>

theorem CollapseRecursionOpt_correct:
  assumes "length data \<le> MaxUnwindDepth" and "depth < 2 ^ 32 - 1"
  shows "\<exists>out n. CollapseRecursionOpt data depth = Some (out, n) \<and>
    length out = length data \<and> n \<le> length data \<and> take n out = collapse_ref data depth"
  using opt_correct [OF assms] by auto

theorem CollapseRecursionOpt_correct_witness:
  "length ''faaabab'' \<le> MaxUnwindDepth \<and> (4 :: nat) < 2 ^ 32 - 1 \<and>
   (\<exists>out n. CollapseRecursionOpt ''faaabab'' 4 = Some (out, n) \<and>
      length out = length ''faaabab'' \<and> n \<le> length ''faaabab'' \<and>
      take n out = collapse_ref ''faaabab'' 4)"
  using CollapseRecursionOpt_correct [of "''faaabab''" 4] by (simp add: MaxUnwindDepth_def)

text \<open>
  C26. The AVX-512 routine and the scalar routine return the same array and the same size, for every
  span of at most \<open>MaxUnwindDepth\<close> frames and every depth below \<open>2 ^ 32 - 1\<close>; so the result of
  \<open>CollapseRecursion\<close> does not depend on the build.
\<close>

theorem CollapseRecursionAvx_eq_Opt:
  assumes "length data \<le> MaxUnwindDepth" and "depth < 2 ^ 32 - 1"
  shows "CollapseRecursionAvx data depth = CollapseRecursionOpt data depth"
  by (rule avx_eq_opt [OF assms])

theorem CollapseRecursionAvx_eq_Opt_witness:
  "CollapseRecursionAvx ''abababababcabc'' 8 = CollapseRecursionOpt ''abababababcabc'' 8"
  by (rule CollapseRecursionAvx_eq_Opt) (simp_all add: MaxUnwindDepth_def)

text \<open>
  C40. Collapsing loses nothing but repetition: the kept frames of \<open>CollapseRecursion\<close> (either build)
  arise from the trace by deleting second copies of immediately repeated blocks of at most \<open>depth\<close>
  frames; in particular the set of frames and the innermost frame are unchanged and the trace does
  not grow.
\<close>

theorem CollapseRecursion_sound:
  assumes "length data \<le> MaxUnwindDepth" and "depth < 2 ^ 32 - 1"
  shows "\<exists>out n. CollapseRecursion avx512 data depth = Some (out, n) \<and>
    (drop_repeat depth)\<^sup>*\<^sup>* data (take n out) \<and> set (take n out) = set data \<and>
    hd (take n out) = hd data \<and> n \<le> length data"
proof -
  have "CollapseRecursion avx512 data depth = CollapseRecursionOpt data depth"
    by (simp add: CollapseRecursion_def avx_eq_opt [OF assms])
  then show ?thesis
    using opt_correct [OF assms] collapse_ref_sound [of depth data]
      drop_repeats_facts [OF collapse_ref_sound [of depth data]] by auto
qed

theorem CollapseRecursion_sound_witness:
  "\<exists>out n. CollapseRecursion True ''mainfoofoofoo'' 8 = Some (out, n) \<and>
    (drop_repeat 8)\<^sup>*\<^sup>* ''mainfoofoofoo'' (take n out) \<and> set (take n out) = set ''mainfoofoofoo'' \<and>
    hd (take n out) = hd ''mainfoofoofoo'' \<and> n \<le> length ''mainfoofoofoo''"
  by (rule CollapseRecursion_sound) (simp_all add: MaxUnwindDepth_def)

text \<open>
  The naive routine is memory safe on every non-empty trace of any length and any depth, deletes
  only repeated blocks of at most \<open>depth\<close> frames, and (for a positive depth) leaves no two equal
  adjacent frames.
\<close>

theorem CollapseRecursionNaive_sound:
  assumes "data \<noteq> []"
  shows "\<exists>out n. CollapseRecursionNaive data depth = Some (out, n) \<and> n \<le> length data \<and>
    (drop_repeat depth)\<^sup>*\<^sup>* data (take n out) \<and> (0 < depth \<longrightarrow> distinct_adj (take n out))"
  using naive_correct [OF assms, of depth] by auto

theorem CollapseRecursionNaive_sound_witness:
  "''aab'' \<noteq> [] \<and> (\<exists>out n. CollapseRecursionNaive ''aab'' 2 = Some (out, n) \<and> n \<le> length ''aab'' \<and>
    (drop_repeat 2)\<^sup>*\<^sup>* ''aab'' (take n out) \<and> distinct_adj (take n out))"
  using CollapseRecursionNaive_sound [of "''aab''" 2] by simp

text \<open>
  With depth one all three routines agree: each keeps the trace without adjacent duplicates.
\<close>

theorem CollapseRecursion_depth_one:
  assumes "data \<noteq> []" and "length data \<le> MaxUnwindDepth"
  shows "\<exists>out1 n1 out2 n2 out3 n3.
    CollapseRecursionNaive data 1 = Some (out1, n1) \<and> take n1 out1 = remdups_adj data \<and>
    CollapseRecursionOpt data 1 = Some (out2, n2) \<and> take n2 out2 = remdups_adj data \<and>
    CollapseRecursionAvx data 1 = Some (out3, n3) \<and> take n3 out3 = remdups_adj data"
proof -
  have "\<exists>out n. CollapseRecursionOpt data 1 = Some (out, n) \<and> take n out = remdups_adj data"
    using opt_correct [OF assms(2), of 1] collapse_ref_1 [of data] by auto
  moreover have "\<exists>out n. CollapseRecursionNaive data 1 = Some (out, n) \<and> take n out = remdups_adj data"
    using naive_correct [OF assms(1), of 1] drop_repeats_1_remdups_adj [of data] by auto
  ultimately show ?thesis
    using avx_eq_opt [OF assms(2), of 1] by auto
qed

theorem CollapseRecursion_depth_one_witness:
  "\<exists>out1 n1 out2 n2 out3 n3.
    CollapseRecursionNaive ''ccdaab'' 1 = Some (out1, n1) \<and> take n1 out1 = remdups_adj ''ccdaab'' \<and>
    CollapseRecursionOpt ''ccdaab'' 1 = Some (out2, n2) \<and> take n2 out2 = remdups_adj ''ccdaab'' \<and>
    CollapseRecursionAvx ''ccdaab'' 1 = Some (out3, n3) \<and> take n3 out3 = remdups_adj ''ccdaab''"
  by (rule CollapseRecursion_depth_one) (simp_all add: MaxUnwindDepth_def)

end
