(* ===== verification/Stacktrace.thy ===== *)
theory Stacktrace
  imports Algo "HOL-Library.List_Lexorder"
begin

text \<open>
  Stack traces (\<open>src/source/memhawk/src/impl/stacktrace.h\<close>, \<open>stacktrace.cpp\<close>) and the recursion
  guard (\<open>recursion_guard.h\<close>). A trace is a fixed array of frames of which a window
  \<open>[m_skip, m_size)\<close> is in use. Sizes are 64-bit words and sums of them wrap.

  The array is not initialised by the constructors: its first contents are the argument \<open>mem\<close>. The
  unwinders (libunwind and Abseil), the lookup of a function's start address and the hash are library
  code and appear as arguments.
\<close>

section \<open>The model\<close>

datatype CompressedStacktrace = CompressedStacktrace (cs_data: "ptr list") (cs_hash: u64)

definition compressed_eq :: "CompressedStacktrace \<Rightarrow> CompressedStacktrace \<Rightarrow> bool" where
  "compressed_eq x other = (if cs_hash x \<noteq> cs_hash other then False else cs_data x = cs_data other)"

definition compressed_less :: "CompressedStacktrace \<Rightarrow> CompressedStacktrace \<Rightarrow> bool" where
  "compressed_less x other =
     (if cs_hash x = cs_hash other then cs_data x < cs_data other else cs_hash x < cs_hash other)"

definition RecalculateHash :: "(ptr list \<Rightarrow> u64) \<Rightarrow> CompressedStacktrace \<Rightarrow> CompressedStacktrace" where
  "RecalculateHash XXH3_64bits x = CompressedStacktrace (cs_data x) (XXH3_64bits (cs_data x))"

record Stacktrace =
  st_size :: u64
  st_skip :: u64
  st_data :: "ptr list"

definition Stacktrace_default :: "ptr list \<Rightarrow> Stacktrace" where
  "Stacktrace_default mem = \<lparr>st_size = 0, st_skip = 0, st_data = mem\<rparr>"

definition Stacktrace_of :: "ptr list \<Rightarrow> ptr list \<Rightarrow> u64 \<Rightarrow> Stacktrace option" where
  "Stacktrace_of mem data sz =
     (let n = min (of_nat MaxUnwindDepth) sz
      in if unat n \<le> length data
         then Some \<lparr>st_size = n, st_skip = 0, st_data = take (unat n) data @ drop (unat n) mem\<rparr>
         else None)"

definition GetTrace :: "Stacktrace \<Rightarrow> ptr list" where
  "GetTrace st = take (unat (st_size st - st_skip st)) (drop (unat (st_skip st)) (st_data st))"

text \<open>Writing through the span that the non-const \<open>GetTrace\<close> returns.\<close>

definition SetTrace :: "Stacktrace \<Rightarrow> ptr list \<Rightarrow> Stacktrace" where
  "SetTrace st xs =
     st\<lparr>st_data := take (unat (st_skip st)) (st_data st) @ xs @ drop (unat (st_skip st) + length xs) (st_data st)\<rparr>"

text \<open>
  An unwinder writes frames to the array and returns their number, given the array and the number of
  entries it may use.
\<close>

type_synonym unwinder = "ptr list \<Rightarrow> nat \<Rightarrow> ptr list \<times> int"

text \<open>The loop that drops null frames at the end.\<close>

function strip_nulls :: "ptr list \<Rightarrow> int \<Rightarrow> int option" where
  "strip_nulls data resultSize =
     (if resultSize > 0
      then do { p \<leftarrow> rd data (nat (resultSize - 1));
                if p = 0 then strip_nulls data (resultSize - 1) else Some resultSize }
      else Some resultSize)"
  by pat_completeness auto
termination
  by (relation "measure (\<lambda>(_, n). nat n)") auto

definition UnwindStacktrace ::
  "unwinder \<Rightarrow> unwinder \<Rightarrow> Stacktrace \<Rightarrow> u64 \<Rightarrow> bool \<Rightarrow> u64 \<Rightarrow> Stacktrace option" where
  "UnwindStacktrace absl_GetStackTrace unw_backtrace st capacity useAbsl skip =
     (let sz = min capacity (of_nat MaxUnwindDepth);
          (data, n) = (if useAbsl then absl_GetStackTrace (st_data st) (unat sz)
                       else unw_backtrace (st_data st) (unat sz));
          st' = st\<lparr>st_data := data\<rparr>
      in do { resultSize \<leftarrow> strip_nulls data n;
              if resultSize < int (unat skip) then Some st'
              else Some (st'\<lparr>st_size := of_int resultSize, st_skip := skip\<rparr>) })"

definition Unwind ::
  "unwinder \<Rightarrow> unwinder \<Rightarrow> ptr list \<Rightarrow> u64 \<Rightarrow> bool \<Rightarrow> u64 \<Rightarrow> Stacktrace option" where
  "Unwind absl_GetStackTrace unw_backtrace mem capacity useAbsl skip =
     UnwindStacktrace absl_GetStackTrace unw_backtrace (Stacktrace_default mem) capacity useAbsl skip"

definition ShrinkBySize :: "Stacktrace \<Rightarrow> u64 \<Rightarrow> Stacktrace" where
  "ShrinkBySize st sz =
     (if st_skip st + sz \<ge> st_size st then st else st\<lparr>st_size := st_skip st + sz\<rparr>)"

definition Skip :: "Stacktrace \<Rightarrow> u64 \<Rightarrow> Stacktrace" where
  "Skip st sz =
     (let st' = st\<lparr>st_skip := st_skip st + sz\<rparr>
      in if st_skip st' > st_size st' then st'\<lparr>st_skip := st_size st'\<rparr> else st')"

function shrink_by_ptr_loop :: "Stacktrace \<Rightarrow> ptr list \<Rightarrow> ptr \<Rightarrow> nat \<Rightarrow> Stacktrace" where
  "shrink_by_ptr_loop st span p i =
     (if i < length span
      then (if span ! i = p then ShrinkBySize st (of_nat i) else shrink_by_ptr_loop st span p (i + 1))
      else st)"
  by pat_completeness auto
termination
  by (relation "measure (\<lambda>(_, span, _, i). length span - i)") auto

definition ShrinkByPtr :: "Stacktrace \<Rightarrow> ptr \<Rightarrow> Stacktrace" where
  "ShrinkByPtr st p = shrink_by_ptr_loop st (GetTrace st) p 2"

definition Stacktrace_CollapseRecursion :: "bool \<Rightarrow> Stacktrace \<Rightarrow> u64 \<Rightarrow> Stacktrace option" where
  "Stacktrace_CollapseRecursion avx512 st depth =
     do { (out, newSize) \<leftarrow> CollapseRecursion avx512 (GetTrace st) (unat depth);
          Some (ShrinkBySize (SetTrace st out) (of_nat newSize)) }"

definition Stacktrace_Compress :: "(ptr list \<Rightarrow> u64) \<Rightarrow> Stacktrace \<Rightarrow> CompressedStacktrace" where
  "Stacktrace_Compress XXH3_64bits st = RecalculateHash XXH3_64bits (CompressedStacktrace (GetTrace st) 0)"

definition CoarseToFunctionsStart :: "(ptr \<Rightarrow> ptr) \<Rightarrow> Stacktrace \<Rightarrow> Stacktrace" where
  "CoarseToFunctionsStart start_ip st = SetTrace st (map start_ip (GetTrace st))"

definition stacktrace_eq :: "Stacktrace \<Rightarrow> Stacktrace \<Rightarrow> bool" where
  "stacktrace_eq st rhs \<longleftrightarrow> GetTrace st = GetTrace rhs"

declare strip_nulls.simps [simp del] shrink_by_ptr_loop.simps [simp del]

subsection \<open>\<open>RecursionGuard\<close> and \<open>RecursiveStacktrace\<close>\<close>

text \<open>
  The thread-local state: the guard's \<open>level\<close> and, in the self-profiling build, the return addresses
  \<open>m_retPtrs\<close> of the open calls.
\<close>

record guard_state =
  level :: u32
  m_retPtrs :: "ptr list"

definition RecursionGuard_enter :: "guard_state \<Rightarrow> guard_state" where
  "RecursionGuard_enter g = g\<lparr>level := level g + 1\<rparr>"

definition RecursionGuard_leave :: "guard_state \<Rightarrow> guard_state" where
  "RecursionGuard_leave g = g\<lparr>level := level g - 1\<rparr>"

definition IsFirst :: "guard_state \<Rightarrow> bool" where
  "IsFirst g \<longleftrightarrow> level g = 1"

text \<open>The lambda \<open>unwindStacktrace\<close> of the self-profiling constructor.\<close>

definition unwind_and_record ::
  "unwinder \<Rightarrow> unwinder \<Rightarrow> Stacktrace \<Rightarrow> u64 \<Rightarrow> bool \<Rightarrow> guard_state \<Rightarrow> (Stacktrace \<times> guard_state) option" where
  "unwind_and_record absl_GetStackTrace unw_backtrace trace capacity useAbsl g =
     do { trace \<leftarrow> UnwindStacktrace absl_GetStackTrace unw_backtrace trace capacity useAbsl 1;
          if length (GetTrace trace) > 1
          then do { rets \<leftarrow> wr (m_retPtrs g) (unat (level g)) (GetTrace trace ! 1);
                    Some (trace, g\<lparr>m_retPtrs := rets\<rparr>) }
          else Some (trace, g) }"

definition RecursiveStacktrace_new ::
  "bool \<Rightarrow> unwinder \<Rightarrow> unwinder \<Rightarrow> ptr list \<Rightarrow> u64 \<Rightarrow> bool \<Rightarrow> guard_state \<Rightarrow> (Stacktrace \<times> guard_state) option" where
  "RecursiveStacktrace_new self_profiling absl_GetStackTrace unw_backtrace mem capacity useAbsl g0 =
     (let g = RecursionGuard_enter g0;
          trace = Stacktrace_default mem
      in if self_profiling then
           do { (trace, g) \<leftarrow> unwind_and_record absl_GetStackTrace unw_backtrace trace capacity useAbsl g;
                if IsFirst g then Some (trace, g)
                else do { p \<leftarrow> rd (m_retPtrs g) (unat (level g - 1));
                          let trace = ShrinkByPtr trace p;
                          if level g > 1 \<and> GetTrace trace \<noteq> []
                          then Some (ShrinkBySize trace (of_nat (length (GetTrace trace) - 1)), g)
                          else Some (trace, g) } }
         else if IsFirst g then
           do { trace \<leftarrow> UnwindStacktrace absl_GetStackTrace unw_backtrace trace capacity useAbsl 1;
                Some (trace, g) }
         else Some (trace, g))"

definition RecursiveStacktrace_delete :: "bool \<Rightarrow> guard_state \<Rightarrow> guard_state option" where
  "RecursiveStacktrace_delete self_profiling g =
     (if self_profiling
      then do { rets \<leftarrow> wr (m_retPtrs g) (unat (level g)) 0;
                Some (RecursionGuard_leave (g\<lparr>m_retPtrs := rets\<rparr>)) }
      else Some (RecursionGuard_leave g))"

section \<open>The window invariant\<close>

definition stacktrace_ok :: "Stacktrace \<Rightarrow> bool" where
  "stacktrace_ok st \<longleftrightarrow>
     st_skip st \<le> st_size st \<and> unat (st_size st) \<le> MaxUnwindDepth \<and> length (st_data st) = MaxUnwindDepth"

lemma stacktrace_okD:
  assumes "stacktrace_ok st"
  shows "unat (st_skip st) \<le> unat (st_size st)" "unat (st_size st) \<le> 64" "length (st_data st) = 64"
    "unat (st_size st - st_skip st) = unat (st_size st) - unat (st_skip st)"
  using assms by (auto simp: stacktrace_ok_def MaxUnwindDepth_def word_le_nat_alt unat_sub)

lemma GetTrace_ok:
  assumes "stacktrace_ok st"
  shows "GetTrace st = drop (unat (st_skip st)) (take (unat (st_size st)) (st_data st))"
  by (simp add: GetTrace_def stacktrace_okD [OF assms] drop_take)

lemma length_GetTrace:
  "stacktrace_ok st \<Longrightarrow> length (GetTrace st) = unat (st_size st) - unat (st_skip st)"
  by (simp add: GetTrace_ok stacktrace_okD)

lemma length_GetTrace_le: "stacktrace_ok st \<Longrightarrow> length (GetTrace st) \<le> 64"
  using stacktrace_okD(2) [of st] by (simp add: length_GetTrace)

lemma Stacktrace_default_ok: "length mem = MaxUnwindDepth \<Longrightarrow> stacktrace_ok (Stacktrace_default mem)"
  by (simp add: stacktrace_ok_def Stacktrace_default_def)

lemma Stacktrace_default_sel [simp]:
  "st_size (Stacktrace_default mem) = 0" "st_skip (Stacktrace_default mem) = 0" "st_data (Stacktrace_default mem) = mem"
  by (simp_all add: Stacktrace_default_def)

lemma GetTrace_default [simp]: "GetTrace (Stacktrace_default mem) = []"
  by (simp add: GetTrace_def Stacktrace_default_def)

lemma Stacktrace_of_ok:
  assumes "length mem = MaxUnwindDepth" "unat n \<le> length data"
  shows "\<exists>st. Stacktrace_of mem data n = Some st \<and> stacktrace_ok st \<and>
    GetTrace st = take (min MaxUnwindDepth (unat n)) data"
proof -
  have m: "unat (min (of_nat MaxUnwindDepth) n) = min MaxUnwindDepth (unat n)"
    by (simp add: MaxUnwindDepth_def min_def word_le_nat_alt)
  then show ?thesis
    using assms by (simp add: Stacktrace_of_def Let_def stacktrace_ok_def GetTrace_def)
qed

lemma unat_skip_plus:
  assumes "stacktrace_ok st" "unat n < 2 ^ 63"
  shows "unat (st_skip st + n) = unat (st_skip st) + unat n"
  using stacktrace_okD(1,2) [OF assms(1)] assms(2) by (simp add: unat_plus_if_size word_size)

lemma ShrinkBySize_ok:
  assumes "stacktrace_ok st" "unat n < 2 ^ 63"
  shows "stacktrace_ok (ShrinkBySize st n)" "GetTrace (ShrinkBySize st n) = take (unat n) (GetTrace st)"
proof -
  note s = stacktrace_okD [OF assms(1)]
  note u = unat_skip_plus [OF assms]
  show ok: "stacktrace_ok (ShrinkBySize st n)"
    using assms(1) s u
    by (auto simp: ShrinkBySize_def stacktrace_ok_def word_le_nat_alt MaxUnwindDepth_def)
  show "GetTrace (ShrinkBySize st n) = take (unat n) (GetTrace st)"
  proof (cases "unat (st_size st) \<le> unat (st_skip st) + unat n")
    case True
    then show ?thesis
      using s u length_GetTrace [OF assms(1)] by (simp add: ShrinkBySize_def word_le_nat_alt)
  next
    case False
    then show ?thesis
      using s u by (simp add: GetTrace_ok [OF ok] GetTrace_ok [OF assms(1)])
        (simp add: ShrinkBySize_def word_le_nat_alt drop_take min_def)
  qed
qed

lemma Skip_ok:
  assumes "stacktrace_ok st" "unat n < 2 ^ 63"
  shows "stacktrace_ok (Skip st n)" "GetTrace (Skip st n) = drop (unat n) (GetTrace st)"
proof -
  note s = stacktrace_okD [OF assms(1)]
  note u = unat_skip_plus [OF assms]
  show ok: "stacktrace_ok (Skip st n)"
    using assms(1) s u
    by (auto simp: Skip_def Let_def stacktrace_ok_def word_le_nat_alt word_less_nat_alt MaxUnwindDepth_def)
  show "GetTrace (Skip st n) = drop (unat n) (GetTrace st)"
    using s u by (simp add: GetTrace_ok [OF ok] GetTrace_ok [OF assms(1)])
      (auto simp: Skip_def Let_def word_less_nat_alt add.commute)
qed

lemma SetTrace_ok:
  assumes "stacktrace_ok st" "length xs = length (GetTrace st)"
  shows "stacktrace_ok (SetTrace st xs)" "GetTrace (SetTrace st xs) = xs"
proof -
  note s = stacktrace_okD [OF assms(1)]
  have l: "length xs = unat (st_size st) - unat (st_skip st)"
    using assms length_GetTrace by simp
  show "stacktrace_ok (SetTrace st xs)"
    using assms(1) s l by (auto simp: SetTrace_def stacktrace_ok_def MaxUnwindDepth_def)
  show "GetTrace (SetTrace st xs) = xs"
    using s l by (simp add: GetTrace_def SetTrace_def)
qed

lemma unat_of_nat_u64: "n < 2 ^ 64 \<Longrightarrow> unat (of_nat n :: u64) = n"
  by (simp add: unat_of_nat take_bit_nat_eq_self)

lemma ShrinkByPtr_loop_spec:
  assumes "stacktrace_ok st" "span = GetTrace st" "i \<le> length span"
  shows "stacktrace_ok (shrink_by_ptr_loop st span p i) \<and>
    GetTrace (shrink_by_ptr_loop st span p i) = take i span @ takeWhile (\<lambda>x. x \<noteq> p) (drop i span)"
  using assms
proof (induction st span p i rule: shrink_by_ptr_loop.induct)
  case (1 st span p i)
  show ?case
  proof (cases "i < length span")
    case True
    have "unat (of_nat i :: u64) = i"
      using True 1(3) length_GetTrace_le [OF 1(2)] 1(4) by (intro unat_of_nat_u64) simp
    moreover have "drop i span = span ! i # drop (i + 1) span"
      using True by (simp add: Cons_nth_drop_Suc)
    moreover have "take (i + 1) span = take i span @ [span ! i]"
      using True by (simp add: take_Suc_conv_app_nth)
    ultimately show ?thesis
      using True 1 ShrinkBySize_ok [OF 1(2), of "of_nat i"] length_GetTrace_le [OF 1(2)]
      by (subst (1 2) shrink_by_ptr_loop.simps) (auto simp: min_def)
  next
    case False
    then show ?thesis using 1 by (subst (1 2) shrink_by_ptr_loop.simps) simp
  qed
qed

text \<open>\<open>ShrinkByPtr\<close> never looks at the first two frames, and keeps a trace of fewer frames.\<close>

lemma ShrinkByPtr_ok:
  assumes "stacktrace_ok st"
  shows "stacktrace_ok (ShrinkByPtr st p)"
    "GetTrace (ShrinkByPtr st p) = take 2 (GetTrace st) @ takeWhile (\<lambda>x. x \<noteq> p) (drop 2 (GetTrace st))"
proof -
  have "stacktrace_ok (ShrinkByPtr st p) \<and>
    GetTrace (ShrinkByPtr st p) = take 2 (GetTrace st) @ takeWhile (\<lambda>x. x \<noteq> p) (drop 2 (GetTrace st))"
  proof (cases "2 \<le> length (GetTrace st)")
    case True
    then show ?thesis using ShrinkByPtr_loop_spec [OF assms refl] by (simp add: ShrinkByPtr_def)
  next
    case False
    then show ?thesis using assms by (simp add: ShrinkByPtr_def shrink_by_ptr_loop.simps)
  qed
  then show "stacktrace_ok (ShrinkByPtr st p)"
    "GetTrace (ShrinkByPtr st p) = take 2 (GetTrace st) @ takeWhile (\<lambda>x. x \<noteq> p) (drop 2 (GetTrace st))"
    by simp_all
qed

lemma CollapseRecursion_correct:
  assumes "length data \<le> MaxUnwindDepth" "depth < 2 ^ 32 - 1"
  shows "\<exists>out n. CollapseRecursion avx512 data depth = Some (out, n) \<and> length out = length data \<and>
    n \<le> length data \<and> take n out = collapse_ref data depth"
  using opt_correct [OF assms] avx_eq_opt [OF assms] by (auto simp: CollapseRecursion_def)

lemma Stacktrace_CollapseRecursion_ok:
  assumes "stacktrace_ok st" "unat depth < 2 ^ 32 - 1"
  shows "\<exists>st'. Stacktrace_CollapseRecursion avx512 st depth = Some st' \<and> stacktrace_ok st' \<and>
    GetTrace st' = collapse_ref (GetTrace st) (unat depth)"
proof -
  have l: "length (GetTrace st) \<le> MaxUnwindDepth"
    using length_GetTrace_le [OF assms(1)] by (simp add: MaxUnwindDepth_def)
  then obtain out n where o: "CollapseRecursion avx512 (GetTrace st) (unat depth) = Some (out, n)"
    "length out = length (GetTrace st)" "n \<le> length (GetTrace st)" "take n out = collapse_ref (GetTrace st) (unat depth)"
    using CollapseRecursion_correct [OF _ assms(2)] by blast
  then have "unat (of_nat n :: u64) = n" using l by (intro unat_of_nat_u64) (simp add: MaxUnwindDepth_def)
  then show ?thesis
    using o l ShrinkBySize_ok [OF SetTrace_ok(1) [OF assms(1) o(2)], of "of_nat n"] SetTrace_ok [OF assms(1) o(2)]
    by (simp add: Stacktrace_CollapseRecursion_def MaxUnwindDepth_def)
qed

section \<open>Unwinding\<close>

text \<open>What both unwinders document: they fill at most the given number of entries of the array.\<close>

definition unwinder_ok :: "unwinder \<Rightarrow> bool" where
  "unwinder_ok u \<longleftrightarrow> (\<forall>data n. length (fst (u data n)) = length data \<and> snd (u data n) \<le> int n)"

definition strip_trailing :: "ptr list \<Rightarrow> ptr list" where
  "strip_trailing xs = rev (dropWhile (\<lambda>p. p = 0) (rev xs))"

lemma strip_trailing_snoc:
  "strip_trailing (xs @ [x]) = (if x = 0 then strip_trailing xs else xs @ [x])"
  by (simp add: strip_trailing_def)

lemma strip_nulls_spec:
  assumes "n \<le> int (length data)" "0 \<le> n"
  shows "\<exists>k. strip_nulls data n = Some (int k) \<and> k \<le> nat n \<and> take k data = strip_trailing (take (nat n) data)"
  using assms
proof (induction data n rule: strip_nulls.induct)
  case (1 data n)
  show ?case
  proof (cases "n > 0")
    case True
    then have i: "nat (n - 1) < length data" "nat n = Suc (nat (n - 1))" using 1 by auto
    then have t: "take (nat n) data = take (nat (n - 1)) data @ [data ! nat (n - 1)]"
      by (simp add: take_Suc_conv_app_nth)
    show ?thesis
    proof (cases "data ! nat (n - 1) = 0")
      case True
      then have "rd data (nat (n - 1)) = Some 0" using i(1) by (simp add: rd_in)
      with True \<open>n > 0\<close> 1 show ?thesis
        by (subst strip_nulls.simps) (fastforce simp: t strip_trailing_snoc)
    next
      case False
      with \<open>n > 0\<close> show ?thesis
        by (subst strip_nulls.simps) (auto simp: t strip_trailing_snoc rd_in i(1) intro!: exI [of _ "nat n"])
    qed
  next
    case False
    then show ?thesis using 1 by (subst strip_nulls.simps) (auto simp: strip_trailing_def)
  qed
qed

lemma strip_nulls_nonpos: "n \<le> 0 \<Longrightarrow> strip_nulls data n = Some n"
  by (simp add: strip_nulls.simps)

lemma unat_capacity: "unat (min capacity (of_nat MaxUnwindDepth) :: u64) \<le> 64"
  by (simp add: MaxUnwindDepth_def min_def word_le_nat_alt)

definition chosen_unwinder :: "unwinder \<Rightarrow> unwinder \<Rightarrow> bool \<Rightarrow> unwinder" where
  "chosen_unwinder a u useAbsl = (if useAbsl then a else u)"

lemma UnwindStacktrace_spec:
  assumes "stacktrace_ok st" "unwinder_ok a" "unwinder_ok u"
    and run: "chosen_unwinder a u useAbsl (st_data st) (unat (min capacity (of_nat MaxUnwindDepth))) = (data, n)"
  shows "\<exists>st'. UnwindStacktrace a u st capacity useAbsl skip = Some st' \<and> st_data st' = data \<and>
    length data = MaxUnwindDepth \<and>
    (let frames = strip_trailing (take (nat n) data)
     in if n < 0 \<or> length frames < unat skip then st_size st' = st_size st \<and> st_skip st' = st_skip st
        else stacktrace_ok st' \<and> GetTrace st' = drop (unat skip) frames)"
proof -
  have ok: "unwinder_ok (chosen_unwinder a u useAbsl)" using assms(2,3) by (simp add: chosen_unwinder_def)
  have dn: "length data = 64" "n \<le> 64"
    using ok run stacktrace_okD(3) [OF assms(1)] unat_capacity [of capacity]
    unfolding unwinder_ok_def by (metis fst_conv, metis snd_conv of_nat_le_iff of_nat_numeral order_trans)
  have U: "UnwindStacktrace a u st capacity useAbsl skip =
      do { r \<leftarrow> strip_nulls data n;
           if r < int (unat skip) then Some (st\<lparr>st_data := data\<rparr>)
           else Some (st\<lparr>st_data := data, st_size := of_int r, st_skip := skip\<rparr>) }"
    using run by (cases useAbsl) (simp_all add: UnwindStacktrace_def chosen_unwinder_def Let_def)
  show ?thesis
  proof (cases "0 \<le> n")
    case False
    then have "n < int (unat skip)" using of_nat_0_le_iff [of "unat skip"] by linarith
    with False show ?thesis using dn by (simp add: U strip_nulls_nonpos MaxUnwindDepth_def del: of_nat_unat)
  next
    case True
    then obtain k where k: "strip_nulls data n = Some (int k)" "k \<le> nat n"
      "take k data = strip_trailing (take (nat n) data)"
      using strip_nulls_spec [of n data] dn by auto
    have k64: "k \<le> 64" "length (take k data) = k" using k(2) dn by auto
    let ?st = "st\<lparr>st_data := data, st_size := of_int (int k), st_skip := skip\<rparr>"
    have "unat (of_nat k :: u64) = k" using k64 by (intro unat_of_nat_u64) simp
    then have "unat skip \<le> k \<Longrightarrow> stacktrace_ok ?st"
      using k64 dn by (simp add: stacktrace_ok_def word_le_nat_alt MaxUnwindDepth_def)
    moreover have "unat skip \<le> k \<Longrightarrow> GetTrace ?st = drop (unat skip) (take k data)"
      using calculation \<open>unat (of_nat k :: u64) = k\<close> by (simp add: GetTrace_ok)
    ultimately show ?thesis
      unfolding Let_def k(3) [symmetric] U k(1) using True dn k64
      by (simp add: MaxUnwindDepth_def not_less not_le of_nat_less_iff del: of_nat_unat)
  qed
qed

lemma Unwind_default:
  assumes "length mem = MaxUnwindDepth" "unwinder_ok a" "unwinder_ok u"
    and "chosen_unwinder a u useAbsl mem (unat (min capacity (of_nat MaxUnwindDepth))) = (data, n)"
  shows "\<exists>st. UnwindStacktrace a u (Stacktrace_default mem) capacity useAbsl skip = Some st \<and> stacktrace_ok st \<and>
    GetTrace st = (if n < 0 then [] else drop (unat skip) (strip_trailing (take (nat n) data)))"
proof -
  have "\<exists>st. UnwindStacktrace a u (Stacktrace_default mem) capacity useAbsl skip = Some st \<and> st_data st = data \<and>
    length data = MaxUnwindDepth \<and>
    (let frames = strip_trailing (take (nat n) data)
     in if n < 0 \<or> length frames < unat skip then st_size st = 0 \<and> st_skip st = 0
        else stacktrace_ok st \<and> GetTrace st = drop (unat skip) frames)"
    using UnwindStacktrace_spec [OF Stacktrace_default_ok [OF assms(1)] assms(2,3), of useAbsl capacity data n skip]
    unfolding Stacktrace_default_sel using assms(4) by blast
  then obtain st where st: "UnwindStacktrace a u (Stacktrace_default mem) capacity useAbsl skip = Some st"
    "st_data st = data" "length data = MaxUnwindDepth"
    "if n < 0 \<or> length (strip_trailing (take (nat n) data)) < unat skip then st_size st = 0 \<and> st_skip st = 0
     else stacktrace_ok st \<and> GetTrace st = drop (unat skip) (strip_trailing (take (nat n) data))"
    unfolding Let_def by blast
  then show ?thesis
    by (auto simp: stacktrace_ok_def GetTrace_def split: if_splits)
qed

section \<open>Order of compressed traces\<close>

text \<open>
  \<open>operator<\<close> and \<open>operator==\<close> make compressed traces a linear order, ordered by hash first.
\<close>

instantiation CompressedStacktrace :: linorder
begin

definition less_CompressedStacktrace :: "CompressedStacktrace \<Rightarrow> CompressedStacktrace \<Rightarrow> bool" where
  "x < y \<longleftrightarrow> compressed_less x y"

definition less_eq_CompressedStacktrace :: "CompressedStacktrace \<Rightarrow> CompressedStacktrace \<Rightarrow> bool" where
  "x \<le> y \<longleftrightarrow> compressed_less x y \<or> compressed_eq x y"

instance
proof
  fix x y z :: CompressedStacktrace
  show "x < y \<longleftrightarrow> x \<le> y \<and> \<not> y \<le> x"
    by (auto simp: less_CompressedStacktrace_def less_eq_CompressedStacktrace_def compressed_less_def compressed_eq_def)
  show "x \<le> x"
    by (simp add: less_eq_CompressedStacktrace_def compressed_eq_def)
  show "x \<le> y \<Longrightarrow> y \<le> z \<Longrightarrow> x \<le> z"
    by (auto simp: less_eq_CompressedStacktrace_def compressed_less_def compressed_eq_def split: if_splits)
  show "x \<le> y \<Longrightarrow> y \<le> x \<Longrightarrow> x = y"
    by (auto simp: less_eq_CompressedStacktrace_def compressed_less_def compressed_eq_def
        intro: CompressedStacktrace.expand split: if_splits)
  show "x \<le> y \<or> y \<le> x"
    by (auto simp: less_eq_CompressedStacktrace_def compressed_less_def compressed_eq_def)
qed

end

lemma compressed_eq_iff [simp]: "compressed_eq x y \<longleftrightarrow> x = y"
  by (auto simp: compressed_eq_def intro: CompressedStacktrace.expand)

text \<open>The compressed traces that \<open>Compress\<close> makes carry the frames, whatever the hash is.\<close>

lemma Stacktrace_Compress_inject:
  "Stacktrace_Compress h x = Stacktrace_Compress h y \<longleftrightarrow> GetTrace x = GetTrace y"
  by (auto simp: Stacktrace_Compress_def RecalculateHash_def)

lemma cs_data_Compress [simp]: "cs_data (Stacktrace_Compress h st) = GetTrace st"
  by (simp add: Stacktrace_Compress_def RecalculateHash_def)

section \<open>Nested traces\<close>

lemma unat_level_Suc: "unat (level g) < 7 \<Longrightarrow> unat (level g + 1) = Suc (unat (level g))"
  by (simp add: unat_plus_if_size word_size)

lemma unwind_and_record_safe:
  assumes "length mem = MaxUnwindDepth" "unwinder_ok a" "unwinder_ok u"
    and "length (m_retPtrs g) = 8" "unat (level g) < 8"
  shows "\<exists>st rets. unwind_and_record a u (Stacktrace_default mem) capacity useAbsl g = Some (st, g\<lparr>m_retPtrs := rets\<rparr>) \<and>
    stacktrace_ok st \<and> length rets = 8 \<and> (\<forall>i. i \<noteq> unat (level g) \<longrightarrow> rets ! i = m_retPtrs g ! i)"
proof -
  obtain data n where "chosen_unwinder a u useAbsl mem (unat (min capacity (of_nat MaxUnwindDepth))) = (data, n)"
    by fastforce
  then obtain st where "UnwindStacktrace a u (Stacktrace_default mem) capacity useAbsl 1 = Some st" "stacktrace_ok st"
    using Unwind_default [OF assms(1-3)] by blast
  then show ?thesis
    using assms(4,5) by (auto simp: unwind_and_record_def wr_def intro: exI [of _ "m_retPtrs g"])
qed

lemma RecursiveStacktrace_new_level:
  assumes "RecursiveStacktrace_new sp a u mem capacity useAbsl g = Some (st, g')"
  shows "level g' = level g + 1"
proof -
  have rec: "level g2 = level g1" if "unwind_and_record a u tr capacity useAbsl g1 = Some (t, g2)" for tr t g1 g2
    using that by (auto simp: unwind_and_record_def Let_def bind_eq_Some_conv split: if_splits)
  show ?thesis
    using assms
    by (auto simp: RecursiveStacktrace_new_def RecursionGuard_enter_def Let_def bind_eq_Some_conv
        dest!: rec split: if_splits)
qed

section \<open>Properties\<close>

text \<open>
  C39. Unwinding. For unwinders that stay inside the array they are given, a trace that is unwound into
  a fresh object is well formed and consists of the frames the unwinder returned, without the null
  frames at the end and without the first \<open>skip\<close> frames; it is empty when the unwinder reports an
  error or returns fewer than \<open>skip\<close> frames. The stored trace never exceeds the array, whatever
  capacity is asked for.
\<close>

theorem Unwind_trace:
  assumes "length mem = MaxUnwindDepth" "unwinder_ok absl_GetStackTrace" "unwinder_ok unw_backtrace"
    and "(if useAbsl then absl_GetStackTrace else unw_backtrace) mem (unat (min capacity 64)) = (data, n)"
  shows "\<exists>st. Unwind absl_GetStackTrace unw_backtrace mem capacity useAbsl skip = Some st \<and> stacktrace_ok st \<and>
    GetTrace st = (if n < 0 then [] else drop (unat skip) (strip_trailing (take (nat n) data)))"
  using Unwind_default [OF assms(1-3), of useAbsl capacity data n skip] assms(4)
  by (simp add: Unwind_def chosen_unwinder_def MaxUnwindDepth_def)

definition demo_unwinder :: unwinder where
  "demo_unwinder data n = (if n < 4 \<or> length data < 4 then (data, - 1) else ([11, 12, 13, 0] @ drop 4 data, 4))"

lemma demo_unwinder_ok: "unwinder_ok demo_unwinder"
  by (auto simp: unwinder_ok_def demo_unwinder_def)

theorem Unwind_trace_witness:
  "\<exists>st. Unwind demo_unwinder demo_unwinder (replicate 64 7) 64 False 1 = Some st \<and> stacktrace_ok st \<and>
    GetTrace st = [12, 13]"
proof -
  have "demo_unwinder (replicate 64 7) 64 = ([11, 12, 13, 0] @ drop 4 (replicate 64 7), 4)"
    by (simp add: demo_unwinder_def)
  then show ?thesis
    using Unwind_trace [of "replicate 64 7" demo_unwinder demo_unwinder False 64
        "[11, 12, 13, 0] @ drop 4 (replicate 64 7)" 4 1] demo_unwinder_ok
    by (simp add: MaxUnwindDepth_def strip_trailing_def)
qed

text \<open>
  The window operations of a trace keep it well formed and have the list meaning their names say:
  \<open>ShrinkBySize\<close> keeps a prefix, \<open>Skip\<close> drops a prefix, \<open>ShrinkByPtr\<close> keeps the two first frames and
  the following ones up to the given pointer, \<open>CoarseToFunctionsStart\<close> maps every frame.
\<close>

theorem window_operations:
  assumes "stacktrace_ok st" "unat n < 2 ^ 63"
  shows "stacktrace_ok (ShrinkBySize st n) \<and> GetTrace (ShrinkBySize st n) = take (unat n) (GetTrace st) \<and>
    stacktrace_ok (Skip st n) \<and> GetTrace (Skip st n) = drop (unat n) (GetTrace st) \<and>
    stacktrace_ok (ShrinkByPtr st p) \<and>
    GetTrace (ShrinkByPtr st p) = take 2 (GetTrace st) @ takeWhile (\<lambda>x. x \<noteq> p) (drop 2 (GetTrace st)) \<and>
    stacktrace_ok (CoarseToFunctionsStart f st) \<and> GetTrace (CoarseToFunctionsStart f st) = map f (GetTrace st)"
  using ShrinkBySize_ok [OF assms] Skip_ok [OF assms] ShrinkByPtr_ok [OF assms(1)]
    SetTrace_ok [OF assms(1), of "map f (GetTrace st)"]
  by (simp add: CoarseToFunctionsStart_def)

definition demo_trace :: Stacktrace where
  "demo_trace = \<lparr>st_size = 6, st_skip = 1, st_data = [9, 5, 4, 3, 2, 1] @ replicate 58 0\<rparr>"

lemma demo_trace_facts [simp]: "stacktrace_ok demo_trace" "GetTrace demo_trace = [5, 4, 3, 2, 1]"
  by (simp_all add: demo_trace_def stacktrace_ok_def MaxUnwindDepth_def GetTrace_def)

theorem window_operations_witness:
  "GetTrace (ShrinkBySize demo_trace 2) = [5, 4] \<and> GetTrace (Skip demo_trace 2) = [3, 2, 1] \<and>
   GetTrace (ShrinkByPtr demo_trace 2) = [5, 4, 3]"
  using window_operations [of demo_trace 2 2 id] by simp

text \<open>
  Collapsing a trace in place: for a well formed trace and a depth below \<open>2 ^ 32 - 1\<close>,
  \<open>Stacktrace::CollapseRecursion\<close> stays inside the array, returns a well formed trace, and its frames
  are the reference collapse of the old ones, in both builds.
\<close>

theorem CollapseRecursion_trace:
  assumes "stacktrace_ok st" "unat depth < 2 ^ 32 - 1"
  shows "\<exists>st'. Stacktrace_CollapseRecursion avx512 st depth = Some st' \<and> stacktrace_ok st' \<and>
    GetTrace st' = collapse_ref (GetTrace st) (unat depth)"
  by (rule Stacktrace_CollapseRecursion_ok [OF assms])

theorem CollapseRecursion_trace_witness:
  "\<exists>st'. Stacktrace_CollapseRecursion True demo_trace 4 = Some st' \<and> stacktrace_ok st' \<and>
    GetTrace st' = collapse_ref [5, 4, 3, 2, 1] 4"
  using CollapseRecursion_trace [of demo_trace 4 True] by simp

end
