(* ===== verification/Tracker_Interface.thy ===== *)
theory Tracker_Interface
  imports Stacktrace
begin

text \<open>
  The interface \<open>IStacktraceTracker\<close> (\<open>src/source/memhawk/src/impl/i_stacktrace_tracker.h\<close>): a store of
  stack traces that gives every trace a 32-bit identifier. A client sees \<open>ins\<close>
  (\<open>InsertStacktrace\<close>) and \<open>recall\<close>, the frames of the trace that \<open>GetStacktraceFromId\<close> returns. A
  store may normalise traces (\<open>canon\<close>), answer a full storage with one reserved identifier
  (\<open>unknown\<close>), and rely on \<open>room\<close> for its counters.
\<close>

locale trace_store =
  fixes invar :: "'s \<Rightarrow> bool"
    and ins :: "'s \<Rightarrow> Stacktrace \<Rightarrow> ('s \<times> u32) option"
    and recall :: "'s \<Rightarrow> u32 \<Rightarrow> ptr list option"
    and canon :: "ptr list \<Rightarrow> ptr list"
    and unknown :: "u32 \<Rightarrow> bool"
    and room :: "'s \<Rightarrow> Stacktrace \<Rightarrow> bool"
  assumes ins_returns: "invar s \<Longrightarrow> stacktrace_ok t \<Longrightarrow> room s t \<Longrightarrow>
      \<exists>s' i. ins s t = Some (s', i) \<and> invar s' \<and> (unknown i \<or> recall s' i = Some (canon (GetTrace t)))"
    and ins_stable: "invar s \<Longrightarrow> stacktrace_ok t \<Longrightarrow> room s t \<Longrightarrow> ins s t = Some (s', i) \<Longrightarrow>
      recall s j = Some xs \<Longrightarrow> recall s' j = Some xs"
    and ins_again: "invar s \<Longrightarrow> stacktrace_ok t \<Longrightarrow> room s t \<Longrightarrow> recall s i = Some (canon (GetTrace t)) \<Longrightarrow>
      ins s t = Some (s, i)"
    and recall_known: "invar s \<Longrightarrow> recall s i = Some xs \<Longrightarrow> \<not> unknown i"
begin

text \<open>What an identifier that was handed out for a trace means, now and after later insertions.\<close>

definition names :: "'s \<Rightarrow> ptr list \<Rightarrow> u32 \<Rightarrow> bool" where
  "names s xs i \<longleftrightarrow> unknown i \<or> recall s i = Some (canon xs)"

lemma ins_names:
  assumes "invar s" "stacktrace_ok t" "room s t" "ins s t = Some (s', i)"
  shows "invar s' \<and> names s' (GetTrace t) i"
  using ins_returns [OF assms(1-3)] assms(4) by (auto simp: names_def)

lemma names_stable:
  assumes "invar s" "stacktrace_ok t" "room s t" "ins s t = Some (s', i)" "names s xs j"
  shows "names s' xs j"
  using ins_stable [OF assms(1-4)] assms(5) by (auto simp: names_def)

lemma names_separate:
  assumes "names s xs i" "names s ys i" "\<not> unknown i"
  shows "canon xs = canon ys"
  using assms by (auto simp: names_def)

lemma ins_idempotent:
  assumes "invar s" "stacktrace_ok t" "room s t" "ins s t = Some (s', i)" "room s' t" "\<not> unknown i"
  shows "ins s' t = Some (s', i)"
  using ins_names [OF assms(1-4)] ins_again [OF _ assms(2,5)] assms(6) by (auto simp: names_def)

end

end
