(* ===== verification/Stacktrace_Tree.thy ===== *)
theory Stacktrace_Tree
  imports Tracker_Interface
begin

text \<open>
  The prefix tree of stack traces (\<open>src/source/memhawk/src/impl/stacktrace_tree.h\<close>) and the tracker
  that stores one (\<open>trackers/stacktrace_tracker.h\<close>, \<open>stacktrace_tracker.cpp\<close>). Frame addresses are
  numbered, and a node of the tree is numbered by the order of creation, both with 32-bit counters.
  A trace is inserted from its outermost frame, node 0 being the root; the identifier of a trace is
  the number of its last node, and the trace is read back by following the parents.

  The callback of \<open>index\<close> is a function on a client state. An address that is not in \<open>m_revPtrMap\<close>
  (\<open>at\<close> throws) and access outside an array are \<open>None\<close>, and so is a chain of parents that does not
  reach the root.
\<close>

section \<open>The model\<close>

record StacktraceTree =
  m_nodesCounter :: u32
  m_edges :: "((u32 \<times> u32) \<times> u32) list"
  m_ptrMap :: "(ptr \<times> u32) list"
  m_revPtrMap :: "(u32 \<times> ptr) list"

definition StacktraceTree_new :: StacktraceTree where
  "StacktraceTree_new = \<lparr>m_nodesCounter = 1, m_edges = [], m_ptrMap = [], m_revPtrMap = []\<rparr>"

definition GetPtrId :: "StacktraceTree \<Rightarrow> ptr \<Rightarrow> StacktraceTree \<times> u32" where
  "GetPtrId tree p =
     (case map_of (m_ptrMap tree) p of
        Some i \<Rightarrow> (tree, i)
      | None \<Rightarrow>
          (let i = of_nat (length (m_ptrMap tree))
           in (tree\<lparr>m_ptrMap := map_insert p i (m_ptrMap tree), m_revPtrMap := map_insert i p (m_revPtrMap tree)\<rparr>, i)))"

definition GetPtrValue :: "StacktraceTree \<Rightarrow> u32 \<Rightarrow> ptr option" where
  "GetPtrValue tree ptrId = map_of (m_revPtrMap tree) ptrId"

definition GetEdgesCount :: "StacktraceTree \<Rightarrow> nat" where
  "GetEdgesCount tree = length (m_edges tree)"

definition GetPtrMapSize :: "StacktraceTree \<Rightarrow> nat" where
  "GetPtrMapSize tree = length (m_ptrMap tree)"

text \<open>The loop of \<open>index\<close> over the reversed trace, with the client state \<open>a\<close> of the callback.\<close>

fun index_loop ::
  "('a \<Rightarrow> ptr \<Rightarrow> u32 \<Rightarrow> u32 \<Rightarrow> 'a) \<Rightarrow> 'a \<Rightarrow> StacktraceTree \<Rightarrow> u32 \<Rightarrow> ptr list \<Rightarrow> 'a \<times> StacktraceTree \<times> u32" where
  "index_loop onNewNode a tree nodeId [] = (a, tree, nodeId)"
| "index_loop onNewNode a tree nodeId (p # ps) =
     (if p = 0 then index_loop onNewNode a tree nodeId ps
      else
        (let (tree, ptrId) = GetPtrId tree p
         in (case map_of (m_edges tree) (nodeId, ptrId) of
               Some n \<Rightarrow> index_loop onNewNode a tree n ps
             | None \<Rightarrow>
                 (let n = m_nodesCounter tree
                  in index_loop onNewNode (onNewNode a p ptrId nodeId)
                       (tree\<lparr>m_edges := map_insert (nodeId, ptrId) n (m_edges tree), m_nodesCounter := n + 1\<rparr>) n ps))))"

definition tree_index ::
  "('a \<Rightarrow> ptr \<Rightarrow> u32 \<Rightarrow> u32 \<Rightarrow> 'a) \<Rightarrow> 'a \<Rightarrow> StacktraceTree \<Rightarrow> Stacktrace \<Rightarrow> 'a \<times> StacktraceTree \<times> u32" where
  "tree_index onNewNode a tree st = index_loop onNewNode a tree 0 (rev (GetTrace st))"

subsection \<open>\<open>StacktraceTracker\<close>\<close>

record TraceNode =
  tn_id :: u32
  tn_parent :: u32

record Storage =
  nodes :: "TraceNode list"
  tree :: StacktraceTree
  leafsId :: "u32 list"

definition PostponedConstruct :: Storage where
  "PostponedConstruct =
     (let (t, i) = GetPtrId StacktraceTree_new 0
      in \<lparr>nodes = [\<lparr>tn_id = i, tn_parent = 0\<rparr>], tree = t, leafsId = []\<rparr>)"

definition push_node :: "TraceNode list \<Rightarrow> ptr \<Rightarrow> u32 \<Rightarrow> u32 \<Rightarrow> TraceNode list" where
  "push_node ns p ptrId parent = ns @ [\<lparr>tn_id = ptrId, tn_parent = parent\<rparr>]"

definition InsertStacktrace :: "Storage \<Rightarrow> Stacktrace \<Rightarrow> Storage \<times> u32" where
  "InsertStacktrace s trace =
     (let (ns, t, nodeId) = tree_index push_node (nodes s) (tree s) trace
      in (s\<lparr>nodes := ns, tree := t, leafsId := List.insert nodeId (leafsId s)\<rparr>, nodeId))"

partial_function (option) get_trace_loop ::
  "Storage \<Rightarrow> ptr list \<Rightarrow> nat \<Rightarrow> u32 \<Rightarrow> (ptr list \<times> nat) option" where
  "get_trace_loop s trace traceIt nodeId =
     (if nodeId \<noteq> 0
      then do { node \<leftarrow> rd (nodes s) (unat nodeId);
                ptrValue \<leftarrow> GetPtrValue (tree s) (tn_id node);
                trace \<leftarrow> wr trace traceIt ptrValue;
                get_trace_loop s trace (traceIt + 1) (tn_parent node) }
      else Some (trace, traceIt))"

declare get_trace_loop.simps [code]

definition GetStacktrace :: "ptr list \<Rightarrow> Storage \<Rightarrow> u32 \<Rightarrow> Stacktrace option" where
  "GetStacktrace mem s traceId =
     do { (trace, traceIt) \<leftarrow> get_trace_loop s (replicate MaxUnwindDepth 0) 0 traceId;
          Stacktrace_of mem trace (of_nat traceIt) }"

definition GetStacktraceFromId :: "ptr list \<Rightarrow> Storage \<Rightarrow> u32 \<Rightarrow> Stacktrace option option" where
  "GetStacktraceFromId mem s traceId =
     (if unat traceId \<ge> length (nodes s) then Some None
      else if traceId \<notin> set (leafsId s) then Some None
      else do { st \<leftarrow> GetStacktrace mem s traceId; Some (Some st) })"

definition StacktracesCount :: "Storage \<Rightarrow> nat" where
  "StacktracesCount s = length (leafsId s)"

section \<open>Invariant\<close>

text \<open>The address table: two mutually inverse maps, numbered from zero without gaps.\<close>

definition ptrs_ok :: "StacktraceTree \<Rightarrow> bool" where
  "ptrs_ok t \<longleftrightarrow>
     (\<forall>p i. map_of (m_ptrMap t) p = Some i \<longleftrightarrow> map_of (m_revPtrMap t) i = Some p) \<and>
     (\<forall>p i. map_of (m_ptrMap t) p = Some i \<longrightarrow> unat i < length (m_ptrMap t))"

text \<open>
  Nodes and edges: the edge \<open>(parent, address)\<close> leads to exactly the node that records that parent and
  that address; a node comes after its parent; the address table has at most one entry per node.
\<close>

definition tree_ok :: "TraceNode list \<Rightarrow> StacktraceTree \<Rightarrow> bool" where
  "tree_ok ns t \<longleftrightarrow>
     ptrs_ok t \<and> ns \<noteq> [] \<and> length ns \<le> 2 ^ 32 \<and> length (m_ptrMap t) \<le> length ns \<and>
     m_nodesCounter t = of_nat (length ns) \<and>
     (\<forall>a b n. map_of (m_edges t) (a, b) = Some n \<longleftrightarrow>
        0 < unat n \<and> unat n < length ns \<and> ns ! unat n = \<lparr>tn_id = b, tn_parent = a\<rparr>) \<and>
     (\<forall>i. 0 < i \<and> i < length ns \<longrightarrow>
        unat (tn_parent (ns ! i)) < i \<and> (\<exists>p. p \<noteq> 0 \<and> map_of (m_revPtrMap t) (tn_id (ns ! i)) = Some p))"

text \<open>The frames on the way from a node to the root.\<close>

function node_path :: "TraceNode list \<Rightarrow> StacktraceTree \<Rightarrow> nat \<Rightarrow> ptr list" where
  "node_path ns t i =
     (if 0 < i \<and> i < length ns \<and> unat (tn_parent (ns ! i)) < i
      then the (map_of (m_revPtrMap t) (tn_id (ns ! i))) # node_path ns t (unat (tn_parent (ns ! i)))
      else [])"
  by pat_completeness auto
termination
  by (relation "measure (\<lambda>(_, _, i). i)") auto

declare node_path.simps [simp del]

lemma node_path_0 [simp]: "node_path ns t 0 = []"
  by (simp add: node_path.simps)

lemma node_path_node:
  assumes "tree_ok ns t" "0 < i" "i < length ns"
  obtains p where "map_of (m_revPtrMap t) (tn_id (ns ! i)) = Some p" "p \<noteq> 0" "unat (tn_parent (ns ! i)) < i"
    "node_path ns t i = p # node_path ns t (unat (tn_parent (ns ! i)))"
proof -
  obtain p where p: "p \<noteq> 0" "map_of (m_revPtrMap t) (tn_id (ns ! i)) = Some p"
    "unat (tn_parent (ns ! i)) < i"
    using assms unfolding tree_ok_def by blast
  then show thesis using assms by (intro that [of p]) (auto simp: node_path.simps [of ns t i])
qed

definition ptrs_extend :: "StacktraceTree \<Rightarrow> StacktraceTree \<Rightarrow> bool" where
  "ptrs_extend t t' \<longleftrightarrow> (\<forall>i p. map_of (m_revPtrMap t) i = Some p \<longrightarrow> map_of (m_revPtrMap t') i = Some p)"

lemma node_path_extend:
  assumes "tree_ok ns t" "ptrs_extend t t'" "i < length ns"
  shows "node_path (ns @ ms) t' i = node_path ns t i"
  using assms(3)
proof (induction i rule: less_induct)
  case (less i)
  show ?case
  proof (cases "0 < i")
    case True
    then obtain p where p: "map_of (m_revPtrMap t) (tn_id (ns ! i)) = Some p" "unat (tn_parent (ns ! i)) < i"
      "node_path ns t i = p # node_path ns t (unat (tn_parent (ns ! i)))"
      using node_path_node [OF assms(1) _ less.prems] by metis
    moreover have "map_of (m_revPtrMap t') (tn_id (ns ! i)) = Some p"
      using p(1) assms(2) by (simp add: ptrs_extend_def)
    ultimately show ?thesis
      using True less by (simp add: node_path.simps [of "ns @ ms"] nth_append)
  qed simp
qed

lemma edge_child:
  assumes "tree_ok ns t" "map_of (m_edges t) (n, i) = Some m" "map_of (m_revPtrMap t) i = Some p"
  shows "0 < unat m \<and> unat m < length ns \<and> unat n < unat m \<and> node_path ns t (unat m) = p # node_path ns t (unat n)"
proof -
  have m: "0 < unat m" "unat m < length ns" "ns ! unat m = \<lparr>tn_id = i, tn_parent = n\<rparr>"
    using assms(1,2) unfolding tree_ok_def by blast+
  show ?thesis by (rule node_path_node [OF assms(1) m(1,2)]) (use m assms(3) in simp)
qed

lemma node_path_inject:
  assumes "tree_ok ns t" "i < length ns" "j < length ns" "node_path ns t i = node_path ns t j"
  shows "i = j"
  using assms(2-4)
proof (induction i arbitrary: j rule: less_induct)
  case (less i)
  have z: "node_path ns t k = [] \<longleftrightarrow> k = 0" if "k < length ns" for k
  proof (cases "k = 0")
    case False
    then have "0 < k" by simp
    then show ?thesis by (rule node_path_node [OF assms(1) _ that]) simp
  qed simp
  show ?case
  proof (cases "i = 0 \<or> j = 0")
    case True
    then show ?thesis using less z by (metis node_path_0)
  next
    case False
    obtain p where p: "map_of (m_revPtrMap t) (tn_id (ns ! i)) = Some p" "unat (tn_parent (ns ! i)) < i"
      "node_path ns t i = p # node_path ns t (unat (tn_parent (ns ! i)))"
      using node_path_node [OF assms(1) _ less.prems(1)] False by auto
    obtain q where q: "map_of (m_revPtrMap t) (tn_id (ns ! j)) = Some q" "unat (tn_parent (ns ! j)) < j"
      "node_path ns t j = q # node_path ns t (unat (tn_parent (ns ! j)))"
      using node_path_node [OF assms(1) _ less.prems(2)] False by auto
    have "p = q" and "node_path ns t (unat (tn_parent (ns ! i))) = node_path ns t (unat (tn_parent (ns ! j)))"
      using p(3) q(3) less.prems(3) by simp_all
    then have "tn_parent (ns ! i) = tn_parent (ns ! j)"
      using less.IH [OF p(2)] p(2) q(2) less.prems(1,2) by (simp add: word_unat_eq_iff)
    moreover have "tn_id (ns ! i) = tn_id (ns ! j)"
      using p(1) q(1) \<open>p = q\<close> assms(1) unfolding tree_ok_def ptrs_ok_def by (metis option.inject)
    ultimately have eq: "ns ! i = ns ! j" by simp
    have "unat (of_nat k :: u32) = k" if "k < length ns" for k
      using that assms(1) by (simp add: tree_ok_def unat_of_nat take_bit_nat_eq_self)
    then have "map_of (m_edges t) (tn_parent (ns ! k), tn_id (ns ! k)) = Some (of_nat k)" if "0 < k" "k < length ns" for k
      using that assms(1) unfolding tree_ok_def by simp
    with eq False less.prems show ?thesis
      using \<open>\<And>k. k < length ns \<Longrightarrow> unat (of_nat k :: u32) = k\<close>
      by (metis gr0I option.inject)
  qed
qed

section \<open>Insertion\<close>

lemma unat_of_nat_u32: "n < 2 ^ 32 \<Longrightarrow> unat (of_nat n :: u32) = n"
  by (simp add: unat_of_nat take_bit_nat_eq_self)

lemma ptrs_extend_refl [simp]: "ptrs_extend t t"
  by (simp add: ptrs_extend_def)

lemma ptrs_extend_trans: "ptrs_extend t t' \<Longrightarrow> ptrs_extend t' t'' \<Longrightarrow> ptrs_extend t t''"
  by (simp add: ptrs_extend_def)

text \<open>A new address gets a number that no edge uses.\<close>

lemma GetPtrId_new:
  assumes "tree_ok ns t" "length ns < 2 ^ 32" "map_of (m_ptrMap t) p = None" "GetPtrId t p = (t1, i)"
  shows "ptrs_ok t1" "map_of (m_revPtrMap t1) i = Some p" "ptrs_extend t t1"
    "m_edges t1 = m_edges t" "m_nodesCounter t1 = m_nodesCounter t"
    "length (m_ptrMap t1) = Suc (length (m_ptrMap t))" "map_of (m_edges t) (n, i) = None"
proof -
  have po: "ptrs_ok t" using assms(1) by (simp add: tree_ok_def)
  have len: "length (m_ptrMap t) < 2 ^ 32" using assms(1,2) by (simp add: tree_ok_def)
  have i: "i = of_nat (length (m_ptrMap t))" and
    t1: "t1 = t\<lparr>m_ptrMap := map_insert p i (m_ptrMap t), m_revPtrMap := map_insert i p (m_revPtrMap t)\<rparr>"
    using assms(3,4) by (auto simp: GetPtrId_def Let_def)
  have ui: "unat i = length (m_ptrMap t)" using len by (simp add: i unat_of_nat_u32)
  have ri: "map_of (m_revPtrMap t) i = None"
  proof (rule ccontr)
    assume "map_of (m_revPtrMap t) i \<noteq> None"
    then obtain q where "map_of (m_ptrMap t) q = Some i" using po by (auto simp: ptrs_ok_def)
    then have "unat i < length (m_ptrMap t)" using po by (simp add: ptrs_ok_def)
    with ui show False by simp
  qed
  have rp: "map_of (m_revPtrMap t) k \<noteq> Some p" for k
    using po assms(3) unfolding ptrs_ok_def by (metis option.distinct(1))
  show "ptrs_ok t1"
    using po assms(3) ri ui rp unfolding ptrs_ok_def t1
    by (auto simp: map_of_map_insert length_map_insert less_Suc_eq)
  show "map_of (m_revPtrMap t1) i = Some p" by (simp add: t1 map_of_map_insert ri)
  show "ptrs_extend t t1" by (auto simp: ptrs_extend_def t1 map_of_map_insert ri)
  show "m_edges t1 = m_edges t" "m_nodesCounter t1 = m_nodesCounter t" by (simp_all add: t1)
  show "length (m_ptrMap t1) = Suc (length (m_ptrMap t))" by (simp add: t1 length_map_insert assms(3))
  show "map_of (m_edges t) (n, i) = None"
  proof (rule ccontr)
    assume "map_of (m_edges t) (n, i) \<noteq> None"
    then obtain m where "map_of (m_edges t) (n, i) = Some m" by blast
    then have "0 < unat m" "unat m < length ns" "ns ! unat m = \<lparr>tn_id = i, tn_parent = n\<rparr>"
      using assms(1) unfolding tree_ok_def by blast+
    with ri show False using assms(1) unfolding tree_ok_def by (metis TraceNode.select_convs(1) option.distinct(1))
  qed
qed

lemma GetPtrId_known:
  assumes "tree_ok ns t" "map_of (m_ptrMap t) p = Some j" "GetPtrId t p = (t1, i)"
  shows "t1 = t" "map_of (m_revPtrMap t) i = Some p"
proof -
  have "ptrs_ok t" using assms(1) by (simp add: tree_ok_def)
  moreover have "t1 = t" "i = j" using assms(2,3) by (simp_all add: GetPtrId_def)
  ultimately show "t1 = t" "map_of (m_revPtrMap t) i = Some p"
    using assms(2) by (simp_all add: ptrs_ok_def)
qed

text \<open>What both cases give when the edge is missing.\<close>

lemma GetPtrId_spec:
  assumes "tree_ok ns t" "length ns < 2 ^ 32" "GetPtrId t p = (t1, i)"
  shows "ptrs_ok t1 \<and> map_of (m_revPtrMap t1) i = Some p \<and> ptrs_extend t t1 \<and> m_edges t1 = m_edges t \<and>
    m_nodesCounter t1 = m_nodesCounter t \<and> length (m_ptrMap t1) \<le> Suc (length ns) \<and>
    (t1 = t \<or> map_of (m_edges t) (n, i) = None)"
proof (cases "map_of (m_ptrMap t) p")
  case None
  then show ?thesis
    using GetPtrId_new [OF assms(1,2) _ assms(3)] assms(1) by (auto simp: tree_ok_def)
next
  case (Some j)
  then show ?thesis
    using GetPtrId_known [OF assms(1) _ assms(3)] assms(1) by (auto simp: tree_ok_def)
qed

lemma new_node_ok:
  assumes ok: "tree_ok ns t" and len: "length ns < 2 ^ 32" and n: "unat n < length ns" and "p \<noteq> 0"
    and i: "GetPtrId t p = (t1, i)" and no: "map_of (m_edges t1) (n, i) = None"
    and c: "c = m_nodesCounter t1"
    and t2: "t2 = t1\<lparr>m_edges := map_insert (n, i) c (m_edges t1), m_nodesCounter := c + 1\<rparr>"
  shows "tree_ok (push_node ns p i n) t2 \<and> ptrs_extend t t2 \<and> unat c = length ns \<and>
    node_path (push_node ns p i n) t2 (unat c) = p # node_path ns t (unat n)"
proof -
  let ?ns = "push_node ns p i n"
  note g = GetPtrId_spec [OF ok len i, of n]
  have uc: "unat c = length ns" using ok g len by (simp add: c tree_ok_def unat_of_nat_u32)
  have c1: "c + 1 = of_nat (length ?ns)" using ok g by (simp add: c tree_ok_def push_node_def)
  have rev2: "m_revPtrMap t2 = m_revPtrMap t1" "m_ptrMap t2 = m_ptrMap t1" by (simp_all add: t2)
  have ext: "ptrs_extend t t2" using g by (simp add: ptrs_extend_def rev2)
  have edges: "map_of (m_edges t2) (a, b) = Some m \<longleftrightarrow>
      0 < unat m \<and> unat m < length ?ns \<and> ?ns ! unat m = \<lparr>tn_id = b, tn_parent = a\<rparr>" for a b m
  proof -
    have old: "map_of (m_edges t) (a, b) = Some m \<longleftrightarrow>
        0 < unat m \<and> unat m < length ns \<and> ns ! unat m = \<lparr>tn_id = b, tn_parent = a\<rparr>"
      using ok unfolding tree_ok_def by blast
    have mc: "m = c \<longleftrightarrow> unat m = length ns" using uc by (auto simp: word_unat_eq_iff)
    have "0 < length ns" using ok by (simp add: tree_ok_def)
    then show ?thesis
      using old mc no g by (auto simp: t2 map_of_map_insert push_node_def nth_append less_Suc_eq)
  qed
  have parents: "unat (tn_parent (?ns ! k)) < k \<and> (\<exists>q. q \<noteq> 0 \<and> map_of (m_revPtrMap t2) (tn_id (?ns ! k)) = Some q)"
    if "0 < k" "k < length ?ns" for k
  proof (cases "k < length ns")
    case True
    then have "unat (tn_parent (ns ! k)) < k" "\<exists>q. q \<noteq> 0 \<and> map_of (m_revPtrMap t) (tn_id (ns ! k)) = Some q"
      using ok that(1) unfolding tree_ok_def by blast+
    with True ext show ?thesis by (auto simp: push_node_def nth_append ptrs_extend_def)
  next
    case False
    with that have "k = length ns" by (simp add: push_node_def)
    then show ?thesis using n g \<open>p \<noteq> 0\<close> by (simp add: push_node_def rev2)
  qed
  have ok2: "tree_ok ?ns t2"
    unfolding tree_ok_def
  proof (intro conjI)
    show "ptrs_ok t2" using g by (simp add: ptrs_ok_def rev2)
    show "?ns \<noteq> []" "length ?ns \<le> 2 ^ 32" using len by (simp_all add: push_node_def)
    show "length (m_ptrMap t2) \<le> length ?ns" using g by (simp add: rev2 push_node_def)
    show "m_nodesCounter t2 = of_nat (length ?ns)" using c1 by (simp add: t2)
  qed (use edges parents in blast)+
  have "map_of (m_edges t2) (n, i) = Some c" by (simp add: t2 map_of_map_insert no)
  then have "node_path ?ns t2 (unat c) = p # node_path ?ns t2 (unat n)"
    using edge_child [OF ok2] g rev2 by simp
  moreover have "node_path ?ns t2 (unat n) = node_path ns t (unat n)"
    unfolding push_node_def by (rule node_path_extend [OF ok ext n])
  ultimately show ?thesis using ok2 ext uc by simp
qed

text \<open>
  The loop extends the tree (old nodes keep their paths), ends in a node whose path spells the frames
  that were walked, and changes nothing when it ends in an old node.
\<close>

definition walk_post :: "TraceNode list \<Rightarrow> StacktraceTree \<Rightarrow> u32 \<Rightarrow> ptr list \<Rightarrow> TraceNode list \<times> StacktraceTree \<times> u32 \<Rightarrow> bool" where
  "walk_post ns t n ps res \<longleftrightarrow>
     (case res of (ns', t', n') \<Rightarrow>
        tree_ok ns' t' \<and> prefix ns ns' \<and> ptrs_extend t t' \<and> length ns' \<le> length ns + length ps \<and>
        unat n \<le> unat n' \<and> unat n' < length ns' \<and>
        node_path ns' t' (unat n') = rev (filter (\<lambda>p. p \<noteq> 0) ps) @ node_path ns t (unat n) \<and>
        (unat n' < length ns \<longrightarrow> ns' = ns \<and> t' = t))"

lemma index_loop_spec:
  assumes "tree_ok ns t" "unat n < length ns" "length ns + length ps \<le> 2 ^ 32"
  shows "walk_post ns t n ps (index_loop push_node ns t n ps)"
  using assms
proof (induction ps arbitrary: ns t n)
  case Nil
  then show ?case by (simp add: walk_post_def)
next
  case (Cons p ps)
  show ?case
  proof (cases "p = 0")
    case True
    have "walk_post ns t n ps (index_loop push_node ns t n ps)" using Cons by simp
    then show ?thesis using True by (auto simp: walk_post_def)
  next
    case False
    obtain t1 i where i: "GetPtrId t p = (t1, i)" by fastforce
    have len: "length ns < 2 ^ 32" using Cons.prems by simp
    note g = GetPtrId_spec [OF Cons.prems(1) len i, of n]
    show ?thesis
    proof (cases "map_of (m_edges t1) (n, i)")
      case (Some m)
      then have "t1 = t" using g by auto
      then have m: "unat m < length ns" "unat n < unat m" "node_path ns t (unat m) = p # node_path ns t (unat n)"
        using edge_child [OF Cons.prems(1), of n i m p] Some g by auto
      have "walk_post ns t m ps (index_loop push_node ns t m ps)" using Cons m by simp
      then show ?thesis
        using False i Some m \<open>t1 = t\<close> by (auto simp: walk_post_def)
    next
      case None
      define c where "c = m_nodesCounter t1"
      define t2 where "t2 = t1\<lparr>m_edges := map_insert (n, i) c (m_edges t1), m_nodesCounter := c + 1\<rparr>"
      note w = new_node_ok [OF Cons.prems(1) len Cons.prems(2) False i None c_def t2_def]
      have l: "length (push_node ns p i n) = Suc (length ns)" by (simp add: push_node_def)
      have "walk_post (push_node ns p i n) t2 c ps (index_loop push_node (push_node ns p i n) t2 c ps)"
        using Cons w l by simp
      moreover have "prefix ns (push_node ns p i n)" by (simp add: push_node_def)
      moreover have "index_loop push_node ns t n (p # ps) = index_loop push_node (push_node ns p i n) t2 c ps"
        using False None i by (simp add: c_def t2_def Let_def)
      ultimately show ?thesis
        using w l Cons.prems(2) False
        by (auto simp: walk_post_def intro: prefix_order.trans ptrs_extend_trans)
    qed
  qed
qed

lemma node_path_nonnull: "tree_ok ns t \<Longrightarrow> i < length ns \<Longrightarrow> 0 \<notin> set (node_path ns t i)"
proof (induction i rule: less_induct)
  case (less i)
  show ?case
  proof (cases "0 < i")
    case True
    then show ?thesis
      by (rule node_path_node [OF less.prems(1) _ less.prems(2)]) (use less in auto)
  qed simp
qed

section \<open>The tracker\<close>

text \<open>
  A stored trace has at most \<open>MaxUnwindDepth\<close> frames: the ones on the way from its leaf to the root.
\<close>

definition tracker_ok :: "Storage \<Rightarrow> bool" where
  "tracker_ok s \<longleftrightarrow> tree_ok (nodes s) (tree s) \<and> distinct (leafsId s) \<and>
     (\<forall>i \<in> set (leafsId s). unat i < length (nodes s) \<and> length (node_path (nodes s) (tree s) (unat i)) \<le> MaxUnwindDepth)"

lemma PostponedConstruct_ok: "tracker_ok PostponedConstruct"
  by (auto simp: tracker_ok_def tree_ok_def ptrs_ok_def PostponedConstruct_def GetPtrId_def StacktraceTree_new_def
      map_insert_def)

text \<open>\<open>insert_room\<close>: the 32-bit counters have room for the frames of one more trace.\<close>

definition insert_room :: "Storage \<Rightarrow> Stacktrace \<Rightarrow> bool" where
  "insert_room s st \<longleftrightarrow> length (nodes s) + length (GetTrace st) \<le> 2 ^ 32"

definition nonnull :: "ptr list \<Rightarrow> ptr list" where
  "nonnull xs = filter (\<lambda>p. p \<noteq> 0) xs"

lemma InsertStacktrace_spec:
  assumes "tracker_ok s" "stacktrace_ok st" "insert_room s st" "InsertStacktrace s st = (s', n)"
  shows "tracker_ok s'" "n \<in> set (leafsId s')" "node_path (nodes s') (tree s') (unat n) = nonnull (GetTrace st)"
    "set (leafsId s) \<subseteq> set (leafsId s')" "prefix (nodes s) (nodes s')" "ptrs_extend (tree s) (tree s')"
    "unat n < length (nodes s) \<longrightarrow> nodes s' = nodes s \<and> tree s' = tree s"
    "length (nodes s') \<le> length (nodes s) + length (GetTrace st)"
proof -
  have ok: "tree_ok (nodes s) (tree s)" using assms(1) by (simp add: tracker_ok_def)
  then have "unat (0 :: u32) < length (nodes s)" by (simp add: tree_ok_def)
  then have w: "walk_post (nodes s) (tree s) 0 (rev (GetTrace st)) (tree_index push_node (nodes s) (tree s) st)"
    unfolding tree_index_def using assms(3) by (intro index_loop_spec [OF ok]) (simp_all add: insert_room_def)
  obtain ns t where r: "tree_index push_node (nodes s) (tree s) st = (ns, t, n)"
    and s': "s' = s\<lparr>nodes := ns, tree := t, leafsId := List.insert n (leafsId s)\<rparr>"
    using assms(4) by (auto simp: InsertStacktrace_def split: prod.splits)
  have p: "node_path ns t (unat n) = nonnull (GetTrace st)"
    using w by (simp add: r walk_post_def nonnull_def rev_filter)
  then show "node_path (nodes s') (tree s') (unat n) = nonnull (GetTrace st)" by (simp add: s')
  have fit: "length (nonnull (GetTrace st)) \<le> MaxUnwindDepth"
    using length_GetTrace_le [OF assms(2)] length_filter_le [of "\<lambda>p. p \<noteq> 0" "GetTrace st"]
    unfolding nonnull_def MaxUnwindDepth_def by linarith
  show pre: "prefix (nodes s) (nodes s')" and ext: "ptrs_extend (tree s) (tree s')"
    using w by (simp_all add: r s' walk_post_def)
  have old: "node_path ns t (unat i) = node_path (nodes s) (tree s) (unat i)" if "i \<in> set (leafsId s)" for i
    using that assms(1) pre ext by (auto simp: tracker_ok_def s' prefix_def intro!: node_path_extend [OF ok])
  then show "tracker_ok s'"
    using assms(1) w p fit pre by (auto simp: tracker_ok_def s' r walk_post_def prefix_def)
  show "n \<in> set (leafsId s')" "set (leafsId s) \<subseteq> set (leafsId s')" by (auto simp: s')
  show "unat n < length (nodes s) \<longrightarrow> nodes s' = nodes s \<and> tree s' = tree s"
    "length (nodes s') \<le> length (nodes s) + length (GetTrace st)"
    using w by (simp_all add: r s' walk_post_def)
qed

lemma get_trace_loop_spec:
  assumes ok: "tree_ok (nodes s) (tree s)"
    and "unat n < length (nodes s)" "length (node_path (nodes s) (tree s) (unat n)) + k \<le> length buf"
  shows "\<exists>buf'. get_trace_loop s buf k n = Some (buf', k + length (node_path (nodes s) (tree s) (unat n))) \<and>
    length buf' = length buf \<and>
    take (k + length (node_path (nodes s) (tree s) (unat n))) buf' = take k buf @ node_path (nodes s) (tree s) (unat n)"
  using assms(2,3)
proof (induction "unat n" arbitrary: n k buf rule: less_induct)
  case less
  show ?case
  proof (cases "n = 0")
    case True
    then show ?thesis by (subst get_trace_loop.simps) simp
  next
    case False
    then have "0 < unat n" by (simp add: unat_gt_0)
    then obtain p where p: "map_of (m_revPtrMap (tree s)) (tn_id (nodes s ! unat n)) = Some p"
      "unat (tn_parent (nodes s ! unat n)) < unat n"
      "node_path (nodes s) (tree s) (unat n) = p # node_path (nodes s) (tree s) (unat (tn_parent (nodes s ! unat n)))"
      using node_path_node [OF ok _ less.prems(1)] by blast
    have k: "k < length buf" using less.prems(2) p(3) by simp
    have "get_trace_loop s buf k n = get_trace_loop s (buf[k := p]) (k + 1) (tn_parent (nodes s ! unat n))"
      using False less.prems(1) k p(1) by (subst get_trace_loop.simps) (simp add: access_simps GetPtrValue_def)
    moreover have "take (k + 1) (buf[k := p]) = take k buf @ [p]"
      using k by (simp add: take_Suc_conv_app_nth)
    ultimately show ?thesis
      using less.hyps [OF p(2), of "k + 1" "buf[k := p]"] less.prems p(2,3) by auto
  qed
qed

lemma GetStacktrace_spec:
  assumes "tracker_ok s" "i \<in> set (leafsId s)" "length mem = MaxUnwindDepth"
  shows "\<exists>st. GetStacktrace mem s i = Some st \<and> stacktrace_ok st \<and>
    GetTrace st = node_path (nodes s) (tree s) (unat i)"
proof -
  let ?p = "node_path (nodes s) (tree s) (unat i)"
  have ok: "tree_ok (nodes s) (tree s)" "unat i < length (nodes s)" "length ?p \<le> MaxUnwindDepth"
    using assms by (auto simp: tracker_ok_def)
  then obtain buf where buf: "get_trace_loop s (replicate MaxUnwindDepth 0) 0 i = Some (buf, length ?p)"
    "length buf = MaxUnwindDepth" "take (length ?p) buf = ?p"
    using get_trace_loop_spec [OF ok(1,2), of 0 "replicate MaxUnwindDepth 0"] by auto
  have "unat (of_nat (length ?p) :: u64) = length ?p"
    using ok(3) by (intro unat_of_nat_u64) (simp add: MaxUnwindDepth_def)
  moreover have "min MaxUnwindDepth (length ?p) = length ?p" using ok(3) by simp
  ultimately show ?thesis
    using Stacktrace_of_ok [OF assms(3), of "of_nat (length ?p)" buf] ok(3) buf
    by (simp add: GetStacktrace_def)
qed

lemma GetStacktraceFromId_spec:
  assumes "tracker_ok s" "length mem = MaxUnwindDepth"
  shows "\<exists>r. GetStacktraceFromId mem s i = Some r \<and>
    (if i \<in> set (leafsId s)
     then \<exists>st. r = Some st \<and> stacktrace_ok st \<and> GetTrace st = node_path (nodes s) (tree s) (unat i)
     else r = None)"
  using GetStacktrace_spec [OF assms(1) _ assms(2), of i] assms(1)
  by (auto simp: GetStacktraceFromId_def tracker_ok_def)

section \<open>The tracker as a trace store\<close>

definition InsertStacktrace_opt :: "Storage \<Rightarrow> Stacktrace \<Rightarrow> (Storage \<times> u32) option" where
  "InsertStacktrace_opt s st = Some (InsertStacktrace s st)"

definition tracker_recall :: "Storage \<Rightarrow> u32 \<Rightarrow> ptr list option" where
  "tracker_recall s i =
     (case GetStacktraceFromId (replicate MaxUnwindDepth 0) s i of Some (Some st) \<Rightarrow> Some (GetTrace st) | _ \<Rightarrow> None)"

lemma tracker_recall_eq:
  assumes "tracker_ok s"
  shows "tracker_recall s i = (if i \<in> set (leafsId s) then Some (node_path (nodes s) (tree s) (unat i)) else None)"
  using GetStacktraceFromId_spec [OF assms, of "replicate MaxUnwindDepth 0" i]
  by (auto simp: tracker_recall_def split: if_splits)

interpretation tracker: trace_store tracker_ok InsertStacktrace_opt tracker_recall nonnull "\<lambda>_. False" insert_room
proof
  fix s t assume a: "tracker_ok s" "stacktrace_ok t" "insert_room s t"
  obtain s1 i1 where r: "InsertStacktrace s t = (s1, i1)" by fastforce
  note sp = InsertStacktrace_spec [OF a r]
  show "\<exists>s' i. InsertStacktrace_opt s t = Some (s', i) \<and> tracker_ok s' \<and>
      (False \<or> tracker_recall s' i = Some (nonnull (GetTrace t)))"
    using r sp by (simp add: InsertStacktrace_opt_def tracker_recall_eq)
  have ok: "tree_ok (nodes s) (tree s)" using a by (simp add: tracker_ok_def)
  have keep: "node_path (nodes s1) (tree s1) (unat j) = node_path (nodes s) (tree s) (unat j)"
    "unat j < length (nodes s)" if "j \<in> set (leafsId s)" for j
    using that a(1) sp(5,6) by (auto simp: tracker_ok_def prefix_def intro!: node_path_extend [OF ok])
  show "tracker_recall s' j = Some xs"
    if "InsertStacktrace_opt s t = Some (s', i)" "tracker_recall s j = Some xs" for s' i j xs
    using that r sp(1,4) keep by (auto simp: InsertStacktrace_opt_def tracker_recall_eq a(1) split: if_splits)
  show "InsertStacktrace_opt s t = Some (s, i)" if "tracker_recall s i = Some (nonnull (GetTrace t))" for i
  proof -
    have i: "i \<in> set (leafsId s)" "node_path (nodes s) (tree s) (unat i) = nonnull (GetTrace t)"
      using that by (auto simp: tracker_recall_eq a(1) split: if_splits)
    have "unat i = unat i1"
      using node_path_inject [of "nodes s1" "tree s1" "unat i" "unat i1"] sp(1-5) keep [OF i(1)] i
      by (auto simp: tracker_ok_def prefix_def)
    then have "i = i1" "nodes s1 = nodes s" "tree s1 = tree s"
      using sp(7) keep(2) [OF i(1)] by (simp_all add: word_unat_eq_iff)
    with r i(1) show ?thesis
      by (auto simp: InsertStacktrace_opt_def InsertStacktrace_def split: prod.splits)
  qed
qed simp

section \<open>Properties\<close>

text \<open>
  Every way to use the tracker: insertions of well formed traces, one after another, while the 32-bit
  counters have room. The lock of the source makes each insertion atomic, so any interleaving of the
  threads is such a sequence.
\<close>

inductive tracker_run :: "(ptr list \<times> u32) list \<Rightarrow> Storage \<Rightarrow> bool" where
  start: "tracker_run [] PostponedConstruct"
| insert: "tracker_run hist s \<Longrightarrow> stacktrace_ok st \<Longrightarrow> insert_room s st \<Longrightarrow> InsertStacktrace s st = (s', i) \<Longrightarrow>
    tracker_run (hist @ [(GetTrace st, i)]) s'"

lemma tracker_run_names:
  assumes "tracker_run hist s"
  shows "tracker_ok s \<and> (\<forall>(xs, i) \<in> set hist. tracker_recall s i = Some (nonnull xs))"
  using assms
proof (induction rule: tracker_run.induct)
  case start
  then show ?case by (simp add: PostponedConstruct_ok)
next
  case (insert hist s st s' i)
  have ins: "InsertStacktrace_opt s st = Some (s', i)" by (simp add: InsertStacktrace_opt_def insert)
  have new: "tracker_ok s'" "tracker_recall s' i = Some (nonnull (GetTrace st))"
    using tracker.ins_names [OF _ insert.hyps(2,3) ins] insert.IH by (simp_all add: tracker.names_def)
  have "tracker_recall s' j = Some (nonnull xs)" if "(xs, j) \<in> set hist" for xs j
    using tracker.ins_stable [OF _ insert.hyps(2,3) ins, of j] insert.IH that by blast
  with new show ?case by auto
qed

text \<open>
  C12. Round trip: whatever is inserted and in whatever order, the identifier that \<open>InsertStacktrace\<close>
  returned for a trace keeps meaning that trace. After any run, \<open>GetStacktraceFromId\<close> stays inside its
  64-entry array, follows a chain of parents that ends, and returns exactly the frames that were
  inserted (null frames are not stored).
\<close>

theorem tracker_roundtrip:
  assumes "tracker_run hist s" "(frames, i) \<in> set hist" "length mem = MaxUnwindDepth"
  shows "\<exists>st. GetStacktraceFromId mem s i = Some (Some st) \<and> stacktrace_ok st \<and>
    GetTrace st = filter (\<lambda>p. p \<noteq> 0) frames"
proof -
  have ok: "tracker_ok s" and r: "tracker_recall s i = Some (nonnull frames)"
    using tracker_run_names [OF assms(1)] assms(2) by auto
  then have "i \<in> set (leafsId s)" "node_path (nodes s) (tree s) (unat i) = nonnull frames"
    by (auto simp: tracker_recall_eq split: if_splits)
  then show ?thesis
    using GetStacktraceFromId_spec [OF ok assms(3), of i] by (auto simp: nonnull_def)
qed

definition demo_storage :: Storage where
  "demo_storage = fst (InsertStacktrace PostponedConstruct demo_trace)"

lemma demo_storage_run: "tracker_run [([5, 4, 3, 2, 1], 5)] demo_storage"
proof -
  have "snd (InsertStacktrace PostponedConstruct demo_trace) = 5"
    by (simp add: InsertStacktrace_def tree_index_def PostponedConstruct_def StacktraceTree_new_def GetPtrId_def
        push_node_def map_insert_def Let_def)
  then have "InsertStacktrace PostponedConstruct demo_trace = (demo_storage, 5)"
    by (simp add: demo_storage_def prod_eq_iff)
  moreover have "insert_room PostponedConstruct demo_trace"
    by (simp add: insert_room_def PostponedConstruct_def GetPtrId_def StacktraceTree_new_def)
  ultimately show ?thesis
    using tracker_run.insert [OF tracker_run.start, of demo_trace demo_storage 5] by simp
qed

theorem tracker_roundtrip_witness:
  "\<exists>st. GetStacktraceFromId (replicate 64 0) demo_storage 5 = Some (Some st) \<and> stacktrace_ok st \<and>
    GetTrace st = [5, 4, 3, 2, 1]"
  using tracker_roundtrip [OF demo_storage_run, of "[5, 4, 3, 2, 1]" 5 "replicate 64 0"]
  by (simp add: MaxUnwindDepth_def)

text \<open>
  C13. Identifiers are canonical: two insertions of a run got the same identifier exactly when their
  non-null frames are the same, and inserting a trace with the non-null frames of an earlier one gives the
  earlier identifier and changes nothing in the storage (nodes, tree, address tables and leaves).
\<close>

theorem tracker_ids_canonical:
  assumes "tracker_run hist s" "(xs, i) \<in> set hist" "(ys, j) \<in> set hist"
  shows "(i = j \<longleftrightarrow> filter (\<lambda>p. p \<noteq> 0) xs = filter (\<lambda>p. p \<noteq> 0) ys) \<and>
    (\<forall>st. stacktrace_ok st \<and> insert_room s st \<and> filter (\<lambda>p. p \<noteq> 0) (GetTrace st) = filter (\<lambda>p. p \<noteq> 0) xs \<longrightarrow>
      InsertStacktrace s st = (s, i))"
proof -
  have ok: "tracker_ok s" and r: "tracker_recall s i = Some (nonnull xs)" "tracker_recall s j = Some (nonnull ys)"
    using tracker_run_names [OF assms(1)] assms(2,3) by auto
  have i: "unat i < length (nodes s)" "node_path (nodes s) (tree s) (unat i) = nonnull xs"
    "unat j < length (nodes s)" "node_path (nodes s) (tree s) (unat j) = nonnull ys"
    using r ok by (auto simp: tracker_recall_eq tracker_ok_def split: if_splits)
  have t: "tree_ok (nodes s) (tree s)" using ok by (simp add: tracker_ok_def)
  have "i = j \<longleftrightarrow> filter (\<lambda>p. p \<noteq> 0) xs = filter (\<lambda>p. p \<noteq> 0) ys"
    using node_path_inject [OF t i(1,3)] i(2,4) by (auto simp: nonnull_def word_unat_eq_iff)
  moreover have "InsertStacktrace s st = (s, i)"
    if "stacktrace_ok st" "insert_room s st" "filter (\<lambda>p. p \<noteq> 0) (GetTrace st) = filter (\<lambda>p. p \<noteq> 0) xs" for st
    using tracker.ins_again [OF ok that(1,2), of i] r(1) that(3) by (simp add: InsertStacktrace_opt_def nonnull_def)
  ultimately show ?thesis by blast
qed

text \<open>A second trace that shares the outer frames of the first, and the first again with a null frame in it.\<close>

definition other_trace :: Stacktrace where
  "other_trace = \<lparr>st_size = 4, st_skip = 0, st_data = [7, 3, 2, 1] @ replicate 60 0\<rparr>"

definition gap_trace :: Stacktrace where
  "gap_trace = \<lparr>st_size = 6, st_skip = 0, st_data = [5, 4, 0, 3, 2, 1] @ replicate 58 0\<rparr>"

lemma other_trace_facts [simp]:
  "stacktrace_ok other_trace" "GetTrace other_trace = [7, 3, 2, 1]" "stacktrace_ok gap_trace" "GetTrace gap_trace = [5, 4, 0, 3, 2, 1]"
  by (simp_all add: other_trace_def gap_trace_def stacktrace_ok_def MaxUnwindDepth_def GetTrace_def)

definition demo_storage2 :: Storage where
  "demo_storage2 = fst (InsertStacktrace demo_storage other_trace)"

lemmas demo_insert = insert_room_def demo_storage2_def demo_storage_def InsertStacktrace_def tree_index_def PostponedConstruct_def
  StacktraceTree_new_def GetPtrId_def push_node_def map_insert_def Let_def

lemma demo_storage2_run: "tracker_run [([5, 4, 3, 2, 1], 5), ([7, 3, 2, 1], 6)] demo_storage2" "insert_room demo_storage2 gap_trace"
proof -
  have "snd (InsertStacktrace demo_storage other_trace) = 6" by (simp add: demo_insert)
  then have "InsertStacktrace demo_storage other_trace = (demo_storage2, 6)" by (simp add: demo_storage2_def prod_eq_iff)
  moreover have "insert_room demo_storage other_trace" by (simp add: demo_insert)
  ultimately show "tracker_run [([5, 4, 3, 2, 1], 5), ([7, 3, 2, 1], 6)] demo_storage2"
    using tracker_run.insert [OF demo_storage_run, of other_trace demo_storage2 6] by simp
  show "insert_room demo_storage2 gap_trace" by (simp add: demo_insert)
qed

theorem tracker_ids_canonical_witness:
  "tracker_run [([5, 4, 3, 2, 1], 5), ([7, 3, 2, 1], 6)] demo_storage2 \<and>
   snd (InsertStacktrace PostponedConstruct demo_trace) \<noteq> snd (InsertStacktrace demo_storage other_trace) \<and>
   InsertStacktrace demo_storage2 gap_trace = (demo_storage2, 5)"
proof -
  have "snd (InsertStacktrace PostponedConstruct demo_trace) = 5" "snd (InsertStacktrace demo_storage other_trace) = 6"
    by (simp_all add: demo_insert)
  then show ?thesis
    using tracker_ids_canonical [OF demo_storage2_run(1), of "[5, 4, 3, 2, 1]" 5 "[7, 3, 2, 1]" 6] demo_storage2_run by auto
qed

end
