(* ===== verification/Bit_Packing.thy ===== *)
theory Bit_Packing
  imports MH_Prelude
begin

text \<open>
  Bit packing of address lists (\<open>src/source/memhawk/src/impl/compression.cpp\<close>). Each address is
  replaced by the difference to its predecessor, split in two 32-bit halves; a half takes 0, 16, 24
  or 32 bits of a data block and a 2-bit size class in a control block. Both blocks live in one word
  buffer, written through two bit iterators.

  A buffer is a list of 32-bit words. A bit iterator keeps its pointer as an offset into the buffer.
  Access outside the buffer is \<open>None\<close>, so the round-trip theorem is also a memory safety theorem.
\<close>

section \<open>The model\<close>

record bit_iter =
  value_ix :: nat \<comment> \<open>the pointer \<open>value\<close>, as an offset into the buffer\<close>
  bitIndex :: nat
  valuePos :: nat

definition new_iter :: bit_iter where
  "new_iter = \<lparr>value_ix = 0, bitIndex = 0, valuePos = 0\<rparr>"

definition AdvanceBytes :: "bit_iter \<Rightarrow> u32 \<Rightarrow> bit_iter" where
  "AdvanceBytes it cnt = it\<lparr>value_ix := value_ix it + unat cnt, valuePos := valuePos it + unat cnt\<rparr>"

definition ValueBitsSize :: nat where
  "ValueBitsSize = 32"

definition ValueBitsMask :: u32 where
  "ValueBitsMask = NOT 0"

datatype SizeBits = Zero | TwoBytes | ThreeBytes | FourBytes

fun SizeBits_value :: "SizeBits \<Rightarrow> u32" where
  "SizeBits_value Zero = 0"
| "SizeBits_value TwoBytes = 1"
| "SizeBits_value ThreeBytes = 2"
| "SizeBits_value FourBytes = 3"

definition shift_left :: "u32 \<Rightarrow> nat \<Rightarrow> u32" where
  "shift_left value count = (if count \<ge> ValueBitsSize then 0 else push_bit count value)"

definition shift_right :: "u32 \<Rightarrow> nat \<Rightarrow> u32" where
  "shift_right value count = (if count \<ge> ValueBitsSize then 0 else drop_bit count value)"

definition ClearBits :: "u32 \<Rightarrow> nat \<Rightarrow> nat \<Rightarrow> u32" where
  "ClearBits value from to =
     (let upper = value AND shift_left ValueBitsMask from;
          lower = upper AND shift_right ValueBitsMask (ValueBitsSize - to)
      in value AND NOT lower)"

definition ClearUnusedBits :: "u32 list \<Rightarrow> bit_iter \<Rightarrow> u32 list option" where
  "ClearUnusedBits buf iter =
     (if bitIndex iter = 0 then Some buf
      else do { w \<leftarrow> rd buf (value_ix iter);
                wr buf (value_ix iter) (ClearBits w (bitIndex iter) ValueBitsSize) })"

text \<open>The end of one round of \<open>EncodeBits\<close> and \<open>DecodeBits\<close>: the iterator moves on.\<close>

definition step_iter :: "bit_iter \<Rightarrow> nat \<Rightarrow> bit_iter" where
  "step_iter iter n =
     (if bitIndex iter + n \<ge> ValueBitsSize
      then \<lparr>value_ix = value_ix iter + 1, bitIndex = 0, valuePos = valuePos iter + 1\<rparr>
      else iter\<lparr>bitIndex := bitIndex iter + n\<rparr>)"

definition cur_bits :: "bit_iter \<Rightarrow> nat \<Rightarrow> nat" where
  "cur_bits iter bitCount =
     (let maxBitDiff = ValueBitsSize - bitIndex iter in
      if maxBitDiff \<ge> bitCount then bitCount else maxBitDiff)"

function EncodeBits :: "u32 list \<Rightarrow> bit_iter \<Rightarrow> nat \<Rightarrow> u32 \<Rightarrow> (u32 list \<times> bit_iter) option" where
  "EncodeBits buf iter bitCount value =
     (if bitCount > 0 then
        (let curBitsCount = cur_bits iter bitCount;
             BitsMask = NOT (shift_left ValueBitsMask curBitsCount);
             curBitsValue = value AND BitsMask
         in do { w \<leftarrow> rd buf (value_ix iter);
                 buf' \<leftarrow> wr buf (value_ix iter)
                   (ClearBits w (bitIndex iter) (bitIndex iter + curBitsCount)
                    OR shift_left curBitsValue (bitIndex iter));
                 EncodeBits buf' (step_iter iter curBitsCount) (bitCount - curBitsCount)
                   (shift_right value curBitsCount) })
      else Some (buf, iter))"
  by pat_completeness auto
termination
  by (relation "measure (\<lambda>(_, it, n, _). 2 * n + (if bitIndex it \<ge> 32 then 1 else 0))")
    (auto simp: cur_bits_def step_iter_def ValueBitsSize_def Let_def)

function decode_loop ::
  "u32 list \<Rightarrow> bit_iter \<Rightarrow> nat \<Rightarrow> u32 \<Rightarrow> nat \<Rightarrow> (bit_iter \<times> u32) option" where
  "decode_loop buf iter bitCount value decodedBits =
     (if bitCount > 0 then
        (let curBitsCount = cur_bits iter bitCount;
             BitsMask = NOT (shift_left ValueBitsMask curBitsCount)
         in do { w \<leftarrow> rd buf (value_ix iter);
                 let curBitsValue = shift_right w (bitIndex iter) AND BitsMask;
                 decode_loop buf (step_iter iter curBitsCount) (bitCount - curBitsCount)
                   (value OR shift_left curBitsValue decodedBits) (decodedBits + curBitsCount) })
      else Some (iter, value))"
  by pat_completeness auto
termination
  by (relation "measure (\<lambda>(_, it, n, _). 2 * n + (if bitIndex it \<ge> 32 then 1 else 0))")
    (auto simp: cur_bits_def step_iter_def ValueBitsSize_def Let_def)

definition DecodeBits :: "u32 list \<Rightarrow> bit_iter \<Rightarrow> nat \<Rightarrow> (bit_iter \<times> u32) option" where
  "DecodeBits buf iter bitCount = decode_loop buf iter bitCount 0 0"

text \<open>The case distinction of \<open>Encode\<close>: the size class and the number of data bits.\<close>

definition size_class :: "u32 \<Rightarrow> SizeBits \<times> nat" where
  "size_class value =
     (if value = 0 then (Zero, 0)
      else if value < 2 ^ 16 then (TwoBytes, 16)
      else if value < 2 ^ 24 then (ThreeBytes, 24)
      else (FourBytes, 32))"

definition Encode ::
  "u32 list \<Rightarrow> bit_iter \<Rightarrow> bit_iter \<Rightarrow> u32 \<Rightarrow> (u32 list \<times> bit_iter \<times> bit_iter) option" where
  "Encode buf controlIter dataIter value =
     (let (sizeBits, bitCount) = size_class value in
      do { (buf1, controlIter') \<leftarrow> EncodeBits buf controlIter 2 (SizeBits_value sizeBits);
           if bitCount \<noteq> 0 then
             do { (buf2, dataIter') \<leftarrow> EncodeBits buf1 dataIter bitCount value;
                  Some (buf2, controlIter', dataIter') }
           else Some (buf1, controlIter', dataIter) })"

definition Decode ::
  "u32 list \<Rightarrow> bit_iter \<Rightarrow> bit_iter \<Rightarrow> (bit_iter \<times> bit_iter \<times> u32) option" where
  "Decode buf controlIter dataIter =
     do { (controlIter', sizeBits) \<leftarrow> DecodeBits buf controlIter 2;
          if sizeBits = SizeBits_value Zero then Some (controlIter', dataIter, 0)
          else if sizeBits = SizeBits_value TwoBytes then
            do { (d, v) \<leftarrow> DecodeBits buf dataIter 16; Some (controlIter', d, v) }
          else if sizeBits = SizeBits_value ThreeBytes then
            do { (d, v) \<leftarrow> DecodeBits buf dataIter 24; Some (controlIter', d, v) }
          else if sizeBits = SizeBits_value FourBytes then
            do { (d, v) \<leftarrow> DecodeBits buf dataIter 32; Some (controlIter', d, v) }
          else None }"

definition CalculateControlBlockSize :: "nat \<Rightarrow> nat" where
  "CalculateControlBlockSize sz =
     (let blockSizeBits = sz * 2 * 2 in (blockSizeBits + ValueBitsSize - 1) div ValueBitsSize)"

definition CalculateMaxExpectedSize :: "u64 list \<Rightarrow> u32" where
  "CalculateMaxExpectedSize inp =
     word_of_nat (1 + length inp * 2 + CalculateControlBlockSize (length inp))"

fun compress_loop ::
  "u32 list \<Rightarrow> bit_iter \<Rightarrow> bit_iter \<Rightarrow> u64 \<Rightarrow> u64 list \<Rightarrow> (u32 list \<times> bit_iter \<times> bit_iter) option" where
  "compress_loop out c d prev [] = Some (out, c, d)"
| "compress_loop out c d prev (cur # rest) =
     (let diff = cur - prev;
          high = ucast (drop_bit 32 diff) :: u32;
          low = ucast diff :: u32
      in do { (out1, c1, d1) \<leftarrow> Encode out c d low;
              (out2, c2, d2) \<leftarrow> Encode out1 c1 d1 high;
              compress_loop out2 c2 d2 cur rest })"

definition Compress :: "u64 list \<Rightarrow> u32 list \<Rightarrow> (u32 list \<times> u32) option" where
  "Compress inp out =
     do { out0 \<leftarrow> wr out 0 (word_of_nat (length inp));
          let controlBlockIter = AdvanceBytes new_iter 1;
          let dataIter = AdvanceBytes new_iter (word_of_nat (1 + CalculateControlBlockSize (length inp)));
          (out1, c, d) \<leftarrow> compress_loop out0 controlBlockIter dataIter 0 inp;
          out2 \<leftarrow> ClearUnusedBits out1 d;
          out3 \<leftarrow> ClearUnusedBits out2 c;
          Some (out3, word_of_nat (if bitIndex d = 0 then valuePos d else valuePos d + 1)) }"

definition resize :: "'a \<Rightarrow> nat \<Rightarrow> 'a list \<Rightarrow> 'a list" where
  "resize z n xs = take n xs @ replicate (n - length xs) z"

definition Compress_vector :: "u64 list \<Rightarrow> u32 list option" where
  "Compress_vector inp =
     do { (out, sz) \<leftarrow> Compress inp (resize 0 (unat (CalculateMaxExpectedSize inp)) []);
          Some (resize 0 (unat sz) out) }"

function decompress_loop ::
  "u32 list \<Rightarrow> bit_iter \<Rightarrow> bit_iter \<Rightarrow> u64 \<Rightarrow> nat \<Rightarrow> nat \<Rightarrow> u64 list \<Rightarrow> u64 list option" where
  "decompress_loop inp c d prev i cnt out =
     (if i < cnt then
        do { (c1, d1, low) \<leftarrow> Decode inp c d;
             (c2, d2, high) \<leftarrow> Decode inp c1 d1;
             let diff = push_bit 32 (ucast high) OR ucast low;
             let cur = prev + diff;
             out' \<leftarrow> wr out i cur;
             decompress_loop inp c2 d2 cur (i + 1) cnt out' }
      else Some out)"
  by pat_completeness auto
termination
  by (relation "measure (\<lambda>(_, _, _, _, i, cnt, _). cnt - i)") auto

definition Decompress :: "u32 list \<Rightarrow> u64 list \<Rightarrow> (u64 list \<times> u32) option" where
  "Decompress inp out =
     do { cnt \<leftarrow> rd inp 0;
          let controlBlockIter = AdvanceBytes new_iter 1;
          let dataIter = AdvanceBytes new_iter (word_of_nat (1 + CalculateControlBlockSize (unat cnt)));
          out' \<leftarrow> decompress_loop inp controlBlockIter dataIter 0 0 (unat cnt) out;
          Some (out', cnt) }"

definition Decompress_vector :: "u32 list \<Rightarrow> u64 list option" where
  "Decompress_vector inp =
     do { cnt \<leftarrow> rd inp 0;
          (out, _) \<leftarrow> Decompress inp (resize 0 (unat cnt) []);
          Some out }"

declare EncodeBits.simps [simp del] decode_loop.simps [simp del] decompress_loop.simps [simp del]

section \<open>Bits of a word buffer\<close>

text \<open>\<open>gbit buf i\<close> is bit \<open>i\<close> of the buffer, counted from the low bit of its first word.\<close>

definition gbit :: "u32 list \<Rightarrow> nat \<Rightarrow> bool" where
  "gbit buf i = bit (buf ! (i div 32)) (i mod 32)"

definition bitpos :: "bit_iter \<Rightarrow> nat" where
  "bitpos it = 32 * value_ix it + bitIndex it"

text \<open>The invariant of an iterator: it points into a word, and its two counters agree.\<close>

definition iter_ok :: "bit_iter \<Rightarrow> bool" where
  "iter_ok it \<longleftrightarrow> bitIndex it < 32 \<and> valuePos it = value_ix it"

lemma buffer_eq_iff:
  assumes "length xs = length ys"
  shows "xs = ys \<longleftrightarrow> (\<forall>i < 32 * length xs. gbit xs i = gbit ys i)"
proof (intro iffI nth_equalityI)
  assume bits: "\<forall>i < 32 * length xs. gbit xs i = gbit ys i"
  fix w assume w: "w < length xs"
  show "xs ! w = ys ! w"
  proof (rule bit_word_eqI)
    fix k assume "k < LENGTH(32)"
    with w have "32 * w + k < 32 * length xs" by simp
    with bits have "gbit xs (32 * w + k) = gbit ys (32 * w + k)" by blast
    with \<open>k < LENGTH(32)\<close> show "bit (xs ! w) k = bit (ys ! w) k" by (simp add: gbit_def)
  qed
qed (use assms in auto)

lemma bit_shift_left [bit_access]: "bit (shift_left v c) k \<longleftrightarrow> k < 32 \<and> c \<le> k \<and> bit v (k - c)"
  by (auto simp: shift_left_def ValueBitsSize_def bit_push_bit_iff)

lemma bit_shift_right [bit_access]: "bit (shift_right v c) k \<longleftrightarrow> bit v (k + c)"
proof -
  have "\<not> bit v (k + c)" if "32 \<le> c"
    using that bit_imp_le_length [of v "k + c"] by auto
  then show ?thesis
    by (auto simp: shift_right_def ValueBitsSize_def bit_drop_bit_eq add.commute)
qed

lemma bit_ValueBitsMask [bit_access]: "bit ValueBitsMask k \<longleftrightarrow> k < 32"
  by (simp add: ValueBitsMask_def bit_not_iff)

lemma bit_ClearBits [bit_access]:
  assumes "to \<le> 32"
  shows "bit (ClearBits v from to) k \<longleftrightarrow> bit v k \<and> \<not> (from \<le> k \<and> k < to)"
  using assms bit_imp_le_length [of v k]
  by (auto simp: ClearBits_def Let_def bit_and_iff bit_or_iff bit_not_iff bit_access ValueBitsSize_def)

lemma cur_bits_bounds:
  assumes "bitIndex it < 32" "0 < n"
  shows "0 < cur_bits it n" "cur_bits it n \<le> n" "bitIndex it + cur_bits it n \<le> 32"
  using assms by (auto simp: cur_bits_def Let_def ValueBitsSize_def)

lemma step_iter_ok:
  assumes "iter_ok it" "bitIndex it + n \<le> 32"
  shows "iter_ok (step_iter it n)" "bitpos (step_iter it n) = bitpos it + n"
  using assms by (auto simp: step_iter_def iter_ok_def bitpos_def ValueBitsSize_def)

lemma div_mod_in_word:
  fixes i :: nat
  assumes "b + c \<le> 32"
  shows "32 * w + b \<le> i \<and> i < 32 * w + b + c \<longleftrightarrow> i div 32 = w \<and> b \<le> i mod 32 \<and> i mod 32 < b + c"
proof -
  obtain q r where i: "i = 32 * q + r" "r < 32"
    using mult_div_mod_eq [of 32 i] by (metis mod_less_divisor zero_less_numeral)
  then have dm: "i div 32 = q" "i mod 32 = r" by simp_all
  have q: "q = w" if "32 * w + b \<le> i" "i < 32 * w + b + c"
  proof -
    have "\<not> q < w" "\<not> w < q" using that assms i by linarith+
    then show ?thesis by simp
  qed
  show ?thesis unfolding dm using q i by auto
qed

text \<open>The word that one round of \<open>EncodeBits\<close> stores.\<close>

lemma bit_encoded_word:
  assumes "b + c \<le> 32" "k < 32"
  shows "bit (ClearBits w b (b + c) OR shift_left (v AND NOT (shift_left ValueBitsMask c)) b) k \<longleftrightarrow>
    (if b \<le> k \<and> k < b + c then bit v (k - b) else bit w k)"
  using assms by (auto simp: bit_or_iff bit_and_iff bit_not_iff bit_access)

lemma gbit_update_word:
  assumes "w < length buf" "i < 32 * length buf"
  shows "gbit (buf[w := x]) i = (if i div 32 = w then bit x (i mod 32) else gbit buf i)"
  using assms by (simp add: gbit_def nth_list_update)

text \<open>The bits after the part of the value that fits into the current word is written.\<close>

lemma encoded_first_word:
  assumes "iter_ok it" "value_ix it < length buf" "0 < n" "i < 32 * length buf"
  shows "gbit (buf[value_ix it := ClearBits (buf ! value_ix it) (bitIndex it) (bitIndex it + cur_bits it n) OR
      shift_left (v AND NOT (shift_left ValueBitsMask (cur_bits it n))) (bitIndex it)]) i =
    (if bitpos it \<le> i \<and> i < bitpos it + cur_bits it n then bit v (i - bitpos it) else gbit buf i)"
proof -
  let ?c = "cur_bits it n" and ?w = "value_ix it" and ?b = "bitIndex it"
  let ?x = "ClearBits (buf ! ?w) ?b (?b + ?c) OR shift_left (v AND NOT (shift_left ValueBitsMask ?c)) ?b"
  have b: "?b < 32" using assms(1) by (simp add: iter_ok_def)
  note c = cur_bits_bounds [OF b, of n]
  have pos: "bitpos it \<le> i \<and> i < bitpos it + ?c \<longleftrightarrow> i div 32 = ?w \<and> ?b \<le> i mod 32 \<and> i mod 32 < ?b + ?c"
    using div_mod_in_word [of ?b ?c ?w i] c assms(3) by (simp add: bitpos_def)
  have off: "i - bitpos it = i mod 32 - ?b" if "i div 32 = ?w"
    using that mult_div_mod_eq [of 32 i] by (simp add: bitpos_def)
  have "gbit (buf[?w := ?x]) i = (if i div 32 = ?w then bit ?x (i mod 32) else gbit buf i)"
    using assms(4,2) by (rule gbit_update_word [rotated])
  moreover have "bit ?x (i mod 32) =
      (if ?b \<le> i mod 32 \<and> i mod 32 < ?b + ?c then bit v (i mod 32 - ?b) else bit (buf ! ?w) (i mod 32))"
    using c assms(3) by (intro bit_encoded_word) auto
  ultimately show ?thesis using off by (cases "i div 32 = ?w") (simp_all add: pos gbit_def)
qed

lemma EncodeBits_spec:
  assumes "iter_ok it" "bitpos it + n \<le> 32 * length buf"
  shows "\<exists>buf' it'. EncodeBits buf it n v = Some (buf', it') \<and> iter_ok it' \<and>
    bitpos it' = bitpos it + n \<and> length buf' = length buf \<and>
    (\<forall>i < 32 * length buf. gbit buf' i =
       (if bitpos it \<le> i \<and> i < bitpos it + n then bit v (i - bitpos it) else gbit buf i))"
  using assms
proof (induction n arbitrary: buf it v rule: less_induct)
  case (less n)
  show ?case
  proof (cases "n = 0")
    case True
    with less.prems show ?thesis by (subst EncodeBits.simps) auto
  next
    case False
    let ?c = "cur_bits it n" and ?w = "value_ix it" and ?b = "bitIndex it"
    let ?x = "ClearBits (buf ! ?w) ?b (?b + ?c) OR shift_left (v AND NOT (shift_left ValueBitsMask ?c)) ?b"
    let ?buf = "buf[?w := ?x]" and ?it = "step_iter it ?c"
    have b: "?b < 32" using less.prems by (simp add: iter_ok_def)
    note c = cur_bits_bounds [OF b, of n]
    have w: "?w < length buf" using less.prems False by (simp add: bitpos_def)
    have it': "iter_ok ?it" "bitpos ?it = bitpos it + ?c"
      using step_iter_ok [of it ?c] less.prems c False by auto
    have first: "gbit ?buf i = (if bitpos it \<le> i \<and> i < bitpos it + ?c then bit v (i - bitpos it) else gbit buf i)"
      if "i < 32 * length buf" for i
      using encoded_first_word [OF less.prems(1) w _ that] False by simp
    have "bitpos ?it + (n - ?c) \<le> 32 * length ?buf" "n - ?c < n"
      using less.prems it' c False by auto
    then obtain buf' it'' where rest:
      "EncodeBits ?buf ?it (n - ?c) (shift_right v ?c) = Some (buf', it'')" "iter_ok it''"
      "bitpos it'' = bitpos it + n" "length buf' = length buf"
      "\<forall>i < 32 * length buf. gbit buf' i =
        (if bitpos ?it \<le> i \<and> i < bitpos it + n then bit (shift_right v ?c) (i - bitpos ?it) else gbit ?buf i)"
      using less.IH [of "n - ?c" ?it ?buf "shift_right v ?c"] it' c False by auto
    have "gbit buf' i = (if bitpos it \<le> i \<and> i < bitpos it + n then bit v (i - bitpos it) else gbit buf i)"
      if "i < 32 * length buf" for i
      using rest(5) [rule_format, OF that] first [OF that] it'(2) c False by (auto simp: bit_access)
    then show ?thesis
      using rest(1-4) False w
      by (intro exI [of _ buf'] exI [of _ it'']) (subst EncodeBits.simps, auto simp: Let_def access_simps)
  qed
qed

lemma decode_loop_spec:
  assumes "iter_ok it" "bitpos it + n \<le> 32 * length buf" "m + n \<le> 32"
  shows "\<exists>it' v'. decode_loop buf it n v m = Some (it', v') \<and> iter_ok it' \<and> bitpos it' = bitpos it + n \<and>
    (\<forall>k. bit v' k \<longleftrightarrow> bit v k \<or> m \<le> k \<and> k < m + n \<and> gbit buf (bitpos it + (k - m)))"
  using assms
proof (induction n arbitrary: it v m rule: less_induct)
  case (less n)
  show ?case
  proof (cases "n = 0")
    case True
    with less.prems show ?thesis by (subst decode_loop.simps) auto
  next
    case False
    let ?c = "cur_bits it n" and ?w = "value_ix it" and ?b = "bitIndex it"
    let ?x = "shift_right (buf ! ?w) ?b AND NOT (shift_left ValueBitsMask ?c)"
    let ?v = "v OR shift_left ?x m" and ?it = "step_iter it ?c"
    have b: "?b < 32" using less.prems by (simp add: iter_ok_def)
    note c = cur_bits_bounds [OF b, of n]
    have w: "?w < length buf" using less.prems False by (simp add: bitpos_def)
    have it': "iter_ok ?it" "bitpos ?it = bitpos it + ?c"
      using step_iter_ok [of it ?c] less.prems c False by auto
    have word: "gbit buf (bitpos it + j) = bit (buf ! ?w) (?b + j)" if "?b + j < 32" for j
      using that by (simp add: gbit_def bitpos_def add.assoc)
    have v: "bit ?v k \<longleftrightarrow> bit v k \<or> m \<le> k \<and> k < m + ?c \<and> gbit buf (bitpos it + (k - m))" for k
      using c False less.prems word [of "k - m"] bit_imp_le_length [of v k]
      by (auto simp: bit_or_iff bit_and_iff bit_not_iff bit_access add.commute)
    have "bitpos ?it + (n - ?c) \<le> 32 * length buf" "n - ?c < n" "m + ?c + (n - ?c) \<le> 32"
      using less.prems it' c False by auto
    then obtain it'' v' where rest: "decode_loop buf ?it (n - ?c) ?v (m + ?c) = Some (it'', v')"
      "iter_ok it''" "bitpos it'' = bitpos it + n"
      "\<forall>k. bit v' k \<longleftrightarrow> bit ?v k \<or> m + ?c \<le> k \<and> k < m + n \<and> gbit buf (bitpos ?it + (k - (m + ?c)))"
      using less.IH [of "n - ?c" ?it "m + ?c" ?v] it' c False by auto
    have "bit v' k \<longleftrightarrow> bit v k \<or> m \<le> k \<and> k < m + n \<and> gbit buf (bitpos it + (k - m))" for k
      using rest(4) [rule_format, of k] v [of k] it'(2) c False by auto
    then show ?thesis
      using rest(1-3) False w
      by (intro exI [of _ it''] exI [of _ v']) (subst decode_loop.simps, auto simp: Let_def access_simps)
  qed
qed

lemma DecodeBits_spec:
  assumes "iter_ok it" "bitpos it + n \<le> 32 * length buf" "n \<le> 32"
  shows "\<exists>it' v. DecodeBits buf it n = Some (it', v) \<and> iter_ok it' \<and> bitpos it' = bitpos it + n \<and>
    (\<forall>k. bit v k \<longleftrightarrow> k < n \<and> gbit buf (bitpos it + k))"
  using decode_loop_spec [of it n buf 0 0] assms by (simp add: DecodeBits_def)

section \<open>Encoded values in a buffer\<close>

definition code_of :: "u32 \<Rightarrow> u32" where
  "code_of v = SizeBits_value (fst (size_class v))"

definition bits_of :: "u32 \<Rightarrow> nat" where
  "bits_of v = snd (size_class v)"

lemma bits_of_le: "bits_of v \<le> 32"
  by (simp add: bits_of_def size_class_def)

lemma bit_lt_of_less:
  fixes v :: u32
  assumes "unat v < 2 ^ n" "bit v k"
  shows "k < n"
proof -
  from assms(1) have "take_bit n (unat v) = unat v" by (simp add: take_bit_nat_eq_self)
  then have "bit (unat v) k \<longleftrightarrow> k < n \<and> bit (unat v) k" by (metis bit_take_bit_iff)
  with assms(2) show ?thesis by (simp add: bit_unsigned_iff)
qed

lemma bit_bits_of: "bit v k \<Longrightarrow> k < bits_of v"
  using bit_lt_of_less [of v 16 k] bit_lt_of_less [of v 24 k] bit_imp_le_length [of v k]
  by (auto simp: bits_of_def size_class_def word_less_nat_alt split: if_splits)

text \<open>
  \<open>encoded buf c d ws\<close>: from bit \<open>c\<close> on the buffer holds the size classes of \<open>ws\<close>, and from bit \<open>d\<close>
  on their data bits.
\<close>

fun encoded :: "u32 list \<Rightarrow> nat \<Rightarrow> nat \<Rightarrow> u32 list \<Rightarrow> bool" where
  "encoded buf c d [] = True"
| "encoded buf c d (w # ws) =
     ((\<forall>k<2. gbit buf (c + k) = bit (code_of w) k) \<and> (\<forall>k<bits_of w. gbit buf (d + k) = bit w k) \<and>
      encoded buf (c + 2) (d + bits_of w) ws)"

definition total_bits :: "u32 list \<Rightarrow> nat" where
  "total_bits ws = sum_list (map bits_of ws)"

lemma total_bits_simps [simp]: "total_bits [] = 0" "total_bits (w # ws) = bits_of w + total_bits ws"
  by (simp_all add: total_bits_def)

lemma encoded_cong:
  assumes "\<And>i. c \<le> i \<Longrightarrow> i < c + 2 * length ws \<Longrightarrow> gbit buf i = gbit buf' i"
    and "\<And>i. d \<le> i \<Longrightarrow> i < d + total_bits ws \<Longrightarrow> gbit buf i = gbit buf' i"
  shows "encoded buf c d ws = encoded buf' c d ws"
  using assms
proof (induction ws arbitrary: c d)
  case (Cons w ws)
  have "encoded buf (c + 2) (d + bits_of w) ws = encoded buf' (c + 2) (d + bits_of w) ws"
    using Cons.prems by (intro Cons.IH) auto
  then show ?case using Cons.prems by auto
qed simp

lemma encoded_unique:
  assumes "encoded buf c d ws" "encoded buf' c d ws"
  shows "\<forall>i. c \<le> i \<and> i < c + 2 * length ws \<longrightarrow> gbit buf i = gbit buf' i"
    and "\<forall>i. d \<le> i \<and> i < d + total_bits ws \<longrightarrow> gbit buf i = gbit buf' i"
proof -
  have "(\<forall>i. c \<le> i \<and> i < c + 2 * length ws \<longrightarrow> gbit buf i = gbit buf' i) \<and>
    (\<forall>i. d \<le> i \<and> i < d + total_bits ws \<longrightarrow> gbit buf i = gbit buf' i)"
    using assms
  proof (induction ws arbitrary: c d)
    case (Cons w ws)
    have IH: "gbit buf i = gbit buf' i" if "c + 2 \<le> i" "i < c + 2 + 2 * length ws" for i
      using Cons.IH [of "c + 2" "d + bits_of w"] Cons.prems that by simp
    have IH': "gbit buf i = gbit buf' i"
      if "d + bits_of w \<le> i" "i < d + bits_of w + total_bits ws" for i
      using Cons.IH [of "c + 2" "d + bits_of w"] Cons.prems that by simp
    have C: "gbit buf i = gbit buf' i" if "c \<le> i" "i < c + 2" for i
      using Cons.prems that by (auto dest!: spec [of _ "i - c"])
    have D: "gbit buf i = gbit buf' i" if "d \<le> i" "i < d + bits_of w" for i
      using Cons.prems that by (auto dest!: spec [of _ "i - d"])
    show ?case
    proof (intro conjI allI impI)
      fix i assume "c \<le> i \<and> i < c + 2 * length (w # ws)"
      then show "gbit buf i = gbit buf' i" using C [of i] IH [of i] by (cases "i < c + 2") auto
    next
      fix i assume "d \<le> i \<and> i < d + total_bits (w # ws)"
      then show "gbit buf i = gbit buf' i" using D [of i] IH' [of i] by (cases "i < d + bits_of w") auto
    qed
  qed auto
  then show "\<forall>i. c \<le> i \<and> i < c + 2 * length ws \<longrightarrow> gbit buf i = gbit buf' i"
    and "\<forall>i. d \<le> i \<and> i < d + total_bits ws \<longrightarrow> gbit buf i = gbit buf' i" by auto
qed

lemma Encode_spec:
  assumes "iter_ok ci" "iter_ok di" "bitpos ci + 2 \<le> bitpos di"
    and "bitpos di + bits_of v \<le> 32 * length buf"
  shows "\<exists>buf' ci' di'. Encode buf ci di v = Some (buf', ci', di') \<and> iter_ok ci' \<and> iter_ok di' \<and>
    bitpos ci' = bitpos ci + 2 \<and> bitpos di' = bitpos di + bits_of v \<and> length buf' = length buf \<and>
    (\<forall>i < 32 * length buf. gbit buf' i =
      (if bitpos ci \<le> i \<and> i < bitpos ci + 2 then bit (code_of v) (i - bitpos ci)
       else if bitpos di \<le> i \<and> i < bitpos di + bits_of v then bit v (i - bitpos di) else gbit buf i))"
proof -
  obtain buf1 ci' where c: "EncodeBits buf ci 2 (code_of v) = Some (buf1, ci')" "iter_ok ci'"
    "bitpos ci' = bitpos ci + 2" "length buf1 = length buf"
    "\<forall>i < 32 * length buf. gbit buf1 i =
       (if bitpos ci \<le> i \<and> i < bitpos ci + 2 then bit (code_of v) (i - bitpos ci) else gbit buf i)"
    using EncodeBits_spec [of ci 2 buf "code_of v"] assms by auto
  obtain buf2 di' where d: "EncodeBits buf1 di (bits_of v) v = Some (buf2, di')" "iter_ok di'"
    "bitpos di' = bitpos di + bits_of v" "length buf2 = length buf"
    "\<forall>i < 32 * length buf. gbit buf2 i =
       (if bitpos di \<le> i \<and> i < bitpos di + bits_of v then bit v (i - bitpos di) else gbit buf1 i)"
    using EncodeBits_spec [of di "bits_of v" buf1 v] assms c by auto
  have "Encode buf ci di v = Some (buf2, ci', di')"
  proof (cases "bits_of v = 0")
    case True
    with d(1) have "buf1 = buf2" "di = di'" by (simp_all add: EncodeBits.simps)
    with True c(1) show ?thesis
      by (auto simp: Encode_def bits_of_def code_of_def split: prod.splits)
  next
    case False
    with c(1) d(1) show ?thesis
      by (auto simp: Encode_def bits_of_def code_of_def split: prod.splits)
  qed
  moreover have "gbit buf2 i = (if bitpos ci \<le> i \<and> i < bitpos ci + 2 then bit (code_of v) (i - bitpos ci)
       else if bitpos di \<le> i \<and> i < bitpos di + bits_of v then bit v (i - bitpos di) else gbit buf i)"
    if "i < 32 * length buf" for i
    using c(5) d(5) that assms(3) by auto
  ultimately show ?thesis using c d by blast
qed

lemma Decode_spec:
  assumes "encoded buf (bitpos ci) (bitpos di) (w # ws)" "iter_ok ci" "iter_ok di"
    and "bitpos ci + 2 \<le> 32 * length buf" "bitpos di + bits_of w \<le> 32 * length buf"
  shows "\<exists>ci' di'. Decode buf ci di = Some (ci', di', w) \<and> iter_ok ci' \<and> iter_ok di' \<and>
    bitpos ci' = bitpos ci + 2 \<and> bitpos di' = bitpos di + bits_of w"
proof -
  obtain ci' x where c: "DecodeBits buf ci 2 = Some (ci', x)" "iter_ok ci'" "bitpos ci' = bitpos ci + 2"
    "\<forall>k. bit x k \<longleftrightarrow> k < 2 \<and> gbit buf (bitpos ci + k)"
    using DecodeBits_spec [of ci 2 buf] assms by auto
  have small: "k < 2" if "bit (code_of w) k" for k
  proof -
    have "unat (code_of w) < 2 ^ 2" by (simp add: code_of_def size_class_def)
    with that show ?thesis by (rule bit_lt_of_less [rotated])
  qed
  then have x: "x = code_of w"
    using c(4) assms(1) by (intro bit_eqI) auto
  obtain di' y where d: "DecodeBits buf di (bits_of w) = Some (di', y)" "iter_ok di'"
    "bitpos di' = bitpos di + bits_of w" "\<forall>k. bit y k \<longleftrightarrow> k < bits_of w \<and> gbit buf (bitpos di + k)"
    using DecodeBits_spec [of di "bits_of w" buf] assms bits_of_le by blast
  have y: "y = w"
    using d(4) assms(1) bit_bits_of [of w] by (intro bit_eqI) auto
  have "Decode buf ci di = Some (ci', di', w)"
  proof (cases "w = 0")
    case True
    then have "di' = di" using d(1) by (simp add: DecodeBits_def bits_of_def size_class_def decode_loop.simps)
    with True c(1) x show ?thesis
      by (simp add: Decode_def code_of_def size_class_def)
  next
    case False
    with c(1) d(1) x y show ?thesis
      by (auto simp: Decode_def code_of_def bits_of_def size_class_def split: if_splits)
  qed
  with c d show ?thesis by blast
qed

section \<open>The halves of the differences\<close>

fun halves :: "u64 \<Rightarrow> u64 list \<Rightarrow> u32 list" where
  "halves prev [] = []"
| "halves prev (cur # rest) = ucast (cur - prev) # ucast (drop_bit 32 (cur - prev)) # halves cur rest"

lemma length_halves [simp]: "length (halves prev xs) = 2 * length xs"
  by (induction xs arbitrary: prev) auto

lemma total_bits_halves: "total_bits (halves prev xs) \<le> 64 * length xs"
proof (induction xs arbitrary: prev)
  case (Cons x xs)
  have "bits_of (ucast (x - prev)) \<le> 32" "bits_of (ucast (drop_bit 32 (x - prev))) \<le> 32"
    by (rule bits_of_le)+
  with Cons.IH [of x] show ?case by simp
qed simp

lemma join_halves:
  fixes x :: u64
  shows "push_bit 32 (ucast (ucast (drop_bit 32 x) :: u32)) OR ucast (ucast x :: u32) = x"
  by (rule bit_word_eqI)
    (auto simp: bit_or_iff bit_push_bit_iff bit_ucast_iff bit_drop_bit_eq not_le)

text \<open>Writing a list of values one after the other, which is what the compression loop does.\<close>

fun encode_all ::
  "u32 list \<Rightarrow> bit_iter \<Rightarrow> bit_iter \<Rightarrow> u32 list \<Rightarrow> (u32 list \<times> bit_iter \<times> bit_iter) option" where
  "encode_all buf ci di [] = Some (buf, ci, di)"
| "encode_all buf ci di (w # ws) =
     do { (buf', ci', di') \<leftarrow> Encode buf ci di w; encode_all buf' ci' di' ws }"

lemma compress_loop_encode_all: "compress_loop buf ci di prev xs = encode_all buf ci di (halves prev xs)"
  by (induction xs arbitrary: buf ci di prev) (auto simp: Let_def intro!: Option.bind_cong)

lemma encode_all_spec:
  assumes "iter_ok ci" "iter_ok di" "bitpos ci + 2 * length ws \<le> bitpos di"
    and "bitpos di + total_bits ws \<le> 32 * length buf"
  shows "\<exists>buf' ci' di'. encode_all buf ci di ws = Some (buf', ci', di') \<and> iter_ok ci' \<and> iter_ok di' \<and>
    bitpos ci' = bitpos ci + 2 * length ws \<and> bitpos di' = bitpos di + total_bits ws \<and>
    length buf' = length buf \<and> encoded buf' (bitpos ci) (bitpos di) ws \<and>
    (\<forall>i < 32 * length buf. i < bitpos ci \<or> bitpos ci + 2 * length ws \<le> i \<and> i < bitpos di \<or>
       bitpos di + total_bits ws \<le> i \<longrightarrow> gbit buf' i = gbit buf i)"
  using assms
proof (induction ws arbitrary: buf ci di)
  case (Cons w ws)
  obtain buf1 ci1 di1 where e: "Encode buf ci di w = Some (buf1, ci1, di1)" "iter_ok ci1" "iter_ok di1"
    "bitpos ci1 = bitpos ci + 2" "bitpos di1 = bitpos di + bits_of w" "length buf1 = length buf"
    "\<forall>i < 32 * length buf. gbit buf1 i =
      (if bitpos ci \<le> i \<and> i < bitpos ci + 2 then bit (code_of w) (i - bitpos ci)
       else if bitpos di \<le> i \<and> i < bitpos di + bits_of w then bit w (i - bitpos di) else gbit buf i)"
    using Encode_spec [of ci di w buf] Cons.prems by auto
  obtain buf2 ci2 di2 where r: "encode_all buf1 ci1 di1 ws = Some (buf2, ci2, di2)" "iter_ok ci2"
    "iter_ok di2" "bitpos ci2 = bitpos ci + 2 + 2 * length ws"
    "bitpos di2 = bitpos di + bits_of w + total_bits ws" "length buf2 = length buf"
    "encoded buf2 (bitpos ci + 2) (bitpos di + bits_of w) ws"
    "\<forall>i < 32 * length buf. i < bitpos ci + 2 \<or> bitpos ci + 2 + 2 * length ws \<le> i \<and> i < bitpos di + bits_of w \<or>
       bitpos di + bits_of w + total_bits ws \<le> i \<longrightarrow> gbit buf2 i = gbit buf1 i"
    using Cons.IH [of ci1 di1 buf1] Cons.prems e by auto
  have "gbit buf2 (bitpos ci + k) = bit (code_of w) k" if "k < 2" for k
    using that r(8) e(7) Cons.prems by auto
  moreover have "gbit buf2 (bitpos di + k) = bit w k" if "k < bits_of w" for k
    using that r(8) e(7) Cons.prems by auto
  ultimately have "encoded buf2 (bitpos ci) (bitpos di) (w # ws)" using r(7) by simp
  moreover have "gbit buf2 i = gbit buf i"
    if "i < 32 * length buf" "i < bitpos ci \<or> bitpos ci + 2 * length (w # ws) \<le> i \<and> i < bitpos di \<or>
       bitpos di + total_bits (w # ws) \<le> i" for i
    using that r(8) e(7) Cons.prems by auto
  ultimately show ?case using e r by auto
qed simp

lemma decompress_loop_spec:
  assumes "encoded buf (bitpos ci) (bitpos di) (halves prev xs)" "iter_ok ci" "iter_ok di"
    and "bitpos ci + 4 * length xs \<le> 32 * length buf"
    and "bitpos di + total_bits (halves prev xs) \<le> 32 * length buf" "i + length xs \<le> length out"
  shows "decompress_loop buf ci di prev i (i + length xs) out =
    Some (take i out @ xs @ drop (i + length xs) out)"
  using assms
proof (induction xs arbitrary: ci di prev i out)
  case Nil
  then show ?case by (simp add: decompress_loop.simps)
next
  case (Cons x xs)
  let ?lo = "ucast (x - prev) :: u32" and ?hi = "ucast (drop_bit 32 (x - prev)) :: u32"
  obtain c1 d1 where lo: "Decode buf ci di = Some (c1, d1, ?lo)" "iter_ok c1" "iter_ok d1"
    "bitpos c1 = bitpos ci + 2" "bitpos d1 = bitpos di + bits_of ?lo"
    using Decode_spec [of buf ci di ?lo "?hi # halves x xs"] Cons.prems by auto
  obtain c2 d2 where hi: "Decode buf c1 d1 = Some (c2, d2, ?hi)" "iter_ok c2" "iter_ok d2"
    "bitpos c2 = bitpos c1 + 2" "bitpos d2 = bitpos d1 + bits_of ?hi"
    using Decode_spec [of buf c1 d1 ?hi "halves x xs"] Cons.prems lo by auto
  have "decompress_loop buf c2 d2 x (i + 1) (i + 1 + length xs) (out[i := x]) =
      Some (take (i + 1) (out[i := x]) @ xs @ drop (i + 1 + length xs) (out[i := x]))"
    using Cons.prems lo hi by (intro Cons.IH) auto
  moreover have "take (i + 1) (out[i := x]) = take i out @ [x]"
    using Cons.prems by (simp add: take_Suc_conv_app_nth)
  ultimately show ?case
    using Cons.prems lo hi
    by (subst decompress_loop.simps) (simp add: access_simps join_halves)
qed

section \<open>Clearing and the size of the result\<close>

definition word_end :: "bit_iter \<Rightarrow> nat" where
  "word_end it = (if bitIndex it = 0 then value_ix it else value_ix it + 1)"

lemma ClearUnusedBits_spec:
  assumes "iter_ok it" "word_end it \<le> length buf"
  shows "\<exists>buf'. ClearUnusedBits buf it = Some buf' \<and> length buf' = length buf \<and>
    (\<forall>i < 32 * length buf. gbit buf' i \<longleftrightarrow> gbit buf i \<and> \<not> (bitpos it \<le> i \<and> i < 32 * word_end it))"
proof (cases "bitIndex it = 0")
  case True
  then show ?thesis by (auto simp: ClearUnusedBits_def bitpos_def word_end_def)
next
  case False
  let ?b = "bitIndex it" and ?w = "value_ix it"
  have w: "?w < length buf" using assms False by (simp add: word_end_def)
  have b: "?b < 32" using assms by (simp add: iter_ok_def)
  have "gbit (buf[?w := ClearBits (buf ! ?w) ?b 32]) i \<longleftrightarrow>
      gbit buf i \<and> \<not> (bitpos it \<le> i \<and> i < 32 * word_end it)" if "i < 32 * length buf" for i
  proof -
    have pos: "bitpos it \<le> i \<and> i < 32 * word_end it \<longleftrightarrow> i div 32 = ?w \<and> ?b \<le> i mod 32"
      using div_mod_in_word [of ?b "32 - ?b" ?w i] b False by (simp add: bitpos_def word_end_def add.commute)
    show ?thesis
      using that w by (simp add: gbit_update_word bit_access pos) (simp add: gbit_def)
  qed
  with False w show ?thesis
    by (simp add: ClearUnusedBits_def access_simps ValueBitsSize_def)
qed

lemma word_end_bitpos: "iter_ok it \<Longrightarrow> word_end it = (bitpos it + 31) div 32"
  by (auto simp: word_end_def iter_ok_def bitpos_def)

text \<open>
  What \<open>Compress\<close> leaves in the buffer: the element count, the control block padded with zero bits,
  and the data block padded with zero bits to whole words.
\<close>

definition data_start :: "nat \<Rightarrow> nat" where
  "data_start n = 32 * (1 + CalculateControlBlockSize n)"

definition compressed :: "u64 list \<Rightarrow> u32 list \<Rightarrow> nat \<Rightarrow> bool" where
  "compressed inp out sz \<longleftrightarrow>
     (let n = length inp; D = data_start n; E = D + total_bits (halves 0 inp) in
      sz = (E + 31) div 32 \<and> sz \<le> length out \<and> out ! 0 = word_of_nat n \<and>
      encoded out 32 D (halves 0 inp) \<and>
      (\<forall>i. 32 + 4 * n \<le> i \<and> i < D \<longrightarrow> \<not> gbit out i) \<and>
      (\<forall>i. E \<le> i \<and> i < 32 * sz \<longrightarrow> \<not> gbit out i))"

lemma data_start_bounds: "32 + 4 * n \<le> data_start n" "data_start n = 32 * ((32 + 4 * n + 31) div 32)"
proof -
  have "(63 + 4 * n) div 32 = 1 + (31 + 4 * n) div 32"
    using div_add_self1 [of 32 "31 + 4 * n"] by simp
  then show "32 + 4 * n \<le> data_start n" "data_start n = 32 * ((32 + 4 * n + 31) div 32)"
    by (auto simp: data_start_def CalculateControlBlockSize_def ValueBitsSize_def Let_def add.commute)
qed

text \<open>Clearing the unused bits behind the data and behind the control block.\<close>

lemma clear_both:
  assumes "iter_ok c" "iter_ok d" "word_end c \<le> length out" "word_end d \<le> length out"
  obtains out2 out3 where "ClearUnusedBits out d = Some out2" "ClearUnusedBits out2 c = Some out3" "length out3 = length out"
    "\<forall>i < 32 * length out. gbit out3 i \<longleftrightarrow>
       gbit out i \<and> \<not> (bitpos d \<le> i \<and> i < 32 * word_end d) \<and> \<not> (bitpos c \<le> i \<and> i < 32 * word_end c)"
proof -
  obtain out2 where o2: "ClearUnusedBits out d = Some out2" "length out2 = length out"
    "\<forall>i < 32 * length out. gbit out2 i \<longleftrightarrow> gbit out i \<and> \<not> (bitpos d \<le> i \<and> i < 32 * word_end d)"
    using ClearUnusedBits_spec [OF assms(2,4)] by auto
  obtain out3 where o3: "ClearUnusedBits out2 c = Some out3" "length out3 = length out"
    "\<forall>i < 32 * length out. gbit out3 i \<longleftrightarrow> gbit out2 i \<and> \<not> (bitpos c \<le> i \<and> i < 32 * word_end c)"
    using ClearUnusedBits_spec [OF assms(1), of out2] assms(3) o2(2) by auto
  show thesis using that [OF o2(1) o3(1,2)] o2(3) o3(3) by auto
qed

lemma Compress_compressed:
  assumes small: "1 + CalculateControlBlockSize (length inp) + 2 * length inp < 2 ^ 32"
    and room: "1 + CalculateControlBlockSize (length inp) + 2 * length inp \<le> length out"
  shows "\<exists>out' sz. Compress inp out = Some (out', sz) \<and> length out' = length out \<and>
    compressed inp out' (unat sz) \<and> unat sz \<le> 1 + CalculateControlBlockSize (length inp) + 2 * length inp"
proof -
  let ?n = "length inp" and ?ws = "halves 0 inp"
  let ?cb = "CalculateControlBlockSize ?n" and ?D = "data_start (length inp)"
  let ?out0 = "out[0 := word_of_nat ?n]"
  let ?ci = "AdvanceBytes new_iter 1" and ?di = "AdvanceBytes new_iter (word_of_nat (1 + ?cb))"
  have "unat (word_of_nat (1 + ?cb) :: u32) = 1 + ?cb" using small by (simp add: unat_of_nat del: of_nat_Suc)
  then have it: "iter_ok ?ci" "iter_ok ?di" "bitpos ?ci = 32" "bitpos ?di = ?D"
    by (simp_all add: iter_ok_def bitpos_def AdvanceBytes_def new_iter_def data_start_def)
  have E: "?D + total_bits ?ws \<le> 32 * (1 + ?cb + 2 * ?n)"
    using total_bits_halves [of 0 inp] by (simp add: data_start_def)
  obtain out1 c d where e: "encode_all ?out0 ?ci ?di ?ws = Some (out1, c, d)" "iter_ok c" "iter_ok d"
    "bitpos c = 32 + 4 * ?n" "bitpos d = ?D + total_bits ?ws" "length out1 = length out"
    "encoded out1 32 ?D ?ws"
    "\<forall>i < 32 * length out. i < 32 \<or> 32 + 4 * ?n \<le> i \<and> i < ?D \<or> ?D + total_bits ?ws \<le> i \<longrightarrow>
       gbit out1 i = gbit ?out0 i"
    using encode_all_spec [of ?ci ?di ?ws ?out0] it E room data_start_bounds(1) [of ?n] by auto
  have we: "word_end d = (?D + total_bits ?ws + 31) div 32" "32 * word_end c = ?D"
    using word_end_bitpos e(2-5) data_start_bounds(2) [of ?n] by auto
  have "word_end d \<le> 1 + ?cb + 2 * ?n" using E unfolding we by simp
  then have wd: "word_end d \<le> length out1" "word_end c \<le> length out1"
    using e(6) room we(2) by (simp_all add: data_start_def)
  obtain out2 out3 where o: "ClearUnusedBits out1 d = Some out2" "ClearUnusedBits out2 c = Some out3" "length out3 = length out"
    and bits: "\<And>i. i < 32 * length out \<Longrightarrow> gbit out3 i \<longleftrightarrow>
      gbit out1 i \<and> \<not> (bitpos d \<le> i \<and> i < 32 * word_end d) \<and> \<not> (bitpos c \<le> i \<and> i < ?D)"
    using clear_both [OF e(2,3) wd(2,1)] unfolding we(2) e(6) by blast
  have "out3 ! 0 = word_of_nat ?n"
  proof (rule bit_word_eqI)
    fix k assume "k < LENGTH(32)"
    then have "gbit out3 k = gbit ?out0 k"
      using bits [of k] e(4,5,8) room by (auto simp: data_start_def)
    moreover have "?out0 ! 0 = word_of_nat ?n" using room by (cases out) auto
    ultimately show "bit (out3 ! 0) k = bit (word_of_nat ?n :: u32) k"
      using \<open>k < LENGTH(32)\<close> by (simp add: gbit_def)
  qed
  moreover have "encoded out3 32 ?D ?ws = encoded out1 32 ?D ?ws"
    using bits e(4,5) E room data_start_bounds(1) [of ?n] by (intro encoded_cong) auto
  ultimately have comp: "compressed inp out3 (word_end d)"
    using bits e(4,5,7) wd(1) we o(3) e(6) E room
    unfolding compressed_def Let_def by auto
  have sz: "unat (word_of_nat (word_end d) :: u32) = word_end d"
    using \<open>word_end d \<le> 1 + ?cb + 2 * ?n\<close> small by (simp add: unat_of_nat)
  have "wr out 0 (word_of_nat ?n) = Some ?out0" using room by (cases out) (auto simp: wr_def)
  then have "Compress inp out = Some (out3, word_of_nat (word_end d))"
    using e(1,3) o(1,2)
    by (simp add: Compress_def compress_loop_encode_all word_end_def iter_ok_def)
  with comp sz o(3) \<open>word_end d \<le> 1 + ?cb + 2 * ?n\<close> show ?thesis by auto
qed

lemma gbit_take: "i < 32 * k \<Longrightarrow> gbit (take k buf) i = gbit buf i"
  by (simp add: gbit_def)

lemma compressed_bounds:
  assumes "compressed inp out sz"
  shows "data_start (length inp) + total_bits (halves 0 inp) \<le> 32 * sz" "0 < sz"
    "32 + 4 * length inp \<le> 32 * sz"
  using assms data_start_bounds [of "length inp"] by (auto simp: compressed_def Let_def)

lemma compressed_take:
  assumes "compressed inp out sz"
  shows "compressed inp (take sz out) sz"
proof -
  note b = compressed_bounds [OF assms]
  have "encoded (take sz out) 32 (data_start (length inp)) (halves 0 inp) =
      encoded out 32 (data_start (length inp)) (halves 0 inp)"
    using b by (intro encoded_cong) (auto simp: gbit_take)
  then show ?thesis
    using assms b by (auto simp: compressed_def Let_def gbit_take)
qed

lemma compressed_unique:
  assumes "compressed inp out sz" "compressed inp out' sz'"
  shows "sz = sz' \<and> take sz out = take sz' out'"
proof -
  have sz: "sz = sz'" using assms by (simp add: compressed_def Let_def)
  let ?n = "length inp" and ?D = "data_start (length inp)" and ?ws = "halves 0 inp"
  have l: "length (take sz out) = length (take sz out')" "length (take sz out) = sz"
    using assms sz by (auto simp: compressed_def Let_def)
  note enc = encoded_unique [of out 32 ?D ?ws out']
  have "gbit out i = gbit out' i" if "i < 32 * sz" for i
  proof -
    consider "i < 32" | "32 \<le> i" "i < 32 + 4 * ?n" | "32 + 4 * ?n \<le> i" "i < ?D"
      | "?D \<le> i" "i < ?D + total_bits ?ws" | "?D + total_bits ?ws \<le> i"
      by linarith
    then show ?thesis
      using assms that sz enc by cases (auto simp: compressed_def Let_def gbit_def)
  qed
  then show ?thesis
    using l sz buffer_eq_iff [of "take sz out" "take sz out'"] by (auto simp: gbit_take)
qed

lemma compressed_Decompress:
  assumes "compressed inp out sz" "length inp < 2 ^ 32" "1 + CalculateControlBlockSize (length inp) < 2 ^ 32"
    and "length inp \<le> length buf"
  shows "Decompress out buf = Some (inp @ drop (length inp) buf, word_of_nat (length inp))"
proof -
  note b = compressed_bounds [OF assms(1)]
  let ?n = "length inp"
  let ?ci = "AdvanceBytes new_iter 1"
  let ?di = "AdvanceBytes new_iter (word_of_nat (1 + CalculateControlBlockSize ?n))"
  have n: "unat (word_of_nat ?n :: u32) = ?n" using assms(2) by (simp add: unat_of_nat)
  have "unat (word_of_nat (1 + CalculateControlBlockSize ?n) :: u32) = 1 + CalculateControlBlockSize ?n"
    using assms(3) by (simp add: unat_of_nat del: of_nat_Suc)
  then have it: "iter_ok ?ci" "iter_ok ?di" "bitpos ?ci = 32" "bitpos ?di = data_start ?n"
    by (simp_all add: iter_ok_def bitpos_def AdvanceBytes_def new_iter_def data_start_def)
  have c: "encoded out 32 (data_start ?n) (halves 0 inp)" "out ! 0 = word_of_nat ?n" "sz \<le> length out"
    using assms(1) by (auto simp: compressed_def Let_def)
  have "decompress_loop out ?ci ?di 0 0 (0 + ?n) buf = Some (take 0 buf @ inp @ drop (0 + ?n) buf)"
    using b c it assms(4) by (intro decompress_loop_spec) auto
  then show ?thesis
    using n c b by (auto simp: Decompress_def rd_def)
qed

section \<open>Properties\<close>

text \<open>The inputs whose layout fits the 32-bit sizes of the source (any input below \<open>2 ^ 30\<close> elements).\<close>

definition layout_fits :: "nat \<Rightarrow> bool" where
  "layout_fits n \<longleftrightarrow> 1 + CalculateControlBlockSize n + 2 * n < 2 ^ 32"

lemma layout_fits_length: "layout_fits n \<Longrightarrow> n < 2 ^ 32 \<and> 1 + CalculateControlBlockSize n < 2 ^ 32"
  by (simp add: layout_fits_def)

lemma unat_CalculateMaxExpectedSize:
  assumes "layout_fits (length inp)"
  shows "unat (CalculateMaxExpectedSize inp) = 1 + CalculateControlBlockSize (length inp) + 2 * length inp"
proof -
  have "1 + length inp * 2 + CalculateControlBlockSize (length inp) < 2 ^ LENGTH(32)"
    using assms by (simp add: layout_fits_def)
  then show ?thesis
    unfolding CalculateMaxExpectedSize_def unat_of_nat by (subst mod_less) simp_all
qed

lemma Compress_vector_spec:
  assumes "layout_fits (length inp)"
  shows "\<exists>zs. Compress_vector inp = Some zs \<and> compressed inp zs (length zs) \<and>
    length zs \<le> unat (CalculateMaxExpectedSize inp)"
proof -
  let ?m = "1 + CalculateControlBlockSize (length inp) + 2 * length inp"
  note m = unat_CalculateMaxExpectedSize [OF assms]
  obtain out sz where c: "Compress inp (replicate ?m 0) = Some (out, sz)" "length out = ?m"
    "compressed inp out (unat sz)" "unat sz \<le> ?m"
    using Compress_compressed [of inp "replicate ?m 0"] assms by (auto simp: layout_fits_def)
  then have "Compress_vector inp = Some (take (unat sz) out)"
    by (simp add: Compress_vector_def resize_def m)
  with c m compressed_take [OF c(3)] show ?thesis by (auto simp: min_def)
qed

text \<open>
  C14. Compression loses nothing: for every address list whose layout fits 32-bit sizes, \<open>Compress\<close>
  succeeds without leaving the buffer of \<open>CalculateMaxExpectedSize\<close> words, and \<open>Decompress\<close> of its
  result returns the list.
\<close>

theorem Compress_Decompress_roundtrip:
  assumes "layout_fits (length inp)"
  shows "\<exists>zs. Compress_vector inp = Some zs \<and> length zs \<le> unat (CalculateMaxExpectedSize inp) \<and>
    Decompress_vector zs = Some inp"
proof -
  obtain zs where zs: "Compress_vector inp = Some zs" "compressed inp zs (length zs)"
    "length zs \<le> unat (CalculateMaxExpectedSize inp)"
    using Compress_vector_spec [OF assms] by blast
  have n: "unat (word_of_nat (length inp) :: u32) = length inp"
    using layout_fits_length [OF assms] by (simp add: unat_of_nat)
  have "rd zs 0 = Some (word_of_nat (length inp))"
    using zs(2) compressed_bounds [OF zs(2)] by (auto simp: rd_def compressed_def Let_def)
  then have "Decompress_vector zs = Some inp"
    using compressed_Decompress [OF zs(2), of "replicate (length inp) 0"] layout_fits_length [OF assms] n
    by (simp add: Decompress_vector_def resize_def)
  with zs show ?thesis by blast
qed

theorem Compress_Decompress_roundtrip_witness:
  "layout_fits (length [0x7514af7f7063, 0x7514af839744, 0 :: u64]) \<and>
   (\<exists>zs. Compress_vector [0x7514af7f7063, 0x7514af839744, 0] = Some zs \<and>
     length zs \<le> unat (CalculateMaxExpectedSize [0x7514af7f7063, 0x7514af839744, 0]) \<and>
     Decompress_vector zs = Some [0x7514af7f7063, 0x7514af839744, 0])"
  using Compress_Decompress_roundtrip [of "[0x7514af7f7063, 0x7514af839744, 0]"]
  by (simp add: layout_fits_def CalculateControlBlockSize_def ValueBitsSize_def)

text \<open>
  The packed form is canonical: whatever two large enough buffers held before, the words that
  \<open>Compress\<close> reports are the same in both, so equal traces have equal packed words (and, by the round
  trip, different traces have different ones). This is what makes comparing packed traces word by
  word, as the static tracker does, a comparison of traces.
\<close>

theorem Compress_canonical:
  assumes "layout_fits (length inp)"
    and "unat (CalculateMaxExpectedSize inp) \<le> length buf1"
    and "unat (CalculateMaxExpectedSize inp) \<le> length buf2"
  shows "\<exists>out1 out2 sz. Compress inp buf1 = Some (out1, sz) \<and> Compress inp buf2 = Some (out2, sz) \<and>
    unat sz \<le> unat (CalculateMaxExpectedSize inp) \<and> take (unat sz) out1 = take (unat sz) out2"
proof -
  note m = unat_CalculateMaxExpectedSize [OF assms(1)]
  obtain out1 sz1 where 1: "Compress inp buf1 = Some (out1, sz1)" "compressed inp out1 (unat sz1)"
    "unat sz1 \<le> unat (CalculateMaxExpectedSize inp)"
    using Compress_compressed [of inp buf1] assms m by (auto simp: layout_fits_def)
  obtain out2 sz2 where 2: "Compress inp buf2 = Some (out2, sz2)" "compressed inp out2 (unat sz2)"
    using Compress_compressed [of inp buf2] assms m by (auto simp: layout_fits_def)
  from compressed_unique [OF 1(2) 2(2)] have "sz1 = sz2" "take (unat sz1) out1 = take (unat sz1) out2"
    by (auto dest: word_unat_eq_iff [THEN iffD2])
  with 1 2 show ?thesis by auto
qed

theorem Compress_canonical_witness:
  "\<exists>out1 out2 sz. Compress [5, 9] (replicate 6 0) = Some (out1, sz) \<and>
     Compress [5, 9] (replicate 8 0xFFFFFFFF) = Some (out2, sz) \<and>
     unat sz \<le> unat (CalculateMaxExpectedSize [5, 9]) \<and> take (unat sz) out1 = take (unat sz) out2"
  by (rule Compress_canonical)
    (simp_all add: layout_fits_def CalculateMaxExpectedSize_def CalculateControlBlockSize_def ValueBitsSize_def)

text \<open>
  The bit writer touches exactly its bits: \<open>EncodeBits\<close> on an iterator at bit position \<open>p\<close> stores
  the low \<open>n\<close> bits of the value in bits \<open>p, ..., p + n - 1\<close> of the buffer, changes no other bit, and
  leaves the iterator at \<open>p + n\<close>; and \<open>DecodeBits\<close> from \<open>p\<close> reads those bits back.
\<close>

theorem EncodeBits_DecodeBits:
  assumes "iter_ok it" and "bitpos it + n \<le> 32 * length buf" and "n \<le> 32"
  shows "\<exists>buf' it' it''. EncodeBits buf it n v = Some (buf', it') \<and> bitpos it' = bitpos it + n \<and>
    length buf' = length buf \<and> DecodeBits buf' it n = Some (it'', take_bit n v) \<and>
    (\<forall>i. i < bitpos it \<or> bitpos it + n \<le> i \<and> i < 32 * length buf \<longrightarrow> gbit buf' i = gbit buf i)"
proof -
  obtain buf' it' where e: "EncodeBits buf it n v = Some (buf', it')" "bitpos it' = bitpos it + n"
    "length buf' = length buf"
    "\<forall>i < 32 * length buf. gbit buf' i =
       (if bitpos it \<le> i \<and> i < bitpos it + n then bit v (i - bitpos it) else gbit buf i)"
    using EncodeBits_spec [OF assms(1,2), of v] by blast
  obtain it'' w where d: "DecodeBits buf' it n = Some (it'', w)"
    "\<forall>k. bit w k \<longleftrightarrow> k < n \<and> gbit buf' (bitpos it + k)"
    using DecodeBits_spec [of it n buf'] assms e(3) by auto
  have "w = take_bit n v"
    using d(2) e(4) assms(2) by (intro bit_eqI) (auto simp: bit_take_bit_iff)
  with e d assms(2) show ?thesis by auto
qed

theorem EncodeBits_DecodeBits_witness:
  "\<exists>buf' it' it''. EncodeBits [0xFFFFFFFF, 7] \<lparr>value_ix = 0, bitIndex = 24, valuePos = 0\<rparr> 16 0xABCD = Some (buf', it') \<and>
    bitpos it' = bitpos \<lparr>value_ix = 0, bitIndex = 24, valuePos = 0\<rparr> + 16 \<and> length buf' = length [0xFFFFFFFF, 7 :: u32] \<and>
    DecodeBits buf' \<lparr>value_ix = 0, bitIndex = 24, valuePos = 0\<rparr> 16 = Some (it'', take_bit 16 0xABCD)"
  using EncodeBits_DecodeBits [of "\<lparr>value_ix = 0, bitIndex = 24, valuePos = 0\<rparr>" 16 "[0xFFFFFFFF, 7]" "0xABCD"]
  by (auto simp: iter_ok_def bitpos_def)

end
