(* ===== verification/Static_Tracker.thy ===== *)
theory Static_Tracker
  imports Tracker_Interface Bit_Packing
begin

text \<open>
  The tracker for the profiler's own allocations
  (\<open>src/source/memhawk/src/impl/trackers/stacktrace_tracker_static.h\<close>,
  \<open>stacktrace_tracker_static.cpp\<close>). It must not allocate, so it keeps packed traces in a fixed array of
  words and an element per trace: its hash and the span of its words. Traces are cut to six frames, and
  a full storage answers with one reserved identifier. Identifiers carry the top bit, which separates
  them from those of the tree tracker.

  A span is an offset and a length in \<open>m_storage\<close>. The members \<open>m_compressedTrace\<close> and
  \<open>m_decompressedTrace\<close> are cleared at the start of every use, so they are local buffers here. The hash
  of a word span is an argument.
\<close>

section \<open>The model\<close>

definition MaxStacktraceLength :: nat where
  "MaxStacktraceLength = 6"

definition ElementsCount :: nat where
  "ElementsCount = 512"

definition StorageSize :: nat where
  "StorageSize = ElementsCount * MaxStacktraceLength * 2"

definition FixedTrackerIdFlag :: u32 where
  "FixedTrackerIdFlag = push_bit 31 1"

definition UnknownTraceId :: u32 where
  "UnknownTraceId = of_nat (ElementsCount + 1) XOR FixedTrackerIdFlag"

definition IsFixedTrackerId :: "u32 \<Rightarrow> bool" where
  "IsFixedTrackerId traceId \<longleftrightarrow> traceId AND FixedTrackerIdFlag \<noteq> 0"

record TraceElement =
  te_hash :: u64
  te_off :: nat
  te_len :: nat

record static_tracker =
  ss_storage :: "u32 list"
  ss_elements :: "TraceElement list"
  ss_size :: u32
  ss_storageSize :: u32

definition StaticStacktraceTracker :: static_tracker where
  "StaticStacktraceTracker =
     \<lparr>ss_storage = replicate StorageSize 0,
      ss_elements = replicate ElementsCount \<lparr>te_hash = 0, te_off = 0, te_len = 0\<rparr>,
      ss_size = 0, ss_storageSize = 0\<rparr>"

text \<open>The words an element's span points to.\<close>

definition span_words :: "u32 list \<Rightarrow> TraceElement \<Rightarrow> u32 list" where
  "span_words storage e = take (te_len e) (drop (te_off e) storage)"

text \<open>\<open>boost::range::find\<close> over the used elements, with \<open>TraceElement::operator==\<close>.\<close>

definition TraceElement_eq :: "u32 list \<Rightarrow> TraceElement \<Rightarrow> u64 \<Rightarrow> u32 list \<Rightarrow> bool" where
  "TraceElement_eq storage e hash ws = (if te_hash e \<noteq> hash then False else span_words storage e = ws)"

fun find_element :: "u32 list \<Rightarrow> TraceElement list \<Rightarrow> u64 \<Rightarrow> u32 list \<Rightarrow> nat" where
  "find_element storage [] hash ws = 0"
| "find_element storage (e # es) hash ws =
     (if TraceElement_eq storage e hash ws then 0 else Suc (find_element storage es hash ws))"

definition InsertStacktraceUnlocked ::
  "(u32 list \<Rightarrow> u64) \<Rightarrow> static_tracker \<Rightarrow> ptr list \<Rightarrow> (static_tracker \<times> u32) option" where
  "InsertStacktraceUnlocked XXH3_64bits s span =
     do { (buf, compressedSize) \<leftarrow> Compress span (replicate (MaxStacktraceLength * 8) 0);
          if unat compressedSize > length buf then None
          else
            (let compressedSpan = take (unat compressedSize) buf;
                 hash = XXH3_64bits compressedSpan;
                 elementsSpan = take (unat (ss_size s)) (ss_elements s);
                 curIt = find_element (ss_storage s) elementsSpan hash compressedSpan
             in if curIt = length elementsSpan then
                  (if unat (ss_storageSize s + compressedSize) < StorageSize \<and> unat (ss_size s + 1) < ElementsCount
                   then do { els \<leftarrow> wr (ss_elements s) (unat (ss_size s))
                                \<lparr>te_hash = hash, te_off = unat (ss_storageSize s), te_len = unat compressedSize\<rparr>;
                             if unat (ss_storageSize s) + unat compressedSize > length (ss_storage s) then None
                             else Some (s\<lparr>ss_elements := els,
                                          ss_storage := take (unat (ss_storageSize s)) (ss_storage s) @ compressedSpan @
                                            drop (unat (ss_storageSize s) + unat compressedSize) (ss_storage s),
                                          ss_storageSize := ss_storageSize s + compressedSize,
                                          ss_size := ss_size s + 1\<rparr>, of_nat curIt) }
                   else Some (s, UnknownTraceId XOR FixedTrackerIdFlag))
                else Some (s, of_nat curIt)) }"

definition static_InsertStacktrace ::
  "(u32 list \<Rightarrow> u64) \<Rightarrow> static_tracker \<Rightarrow> Stacktrace \<Rightarrow> (static_tracker \<times> u32) option" where
  "static_InsertStacktrace XXH3_64bits s trace =
     (let span = GetTrace trace;
          span = (if length span > MaxStacktraceLength then take MaxStacktraceLength span else span)
      in do { (s', traceId) \<leftarrow> InsertStacktraceUnlocked XXH3_64bits s span;
              Some (s', traceId XOR FixedTrackerIdFlag) })"

definition static_GetStacktrace :: "ptr list \<Rightarrow> static_tracker \<Rightarrow> u32 \<Rightarrow> Stacktrace option" where
  "static_GetStacktrace mem s traceId =
     do { e \<leftarrow> rd (ss_elements s) (unat traceId);
          (buf, n) \<leftarrow> Decompress (span_words (ss_storage s) e) (replicate (MaxStacktraceLength * 4) 0);
          Stacktrace_of mem buf (ucast n) }"

definition static_GetStacktraceFromId :: "ptr list \<Rightarrow> static_tracker \<Rightarrow> u32 \<Rightarrow> Stacktrace option option" where
  "static_GetStacktraceFromId mem s traceId =
     (if \<not> IsFixedTrackerId traceId then Some None
      else
        (let traceId = traceId XOR FixedTrackerIdFlag
         in if unat traceId \<ge> unat (ss_size s) then Some None
            else do { st \<leftarrow> static_GetStacktrace mem s traceId; Some (Some st) }))"

definition static_StacktracesCount :: "static_tracker \<Rightarrow> nat" where
  "static_StacktracesCount s = unat (ss_size s)"

definition GetStorageSize :: "static_tracker \<Rightarrow> nat" where
  "GetStorageSize s = unat (ss_storageSize s)"

section \<open>Identifiers\<close>

lemma IsFixedTrackerId_bit: "IsFixedTrackerId w \<longleftrightarrow> bit w 31"
  using and_exp_eq_0_iff_not_bit [of w 31] by (simp add: IsFixedTrackerId_def FixedTrackerIdFlag_def push_bit_of_1)

lemma xor_flag_cancel [simp]: "(w XOR FixedTrackerIdFlag) XOR FixedTrackerIdFlag = w"
  by (simp add: xor.assoc)

lemma small_not_fixed:
  assumes "unat (w :: u32) < 2 ^ 31"
  shows "\<not> bit w 31"
  using bit_lt_of_less [of w 31 31] assms by auto

lemma IsFixedTrackerId_xor: "unat (w :: u32) < 2 ^ 31 \<Longrightarrow> IsFixedTrackerId (w XOR FixedTrackerIdFlag)"
  by (simp add: IsFixedTrackerId_bit bit_xor_iff small_not_fixed FixedTrackerIdFlag_def bit_push_bit_iff)

lemma UnknownTraceId_flag: "UnknownTraceId XOR FixedTrackerIdFlag = 513"
  by (simp add: UnknownTraceId_def xor.assoc ElementsCount_def)

lemma flag_known: "FixedTrackerIdFlag \<noteq> UnknownTraceId"
proof
  assume "FixedTrackerIdFlag = UnknownTraceId"
  then have "UnknownTraceId XOR FixedTrackerIdFlag = 0" by simp
  then show False by (simp add: UnknownTraceId_flag)
qed

section \<open>Invariant\<close>

definition words_at :: "static_tracker \<Rightarrow> nat \<Rightarrow> u32 list" where
  "words_at s i = span_words (ss_storage s) (ss_elements s ! i)"

text \<open>\<open>stored s i xs\<close>: element \<open>i\<close> is in use and holds the packed form of the frames \<open>xs\<close>.\<close>

definition stored :: "static_tracker \<Rightarrow> nat \<Rightarrow> ptr list \<Rightarrow> bool" where
  "stored s i xs \<longleftrightarrow> i < unat (ss_size s) \<and> length xs \<le> MaxStacktraceLength \<and>
     compressed xs (words_at s i) (length (words_at s i))"

definition static_ok :: "(u32 list \<Rightarrow> u64) \<Rightarrow> static_tracker \<Rightarrow> bool" where
  "static_ok h s \<longleftrightarrow>
     length (ss_storage s) = StorageSize \<and> length (ss_elements s) = ElementsCount \<and>
     unat (ss_size s) < ElementsCount \<and> unat (ss_storageSize s) < StorageSize \<and>
     (\<forall>i < unat (ss_size s).
        te_off (ss_elements s ! i) + te_len (ss_elements s ! i) \<le> unat (ss_storageSize s) \<and>
        te_hash (ss_elements s ! i) = h (words_at s i) \<and> (\<exists>xs. stored s i xs)) \<and>
     (\<forall>i j. i < j \<and> j < unat (ss_size s) \<longrightarrow> words_at s i \<noteq> words_at s j)"

lemmas static_consts = StorageSize_def ElementsCount_def MaxStacktraceLength_def

lemma static_ok_init: "static_ok h StaticStacktraceTracker"
  by (simp add: static_ok_def StaticStacktraceTracker_def static_consts)

text \<open>The packed form of a short trace.\<close>

lemma pack_short:
  assumes "length xs \<le> MaxStacktraceLength"
  shows "\<exists>buf n. Compress xs (replicate (MaxStacktraceLength * 8) 0) = Some (buf, n) \<and> unat n \<le> 14 \<and>
    length buf = 48 \<and> compressed xs (take (unat n) buf) (unat n)"
proof -
  have b: "1 + CalculateControlBlockSize (length xs) + 2 * length xs \<le> 14"
  proof -
    have "CalculateControlBlockSize (length xs) \<le> (4 * 6 + 31) div 32"
      unfolding CalculateControlBlockSize_def ValueBitsSize_def Let_def
      by (rule div_le_mono) (use assms in \<open>simp add: MaxStacktraceLength_def\<close>)
    then show ?thesis using assms by (simp add: MaxStacktraceLength_def)
  qed
  then have "\<exists>out' sz. Compress xs (replicate 48 0) = Some (out', sz) \<and> length out' = length (replicate 48 (0 :: u32)) \<and>
    compressed xs out' (unat sz) \<and> unat sz \<le> 1 + CalculateControlBlockSize (length xs) + 2 * length xs"
    by (intro Compress_compressed) simp_all
  then show ?thesis
    using b compressed_take by (auto simp: MaxStacktraceLength_def intro: order_trans)
qed

lemma compressed_same_words:
  assumes "compressed xs ws (length ws)" "compressed ys ws (length ws)"
    and "length xs \<le> MaxStacktraceLength" "length ys \<le> MaxStacktraceLength"
  shows "xs = ys"
proof -
  have d: "Decompress ws (replicate 24 0) = Some (zs @ drop (length zs) (replicate 24 0), word_of_nat (length zs))"
    if "compressed zs ws (length ws)" "length zs \<le> MaxStacktraceLength" for zs
    using that by (intro compressed_Decompress)
      (auto simp: MaxStacktraceLength_def CalculateControlBlockSize_def ValueBitsSize_def Let_def)
  have "ws ! 0 = word_of_nat (length xs)" "ws ! 0 = word_of_nat (length ys)"
    using assms by (auto simp: compressed_def Let_def)
  then have "unat (word_of_nat (length xs) :: u32) = unat (word_of_nat (length ys) :: u32)" by simp
  then have "length xs = length ys"
    using assms(3,4) by (simp add: MaxStacktraceLength_def unat_of_nat take_bit_nat_eq_self)
  moreover from trans [OF sym [OF d [OF assms(1,3)]] d [OF assms(2,4)]]
  have "xs @ drop (length xs) (replicate 24 0) = ys @ drop (length ys) (replicate 24 0)" by simp
  ultimately show ?thesis by simp
qed

lemma stored_unique: "stored s i xs \<Longrightarrow> stored s i ys \<Longrightarrow> xs = ys"
  by (auto simp: stored_def intro: compressed_same_words)

section \<open>Lookup\<close>

lemma find_element_le: "find_element st es hash ws \<le> length es"
  by (induction es) auto

lemma find_element_found:
  assumes "find_element st es hash ws < length es"
  shows "span_words st (es ! find_element st es hash ws) = ws"
  using assms by (induction es) (auto simp: TraceElement_eq_def split: if_splits)

lemma find_element_missing:
  assumes "find_element st es hash ws = length es" "e \<in> set es" "te_hash e = hash"
  shows "span_words st e \<noteq> ws"
  using assms by (induction es) (auto simp: TraceElement_eq_def split: if_splits)

lemma static_GetStacktrace_stored:
  assumes ok: "static_ok h s" and i: "stored s (unat i) xs" and mem: "length mem = MaxUnwindDepth"
  shows "\<exists>st. static_GetStacktrace mem s i = Some st \<and> stacktrace_ok st \<and> GetTrace st = xs"
proof -
  have e: "unat i < length (ss_elements s)" using ok i by (simp add: static_ok_def stored_def)
  have xs: "length xs \<le> 6" "compressed xs (words_at s (unat i)) (length (words_at s (unat i)))"
    using i by (simp_all add: stored_def MaxStacktraceLength_def)
  then have d: "Decompress (words_at s (unat i)) (replicate 24 0) =
      Some (xs @ drop (length xs) (replicate 24 0), word_of_nat (length xs))"
    by (intro compressed_Decompress) (auto simp: CalculateControlBlockSize_def ValueBitsSize_def Let_def)
  have u: "unat (ucast (word_of_nat (length xs) :: u32) :: u64) = length xs"
    using xs(1) by (simp add: unsigned_ucast_eq unat_of_nat take_bit_nat_eq_self)
  have "static_GetStacktrace mem s i =
      Stacktrace_of mem (xs @ drop (length xs) (replicate 24 0)) (ucast (word_of_nat (length xs) :: u32))"
    using e d by (simp add: static_GetStacktrace_def rd_in MaxStacktraceLength_def flip: words_at_def)
  then show ?thesis
    using Stacktrace_of_ok [OF mem, of "ucast (word_of_nat (length xs) :: u32)" "xs @ drop (length xs) (replicate 24 0)"]
      u xs(1) by (simp add: MaxUnwindDepth_def min_def)
qed

definition static_recall :: "static_tracker \<Rightarrow> u32 \<Rightarrow> ptr list option" where
  "static_recall s i =
     (case static_GetStacktraceFromId (replicate MaxUnwindDepth 0) s i of Some (Some st) \<Rightarrow> Some (GetTrace st) | _ \<Rightarrow> None)"

lemma static_GetStacktraceFromId_spec:
  assumes "static_ok h s" "length mem = MaxUnwindDepth"
  shows "\<exists>r. static_GetStacktraceFromId mem s i = Some r \<and>
    (if IsFixedTrackerId i \<and> unat (i XOR FixedTrackerIdFlag) < unat (ss_size s)
     then \<exists>st. r = Some st \<and> stacktrace_ok st \<and> stored s (unat (i XOR FixedTrackerIdFlag)) (GetTrace st)
     else r = None)"
proof (cases "IsFixedTrackerId i \<and> unat (i XOR FixedTrackerIdFlag) < unat (ss_size s)")
  case True
  then obtain xs where "stored s (unat (i XOR FixedTrackerIdFlag)) xs"
    using assms(1) by (auto simp: static_ok_def)
  with static_GetStacktrace_stored [OF assms(1) this assms(2)] True show ?thesis
    by (auto simp: static_GetStacktraceFromId_def Let_def)
next
  case False
  then show ?thesis by (auto simp: static_GetStacktraceFromId_def Let_def not_less)
qed

lemma static_recall_iff:
  assumes "static_ok h s"
  shows "static_recall s i = Some xs \<longleftrightarrow> IsFixedTrackerId i \<and> stored s (unat (i XOR FixedTrackerIdFlag)) xs"
proof -
  obtain r where r: "static_GetStacktraceFromId (replicate MaxUnwindDepth 0) s i = Some r"
    "if IsFixedTrackerId i \<and> unat (i XOR FixedTrackerIdFlag) < unat (ss_size s)
     then \<exists>st. r = Some st \<and> stacktrace_ok st \<and> stored s (unat (i XOR FixedTrackerIdFlag)) (GetTrace st)
     else r = None"
    using static_GetStacktraceFromId_spec [OF assms, of "replicate MaxUnwindDepth 0" i] by auto
  then show ?thesis
    by (auto simp: static_recall_def stored_def split: if_splits dest: stored_unique)
      (metis stored_def stored_unique)
qed

section \<open>Insertion\<close>

text \<open>Appending the packed words of a new trace leaves the old elements and their words alone.\<close>

lemma append_words:
  assumes ok: "static_ok h s" and room: "unat (ss_storageSize s + n) < StorageSize" "unat (ss_size s + 1) < ElementsCount"
    and n: "unat n \<le> 14" "length ws = unat n" "compressed xs ws (unat n)" "length xs \<le> MaxStacktraceLength"
    and new: "\<And>i. i < unat (ss_size s) \<Longrightarrow> words_at s i \<noteq> ws"
    and s': "s' = s\<lparr>ss_elements := (ss_elements s)[unat (ss_size s) := \<lparr>te_hash = h ws, te_off = unat (ss_storageSize s), te_len = unat n\<rparr>],
        ss_storage := take (unat (ss_storageSize s)) (ss_storage s) @ ws @ drop (unat (ss_storageSize s) + unat n) (ss_storage s),
        ss_storageSize := ss_storageSize s + n, ss_size := ss_size s + 1\<rparr>"
  shows "static_ok h s'" "stored s' (unat (ss_size s)) xs" "\<And>i ys. stored s i ys \<Longrightarrow> stored s' i ys"
proof -
  let ?k = "unat (ss_size s)" and ?o = "unat (ss_storageSize s)"
  have b: "?k < 512" "?o < 6144" "length (ss_storage s) = 6144" "length (ss_elements s) = 512"
    using ok by (auto simp: static_ok_def static_consts)
  have k1: "unat (ss_size s + 1) = Suc ?k" and o1: "unat (ss_storageSize s + n) = ?o + unat n"
    using b n(1) by (simp_all add: unat_plus_if_size word_size)
  have on: "?o + unat n < 6144" "Suc ?k < 512" using room k1 o1 by (simp_all add: static_consts)
  have old: "words_at s' i = words_at s i" "ss_elements s' ! i = ss_elements s ! i"
    "te_off (ss_elements s ! i) + te_len (ss_elements s ! i) \<le> ?o" if "i < ?k" for i
  proof -
    show le: "te_off (ss_elements s ! i) + te_len (ss_elements s ! i) \<le> ?o"
      using ok that by (simp add: static_ok_def)
    show "ss_elements s' ! i = ss_elements s ! i" using that by (simp add: s')
    then show "words_at s' i = words_at s i"
      using le b by (simp add: words_at_def span_words_def s' take_drop)
  qed
  have nk: "ss_elements s' ! ?k = \<lparr>te_hash = h ws, te_off = ?o, te_len = unat n\<rparr>"
    using b by (simp add: s')
  then have wk: "words_at s' ?k = ws" using b n(2) by (simp add: words_at_def span_words_def s')
  show st: "stored s' ?k xs" using wk n k1 by (simp add: stored_def s')
  show keep: "stored s' i ys" if "stored s i ys" for i ys
    using that old(1) [of i] k1 by (simp add: stored_def s')
  have sizes: "unat (ss_size s') = Suc ?k" "unat (ss_storageSize s') = ?o + unat n" using k1 o1 by (simp_all add: s')
  have el: "te_off (ss_elements s' ! i) + te_len (ss_elements s' ! i) \<le> unat (ss_storageSize s') \<and>
      te_hash (ss_elements s' ! i) = h (words_at s' i) \<and> (\<exists>xs. stored s' i xs)" if "i < Suc ?k" for i
  proof (cases "i = ?k")
    case True
    then show ?thesis using nk wk st sizes by auto
  next
    case False
    then have "i < ?k" using that by simp
    moreover from this obtain ys where "stored s i ys" "te_hash (ss_elements s ! i) = h (words_at s i)"
      using ok unfolding static_ok_def by blast
    ultimately show ?thesis using old [of i] keep sizes by auto
  qed
  have ne: "words_at s' i \<noteq> words_at s' j" if "i < j" "j < Suc ?k" for i j
  proof (cases "j = ?k")
    case True
    then show ?thesis using that old(1) new wk by simp
  next
    case False
    then have "j < ?k" "i < ?k" using that by simp_all
    then show ?thesis using that(1) ok old(1) unfolding static_ok_def by metis
  qed
  have "length (ss_storage s') = StorageSize" "length (ss_elements s') = ElementsCount"
    using b on n(2) by (simp_all add: s' static_consts)
  then show "static_ok h s'"
    using el ne sizes on by (simp add: static_ok_def static_consts)
qed

text \<open>
  The three outcomes of an insertion: the trace is known and nothing changes, it is appended, or the
  storage is full.
\<close>

lemma absent_words:
  assumes "static_ok h s" "es = take (unat (ss_size s)) (ss_elements s)" "find_element (ss_storage s) es (h ws) ws = length es" "i < unat (ss_size s)"
  shows "words_at s i \<noteq> ws"
proof
  assume w: "words_at s i = ws"
  have es: "length es = unat (ss_size s)" "es ! i = ss_elements s ! i" using assms(1,2,4) by (simp_all add: static_ok_def)
  have "es ! i \<in> set es" using assms(4) es(1) by (intro nth_mem) simp
  moreover have "te_hash (es ! i) = h ws" using assms(1,4) es w by (auto simp: static_ok_def)
  ultimately show False
    using find_element_missing [of "ss_storage s" es "h ws" ws "es ! i"] assms(3) w es by (simp add: words_at_def)
qed

lemma InsertStacktraceUnlocked_form:
  assumes "static_ok h s" "Compress xs (replicate (MaxStacktraceLength * 8) 0) = Some (buf, n)" "unat n \<le> 14" "length buf = 48"
    and "ws = take (unat n) buf" "es = take (unat (ss_size s)) (ss_elements s)" "k = find_element (ss_storage s) es (h ws) ws"
  shows "InsertStacktraceUnlocked h s xs =
    (if k = length es then
       (if unat (ss_storageSize s + n) < StorageSize \<and> unat (ss_size s + 1) < ElementsCount
        then (if unat (ss_storageSize s) + unat n > length (ss_storage s) then None
              else Some (s\<lparr>ss_elements := (ss_elements s)[unat (ss_size s) := \<lparr>te_hash = h ws, te_off = unat (ss_storageSize s), te_len = unat n\<rparr>],
                 ss_storage := take (unat (ss_storageSize s)) (ss_storage s) @ ws @ drop (unat (ss_storageSize s) + unat n) (ss_storage s),
                 ss_storageSize := ss_storageSize s + n, ss_size := ss_size s + 1\<rparr>, of_nat k))
        else Some (s, 513))
     else Some (s, of_nat k))"
proof -
  have "unat (ss_size s) < 512" "length (ss_elements s) = 512" using assms(1) by (auto simp: static_ok_def static_consts)
  then show ?thesis using assms(2-4) by (simp add: InsertStacktraceUnlocked_def Let_def assms(5-7) wr_def UnknownTraceId_flag)
qed

lemma InsertStacktraceUnlocked_cases:
  assumes ok: "static_ok h s" and xs: "length xs \<le> MaxStacktraceLength"
  obtains (known) i where "i < unat (ss_size s)" "stored s i xs" "InsertStacktraceUnlocked h s xs = Some (s, of_nat i)"
    | (added) s' where "static_ok h s'" "stored s' (unat (ss_size s)) xs" "\<And>i ys. stored s i ys \<Longrightarrow> stored s' i ys"
        "\<And>i. \<not> stored s i xs" "InsertStacktraceUnlocked h s xs = Some (s', ss_size s)"
    | (full) "\<And>i. \<not> stored s i xs" "InsertStacktraceUnlocked h s xs = Some (s, 513)"
proof -
  obtain buf n where c: "Compress xs (replicate (MaxStacktraceLength * 8) 0) = Some (buf, n)" "unat n \<le> 14"
    "length buf = 48" "compressed xs (take (unat n) buf) (unat n)"
    using pack_short [OF xs] by blast
  define ws where "ws = take (unat n) buf"
  define es where "es = take (unat (ss_size s)) (ss_elements s)"
  define k where "k = find_element (ss_storage s) es (h ws) ws"
  have ws: "length ws = unat n" "compressed xs ws (unat n)" using c by (simp_all add: ws_def)
  have b: "unat (ss_size s) < 512" "unat (ss_storageSize s) < 6144" "length (ss_storage s) = 6144" "length (ss_elements s) = 512"
    using ok by (auto simp: static_ok_def static_consts)
  have es: "length es = unat (ss_size s)" "\<And>i. i < unat (ss_size s) \<Longrightarrow> es ! i = ss_elements s ! i"
    using b by (simp_all add: es_def)
  note I = InsertStacktraceUnlocked_form [OF ok c(1-3) ws_def es_def k_def]
  show thesis
  proof (cases "k < length es")
    case True
    then have "words_at s k = ws"
      using find_element_found [of "ss_storage s" es "h ws" ws] es by (simp add: k_def words_at_def)
    then have "stored s k xs" using True es xs ws by (simp add: stored_def)
    then show thesis using True es I by (intro known [of k]) simp_all
  next
    case False
    then have kl: "k = length es" using find_element_le [of "ss_storage s" es "h ws" ws] by (simp add: k_def)
    have new: "words_at s i \<noteq> ws" if "i < unat (ss_size s)" for i
      using absent_words [OF ok es_def _ that, of ws] kl by (simp add: k_def)
    have absent: "\<not> stored s i xs" for i
      using new [of i] compressed_unique [of xs ws "unat n" "words_at s i"] ws by (auto simp: stored_def)
    show thesis
    proof (cases "unat (ss_storageSize s + n) < StorageSize \<and> unat (ss_size s + 1) < ElementsCount")
      case True
      note app = append_words [OF ok _ _ c(2) ws xs new refl]
      have "unat (ss_storageSize s) + unat n \<le> length (ss_storage s)"
        using True b c(2) by (simp add: unat_plus_if_size word_size static_consts)
      moreover have "(of_nat k :: u32) = ss_size s" using kl es by simp
      ultimately show thesis
        using True kl app absent by (intro added) (simp_all add: I)
    next
      case False
      then have "InsertStacktraceUnlocked h s xs = Some (s, 513)" unfolding I using kl by argo
      then show thesis using absent by (intro full)
    qed
  qed
qed

lemma unat_index: "static_ok h s \<Longrightarrow> i < unat (ss_size s) \<Longrightarrow> unat (of_nat i :: u32) = i"
  by (simp add: static_ok_def static_consts unat_of_nat take_bit_nat_eq_self)

lemma static_InsertStacktrace_spec:
  assumes ok: "static_ok h s" and xs_def: "xs = take MaxStacktraceLength (GetTrace t)"
  shows "\<exists>s' i. static_InsertStacktrace h s t = Some (s', i) \<and> static_ok h s' \<and>
    (\<forall>j ys. stored s j ys \<longrightarrow> stored s' j ys) \<and>
    (i = UnknownTraceId \<or> IsFixedTrackerId i \<and> stored s' (unat (i XOR FixedTrackerIdFlag)) xs) \<and>
    (\<forall>j. stored s j xs \<longrightarrow> s' = s \<and> i = of_nat j XOR FixedTrackerIdFlag)"
proof -
  have l: "length xs \<le> MaxStacktraceLength" by (simp add: xs_def)
  have I: "static_InsertStacktrace h s t =
      do { (s', i) \<leftarrow> InsertStacktraceUnlocked h s xs; Some (s', i XOR FixedTrackerIdFlag) }"
    by (simp add: static_InsertStacktrace_def xs_def Let_def)
  have b: "unat (ss_size s) < 512" using ok by (simp add: static_ok_def static_consts)
  have uniq: "j = i" if "stored s j xs" "stored s i xs" for i j
  proof -
    have "words_at s i = words_at s j"
      using that compressed_unique [of xs "words_at s i" "length (words_at s i)" "words_at s j" "length (words_at s j)"]
      by (simp add: stored_def)
    then show ?thesis
      using that ok unfolding static_ok_def stored_def by (metis linorder_neqE_nat)
  qed
  show ?thesis
  proof (rule InsertStacktraceUnlocked_cases [OF ok l])
    fix i assume a: "i < unat (ss_size s)" "stored s i xs" "InsertStacktraceUnlocked h s xs = Some (s, of_nat i)"
    have u: "unat (of_nat i :: u32) = i" using unat_index [OF ok a(1)] .
    then have "IsFixedTrackerId (of_nat i XOR FixedTrackerIdFlag)"
      using a(1) b by (intro IsFixedTrackerId_xor) simp
    then show ?thesis using a ok u uniq by (auto simp: I)
  next
    fix s' assume a: "static_ok h s'" "stored s' (unat (ss_size s)) xs" "\<And>i ys. stored s i ys \<Longrightarrow> stored s' i ys"
      "\<And>i. \<not> stored s i xs" "InsertStacktraceUnlocked h s xs = Some (s', ss_size s)"
    have "IsFixedTrackerId (ss_size s XOR FixedTrackerIdFlag)" using b by (intro IsFixedTrackerId_xor) simp
    then show ?thesis using a by (auto simp: I)
  next
    assume a: "\<And>i. \<not> stored s i xs" "InsertStacktraceUnlocked h s xs = Some (s, 513)"
    have "(513 :: u32) XOR FixedTrackerIdFlag = UnknownTraceId" using UnknownTraceId_flag by (metis xor_flag_cancel)
    then show ?thesis using a ok by (auto simp: I)
  qed
qed

lemma unknown_not_stored: "static_ok h s \<Longrightarrow> \<not> stored s (unat (UnknownTraceId XOR FixedTrackerIdFlag)) xs"
  by (simp add: UnknownTraceId_flag stored_def static_ok_def static_consts)

section \<open>The static tracker as a trace store\<close>

interpretation static: trace_store "static_ok h" "static_InsertStacktrace h" static_recall
  "take MaxStacktraceLength" "\<lambda>i. i = UnknownTraceId" "\<lambda>_ _. True" for h
proof
  fix s t assume ok: "static_ok h s"
  note spec = static_InsertStacktrace_spec [OF ok refl, of t]
  show "\<exists>s' i. static_InsertStacktrace h s t = Some (s', i) \<and> static_ok h s' \<and>
      (i = UnknownTraceId \<or> static_recall s' i = Some (take MaxStacktraceLength (GetTrace t)))"
    using spec by (auto simp: static_recall_iff)
  show "static_recall s' j = Some xs"
    if "static_InsertStacktrace h s t = Some (s', i)" "static_recall s j = Some xs" for s' i j xs
    using spec that static_recall_iff [OF ok] by (auto simp: static_recall_iff)
  show "static_InsertStacktrace h s t = Some (s, i)"
    if "static_recall s i = Some (take MaxStacktraceLength (GetTrace t))" for i
    using spec that static_recall_iff [OF ok] by fastforce
  show "i \<noteq> UnknownTraceId" if "static_recall s i = Some xs" for i xs
    using that unknown_not_stored [OF ok] static_recall_iff [OF ok] by auto
qed

section \<open>Properties\<close>

text \<open>Runs of the static tracker: insertions of arbitrary traces, with the identifiers they got.\<close>

inductive static_run :: "(u32 list \<Rightarrow> u64) \<Rightarrow> (ptr list \<times> u32) list \<Rightarrow> static_tracker \<Rightarrow> bool" for h where
  start: "static_run h [] StaticStacktraceTracker"
| insert: "static_run h hist s \<Longrightarrow> stacktrace_ok st \<Longrightarrow> static_InsertStacktrace h s st = Some (s', i) \<Longrightarrow>
    static_run h (hist @ [(GetTrace st, i)]) s'"

lemma static_run_names:
  assumes "static_run h hist s"
  shows "static_ok h s \<and> (\<forall>(xs, i) \<in> set hist. static.names s xs i)"
  using assms
proof (induction rule: static_run.induct)
  case start
  then show ?case by (simp add: static_ok_init)
next
  case (insert hist s st s' i)
  have "static_ok h s' \<and> static.names s' (GetTrace st) i"
    using static.ins_names [OF _ insert.hyps(2) TrueI insert.hyps(3)] insert.IH by simp
  moreover have "static.names s' xs j" if "(xs, j) \<in> set hist" for xs j
    using static.names_stable [OF _ insert.hyps(2) TrueI insert.hyps(3)] insert.IH that by blast
  ultimately show ?case by auto
qed

text \<open>
  C22. The fixed storage is memory safe and never forgets: whatever was inserted before, with any hash
  function, an insertion returns (no access leaves the arrays), and every identifier of the run is
  either the reserved one or still yields the first six frames of its trace.
\<close>

theorem static_roundtrip:
  assumes "static_run h hist s" "stacktrace_ok st" "length mem = MaxUnwindDepth" "(frames, j) \<in> set hist"
  shows "(\<exists>s' i. static_InsertStacktrace h s st = Some (s', i) \<and>
      unat (ss_size s') < ElementsCount \<and> unat (ss_storageSize s') < StorageSize) \<and>
    (if j = UnknownTraceId then static_GetStacktraceFromId mem s j = Some None
     else \<exists>t. static_GetStacktraceFromId mem s j = Some (Some t) \<and> stacktrace_ok t \<and>
       GetTrace t = take MaxStacktraceLength frames)"
proof -
  have ok: "static_ok h s" and n: "static.names s frames j"
    using static_run_names [OF assms(1)] assms(4) by auto
  have ins: "\<exists>s' i. static_InsertStacktrace h s st = Some (s', i) \<and>
      unat (ss_size s') < ElementsCount \<and> unat (ss_storageSize s') < StorageSize"
    using static_InsertStacktrace_spec [OF ok refl, of st] by (auto simp: static_ok_def)
  show ?thesis
  proof (cases "j = UnknownTraceId")
    case True
    have "\<not> unat (j XOR FixedTrackerIdFlag) < unat (ss_size s)"
      using ok by (simp add: True UnknownTraceId_flag static_ok_def static_consts)
    then show ?thesis using ins True static_GetStacktraceFromId_spec [OF ok assms(3), of j] by auto
  next
    case False
    then have "stored s (unat (j XOR FixedTrackerIdFlag)) (take MaxStacktraceLength frames)" "IsFixedTrackerId j"
      using n ok by (simp_all add: static.names_def static_recall_iff)
    moreover from this have "unat (j XOR FixedTrackerIdFlag) < unat (ss_size s)" by (simp add: stored_def)
    ultimately show ?thesis
      using ins False static_GetStacktraceFromId_spec [OF ok assms(3), of j] by (auto dest: stored_unique)
  qed
qed

definition demo_hash :: "u32 list \<Rightarrow> u64" where
  "demo_hash ws = 0"

lemma demo_static_insert:
  "\<exists>s. static_InsertStacktrace demo_hash StaticStacktraceTracker demo_trace = Some (s, FixedTrackerIdFlag)"
proof (rule InsertStacktraceUnlocked_cases [OF static_ok_init [of demo_hash], of "[5, 4, 3, 2, 1]"])
  have none: "\<not> i < unat (ss_size StaticStacktraceTracker)" for i by (simp add: StaticStacktraceTracker_def)
  then show ?thesis if "i < unat (ss_size StaticStacktraceTracker)" for i using that by blast
  show ?thesis if "InsertStacktraceUnlocked demo_hash StaticStacktraceTracker [5, 4, 3, 2, 1] = Some (s', ss_size StaticStacktraceTracker)" for s'
    using that by (simp add: static_InsertStacktrace_def MaxStacktraceLength_def StaticStacktraceTracker_def)
  show "length [5, 4, 3, 2, 1 :: ptr] \<le> MaxStacktraceLength" by (simp add: MaxStacktraceLength_def)
  assume full: "InsertStacktraceUnlocked demo_hash StaticStacktraceTracker [5, 4, 3, 2, 1] = Some (StaticStacktraceTracker, 513)"
  obtain buf n where "Compress [5, 4, 3, 2, 1] (replicate 48 0) = Some (buf, n)" "unat n \<le> 14" "length buf = 48"
    using pack_short [of "[5, 4, 3, 2, 1]"] by (auto simp: MaxStacktraceLength_def)
  then show ?thesis
    using full by (auto simp: InsertStacktraceUnlocked_def Let_def StaticStacktraceTracker_def static_consts
        wr_def unat_plus_if_size word_size)
qed

theorem static_roundtrip_witness:
  "\<exists>s t. static_GetStacktraceFromId (replicate 64 0) s FixedTrackerIdFlag = Some (Some t) \<and> GetTrace t = [5, 4, 3, 2, 1] \<and>
    (\<exists>s' i. static_InsertStacktrace demo_hash s demo_trace = Some (s', i))"
proof -
  obtain s where s: "static_InsertStacktrace demo_hash StaticStacktraceTracker demo_trace = Some (s, FixedTrackerIdFlag)"
    using demo_static_insert by blast
  have run: "static_run demo_hash ([] @ [(GetTrace demo_trace, FixedTrackerIdFlag)]) s"
    by (rule static_run.insert [OF static_run.start _ s]) simp
  have "FixedTrackerIdFlag \<noteq> UnknownTraceId" by (rule flag_known)
  then show ?thesis
    using static_roundtrip [OF run, of demo_trace "replicate 64 0" "[5, 4, 3, 2, 1]" FixedTrackerIdFlag]
    by (auto simp: MaxUnwindDepth_def MaxStacktraceLength_def)
qed

text \<open>
  No duplicates: in every reachable state, inserting a trace that agrees with a stored one on the
  first six frames returns the same identifier and leaves the storage as it is, unless that trace was
  turned away because the storage was full.
\<close>

theorem static_insert_again:
  assumes "static_run h hist s" "(frames, j) \<in> set hist" "j \<noteq> UnknownTraceId" "stacktrace_ok st"
    and "take MaxStacktraceLength (GetTrace st) = take MaxStacktraceLength frames"
  shows "static_InsertStacktrace h s st = Some (s, j)"
proof -
  have ok: "static_ok h s" and n: "static.names s frames j"
    using static_run_names [OF assms(1)] assms(2) by auto
  then have "static_recall s j = Some (take MaxStacktraceLength (GetTrace st))"
    using assms(3,5) by (simp add: static.names_def)
  then show ?thesis using static.ins_again [OF ok assms(4)] by simp
qed

theorem static_insert_again_witness:
  "\<exists>s. static_InsertStacktrace demo_hash StaticStacktraceTracker demo_trace = Some (s, FixedTrackerIdFlag) \<and>
     static_InsertStacktrace demo_hash s demo_trace = Some (s, FixedTrackerIdFlag)"
proof -
  obtain s where s: "static_InsertStacktrace demo_hash StaticStacktraceTracker demo_trace = Some (s, FixedTrackerIdFlag)"
    using demo_static_insert by blast
  have run: "static_run demo_hash ([] @ [(GetTrace demo_trace, FixedTrackerIdFlag)]) s"
    by (rule static_run.insert [OF static_run.start _ s]) simp
  have "FixedTrackerIdFlag \<noteq> UnknownTraceId" by (rule flag_known)
  then show ?thesis
    using s static_insert_again [OF run, of "GetTrace demo_trace" FixedTrackerIdFlag demo_trace] by simp
qed

end
