(* ===== verification/Thread_Tracker.thy ===== *)
theory Thread_Tracker
  imports Alloc_Info Lru_Cache Stacktrace_Tree Static_Tracker
begin

text \<open>
  The per-thread tracker (\<open>src/source/memhawk/src/impl/thread_tracker.h\<close>, \<open>thread_tracker.cpp\<close>). It
  caches the identifiers of recent stack traces and sums allocations and deallocations per identifier.
  Every operation runs under the tracker's lock, so it is one step here.

  The shared \<open>IStacktraceTracker\<close> is a state of its own, with its insertion as the argument \<open>ins\<close>. The
  lookup by identifier, the cache and the store meet only through their interfaces.
\<close>

section \<open>The model\<close>

record ThreadTracker =
  m_trackerId :: u32
  m_collapseDepth :: u32
  m_totalAllocs :: u64
  m_totalDeallocs :: u64
  m_cacheMisses :: u64
  m_cacheUsages :: u64
  m_total :: AllocSummary
  m_lruStacktraces :: "(CompressedStacktrace, u32) lru"
  m_localCompressed :: CompressedStacktrace
  m_allocSummaries :: "(u32 \<times> AllocSummary) list"

definition ThreadTracker_new :: "u32 \<Rightarrow> u32 \<Rightarrow> u32 \<Rightarrow> ThreadTracker" where
  "ThreadTracker_new ident capacity collapseDepth =
     \<lparr>m_trackerId = ident, m_collapseDepth = collapseDepth, m_totalAllocs = 0, m_totalDeallocs = 0,
      m_cacheMisses = 0, m_cacheUsages = 0, m_total = 0, m_lruStacktraces = LruCache (unat capacity),
      m_localCompressed = CompressedStacktrace [] 0, m_allocSummaries = []\<rparr>"

definition SaveTraceId ::
  "bool \<Rightarrow> (ptr list \<Rightarrow> u64) \<Rightarrow> ('s \<Rightarrow> Stacktrace \<Rightarrow> ('s \<times> u32) option) \<Rightarrow>
   ThreadTracker \<Rightarrow> 's \<Rightarrow> AllocInfo \<Rightarrow> Stacktrace \<Rightarrow> (ThreadTracker \<times> 's \<times> AllocInfo \<times> Stacktrace) option" where
  "SaveTraceId avx512 XXH3_64bits ins tt store info trace =
     (let tt = tt\<lparr>m_cacheUsages := m_cacheUsages tt + 1,
                  m_localCompressed := Stacktrace_Compress XXH3_64bits trace\<rparr>;
          (lru, traceId) = lru_Touch (m_lruStacktraces tt) (m_localCompressed tt);
          tt = tt\<lparr>m_lruStacktraces := lru\<rparr>
      in case traceId of
           Some i \<Rightarrow> Some (tt, store, info\<lparr>ai_traceId := i\<rparr>, trace)
         | None \<Rightarrow>
             do { trace \<leftarrow> Stacktrace_CollapseRecursion avx512 trace (ucast (m_collapseDepth tt));
                  let tt = tt\<lparr>m_cacheMisses := m_cacheMisses tt + 1\<rparr>;
                  (store, i) \<leftarrow> ins store trace;
                  (lru, evicted) \<leftarrow> lru_Insert (m_lruStacktraces tt) (m_localCompressed tt) i;
                  Some (tt\<lparr>m_lruStacktraces := lru,
                           m_localCompressed := (case evicted of Some k \<Rightarrow> k | None \<Rightarrow> CompressedStacktrace [] 0)\<rparr>,
                        store, info\<lparr>ai_traceId := i\<rparr>, trace) })"

definition TrackAlloc :: "ThreadTracker \<Rightarrow> AllocInfo \<Rightarrow> ThreadTracker" where
  "TrackAlloc tt info =
     (let tt = tt\<lparr>m_totalAllocs := m_totalAllocs tt + 1\<rparr>;
          summaries = map_insert (ai_traceId info) 0 (m_allocSummaries tt)
      in tt\<lparr>m_allocSummaries := map_modify (ai_traceId info) (\<lambda>stats. summary_add_info stats info) summaries,
            m_total := summary_add_info (m_total tt) info\<rparr>)"

definition TrackDealloc :: "ThreadTracker \<Rightarrow> AllocInfo \<Rightarrow> ThreadTracker" where
  "TrackDealloc tt info =
     (let tt = tt\<lparr>m_totalDeallocs := m_totalDeallocs tt + 1\<rparr>;
          summaries = map_insert (ai_traceId info) 0 (m_allocSummaries tt)
      in tt\<lparr>m_allocSummaries := map_modify (ai_traceId info) (\<lambda>stats. summary_sub_info stats info) summaries,
            m_total := summary_sub_info (m_total tt) info\<rparr>)"

definition ConsumeDiff ::
  "ThreadTracker \<Rightarrow> (u32 \<times> AllocSummary) list \<Rightarrow> AllocSummary \<Rightarrow>
   ThreadTracker \<times> (u32 \<times> AllocSummary) list \<times> AllocSummary" where
  "ConsumeDiff tt summaries tot =
     (tt\<lparr>m_allocSummaries := [], m_total := 0\<rparr>, m_allocSummaries tt, summary_add tot (m_total tt))"

section \<open>Accounting\<close>

text \<open>The sum recorded for an identifier, and the sum of a whole map.\<close>

definition summary_at :: "(u32 \<times> AllocSummary) list \<Rightarrow> u32 \<Rightarrow> AllocSummary" where
  "summary_at m i = (case map_of m i of Some s \<Rightarrow> s | None \<Rightarrow> 0)"

definition summaries_total :: "(u32 \<times> AllocSummary) list \<Rightarrow> AllocSummary" where
  "summaries_total m = sum_list (map snd m)"

lemma summary_at_modify:
  "summary_at (map_modify k (\<lambda>s. s + d) (map_insert k 0 m)) i = summary_at m i + (if i = k then d else 0)"
  by (auto simp: summary_at_def map_of_map_modify map_of_map_insert split: option.split)

lemma total_map_modify:
  assumes "distinct (map fst m)" "k \<in> fst ` set m"
  shows "summaries_total (map_modify k (\<lambda>s. s + d) m) = summaries_total m + d"
  using assms
proof (induction m)
  case (Cons e m)
  obtain k' v where e: "e = (k', v)" by fastforce
  show ?case
  proof (cases "k' = k")
    case True
    then have "map_modify k (\<lambda>s. s + d) m = m"
      using Cons.prems e by (force simp: map_modify_def intro!: map_idI)
    then show ?thesis using True e by (simp add: map_modify_def summaries_total_def ac_simps)
  next
    case False
    then show ?thesis
      using Cons e by (simp add: map_modify_def summaries_total_def image_iff ac_simps)
  qed
qed simp

lemma total_map_insert_0 [simp]: "summaries_total (map_insert k 0 m) = summaries_total m"
  by (simp add: map_insert_def summaries_total_def split: option.split)

lemma total_modify_insert:
  assumes "distinct (map fst m)"
  shows "summaries_total (map_modify k (\<lambda>s. s + d) (map_insert k 0 m)) = summaries_total m + d"
  using total_map_modify [OF distinct_map_insert [OF assms] key_map_insert] by simp

datatype track_event = Alloc AllocInfo | Dealloc AllocInfo

fun track :: "ThreadTracker \<Rightarrow> track_event \<Rightarrow> ThreadTracker" where
  "track tt (Alloc info) = TrackAlloc tt info"
| "track tt (Dealloc info) = TrackDealloc tt info"

fun event_id :: "track_event \<Rightarrow> u32" where
  "event_id (Alloc info) = ai_traceId info"
| "event_id (Dealloc info) = ai_traceId info"

fun event_delta :: "track_event \<Rightarrow> AllocSummary" where
  "event_delta (Alloc info) = alloc_delta info"
| "event_delta (Dealloc info) = free_delta info"

lemma track_eq:
  "m_allocSummaries (track tt e) =
     map_modify (event_id e) (\<lambda>s. s + event_delta e) (map_insert (event_id e) 0 (m_allocSummaries tt))"
  "m_total (track tt e) = m_total tt + event_delta e"
  by (cases e; simp add: TrackAlloc_def TrackDealloc_def Let_def)+

text \<open>The invariant: one entry per identifier, and \<open>m_total\<close> is the sum of the entries.\<close>

definition accounts_ok :: "ThreadTracker \<Rightarrow> bool" where
  "accounts_ok tt \<longleftrightarrow> distinct (map fst (m_allocSummaries tt)) \<and> m_total tt = summaries_total (m_allocSummaries tt)"

lemma track_accounts_ok: "accounts_ok tt \<Longrightarrow> accounts_ok (track tt e)"
  by (simp add: accounts_ok_def track_eq total_modify_insert distinct_map_insert)

definition delta_sum :: "track_event list \<Rightarrow> u32 \<Rightarrow> AllocSummary" where
  "delta_sum es i = sum_list (map event_delta (filter (\<lambda>e. event_id e = i) es))"

lemma delta_sum_append: "delta_sum (es @ es') i = delta_sum es i + delta_sum es' i"
  by (simp add: delta_sum_def)

lemma foldl_track:
  assumes "accounts_ok tt"
  shows "accounts_ok (foldl track tt es) \<and>
    summary_at (m_allocSummaries (foldl track tt es)) i = summary_at (m_allocSummaries tt) i + delta_sum es i \<and>
    m_total (foldl track tt es) = m_total tt + sum_list (map event_delta es)"
  using assms
proof (induction es arbitrary: tt)
  case Nil
  then show ?case by (simp add: delta_sum_def)
next
  case (Cons e es)
  then show ?case
    using Cons.IH [OF track_accounts_ok [OF Cons.prems]]
    by (simp add: track_eq summary_at_modify delta_sum_def ac_simps)
qed

section \<open>The cache in front of the store\<close>

text \<open>
  A cached identifier is right as long as it names the collapsed form of its key; the store promises
  that this stays so under every later insertion.
\<close>

context trace_store
begin

definition cache_ok :: "'s \<Rightarrow> ThreadTracker \<Rightarrow> bool" where
  "cache_ok s tt \<longleftrightarrow>
     lru.coherent (\<lambda>k i. names s (collapse_ref (cs_data k) (unat (m_collapseDepth tt))) i) (m_lruStacktraces tt)"

lemma cache_ok_stable:
  assumes "cache_ok s tt" "\<And>xs j. names s xs j \<Longrightarrow> names s' xs j"
  shows "cache_ok s' tt"
  using assms by (auto simp: cache_ok_def lru.coherent_def)

lemma cache_ok_new: "0 < unat capacity \<Longrightarrow> cache_ok s (ThreadTracker_new ident capacity depth)"
  by (simp add: cache_ok_def lru.coherent_def ThreadTracker_new_def LruCache_ok)
    (simp add: LruCache_def)

lemma SaveTraceId_names:
  assumes inv: "invar s" and tr: "stacktrace_ok trace" and depth: "unat (m_collapseDepth tt) < 2 ^ 32 - 1"
    and room: "\<And>t. stacktrace_ok t \<Longrightarrow> room s t" and cache: "cache_ok s tt"
  shows "\<exists>tt' s' i trace'. SaveTraceId avx512 h ins tt s info trace = Some (tt', s', info\<lparr>ai_traceId := i\<rparr>, trace') \<and>
    invar s' \<and> cache_ok s' tt' \<and> m_collapseDepth tt' = m_collapseDepth tt \<and>
    names s' (collapse_ref (GetTrace trace) (unat (m_collapseDepth tt))) i \<and>
    (\<forall>xs j. names s xs j \<longrightarrow> names s' xs j)"
proof -
  let ?d = "unat (m_collapseDepth tt)" and ?key = "Stacktrace_Compress h trace"
  obtain c r where t: "lru_Touch (m_lruStacktraces tt) ?key = (c, r)" by fastforce
  note co = lru.touch_coherent [OF cache [unfolded cache_ok_def], of ?key, unfolded t fst_conv snd_conv]
  show ?thesis
  proof (cases r)
    case (Some i)
    have "names s (collapse_ref (GetTrace trace) ?d) i" using co(2) Some by simp
    with inv co(1) Some t show ?thesis by (auto simp: SaveTraceId_def Let_def cache_ok_def)
  next
    case None
    have "unat (ucast (m_collapseDepth tt) :: u64) = ?d"
      using depth by (simp add: unsigned_ucast_eq take_bit_nat_eq_self)
    then obtain trace' where ct: "Stacktrace_CollapseRecursion avx512 trace (ucast (m_collapseDepth tt)) = Some trace'"
      "stacktrace_ok trace'" "GetTrace trace' = collapse_ref (GetTrace trace) ?d"
      using Stacktrace_CollapseRecursion_ok [OF tr, of "ucast (m_collapseDepth tt)" avx512] depth by auto
    obtain s' i where ins: "ins s trace' = Some (s', i)"
      using ins_returns [OF inv ct(2) room [OF ct(2)]] by blast
    have new: "invar s'" "names s' (collapse_ref (GetTrace trace) ?d) i"
      using ins_names [OF inv ct(2) room [OF ct(2)] ins] ct(3) by simp_all
    have keep: "names s' xs j" if "names s xs j" for xs j
      using names_stable [OF inv ct(2) room [OF ct(2)] ins that] .
    have co': "lru.coherent (\<lambda>k i. names s' (collapse_ref (cs_data k) ?d) i) (m_lruStacktraces tt)"
      using cache keep by (auto simp: cache_ok_def lru.coherent_def)
    obtain c' ev where "lru_Insert c ?key i = Some (c', ev)"
      "lru.coherent (\<lambda>k i. names s' (collapse_ref (cs_data k) ?d) i) c'"
      using lru.miss_insert_coherent [OF co', of ?key i] t None new by auto
    then show ?thesis
      using t None ct ins new keep by (auto simp: SaveTraceId_def Let_def cache_ok_def)
  qed
qed

end

section \<open>Many threads, one store\<close>

text \<open>
  Threads start at any time and save traces in any order; each keeps its own cache and all share one
  store. The history records the frames each call was given and the identifier it put in the
  \<open>AllocInfo\<close>. \<open>roomy\<close> says that the store's counters can take one more trace.
\<close>

inductive save_run ::
  "bool \<Rightarrow> (ptr list \<Rightarrow> u64) \<Rightarrow> ('s \<Rightarrow> Stacktrace \<Rightarrow> ('s \<times> u32) option) \<Rightarrow> ('s \<Rightarrow> bool) \<Rightarrow> 's \<Rightarrow> u32 \<Rightarrow> u32 \<Rightarrow>
   (ptr list \<times> u32) list \<Rightarrow> ThreadTracker list \<Rightarrow> 's \<Rightarrow> bool"
  for avx512 h ins roomy s0 capacity depth where
  start: "save_run avx512 h ins roomy s0 capacity depth [] [] s0"
| spawn: "save_run avx512 h ins roomy s0 capacity depth hist tts s \<Longrightarrow>
    save_run avx512 h ins roomy s0 capacity depth hist (tts @ [ThreadTracker_new ident capacity depth]) s"
| save: "save_run avx512 h ins roomy s0 capacity depth hist tts s \<Longrightarrow> n < length tts \<Longrightarrow> roomy s \<Longrightarrow>
    stacktrace_ok trace \<Longrightarrow>
    SaveTraceId avx512 h ins (tts ! n) s info trace = Some (tt', s', info', trace') \<Longrightarrow>
    save_run avx512 h ins roomy s0 capacity depth (hist @ [(GetTrace trace, ai_traceId info')]) (tts[n := tt']) s'"

context trace_store
begin

lemma save_run_names:
  assumes run: "save_run avx512 h ins roomy s0 capacity depth hist tts s"
    and init: "invar s0" and cap: "0 < unat capacity" and depth: "unat depth < 2 ^ 32 - 1"
    and room: "\<And>s t. invar s \<Longrightarrow> roomy s \<Longrightarrow> stacktrace_ok t \<Longrightarrow> room s t"
  shows "invar s \<and> (\<forall>tt \<in> set tts. cache_ok s tt \<and> m_collapseDepth tt = depth) \<and>
    (\<forall>(xs, i) \<in> set hist. names s (collapse_ref xs (unat depth)) i)"
  using run
proof (induction rule: save_run.induct)
  case start
  then show ?case using init by simp
next
  case (spawn hist tts s ident)
  then show ?case using cache_ok_new [OF cap] by (auto simp: ThreadTracker_new_def)
next
  case (save hist tts s n trace info tt' s' info' trace')
  then have "cache_ok s (tts ! n)" "m_collapseDepth (tts ! n) = depth" by auto
  then obtain tt1 s1 i1 tr1 where r: "SaveTraceId avx512 h ins (tts ! n) s info trace = Some (tt1, s1, info\<lparr>ai_traceId := i1\<rparr>, tr1)"
    "invar s1" "cache_ok s1 tt1" "m_collapseDepth tt1 = depth"
    "names s1 (collapse_ref (GetTrace trace) (unat depth)) i1" "\<forall>xs j. names s xs j \<longrightarrow> names s1 xs j"
    using SaveTraceId_names [of s trace "tts ! n" avx512 h info] save depth room by auto
  then have "tt1 = tt'" "s1 = s'" "ai_traceId info' = i1" using save.hyps by auto
  moreover have "cache_ok s' tt" if "tt \<in> set tts" for tt
    using cache_ok_stable [of s tt s'] that save.IH r(6) \<open>s1 = s'\<close> by blast
  ultimately show ?case
    using save.IH r by (auto dest!: set_update_subset_insert [THEN subsetD])
qed

lemma save_run_progress:
  assumes "save_run avx512 h ins roomy s0 capacity depth hist tts s" "invar s0" "0 < unat capacity"
    "unat depth < 2 ^ 32 - 1" "\<And>s t. invar s \<Longrightarrow> roomy s \<Longrightarrow> stacktrace_ok t \<Longrightarrow> room s t"
    and "n < length tts" "roomy s" "stacktrace_ok trace"
  shows "\<exists>r. SaveTraceId avx512 h ins (tts ! n) s info trace = Some r"
proof -
  have "invar s" "cache_ok s (tts ! n)" "m_collapseDepth (tts ! n) = depth"
    using save_run_names [OF assms(1-5)] assms(6) by simp_all
  then show ?thesis
    using SaveTraceId_names [of s trace "tts ! n" avx512 h info] assms(4,5,7,8) by auto
qed

end

section \<open>Properties\<close>

text \<open>The tree tracker can take any trace while it has room for \<open>MaxUnwindDepth\<close> more nodes.\<close>

definition tracker_roomy :: "Storage \<Rightarrow> bool" where
  "tracker_roomy s \<longleftrightarrow> length (nodes s) + MaxUnwindDepth \<le> 2 ^ 32"

lemma tracker_roomy_room: "tracker_roomy s \<Longrightarrow> stacktrace_ok t \<Longrightarrow> insert_room s t"
  using length_GetTrace_le [of t] by (simp add: tracker_roomy_def insert_room_def MaxUnwindDepth_def)

text \<open>
  The identifiers in the allocation records are right. Threads share the tree tracker, each with an
  LRU cache of its own in front of it, and save traces in any order. Then every identifier any
  \<open>SaveTraceId\<close> ever put in an \<open>AllocInfo\<close>, from the cache or from the store, yields the collapsed form
  of the frames of that call; and in every such state, a further \<open>SaveTraceId\<close> of any thread returns.
\<close>

theorem SaveTraceId_resolves:
  assumes "save_run avx512 h InsertStacktrace_opt tracker_roomy PostponedConstruct capacity depth hist tts s"
    and "0 < unat capacity" "unat depth < 2 ^ 32 - 1" "length mem = MaxUnwindDepth"
    and "(frames, i) \<in> set hist" "n < length tts" "tracker_roomy s" "stacktrace_ok trace"
  shows "(\<exists>st. GetStacktraceFromId mem s i = Some (Some st) \<and> stacktrace_ok st \<and>
      GetTrace st = filter (\<lambda>p. p \<noteq> 0) (collapse_ref frames (unat depth))) \<and>
    (\<exists>r. SaveTraceId avx512 h InsertStacktrace_opt (tts ! n) s info trace = Some r)"
proof
  note room = tracker_roomy_room
  have ok: "tracker_ok s" and "tracker_recall s i = Some (nonnull (collapse_ref frames (unat depth)))"
    using tracker.save_run_names [OF assms(1) PostponedConstruct_ok assms(2,3) room] assms(5)
    by (auto simp: tracker.names_def)
  then show "\<exists>st. GetStacktraceFromId mem s i = Some (Some st) \<and> stacktrace_ok st \<and>
      GetTrace st = filter (\<lambda>p. p \<noteq> 0) (collapse_ref frames (unat depth))"
    using GetStacktraceFromId_spec [OF ok assms(4), of i]
    by (auto simp: tracker_recall_eq nonnull_def split: if_splits)
  show "\<exists>r. SaveTraceId avx512 h InsertStacktrace_opt (tts ! n) s info trace = Some r"
    by (rule tracker.save_run_progress [OF assms(1) PostponedConstruct_ok assms(2,3) room assms(6-8)])
qed

definition demo_depth :: u32 where
  "demo_depth = 8"

abbreviation demo_save where
  "demo_save \<equiv> save_run True (\<lambda>_. 0) InsertStacktrace_opt tracker_roomy PostponedConstruct 2 demo_depth"

lemma demo_depth_ok: "unat demo_depth < 2 ^ 32 - 1"
  by (simp add: demo_depth_def)

lemma PostponedConstruct_roomy: "tracker_roomy PostponedConstruct"
  by (simp add: tracker_roomy_def PostponedConstruct_def GetPtrId_def StacktraceTree_new_def MaxUnwindDepth_def)

lemma demo_save_run: "\<exists>i tt s. demo_save [([5, 4, 3, 2, 1], i)] [tt] s \<and> tracker_roomy s"
proof -
  let ?tt = "ThreadTracker_new 1 2 demo_depth"
  have spawned: "demo_save [] ([] @ [?tt]) PostponedConstruct"
    by (rule save_run.spawn [OF save_run.start])
  obtain tr where ct: "Stacktrace_CollapseRecursion True demo_trace (ucast demo_depth) = Some tr" "stacktrace_ok tr"
    using Stacktrace_CollapseRecursion_ok [of demo_trace "ucast demo_depth" True] by (auto simp: demo_depth_def)
  obtain s' i where ins: "InsertStacktrace PostponedConstruct tr = (s', i)" by fastforce
  have "length (nodes s') \<le> 1 + 64"
    using InsertStacktrace_spec(8) [OF PostponedConstruct_ok ct(2) _ ins] length_GetTrace_le [OF ct(2)]
      tracker_roomy_room [OF PostponedConstruct_roomy ct(2)]
    by (simp add: PostponedConstruct_def GetPtrId_def StacktraceTree_new_def)
  then have roomy: "tracker_roomy s'" by (simp add: tracker_roomy_def MaxUnwindDepth_def)
  have d: "m_collapseDepth ?tt = demo_depth" by (simp add: ThreadTracker_new_def)
  have "SaveTraceId True (\<lambda>_. 0) InsertStacktrace_opt ?tt PostponedConstruct info demo_trace \<noteq> None" for info
    using tracker.save_run_progress [OF spawned PostponedConstruct_ok _ demo_depth_ok tracker_roomy_room, of 0 demo_trace info]
      PostponedConstruct_roomy by auto
  then obtain tt2 s2 info2 tr2 where
    save: "SaveTraceId True (\<lambda>_. 0) InsertStacktrace_opt ?tt PostponedConstruct (mk_AllocInfo 8 0) demo_trace = Some (tt2, s2, info2, tr2)"
    by (metis option.exhaust prod_cases4)
  then have "s2 = s'"
    using ct(1) ins d
    by (auto simp: SaveTraceId_def Let_def lru_Touch_def InsertStacktrace_opt_def bind_eq_Some_conv
        ThreadTracker_new_def LruCache_def split: prod.splits)
  moreover have "demo_save ([] @ [(GetTrace demo_trace, ai_traceId info2)]) (([] @ [?tt])[0 := tt2]) s2"
    by (rule save_run.save [OF spawned, where info = "mk_AllocInfo 8 0" and trace' = tr2])
      (use save PostponedConstruct_roomy in simp_all)
  ultimately show ?thesis using roomy by auto
qed

theorem SaveTraceId_resolves_witness:
  "\<exists>i s st. GetStacktraceFromId (replicate 64 0) s i = Some (Some st) \<and>
    GetTrace st = filter (\<lambda>p. p \<noteq> 0) (collapse_ref [5, 4, 3, 2, 1] 8)"
proof -
  obtain i tt s where r: "demo_save [([5, 4, 3, 2, 1], i)] [tt] s" "tracker_roomy s"
    using demo_save_run by blast
  show ?thesis
    using SaveTraceId_resolves [OF r(1) _ demo_depth_ok, of "replicate 64 0" "[5, 4, 3, 2, 1]" i 0 demo_trace "mk_AllocInfo 8 0"] r(2)
    by (auto simp: MaxUnwindDepth_def demo_depth_def)
qed

text \<open>
  Rounds of tracking: a batch of allocations and deallocations, then the worker takes the difference
  with \<open>ConsumeDiff\<close> and adds it to its running total.
\<close>

fun consume_rounds ::
  "ThreadTracker \<Rightarrow> AllocSummary \<Rightarrow> track_event list list \<Rightarrow> AllocSummary \<times> (u32 \<times> AllocSummary) list list" where
  "consume_rounds tt tot [] = (tot, [])"
| "consume_rounds tt tot (es # rest) =
     (let (tt, diff, tot) = ConsumeDiff (foldl track tt es) [] tot;
          (tot, diffs) = consume_rounds tt tot rest
      in (tot, diff # diffs))"

lemma consume_rounds_conserve:
  assumes "accounts_ok tt" "m_allocSummaries tt = []"
  shows "fst (consume_rounds tt tot bs) = tot + sum_list (map event_delta (concat bs)) \<and>
    sum_list (map (\<lambda>d. summary_at d i) (snd (consume_rounds tt tot bs))) = delta_sum (concat bs) i \<and>
    tot + sum_list (map summaries_total (snd (consume_rounds tt tot bs))) = fst (consume_rounds tt tot bs)"
  using assms
proof (induction bs arbitrary: tt tot)
  case Nil
  then show ?case by (simp add: delta_sum_def)
next
  case (Cons es bs)
  let ?tt = "foldl track tt es"
  let ?next = "?tt\<lparr>m_allocSummaries := [], m_total := 0\<rparr>"
  have base: "summary_at (m_allocSummaries tt) i = 0" "m_total tt = 0"
    using Cons.prems by (simp_all add: summary_at_def accounts_ok_def summaries_total_def)
  have f: "accounts_ok ?tt" "summary_at (m_allocSummaries ?tt) i = delta_sum es i"
    "m_total ?tt = sum_list (map event_delta es)"
    using foldl_track [OF Cons.prems(1), of es i] base by simp_all
  have next_ok: "accounts_ok ?next" "m_allocSummaries ?next = []"
    by (simp_all add: accounts_ok_def summaries_total_def)
  have t: "summaries_total (m_allocSummaries ?tt) = m_total ?tt" using f(1) by (simp add: accounts_ok_def)
  obtain T D where r: "consume_rounds ?next (tot + m_total ?tt) bs = (T, D)" by fastforce
  then have "consume_rounds tt tot (es # bs) = (T, m_allocSummaries ?tt # D)" by (simp add: ConsumeDiff_def)
  moreover have "T = tot + m_total ?tt + sum_list (map event_delta (concat bs))"
    "sum_list (map (\<lambda>d. summary_at d i) D) = delta_sum (concat bs) i"
    "tot + m_total ?tt + sum_list (map summaries_total D) = T"
    using Cons.IH [OF next_ok, of "tot + m_total ?tt"] r by simp_all
  ultimately show ?case using f(2,3) t by (simp add: delta_sum_append add.assoc)
qed

text \<open>
  Conservation: however the events of a thread are cut into rounds, the differences the worker
  takes add up, per stack trace identifier, to exactly the events with that identifier (an allocation
  adds its size, its header and one active block, a deallocation takes them away), and the running
  total is the sum of all events and the sum of all differences. Nothing is lost or counted twice when a
  difference is consumed.
\<close>

theorem ConsumeDiff_conserves:
  "fst (consume_rounds (ThreadTracker_new ident capacity depth) 0 batches) = sum_list (map event_delta (concat batches)) \<and>
   sum_list (map (\<lambda>diff. summary_at diff i) (snd (consume_rounds (ThreadTracker_new ident capacity depth) 0 batches))) =
     delta_sum (concat batches) i \<and>
   sum_list (map summaries_total (snd (consume_rounds (ThreadTracker_new ident capacity depth) 0 batches))) =
     fst (consume_rounds (ThreadTracker_new ident capacity depth) 0 batches)"
proof -
  have "accounts_ok (ThreadTracker_new ident capacity depth)" "m_allocSummaries (ThreadTracker_new ident capacity depth) = []"
    by (simp_all add: accounts_ok_def ThreadTracker_new_def summaries_total_def)
  from consume_rounds_conserve [OF this, of 0 batches i] show ?thesis by simp
qed

end
