(* ===== verification/Mem_Hawk.thy ===== *)
theory Mem_Hawk
  imports Thread_Tracker
begin

text \<open>
  The profiler object (\<open>src/source/memhawk/src/impl/memhawk.h\<close>, \<open>memhawk.cpp\<close>): registration of threads,
  tracking of the application's and of the profiler's own allocations, the bounded queue of postponed
  records, the tracking worker and the fork handlers.

  The state holds the trackers, the two trace stores, the queue and, per thread, the thread-local
  \<open>gtl_tracker\<close> and the tracker that the thread's finalizer will give back. A pointer to a thread
  tracker is its position in \<open>m_thTrackers\<close> or the special tracker for exiting threads. The level of the
  \<open>InnerAllocTag\<close> guard is an argument of the operations that look at it: a call made while another is in
  progress on the same thread sees a higher level. The calls the worker makes to its writer are recorded
  in order. Dereferencing a null or dangling pointer is \<open>None\<close>.
\<close>

section \<open>The model\<close>

datatype tracker_ref = ThTracker nat | ExitingTracker

datatype Operation = OpAlloc | OpFree

record Postponed =
  pp_info :: AllocInfo
  pp_op :: Operation

datatype writer_call =
    AccountSnapshot "(u32 \<times> AllocSummary) list" AllocSummary
  | UpdateModules
  | FlushData

text \<open>What the profiler is built and linked with: the collapse routine and the two hashes.\<close>

record env =
  avx512 :: bool
  hash_ptrs :: "ptr list \<Rightarrow> u64"
  hash_words :: "u32 list \<Rightarrow> u64"

record MemHawk =
  cfg_LruStackSize :: u32
  cfg_CollapseRecursionDepth :: u32
  m_modulesCacheInvalidated :: bool
  m_thTrackers :: "ThreadTracker list"
  m_finishedTrackers :: "u32 list"
  m_exitingThreadsTracker :: ThreadTracker
  m_btTracker :: Storage
  m_postponedCapacity :: nat
  m_maxPostponedSize :: nat
  m_postponed :: "Postponed list"
  m_innerTracker :: ThreadTracker
  m_innerBtTracker :: static_tracker
  gtl_tracker :: "(nat \<times> tracker_ref) list"
  gtl_trackerFinalizer :: "(nat \<times> nat) list"
  writer_calls :: "writer_call list"

definition ExitingThreadsTrackerId :: u32 where
  "ExitingThreadsTrackerId = push_bit 30 1"

definition InnerTrackerId :: u32 where
  "InnerTrackerId = push_bit 31 1"

text \<open>The constructor followed by \<open>PostponedConstruct\<close>.\<close>

definition MemHawk_new :: "u32 \<Rightarrow> u32 \<Rightarrow> nat \<Rightarrow> MemHawk" where
  "MemHawk_new lruSize depth maxPostponed =
     \<lparr>cfg_LruStackSize = lruSize, cfg_CollapseRecursionDepth = depth, m_modulesCacheInvalidated = True,
      m_thTrackers = [], m_finishedTrackers = [],
      m_exitingThreadsTracker = ThreadTracker_new ExitingThreadsTrackerId lruSize depth,
      m_btTracker = PostponedConstruct, m_postponedCapacity = maxPostponed, m_maxPostponedSize = 0, m_postponed = [],
      m_innerTracker = ThreadTracker_new InnerTrackerId lruSize depth,
      m_innerBtTracker = StaticStacktraceTracker, gtl_tracker = [], gtl_trackerFinalizer = [], writer_calls = []\<rparr>"

subsection \<open>Threads\<close>

definition set_gtl :: "nat \<Rightarrow> tracker_ref \<Rightarrow> MemHawk \<Rightarrow> MemHawk" where
  "set_gtl t r mh = mh\<lparr>gtl_tracker := (t, r) # gtl_tracker mh\<rparr>"

definition SetUpThreadTracker :: "nat \<Rightarrow> nat \<Rightarrow> MemHawk \<Rightarrow> MemHawk" where
  "SetUpThreadTracker t k mh =
     (set_gtl t (ThTracker k) mh)\<lparr>gtl_trackerFinalizer := (t, k) # gtl_trackerFinalizer mh\<rparr>"

definition RegisterThread :: "nat \<Rightarrow> MemHawk \<Rightarrow> MemHawk option" where
  "RegisterThread t mh =
     (if map_of (gtl_tracker mh) t \<noteq> None then Some mh
      else if m_finishedTrackers mh \<noteq> [] then
        (let trackerId = last (m_finishedTrackers mh);
             mh = mh\<lparr>m_finishedTrackers := butlast (m_finishedTrackers mh)\<rparr>
         in if unat trackerId < length (m_thTrackers mh)
            then Some (SetUpThreadTracker t (unat trackerId) mh) else None)
      else
        (let trackerId = length (m_thTrackers mh);
             mh = mh\<lparr>m_thTrackers := m_thTrackers mh @
                       [ThreadTracker_new (of_nat trackerId) (cfg_LruStackSize mh) (cfg_CollapseRecursionDepth mh)]\<rparr>
         in Some (SetUpThreadTracker t trackerId mh)))"

definition ReclaimTracker :: "nat \<Rightarrow> nat \<Rightarrow> MemHawk \<Rightarrow> MemHawk option" where
  "ReclaimTracker t k mh =
     (let mh = set_gtl t ExitingTracker mh
      in do { tt \<leftarrow> rd (m_thTrackers mh) k;
              Some (mh\<lparr>m_finishedTrackers := m_finishedTrackers mh @ [m_trackerId tt]\<rparr>) })"

text \<open>
  The end of a thread: the destructor of its \<open>gtl_trackerFinalizer\<close> runs the registered callback.
\<close>

definition ThreadExit :: "nat \<Rightarrow> MemHawk \<Rightarrow> MemHawk option" where
  "ThreadExit t mh =
     (case map_of (gtl_trackerFinalizer mh) t of
        None \<Rightarrow> Some mh
      | Some k \<Rightarrow>
          ReclaimTracker t k (mh\<lparr>gtl_trackerFinalizer := filter (\<lambda>e. fst e \<noteq> t) (gtl_trackerFinalizer mh)\<rparr>))"

definition get_tracker :: "MemHawk \<Rightarrow> tracker_ref \<Rightarrow> ThreadTracker option" where
  "get_tracker mh r =
     (case r of ThTracker k \<Rightarrow> rd (m_thTrackers mh) k | ExitingTracker \<Rightarrow> Some (m_exitingThreadsTracker mh))"

definition set_tracker :: "MemHawk \<Rightarrow> tracker_ref \<Rightarrow> ThreadTracker \<Rightarrow> MemHawk" where
  "set_tracker mh r tt =
     (case r of ThTracker k \<Rightarrow> mh\<lparr>m_thTrackers := (m_thTrackers mh)[k := tt]\<rparr>
      | ExitingTracker \<Rightarrow> mh\<lparr>m_exitingThreadsTracker := tt\<rparr>)"

text \<open>The start of every external operation: register the thread if needed, then follow \<open>gtl_tracker\<close>.\<close>

definition own_tracker :: "nat \<Rightarrow> MemHawk \<Rightarrow> (MemHawk \<times> tracker_ref \<times> ThreadTracker) option" where
  "own_tracker t mh =
     do { mh \<leftarrow> (if map_of (gtl_tracker mh) t = None then RegisterThread t mh else Some mh);
          r \<leftarrow> map_of (gtl_tracker mh) t;
          tt \<leftarrow> get_tracker mh r;
          Some (mh, r, tt) }"

subsection \<open>Postponed operations\<close>

definition postpone :: "Operation \<Rightarrow> AllocInfo \<Rightarrow> MemHawk \<Rightarrow> MemHawk" where
  "postpone opn info mh =
     (if length (m_postponed mh) \<ge> m_postponedCapacity mh then mh
      else
        (let q = m_postponed mh @ [\<lparr>pp_info = info, pp_op = opn\<rparr>]
         in mh\<lparr>m_postponed := q, m_maxPostponedSize := max (m_maxPostponedSize mh) (length q)\<rparr>))"

definition PostponeAlloc :: "AllocInfo \<Rightarrow> MemHawk \<Rightarrow> MemHawk" where
  "PostponeAlloc info mh = postpone OpAlloc info mh"

definition PostponeDealloc :: "AllocInfo \<Rightarrow> MemHawk \<Rightarrow> MemHawk" where
  "PostponeDealloc info mh = postpone OpFree info mh"

function ProcessPostponed :: "MemHawk \<Rightarrow> MemHawk" where
  "ProcessPostponed mh =
     (case m_postponed mh of
        [] \<Rightarrow> mh
      | delayed # rest \<Rightarrow>
          (let mh = mh\<lparr>m_postponed := rest\<rparr>
           in ProcessPostponed
                (if pp_op delayed = OpAlloc
                 then mh\<lparr>m_innerTracker := TrackAlloc (m_innerTracker mh) (pp_info delayed)\<rparr>
                 else mh\<lparr>m_innerTracker := TrackDealloc (m_innerTracker mh) (pp_info delayed)\<rparr>)))"
  by pat_completeness auto
termination
  by (relation "measure (\<lambda>mh. length (m_postponed mh))") auto

declare ProcessPostponed.simps [simp del]

subsection \<open>Tracking\<close>

definition mh_TrackAlloc ::
  "env \<Rightarrow> nat \<Rightarrow> u32 \<Rightarrow> bool \<Rightarrow> AllocInfo \<Rightarrow> Stacktrace \<Rightarrow> MemHawk \<Rightarrow> (MemHawk \<times> AllocInfo) option" where
  "mh_TrackAlloc e t innerLevel isExternal info trace mh =
     (if isExternal then
        do { (mh, r, tt) \<leftarrow> own_tracker t mh;
             (tt, bt, info, trace) \<leftarrow>
                SaveTraceId (avx512 e) (hash_ptrs e) InsertStacktrace_opt tt (m_btTracker mh) info trace;
             Some (set_tracker (mh\<lparr>m_btTracker := bt\<rparr>) r (TrackAlloc tt info), info) }
      else
        do { (st, i) \<leftarrow> static_InsertStacktrace (hash_words e) (m_innerBtTracker mh) trace;
             let info = info\<lparr>ai_traceId := i\<rparr>;
             let mh = mh\<lparr>m_innerBtTracker := st\<rparr>;
             if innerLevel + 1 = 1
             then let mh = ProcessPostponed mh
                  in Some (mh\<lparr>m_innerTracker := TrackAlloc (m_innerTracker mh) info\<rparr>, info)
             else Some (PostponeAlloc info mh, info) })"

definition mh_TrackDealloc :: "nat \<Rightarrow> u32 \<Rightarrow> bool \<Rightarrow> AllocInfo \<Rightarrow> MemHawk \<Rightarrow> MemHawk option" where
  "mh_TrackDealloc t innerLevel isExternal info mh =
     (if isExternal then
        do { (mh, r, tt) \<leftarrow> own_tracker t mh;
             Some (set_tracker mh r (TrackDealloc tt info)) }
      else if innerLevel + 1 = 1 then
        (let mh = ProcessPostponed mh
         in Some (mh\<lparr>m_innerTracker := TrackDealloc (m_innerTracker mh) info\<rparr>))
      else Some (PostponeDealloc info mh))"

definition mh_TrackRealloc ::
  "env \<Rightarrow> nat \<Rightarrow> u32 \<Rightarrow> bool \<Rightarrow> AllocInfo \<Rightarrow> AllocInfo \<Rightarrow> Stacktrace \<Rightarrow> MemHawk \<Rightarrow> (MemHawk \<times> AllocInfo) option" where
  "mh_TrackRealloc e t innerLevel isExternal prev info trace mh =
     (if isExternal then
        do { (mh, r, tt) \<leftarrow> own_tracker t mh;
             (tt, bt, info, trace) \<leftarrow>
                SaveTraceId (avx512 e) (hash_ptrs e) InsertStacktrace_opt tt (m_btTracker mh) info trace;
             Some (set_tracker (mh\<lparr>m_btTracker := bt\<rparr>) r (TrackAlloc (TrackDealloc tt prev) info), info) }
      else
        do { (st, i) \<leftarrow> static_InsertStacktrace (hash_words e) (m_innerBtTracker mh) trace;
             let info = info\<lparr>ai_traceId := i\<rparr>;
             let mh = mh\<lparr>m_innerBtTracker := st\<rparr>;
             if innerLevel + 1 = 1
             then let mh = ProcessPostponed mh
                  in Some (mh\<lparr>m_innerTracker := TrackAlloc (TrackDealloc (m_innerTracker mh) prev) info\<rparr>, info)
             else Some (PostponeAlloc info (PostponeDealloc prev mh), info) })"

definition InvalidateModulesCache :: "MemHawk \<Rightarrow> MemHawk" where
  "InvalidateModulesCache mh = mh\<lparr>m_modulesCacheInvalidated := True\<rparr>"

text \<open>\<open>InnerStacktraceFinder\<close>: the application's traces first, then the profiler's own.\<close>

definition Finder_GetStacktraceFromId :: "ptr list \<Rightarrow> MemHawk \<Rightarrow> u32 \<Rightarrow> Stacktrace option option" where
  "Finder_GetStacktraceFromId mem mh traceId =
     do { trace \<leftarrow> GetStacktraceFromId mem (m_btTracker mh) traceId;
          (case trace of
             Some st \<Rightarrow> Some (Some st)
           | None \<Rightarrow> static_GetStacktraceFromId mem (m_innerBtTracker mh) traceId) }"

subsection \<open>The tracking worker\<close>

definition WorkerAccountThreadTracker :: "ThreadTracker \<Rightarrow> writer_call list \<Rightarrow> ThreadTracker \<times> writer_call list" where
  "WorkerAccountThreadTracker tt calls =
     (let (tt, localSummaries, summary) = ConsumeDiff tt [] 0
      in (tt, calls @ [AccountSnapshot localSummaries summary]))"

fun account_all :: "ThreadTracker list \<Rightarrow> writer_call list \<Rightarrow> ThreadTracker list \<times> writer_call list" where
  "account_all [] calls = ([], calls)"
| "account_all (tt # tts) calls =
     (let (tt, calls) = WorkerAccountThreadTracker tt calls;
          (tts, calls) = account_all tts calls
      in (tt # tts, calls))"

definition WorkerUpdateData :: "MemHawk \<Rightarrow> MemHawk" where
  "WorkerUpdateData mh =
     (let (tts, calls) = account_all (m_thTrackers mh) (writer_calls mh);
          (inner, calls) = WorkerAccountThreadTracker (m_innerTracker mh) calls;
          (exiting, calls) = WorkerAccountThreadTracker (m_exitingThreadsTracker mh) calls;
          calls = (if m_modulesCacheInvalidated mh then calls @ [UpdateModules] else calls)
      in mh\<lparr>m_thTrackers := tts, m_innerTracker := inner, m_exitingThreadsTracker := exiting,
            m_modulesCacheInvalidated := False, writer_calls := calls\<rparr>)"

definition WorkerPrintData :: "MemHawk \<Rightarrow> MemHawk" where
  "WorkerPrintData mh = mh\<lparr>writer_calls := writer_calls mh @ [FlushData]\<rparr>"

text \<open>One round of the loop of \<open>TrackingWorker\<close>.\<close>

definition TrackingWorker_round :: "MemHawk \<Rightarrow> MemHawk" where
  "TrackingWorker_round mh = WorkerPrintData (WorkerUpdateData mh)"

section \<open>Invariant\<close>

text \<open>
  Every thread tracker is either in use by exactly one thread, which will give it back when it ends, or
  on the list of finished ones, exactly once.
\<close>

definition threads_ok :: "MemHawk \<Rightarrow> bool" where
  "threads_ok mh \<longleftrightarrow>
     length (m_thTrackers mh) \<le> 2 ^ 32 \<and>
     (\<forall>k < length (m_thTrackers mh). m_trackerId (m_thTrackers mh ! k) = of_nat k) \<and>
     distinct (map snd (gtl_trackerFinalizer mh) @ map unat (m_finishedTrackers mh)) \<and>
     set (map snd (gtl_trackerFinalizer mh) @ map unat (m_finishedTrackers mh)) = {..<length (m_thTrackers mh)} \<and>
     distinct (map fst (gtl_trackerFinalizer mh)) \<and>
     (\<forall>t k. map_of (gtl_tracker mh) t = Some (ThTracker k) \<longleftrightarrow> (t, k) \<in> set (gtl_trackerFinalizer mh))"

text \<open>The trackers that use the shared store, and all of them.\<close>

definition client_trackers :: "MemHawk \<Rightarrow> ThreadTracker list" where
  "client_trackers mh = m_thTrackers mh @ [m_exitingThreadsTracker mh]"

definition all_trackers :: "MemHawk \<Rightarrow> ThreadTracker list" where
  "all_trackers mh = client_trackers mh @ [m_innerTracker mh]"

definition stores_ok :: "env \<Rightarrow> MemHawk \<Rightarrow> bool" where
  "stores_ok e mh \<longleftrightarrow>
     tracker_ok (m_btTracker mh) \<and> static_ok (hash_words e) (m_innerBtTracker mh) \<and>
     0 < unat (cfg_LruStackSize mh) \<and> unat (cfg_CollapseRecursionDepth mh) < 2 ^ 32 - 1 \<and>
     (\<forall>tt \<in> set (client_trackers mh).
        tracker.cache_ok (m_btTracker mh) tt \<and> m_collapseDepth tt = cfg_CollapseRecursionDepth mh)"

definition books_ok :: "MemHawk \<Rightarrow> bool" where
  "books_ok mh \<longleftrightarrow> (\<forall>tt \<in> set (all_trackers mh). accounts_ok tt) \<and> length (m_postponed mh) \<le> m_postponedCapacity mh \<and>
     m_maxPostponedSize mh \<le> m_postponedCapacity mh"

definition mh_ok :: "env \<Rightarrow> MemHawk \<Rightarrow> bool" where
  "mh_ok e mh \<longleftrightarrow> threads_ok mh \<and> stores_ok e mh \<and> books_ok mh"

subsection \<open>The books\<close>

definition postponed_event :: "Postponed \<Rightarrow> track_event" where
  "postponed_event p = (case pp_op p of OpAlloc \<Rightarrow> Alloc (pp_info p) | OpFree \<Rightarrow> Dealloc (pp_info p))"

fun call_summaries :: "writer_call \<Rightarrow> (u32 \<times> AllocSummary) list" where
  "call_summaries (AccountSnapshot m s) = m"
| "call_summaries _ = []"

definition pending :: "MemHawk \<Rightarrow> u32 \<Rightarrow> AllocSummary" where
  "pending mh i = sum_list (map (\<lambda>tt. summary_at (m_allocSummaries tt) i) (all_trackers mh)) +
     delta_sum (map postponed_event (m_postponed mh)) i"

definition reported :: "MemHawk \<Rightarrow> u32 \<Rightarrow> AllocSummary" where
  "reported mh i = sum_list (map (\<lambda>c. summary_at (call_summaries c) i) (writer_calls mh))"

lemma sum_list_update_plus:
  fixes f :: "'a \<Rightarrow> 'b :: comm_monoid_add"
  assumes "k < length xs" "f y = f (xs ! k) + d"
  shows "sum_list (map f (xs[k := y])) = sum_list (map f xs) + d"
  using assms
proof (induction xs arbitrary: k)
  case (Cons x xs)
  then show ?case by (cases k) (simp_all add: ac_simps)
qed simp

lemma delta_sum_simps [simp]:
  "delta_sum [] i = 0"
  "delta_sum (ev # es) i = (if event_id ev = i then event_delta ev else 0) + delta_sum es i"
  by (simp_all add: delta_sum_def)

lemma summary_at_track:
  "summary_at (m_allocSummaries (track tt ev)) i = summary_at (m_allocSummaries tt) i + delta_sum [ev] i"
  by (simp add: track_eq summary_at_modify)

lemma track_static:
  "m_trackerId (track tt ev) = m_trackerId tt" "m_collapseDepth (track tt ev) = m_collapseDepth tt"
  "m_lruStacktraces (track tt ev) = m_lruStacktraces tt"
  by (cases ev; simp add: TrackAlloc_def TrackDealloc_def Let_def)+

lemma cache_ok_track [simp]: "tracker.cache_ok s (track tt ev) = tracker.cache_ok s tt"
  by (simp add: tracker.cache_ok_def track_static)

lemma TrackAlloc_track: "TrackAlloc tt info = track tt (Alloc info)"
  and TrackDealloc_track: "TrackDealloc tt info = track tt (Dealloc info)"
  by simp_all

lemma ProcessPostponed_track:
  "ProcessPostponed mh =
     mh\<lparr>m_postponed := [], m_innerTracker := foldl track (m_innerTracker mh) (map postponed_event (m_postponed mh))\<rparr>"
proof (induction mh rule: ProcessPostponed.induct)
  case (1 mh)
  show ?case
  proof (cases "m_postponed mh")
    case Nil
    then show ?thesis by (subst ProcessPostponed.simps) simp
  next
    case (Cons d rest)
    then show ?thesis
      using 1 [OF Cons refl] by (subst ProcessPostponed.simps) (cases "pp_op d"; simp add: postponed_event_def [of d])
  qed
qed

lemma summary_at_foldl_track:
  "summary_at (m_allocSummaries (foldl track tt es)) i = summary_at (m_allocSummaries tt) i + delta_sum es i"
  by (induction es arbitrary: tt) (simp_all add: summary_at_track ac_simps)

lemma accounts_ok_foldl_track: "accounts_ok tt \<Longrightarrow> accounts_ok (foldl track tt es)"
  by (induction es arbitrary: tt) (simp_all add: track_accounts_ok)

subsection \<open>Following \<open>gtl_tracker\<close>\<close>

lemma get_tracker_client: "get_tracker mh r = Some tt \<Longrightarrow> tt \<in> set (client_trackers mh)"
  by (auto simp: get_tracker_def client_trackers_def rd_eq_Some_iff split: tracker_ref.splits)

text \<open>Writing back a tracker of the same identity, with more on its books.\<close>

lemma set_tracker_effect:
  assumes "get_tracker mh r = Some tt" "m_trackerId tt' = m_trackerId tt"
    and "\<And>i. summary_at (m_allocSummaries tt') i = summary_at (m_allocSummaries tt) i + d i"
  shows "threads_ok (set_tracker mh r tt') = threads_ok mh"
    "pending (set_tracker mh r tt') i = pending mh i + d i"
    "reported (set_tracker mh r tt') i = reported mh i"
    "set (client_trackers (set_tracker mh r tt')) \<subseteq> insert tt' (set (client_trackers mh))"
proof -
  have same: "m_trackerId ((m_thTrackers mh)[k := tt'] ! j) = m_trackerId (m_thTrackers mh ! j)"
    if "r = ThTracker k" "j < length (m_thTrackers mh)" for k j
    using assms(1,2) that by (auto simp: get_tracker_def rd_eq_Some_iff nth_list_update)
  then show "threads_ok (set_tracker mh r tt') = threads_ok mh"
    by (cases r) (simp_all add: set_tracker_def threads_ok_def)
  show "pending (set_tracker mh r tt') i = pending mh i + d i"
  proof (cases r)
    case (ThTracker k)
    then have "k < length (m_thTrackers mh)" "m_thTrackers mh ! k = tt"
      using assms(1) by (auto simp: get_tracker_def rd_eq_Some_iff)
    then have "(\<Sum>x\<leftarrow>(m_thTrackers mh)[k := tt']. summary_at (m_allocSummaries x) i) =
        (\<Sum>x\<leftarrow>m_thTrackers mh. summary_at (m_allocSummaries x) i) + d i"
      by (intro sum_list_update_plus) (simp_all add: assms(3))
    then show ?thesis
      using ThTracker by (simp add: pending_def all_trackers_def client_trackers_def set_tracker_def ac_simps)
  next
    case ExitingTracker
    then show ?thesis
      using assms(1,3)
      by (simp add: pending_def all_trackers_def client_trackers_def set_tracker_def get_tracker_def ac_simps)
  qed
  show "reported (set_tracker mh r tt') i = reported mh i"
    by (cases r) (simp_all add: reported_def set_tracker_def)
  show "set (client_trackers (set_tracker mh r tt')) \<subseteq> insert tt' (set (client_trackers mh))"
    by (cases r) (auto simp: client_trackers_def set_tracker_def dest!: set_update_subset_insert [THEN subsetD])
qed

lemma set_tracker_sel [simp]:
  "m_btTracker (set_tracker mh r tt) = m_btTracker mh" "m_innerBtTracker (set_tracker mh r tt) = m_innerBtTracker mh"
  "m_innerTracker (set_tracker mh r tt) = m_innerTracker mh" "m_postponed (set_tracker mh r tt) = m_postponed mh"
  "m_postponedCapacity (set_tracker mh r tt) = m_postponedCapacity mh"
  "m_maxPostponedSize (set_tracker mh r tt) = m_maxPostponedSize mh"
  "cfg_LruStackSize (set_tracker mh r tt) = cfg_LruStackSize mh"
  "cfg_CollapseRecursionDepth (set_tracker mh r tt) = cfg_CollapseRecursionDepth mh"
  "gtl_tracker (set_tracker mh r tt) = gtl_tracker mh"
  "gtl_trackerFinalizer (set_tracker mh r tt) = gtl_trackerFinalizer mh"
  by (cases r; simp add: set_tracker_def)+

subsection \<open>Registration and thread exit\<close>

lemma threads_ok_no_finalizer:
  "threads_ok mh \<Longrightarrow> map_of (gtl_tracker mh) t = None \<Longrightarrow> t \<notin> fst ` set (gtl_trackerFinalizer mh)"
  unfolding threads_ok_def by (metis imageE option.distinct(1) prod.collapse)

lemma SetUp_recycled:
  assumes ok: "threads_ok mh" and gtl: "map_of (gtl_tracker mh) t = None" and fin: "m_finishedTrackers mh = fs @ [i]"
  shows "unat i < length (m_thTrackers mh)" "threads_ok (SetUpThreadTracker t (unat i) (mh\<lparr>m_finishedTrackers := fs\<rparr>))"
proof -
  show "unat i < length (m_thTrackers mh)" using ok fin by (auto simp: threads_ok_def)
  show "threads_ok (SetUpThreadTracker t (unat i) (mh\<lparr>m_finishedTrackers := fs\<rparr>))"
    using ok fin threads_ok_no_finalizer [OF ok gtl]
    by (auto simp: threads_ok_def SetUpThreadTracker_def set_gtl_def image_iff)
qed

lemma SetUp_new:
  assumes ok: "threads_ok mh" and gtl: "map_of (gtl_tracker mh) t = None" and len: "length (m_thTrackers mh) < 2 ^ 32"
    and tt: "m_trackerId tt = of_nat (length (m_thTrackers mh))"
  shows "threads_ok (SetUpThreadTracker t (length (m_thTrackers mh)) (mh\<lparr>m_thTrackers := m_thTrackers mh @ [tt]\<rparr>))"
proof -
  let ?n = "length (m_thTrackers mh)"
  have s: "snd ` set (gtl_trackerFinalizer mh) \<union> unat ` set (m_finishedTrackers mh) = {..<?n}"
    using ok by (simp add: threads_ok_def)
  then have "?n \<notin> snd ` set (gtl_trackerFinalizer mh)" "?n \<notin> unat ` set (m_finishedTrackers mh)"
    by (metis UnI1 UnI2 lessThan_iff less_irrefl)+
  moreover have "insert ?n (snd ` set (gtl_trackerFinalizer mh) \<union> unat ` set (m_finishedTrackers mh)) = {..<Suc ?n}"
    using s by (simp add: lessThan_Suc)
  moreover have "t \<notin> fst ` set (gtl_trackerFinalizer mh)" using threads_ok_no_finalizer [OF ok gtl] .
  moreover from this have "(t, k) \<notin> set (gtl_trackerFinalizer mh)" for k by force
  ultimately show ?thesis
    using ok len tt by (auto simp: threads_ok_def SetUpThreadTracker_def set_gtl_def nth_append less_Suc_eq)
qed

lemma SetUp_sel [simp]:
  "m_thTrackers (SetUpThreadTracker t k mh) = m_thTrackers mh" "m_btTracker (SetUpThreadTracker t k mh) = m_btTracker mh"
  "m_exitingThreadsTracker (SetUpThreadTracker t k mh) = m_exitingThreadsTracker mh"
  "m_innerTracker (SetUpThreadTracker t k mh) = m_innerTracker mh" "m_innerBtTracker (SetUpThreadTracker t k mh) = m_innerBtTracker mh"
  "m_postponed (SetUpThreadTracker t k mh) = m_postponed mh"
  "m_postponedCapacity (SetUpThreadTracker t k mh) = m_postponedCapacity mh"
  "m_maxPostponedSize (SetUpThreadTracker t k mh) = m_maxPostponedSize mh"
  "cfg_LruStackSize (SetUpThreadTracker t k mh) = cfg_LruStackSize mh"
  "cfg_CollapseRecursionDepth (SetUpThreadTracker t k mh) = cfg_CollapseRecursionDepth mh"
  "writer_calls (SetUpThreadTracker t k mh) = writer_calls mh"
  "map_of (gtl_tracker (SetUpThreadTracker t k mh)) t = Some (ThTracker k)"
  by (simp_all add: SetUpThreadTracker_def set_gtl_def)

text \<open>
  \<open>same_books\<close>: the part of the state that registration and thread exit leave alone.
\<close>

definition same_books :: "MemHawk \<Rightarrow> MemHawk \<Rightarrow> bool" where
  "same_books mh mh' \<longleftrightarrow>
     m_btTracker mh' = m_btTracker mh \<and> m_innerBtTracker mh' = m_innerBtTracker mh \<and>
     m_innerTracker mh' = m_innerTracker mh \<and> m_postponed mh' = m_postponed mh \<and>
     m_postponedCapacity mh' = m_postponedCapacity mh \<and>
     cfg_CollapseRecursionDepth mh' = cfg_CollapseRecursionDepth mh \<and>
     (\<forall>i. pending mh' i = pending mh i \<and> reported mh' i = reported mh i)"

lemma new_tracker_facts:
  "accounts_ok (ThreadTracker_new ident cap depth)" "m_trackerId (ThreadTracker_new ident cap depth) = ident"
  "m_collapseDepth (ThreadTracker_new ident cap depth) = depth" "m_allocSummaries (ThreadTracker_new ident cap depth) = []"
  by (simp_all add: ThreadTracker_new_def accounts_ok_def summaries_total_def)

lemma RegisterThread_ok:
  assumes ok: "mh_ok e mh" and gtl: "map_of (gtl_tracker mh) t = None" and len: "length (m_thTrackers mh) < 2 ^ 32"
  shows "\<exists>mh' k. RegisterThread t mh = Some mh' \<and> mh_ok e mh' \<and> map_of (gtl_tracker mh') t = Some (ThTracker k) \<and>
    k < length (m_thTrackers mh') \<and> same_books mh mh' \<and> length (m_thTrackers mh') \<le> Suc (length (m_thTrackers mh))"
proof (cases "m_finishedTrackers mh" rule: rev_cases)
  case (snoc fs i)
  have th: "threads_ok mh" using ok by (simp add: mh_ok_def)
  let ?mh = "SetUpThreadTracker t (unat i) (mh\<lparr>m_finishedTrackers := fs\<rparr>)"
  have "RegisterThread t mh = Some ?mh"
    using SetUp_recycled(1) [OF th gtl snoc] gtl snoc by (simp add: RegisterThread_def Let_def)
  moreover have "mh_ok e ?mh"
    using ok SetUp_recycled(2) [OF th gtl snoc]
    by (simp add: mh_ok_def stores_ok_def books_ok_def all_trackers_def client_trackers_def)
  moreover have "same_books mh ?mh"
    by (simp add: same_books_def pending_def reported_def all_trackers_def client_trackers_def)
  ultimately show ?thesis
    using SetUp_recycled(1) [OF th gtl snoc] by (intro exI [of _ ?mh] exI [of _ "unat i"]) simp
next
  case Nil
  have th: "threads_ok mh" using ok by (simp add: mh_ok_def)
  let ?n = "length (m_thTrackers mh)"
  let ?tt = "ThreadTracker_new (of_nat ?n) (cfg_LruStackSize mh) (cfg_CollapseRecursionDepth mh)"
  let ?mh = "SetUpThreadTracker t ?n (mh\<lparr>m_thTrackers := m_thTrackers mh @ [?tt]\<rparr>)"
  have "RegisterThread t mh = Some ?mh" using gtl Nil by (simp add: RegisterThread_def Let_def)
  moreover have "threads_ok ?mh" using SetUp_new [OF th gtl len, of ?tt] new_tracker_facts(2) by simp
  moreover have "tracker.cache_ok (m_btTracker mh) ?tt"
    using ok by (intro tracker.cache_ok_new) (simp add: mh_ok_def stores_ok_def)
  moreover have "same_books mh ?mh"
    by (simp add: same_books_def pending_def reported_def all_trackers_def client_trackers_def
        new_tracker_facts summary_at_def)
  ultimately show ?thesis
    using ok by (intro exI [of _ ?mh] exI [of _ ?n])
      (auto simp: mh_ok_def stores_ok_def books_ok_def all_trackers_def client_trackers_def new_tracker_facts)
qed

lemma own_tracker_ok:
  assumes ok: "mh_ok e mh" and len: "length (m_thTrackers mh) < 2 ^ 32"
  shows "\<exists>mh' r tt. own_tracker t mh = Some (mh', r, tt) \<and> mh_ok e mh' \<and> get_tracker mh' r = Some tt \<and> same_books mh mh' \<and>
    map_of (gtl_tracker mh') t = Some r"
proof (cases "map_of (gtl_tracker mh) t")
  case None
  then obtain mh' k where r: "RegisterThread t mh = Some mh'" "mh_ok e mh'" "map_of (gtl_tracker mh') t = Some (ThTracker k)"
    "k < length (m_thTrackers mh')" "same_books mh mh'"
    using RegisterThread_ok [OF ok None len] by blast
  then show ?thesis using None by (simp add: own_tracker_def get_tracker_def rd_in)
next
  case (Some r)
  have "\<exists>tt. get_tracker mh r = Some tt"
  proof (cases r)
    case (ThTracker k)
    then have "(t, k) \<in> set (gtl_trackerFinalizer mh)" using Some ok by (simp add: mh_ok_def threads_ok_def)
    then have "k \<in> snd ` set (gtl_trackerFinalizer mh)" by force
    then have "k < length (m_thTrackers mh)" using ok unfolding mh_ok_def threads_ok_def by auto
    then show ?thesis using ThTracker by (simp add: get_tracker_def rd_in)
  qed (simp add: get_tracker_def)
  then show ?thesis using Some ok by (auto simp: own_tracker_def same_books_def)
qed

lemma ThreadExit_ok:
  assumes ok: "mh_ok e mh"
  shows "\<exists>mh'. ThreadExit t mh = Some mh' \<and> mh_ok e mh' \<and> same_books mh mh'"
proof (cases "map_of (gtl_trackerFinalizer mh) t")
  case None
  then show ?thesis using ok by (simp add: ThreadExit_def same_books_def)
next
  case (Some k)
  let ?fin = "filter (\<lambda>x. fst x \<noteq> t) (gtl_trackerFinalizer mh)"
  let ?mh = "mh\<lparr>gtl_trackerFinalizer := ?fin, gtl_tracker := (t, ExitingTracker) # gtl_tracker mh,
      m_finishedTrackers := m_finishedTrackers mh @ [of_nat k]\<rparr>"
  have th: "threads_ok mh" using ok by (simp add: mh_ok_def)
  have tk: "(t, k) \<in> set (gtl_trackerFinalizer mh)" using Some by (rule map_of_SomeD)
  then have "k \<in> snd ` set (gtl_trackerFinalizer mh)" by force
  then have k: "k < length (m_thTrackers mh)" using th unfolding threads_ok_def by auto
  then have uk: "unat (of_nat k :: u32) = k" using th by (simp add: threads_ok_def unat_of_nat_u32)
  have d: "distinct (map fst (gtl_trackerFinalizer mh))" "distinct (map snd (gtl_trackerFinalizer mh))"
    using th by (simp_all add: threads_ok_def)
  have other: "(t', k') \<in> set (gtl_trackerFinalizer mh) \<Longrightarrow> (t' = t) = (k' = k)" for t' k'
    using tk d by (metis (no_types, lifting) distinct_map inj_onD prod.sel snd_conv fst_conv)
  have fs: "snd ` set ?fin = snd ` set (gtl_trackerFinalizer mh) - {k}"
    using other tk by (auto simp: image_iff)
  have gtl: "map_of (gtl_tracker ?mh) t' = Some (ThTracker k') \<longleftrightarrow> (t', k') \<in> set ?fin" for t' k'
    using th unfolding threads_ok_def by auto
  have "threads_ok ?mh"
    using th d fs uk k gtl \<open>k \<in> snd ` set (gtl_trackerFinalizer mh)\<close> unfolding threads_ok_def
    by (auto simp: distinct_map_filter insert_absorb)
  moreover have "ThreadExit t mh = Some ?mh"
    using Some k th by (simp add: ThreadExit_def ReclaimTracker_def set_gtl_def rd_in threads_ok_def Let_def)
  ultimately show ?thesis
    using ok by (simp add: mh_ok_def stores_ok_def books_ok_def all_trackers_def client_trackers_def same_books_def
        pending_def reported_def)
qed

subsection \<open>Steps\<close>

text \<open>
  What every operation guarantees: the invariant, that the events \<open>es\<close> and nothing else were added to
  the books (those still pending and those reported to the writer together), and that every identifier
  keeps its meaning in both stores.
\<close>

definition mh_post :: "env \<Rightarrow> MemHawk \<Rightarrow> track_event list \<Rightarrow> MemHawk \<Rightarrow> bool" where
  "mh_post e mh es mh' \<longleftrightarrow> mh_ok e mh' \<and> cfg_CollapseRecursionDepth mh' = cfg_CollapseRecursionDepth mh \<and>
     (\<forall>i. pending mh' i + reported mh' i = pending mh i + reported mh i + delta_sum es i) \<and>
     (\<forall>xs i. tracker.names (m_btTracker mh) xs i \<longrightarrow> tracker.names (m_btTracker mh') xs i) \<and>
     (\<forall>xs i. static.names (m_innerBtTracker mh) xs i \<longrightarrow> static.names (m_innerBtTracker mh') xs i)"

lemma mh_post_trans: "mh_post e mh es mh' \<Longrightarrow> mh_post e mh' es' mh'' \<Longrightarrow> mh_post e mh (es @ es') mh''"
  by (simp add: mh_post_def delta_sum_append ac_simps)

lemma same_books_post: "same_books mh mh' \<Longrightarrow> mh_ok e mh' \<Longrightarrow> mh_post e mh [] mh'"
  by (simp add: same_books_def mh_post_def)

lemma SaveTraceId_frame:
  assumes "SaveTraceId a h ins tt s info trace = Some (tt', s', info', trace')"
  shows "m_trackerId tt' = m_trackerId tt" "m_allocSummaries tt' = m_allocSummaries tt" "m_total tt' = m_total tt"
  using assms by (auto simp: SaveTraceId_def Let_def bind_eq_Some_conv split: option.splits prod.splits)

lemma foldl_track_static:
  "m_trackerId (foldl track tt es) = m_trackerId tt" "m_collapseDepth (foldl track tt es) = m_collapseDepth tt"
  "tracker.cache_ok s (foldl track tt es) = tracker.cache_ok s tt"
  by (induction es arbitrary: tt) (simp_all add: track_static)

text \<open>
  Writing back a thread's tracker with events on its books, together with a store that extends the old
  one.
\<close>

lemma write_back_step:
  assumes ok: "mh_ok e mh" and r: "get_tracker mh r = Some tt" and bt: "tracker_ok bt"
    and names: "\<And>xs j. tracker.names (m_btTracker mh) xs j \<Longrightarrow> tracker.names bt xs j"
    and tt': "tracker.cache_ok bt tt'" "m_collapseDepth tt' = m_collapseDepth tt" "m_trackerId tt' = m_trackerId tt"
      "m_allocSummaries tt' = m_allocSummaries tt" "m_total tt' = m_total tt"
  shows "mh_post e mh es (set_tracker (mh\<lparr>m_btTracker := bt\<rparr>) r (foldl track tt' es))"
proof -
  let ?m = "mh\<lparr>m_btTracker := bt\<rparr>" and ?t = "foldl track tt' es"
  have tt: "m_collapseDepth tt = cfg_CollapseRecursionDepth mh" "accounts_ok tt"
    using ok get_tracker_client [OF r] by (auto simp: mh_ok_def stores_ok_def books_ok_def all_trackers_def)
  have g: "get_tracker ?m r = Some tt" using r by (cases r) (simp_all add: get_tracker_def)
  have "accounts_ok tt'" using tt(2) tt' by (simp add: accounts_ok_def)
  then have acc: "accounts_ok ?t" by (rule accounts_ok_foldl_track)
  note eff = set_tracker_effect [OF g, of ?t "delta_sum es", unfolded foldl_track_static tt'(3) summary_at_foldl_track tt'(4), OF refl refl]
  have base: "threads_ok ?m = threads_ok mh" "pending ?m i = pending mh i" "reported ?m i = reported mh i"
    "client_trackers ?m = client_trackers mh" for i
    by (simp_all add: threads_ok_def pending_def reported_def all_trackers_def client_trackers_def)
  have cl: "tt2 = ?t \<or> tt2 \<in> set (client_trackers mh)" if "tt2 \<in> set (client_trackers (set_tracker ?m r ?t))" for tt2
    using eff(4) that base(4) by auto
  have "threads_ok (set_tracker ?m r ?t)" using eff(1) base(1) ok by (simp add: mh_ok_def)
  moreover have "tracker.cache_ok bt tt2 \<and> m_collapseDepth tt2 = cfg_CollapseRecursionDepth mh"
    if "tt2 \<in> set (client_trackers (set_tracker ?m r ?t))" for tt2
  proof (cases "tt2 = ?t")
    case True
    then show ?thesis using tt' tt(1) by (simp add: foldl_track_static)
  next
    case False
    then have "tracker.cache_ok (m_btTracker mh) tt2" "m_collapseDepth tt2 = cfg_CollapseRecursionDepth mh"
      using cl [OF that] ok by (auto simp: mh_ok_def stores_ok_def)
    then show ?thesis using tracker.cache_ok_stable names by blast
  qed
  then have "stores_ok e (set_tracker ?m r ?t)"
    using ok bt by (simp add: stores_ok_def mh_ok_def)
  moreover have "books_ok (set_tracker ?m r ?t)"
    using ok cl acc unfolding mh_ok_def books_ok_def all_trackers_def by auto
  ultimately show ?thesis
    using eff(2,3) base names by (simp add: mh_post_def mh_ok_def ac_simps)
qed

lemma external_step:
  assumes ok: "mh_ok e mh" and r: "get_tracker mh r = Some tt" and tr: "stacktrace_ok trace" and room: "tracker_roomy (m_btTracker mh)"
  shows "\<exists>tt' bt i trace'.
    SaveTraceId (avx512 e) (hash_ptrs e) InsertStacktrace_opt tt (m_btTracker mh) info trace =
      Some (tt', bt, info\<lparr>ai_traceId := i\<rparr>, trace') \<and>
    tracker.names bt (collapse_ref (GetTrace trace) (unat (cfg_CollapseRecursionDepth mh))) i \<and>
    (\<forall>es. mh_post e mh es (set_tracker (mh\<lparr>m_btTracker := bt\<rparr>) r (foldl track tt' es)))"
proof -
  have tt: "tracker_ok (m_btTracker mh)" "tracker.cache_ok (m_btTracker mh) tt" "m_collapseDepth tt = cfg_CollapseRecursionDepth mh"
    "unat (cfg_CollapseRecursionDepth mh) < 2 ^ 32 - 1"
    using ok get_tracker_client [OF r] by (auto simp: mh_ok_def stores_ok_def)
  obtain tt' bt i trace' where s: "SaveTraceId (avx512 e) (hash_ptrs e) InsertStacktrace_opt tt (m_btTracker mh) info trace =
      Some (tt', bt, info\<lparr>ai_traceId := i\<rparr>, trace')" "tracker_ok bt" "tracker.cache_ok bt tt'" "m_collapseDepth tt' = m_collapseDepth tt"
    "tracker.names bt (collapse_ref (GetTrace trace) (unat (cfg_CollapseRecursionDepth mh))) i"
    "\<forall>xs j. tracker.names (m_btTracker mh) xs j \<longrightarrow> tracker.names bt xs j"
    using tracker.SaveTraceId_names [OF tt(1) tr _ tracker_roomy_room [OF room] tt(2), of "avx512 e" "hash_ptrs e" info] tt(3,4) by auto
  with write_back_step [OF ok r s(2) _ s(3,4) SaveTraceId_frame [OF s(1)]] show ?thesis by blast
qed

lemma dealloc_step:
  assumes ok: "mh_ok e mh" and r: "get_tracker mh r = Some tt"
  shows "mh_post e mh es (set_tracker mh r (foldl track tt es))"
proof -
  have "tracker_ok (m_btTracker mh)" "tracker.cache_ok (m_btTracker mh) tt"
    using ok get_tracker_client [OF r] by (auto simp: mh_ok_def stores_ok_def)
  from write_back_step [OF ok r this(1) _ this(2)] show ?thesis by simp
qed

text \<open>The inner tracker takes the postponed operations first, then the new one.\<close>

lemma inner_step:
  assumes "mh_ok e mh"
  shows "mh_post e mh es ((ProcessPostponed mh)\<lparr>m_innerTracker := foldl track (m_innerTracker (ProcessPostponed mh)) es\<rparr>)"
proof -
  let ?m = "(ProcessPostponed mh)\<lparr>m_innerTracker := foldl track (m_innerTracker (ProcessPostponed mh)) es\<rparr>"
  have "accounts_ok (m_innerTracker mh)" using assms by (simp add: mh_ok_def books_ok_def all_trackers_def)
  then have "accounts_ok (m_innerTracker ?m)" by (simp add: ProcessPostponed_track accounts_ok_foldl_track)
  then have "mh_ok e ?m"
    using assms
    by (auto simp: mh_ok_def threads_ok_def stores_ok_def books_ok_def all_trackers_def client_trackers_def ProcessPostponed_track)
  then show ?thesis
    by (simp add: mh_post_def pending_def reported_def all_trackers_def client_trackers_def ProcessPostponed_track
        summary_at_foldl_track ac_simps)
qed

fun event_op :: "track_event \<Rightarrow> Operation" where
  "event_op (Alloc info) = OpAlloc"
| "event_op (Dealloc info) = OpFree"

fun event_info :: "track_event \<Rightarrow> AllocInfo" where
  "event_info (Alloc info) = info"
| "event_info (Dealloc info) = info"

lemma postpone_step:
  assumes "mh_ok e mh"
  shows "mh_post e mh (if length (m_postponed mh) < m_postponedCapacity mh then [ev] else []) (postpone (event_op ev) (event_info ev) mh)"
proof (cases "length (m_postponed mh) < m_postponedCapacity mh")
  case True
  have "postponed_event \<lparr>pp_info = event_info ev, pp_op = event_op ev\<rparr> = ev"
    by (cases ev) (simp_all add: postponed_event_def)
  then show ?thesis
    using assms True
    by (auto simp: mh_post_def mh_ok_def threads_ok_def stores_ok_def books_ok_def all_trackers_def client_trackers_def
        postpone_def Let_def pending_def reported_def delta_sum_append ac_simps)
next
  case False
  then show ?thesis using assms by (simp add: postpone_def mh_post_def)
qed

lemma static_step:
  assumes ok: "mh_ok e mh" and tr: "stacktrace_ok trace"
  shows "\<exists>st i. static_InsertStacktrace (hash_words e) (m_innerBtTracker mh) trace = Some (st, i) \<and>
    static.names st (GetTrace trace) i \<and> mh_post e mh [] (mh\<lparr>m_innerBtTracker := st\<rparr>)"
proof -
  have s: "static_ok (hash_words e) (m_innerBtTracker mh)" using ok by (simp add: mh_ok_def stores_ok_def)
  obtain st i where i: "static_InsertStacktrace (hash_words e) (m_innerBtTracker mh) trace = Some (st, i)"
    using static.ins_returns [OF s tr TrueI] by blast
  have n: "static_ok (hash_words e) st" "static.names st (GetTrace trace) i"
    using static.ins_names [OF s tr TrueI i] by simp_all
  have "mh_post e mh [] (mh\<lparr>m_innerBtTracker := st\<rparr>)"
    using ok n(1) static.names_stable [OF s tr TrueI i]
    by (auto simp: mh_post_def mh_ok_def threads_ok_def stores_ok_def books_ok_def all_trackers_def client_trackers_def
        pending_def reported_def)
  with i n show ?thesis by blast
qed

text \<open>
  The events an operation records: all of them, except that a nested internal operation only records
  what the queue of postponed operations has room for.
\<close>

definition recorded :: "MemHawk \<Rightarrow> u32 \<Rightarrow> bool \<Rightarrow> track_event list \<Rightarrow> track_event list" where
  "recorded mh innerLevel isExternal es =
     (if isExternal \<or> innerLevel + 1 = 1 then es else take (m_postponedCapacity mh - length (m_postponed mh)) es)"

fun postpone_all :: "track_event list \<Rightarrow> MemHawk \<Rightarrow> MemHawk" where
  "postpone_all [] mh = mh"
| "postpone_all (ev # es) mh = postpone_all es (postpone (event_op ev) (event_info ev) mh)"

lemma postpone_all_step:
  assumes "mh_ok e mh"
  shows "mh_post e mh (take (m_postponedCapacity mh - length (m_postponed mh)) es) (postpone_all es mh)"
  using assms
proof (induction es arbitrary: mh)
  case Nil
  then show ?case by (simp add: mh_post_def)
next
  case (Cons ev es)
  let ?mh = "postpone (event_op ev) (event_info ev) mh"
  note p = postpone_step [OF Cons.prems, of ev]
  have "mh_ok e ?mh" using p by (simp add: mh_post_def)
  note t = mh_post_trans [OF p Cons.IH [OF this]]
  show ?case
  proof (cases "length (m_postponed mh) < m_postponedCapacity mh")
    case True
    then have "m_postponedCapacity mh - length (m_postponed mh) = Suc (m_postponedCapacity mh - Suc (length (m_postponed mh)))"
      by simp
    with t True show ?thesis by (simp add: postpone_def Let_def)
  next
    case False
    with t show ?thesis by (simp add: postpone_def)
  qed
qed

definition internal_effect :: "u32 \<Rightarrow> track_event list \<Rightarrow> MemHawk \<Rightarrow> MemHawk" where
  "internal_effect innerLevel es mh =
     (if innerLevel + 1 = 1
      then (ProcessPostponed mh)\<lparr>m_innerTracker := foldl track (m_innerTracker (ProcessPostponed mh)) es\<rparr>
      else postpone_all es mh)"

lemma internal_step: "mh_ok e mh \<Longrightarrow> mh_post e mh (recorded mh innerLevel False es) (internal_effect innerLevel es mh)"
  using inner_step [of e mh es] postpone_all_step [of e mh es] by (simp add: recorded_def internal_effect_def)

lemma mh_ops_eq:
  "mh_TrackAlloc e t lvl False info trace mh =
     do { (st, i) \<leftarrow> static_InsertStacktrace (hash_words e) (m_innerBtTracker mh) trace;
          Some (internal_effect lvl [Alloc (info\<lparr>ai_traceId := i\<rparr>)] (mh\<lparr>m_innerBtTracker := st\<rparr>), info\<lparr>ai_traceId := i\<rparr>) }"
  "mh_TrackRealloc e t lvl False prev info trace mh =
     do { (st, i) \<leftarrow> static_InsertStacktrace (hash_words e) (m_innerBtTracker mh) trace;
          Some (internal_effect lvl [Dealloc prev, Alloc (info\<lparr>ai_traceId := i\<rparr>)] (mh\<lparr>m_innerBtTracker := st\<rparr>),
                info\<lparr>ai_traceId := i\<rparr>) }"
  "mh_TrackDealloc t lvl False info mh = Some (internal_effect lvl [Dealloc info] mh)"
  by (cases "static_InsertStacktrace (hash_words e) (m_innerBtTracker mh) trace";
      auto simp: mh_TrackAlloc_def mh_TrackRealloc_def mh_TrackDealloc_def internal_effect_def Let_def
        PostponeAlloc_def PostponeDealloc_def)+

text \<open>Where the identifier of an operation leads.\<close>

definition id_names :: "MemHawk \<Rightarrow> bool \<Rightarrow> ptr list \<Rightarrow> u32 \<Rightarrow> bool" where
  "id_names mh isExternal frames i \<longleftrightarrow>
     (if isExternal then tracker.names (m_btTracker mh) (collapse_ref frames (unat (cfg_CollapseRecursionDepth mh))) i
      else static.names (m_innerBtTracker mh) frames i)"

lemma internal_insert_step:
  assumes ok: "mh_ok e mh" and tr: "stacktrace_ok trace"
  shows "\<exists>st i. static_InsertStacktrace (hash_words e) (m_innerBtTracker mh) trace = Some (st, i) \<and>
    (\<forall>es. mh_post e mh (recorded mh lvl False es) (internal_effect lvl es (mh\<lparr>m_innerBtTracker := st\<rparr>)) \<and>
      static.names (m_innerBtTracker (internal_effect lvl es (mh\<lparr>m_innerBtTracker := st\<rparr>))) (GetTrace trace) i)"
proof -
  obtain st i where s: "static_InsertStacktrace (hash_words e) (m_innerBtTracker mh) trace = Some (st, i)"
    "static.names st (GetTrace trace) i" "mh_post e mh [] (mh\<lparr>m_innerBtTracker := st\<rparr>)"
    using static_step [OF ok tr] by blast
  let ?m = "mh\<lparr>m_innerBtTracker := st\<rparr>"
  have "mh_ok e ?m" using s(3) by (simp add: mh_post_def)
  then have st: "mh_post e ?m (recorded ?m lvl False es) (internal_effect lvl es ?m)" for es by (rule internal_step)
  have "recorded ?m lvl False es = recorded mh lvl False es" for es by (simp add: recorded_def)
  then have "mh_post e mh (recorded mh lvl False es) (internal_effect lvl es ?m)" for es
    using mh_post_trans [OF s(3) st [of es]] by simp
  moreover have "static.names (m_innerBtTracker (internal_effect lvl es ?m)) (GetTrace trace) i" for es
    using st [of es] s(2) by (simp add: mh_post_def)
  ultimately show ?thesis using s(1) by blast
qed

lemma own_then_external:
  assumes ok: "mh_ok e mh" and len: "length (m_thTrackers mh) < 2 ^ 32" and tr: "stacktrace_ok trace"
    and room: "tracker_roomy (m_btTracker mh)"
  shows "\<exists>mh1 r tt tt' bt i trace'. own_tracker t mh = Some (mh1, r, tt) \<and>
    SaveTraceId (avx512 e) (hash_ptrs e) InsertStacktrace_opt tt (m_btTracker mh1) info trace =
      Some (tt', bt, info\<lparr>ai_traceId := i\<rparr>, trace') \<and>
    (\<forall>es. mh_post e mh es (set_tracker (mh1\<lparr>m_btTracker := bt\<rparr>) r (foldl track tt' es)) \<and>
      id_names (set_tracker (mh1\<lparr>m_btTracker := bt\<rparr>) r (foldl track tt' es)) True (GetTrace trace) i)"
proof -
  obtain mh1 r tt where o: "own_tracker t mh = Some (mh1, r, tt)" "mh_ok e mh1" "get_tracker mh1 r = Some tt" "same_books mh mh1"
    using own_tracker_ok [OF ok len] by blast
  then have "tracker_roomy (m_btTracker mh1)" using room by (simp add: same_books_def)
  then obtain tt' bt i trace' where s: "SaveTraceId (avx512 e) (hash_ptrs e) InsertStacktrace_opt tt (m_btTracker mh1) info trace =
      Some (tt', bt, info\<lparr>ai_traceId := i\<rparr>, trace')"
    "tracker.names bt (collapse_ref (GetTrace trace) (unat (cfg_CollapseRecursionDepth mh1))) i"
    "\<forall>es. mh_post e mh1 es (set_tracker (mh1\<lparr>m_btTracker := bt\<rparr>) r (foldl track tt' es))"
    using external_step [OF o(2,3) tr] by blast
  have "mh_post e mh es (set_tracker (mh1\<lparr>m_btTracker := bt\<rparr>) r (foldl track tt' es))" for es
    using mh_post_trans [OF same_books_post [OF o(4,2)]] s(3) by (metis append_Nil)
  with o s show ?thesis by (auto simp: id_names_def)
qed

lemma mh_TrackAlloc_ok:
  assumes "mh_ok e mh" "length (m_thTrackers mh) < 2 ^ 32" "stacktrace_ok trace" "tracker_roomy (m_btTracker mh)"
  shows "\<exists>mh' i. mh_TrackAlloc e t lvl ext info trace mh = Some (mh', info\<lparr>ai_traceId := i\<rparr>) \<and>
    mh_post e mh (recorded mh lvl ext [Alloc (info\<lparr>ai_traceId := i\<rparr>)]) mh' \<and> id_names mh' ext (GetTrace trace) i"
proof (cases ext)
  case True
  obtain mh1 r tt tt' bt i trace' where o: "own_tracker t mh = Some (mh1, r, tt)"
    "SaveTraceId (avx512 e) (hash_ptrs e) InsertStacktrace_opt tt (m_btTracker mh1) info trace = Some (tt', bt, info\<lparr>ai_traceId := i\<rparr>, trace')"
    "\<And>es. mh_post e mh es (set_tracker (mh1\<lparr>m_btTracker := bt\<rparr>) r (foldl track tt' es))"
    "\<And>es. id_names (set_tracker (mh1\<lparr>m_btTracker := bt\<rparr>) r (foldl track tt' es)) True (GetTrace trace) i"
    using own_then_external [OF assms, of t info] by blast
  show ?thesis
    using True o(1,2) o(3,4) [of "[Alloc (info\<lparr>ai_traceId := i\<rparr>)]"]
    by (auto simp: mh_TrackAlloc_def recorded_def)
next
  case False
  obtain st i where s: "static_InsertStacktrace (hash_words e) (m_innerBtTracker mh) trace = Some (st, i)"
    "\<And>es. mh_post e mh (recorded mh lvl False es) (internal_effect lvl es (mh\<lparr>m_innerBtTracker := st\<rparr>))"
    "\<And>es. static.names (m_innerBtTracker (internal_effect lvl es (mh\<lparr>m_innerBtTracker := st\<rparr>))) (GetTrace trace) i"
    using internal_insert_step [OF assms(1,3), of lvl] by blast
  show ?thesis using False s(1) s(2,3) [of "[Alloc (info\<lparr>ai_traceId := i\<rparr>)]"] by (auto simp: mh_ops_eq id_names_def)
qed

lemma mh_TrackRealloc_ok:
  assumes "mh_ok e mh" "length (m_thTrackers mh) < 2 ^ 32" "stacktrace_ok trace" "tracker_roomy (m_btTracker mh)"
  shows "\<exists>mh' i. mh_TrackRealloc e t lvl ext prev info trace mh = Some (mh', info\<lparr>ai_traceId := i\<rparr>) \<and>
    mh_post e mh (recorded mh lvl ext [Dealloc prev, Alloc (info\<lparr>ai_traceId := i\<rparr>)]) mh' \<and> id_names mh' ext (GetTrace trace) i"
proof (cases ext)
  case True
  obtain mh1 r tt tt' bt i trace' where o: "own_tracker t mh = Some (mh1, r, tt)"
    "SaveTraceId (avx512 e) (hash_ptrs e) InsertStacktrace_opt tt (m_btTracker mh1) info trace = Some (tt', bt, info\<lparr>ai_traceId := i\<rparr>, trace')"
    "\<And>es. mh_post e mh es (set_tracker (mh1\<lparr>m_btTracker := bt\<rparr>) r (foldl track tt' es))"
    "\<And>es. id_names (set_tracker (mh1\<lparr>m_btTracker := bt\<rparr>) r (foldl track tt' es)) True (GetTrace trace) i"
    using own_then_external [OF assms, of t info] by blast
  show ?thesis
    using True o(1,2) o(3,4) [of "[Dealloc prev, Alloc (info\<lparr>ai_traceId := i\<rparr>)]"]
    by (auto simp: mh_TrackRealloc_def recorded_def)
next
  case False
  obtain st i where s: "static_InsertStacktrace (hash_words e) (m_innerBtTracker mh) trace = Some (st, i)"
    "\<And>es. mh_post e mh (recorded mh lvl False es) (internal_effect lvl es (mh\<lparr>m_innerBtTracker := st\<rparr>))"
    "\<And>es. static.names (m_innerBtTracker (internal_effect lvl es (mh\<lparr>m_innerBtTracker := st\<rparr>))) (GetTrace trace) i"
    using internal_insert_step [OF assms(1,3), of lvl] by blast
  show ?thesis
    using False s(1) s(2,3) [of "[Dealloc prev, Alloc (info\<lparr>ai_traceId := i\<rparr>)]"] by (auto simp: mh_ops_eq id_names_def)
qed

lemma mh_TrackDealloc_ok:
  assumes ok: "mh_ok e mh" and len: "length (m_thTrackers mh) < 2 ^ 32"
  shows "\<exists>mh'. mh_TrackDealloc t lvl ext info mh = Some mh' \<and> mh_post e mh (recorded mh lvl ext [Dealloc info]) mh'"
proof (cases ext)
  case True
  obtain mh1 r tt where o: "own_tracker t mh = Some (mh1, r, tt)" "mh_ok e mh1" "get_tracker mh1 r = Some tt" "same_books mh mh1"
    using own_tracker_ok [OF ok len] by blast
  then have "mh_post e mh ([] @ [Dealloc info]) (set_tracker mh1 r (foldl track tt [Dealloc info]))"
    using mh_post_trans [OF same_books_post [OF o(4,2)] dealloc_step [OF o(2,3)]] by blast
  then show ?thesis using True o(1) by (simp add: mh_TrackDealloc_def recorded_def)
next
  case False
  then show ?thesis using internal_step [OF ok] by (simp add: mh_ops_eq)
qed

subsection \<open>The worker\<close>

definition consumed :: "ThreadTracker \<Rightarrow> ThreadTracker" where
  "consumed tt = tt\<lparr>m_allocSummaries := [], m_total := 0\<rparr>"

definition snapshot_call :: "ThreadTracker \<Rightarrow> writer_call" where
  "snapshot_call tt = AccountSnapshot (m_allocSummaries tt) (m_total tt)"

lemma Account_eq: "WorkerAccountThreadTracker tt calls = (consumed tt, calls @ [snapshot_call tt])"
  by (simp add: WorkerAccountThreadTracker_def ConsumeDiff_def consumed_def snapshot_call_def)

lemma account_all_eq: "account_all tts calls = (map consumed tts, calls @ map snapshot_call tts)"
  by (induction tts arbitrary: calls) (simp_all add: Account_eq)

lemma consumed_facts:
  "m_trackerId (consumed tt) = m_trackerId tt" "m_collapseDepth (consumed tt) = m_collapseDepth tt"
  "tracker.cache_ok s (consumed tt) = tracker.cache_ok s tt" "accounts_ok (consumed tt)"
  "summary_at (m_allocSummaries (consumed tt)) i = 0"
  by (simp_all add: consumed_def tracker.cache_ok_def accounts_ok_def summaries_total_def summary_at_def)

lemma summary_at_snapshot: "summary_at (call_summaries (snapshot_call tt)) i = summary_at (m_allocSummaries tt) i"
  by (simp add: snapshot_call_def)

lemma TrackingWorker_round_books:
  "pending (TrackingWorker_round mh) i = delta_sum (map postponed_event (m_postponed mh)) i"
  "reported (TrackingWorker_round mh) i = reported mh i + sum_list (map (\<lambda>tt. summary_at (m_allocSummaries tt) i) (all_trackers mh))"
  by (simp_all add: TrackingWorker_round_def WorkerPrintData_def WorkerUpdateData_def Let_def Account_eq account_all_eq
      pending_def reported_def all_trackers_def client_trackers_def comp_def consumed_facts summary_at_snapshot
      summary_at_def [of "[]"] ac_simps)

lemma TrackingWorker_round_ok:
  assumes "mh_ok e mh"
  shows "mh_post e mh [] (TrackingWorker_round mh)"
proof -
  have "threads_ok (TrackingWorker_round mh) = threads_ok mh"
    by (simp add: TrackingWorker_round_def WorkerPrintData_def WorkerUpdateData_def Let_def Account_eq account_all_eq
        threads_ok_def consumed_facts)
  moreover have "stores_ok e (TrackingWorker_round mh) = stores_ok e mh"
    by (simp add: TrackingWorker_round_def WorkerPrintData_def WorkerUpdateData_def Let_def Account_eq account_all_eq
        stores_ok_def client_trackers_def consumed_facts)
  moreover have "books_ok (TrackingWorker_round mh)" if "books_ok mh"
    using that by (auto simp: TrackingWorker_round_def WorkerPrintData_def WorkerUpdateData_def Let_def Account_eq
        account_all_eq books_ok_def all_trackers_def client_trackers_def consumed_facts)
  moreover have "pending (TrackingWorker_round mh) i + reported (TrackingWorker_round mh) i = pending mh i + reported mh i" for i
    unfolding TrackingWorker_round_books by (simp add: pending_def ac_simps)
  ultimately show ?thesis
    using assms
    by (simp add: mh_post_def mh_ok_def)
      (simp add: TrackingWorker_round_def WorkerPrintData_def WorkerUpdateData_def Let_def Account_eq account_all_eq)
qed

lemma InvalidateModulesCache_ok: "mh_ok e mh \<Longrightarrow> mh_post e mh [] (InvalidateModulesCache mh)"
  by (simp add: mh_post_def mh_ok_def threads_ok_def stores_ok_def books_ok_def all_trackers_def client_trackers_def
      pending_def reported_def InvalidateModulesCache_def)

lemma MemHawk_new_ok:
  assumes "0 < unat lru" "unat depth < 2 ^ 32 - 1"
  shows "mh_ok e (MemHawk_new lru depth maxPostponed)"
  using assms
  by (simp add: mh_ok_def threads_ok_def stores_ok_def books_ok_def all_trackers_def client_trackers_def MemHawk_new_def
      new_tracker_facts PostponedConstruct_ok static_ok_init tracker.cache_ok_new)

section \<open>Runs\<close>

text \<open>
  Any sequence of operations of any threads from the constructed profiler: allocations, deallocations
  and reallocations of the application and of the profiler itself, ends of threads, rounds of the
  worker, and loading of modules. \<open>ids\<close> lists the identifiers that were put in allocation records
  (with the frames they stand for), \<open>log\<close> the events that were recorded. The side conditions say that
  traces are well formed and that the 32-bit counters have room.
\<close>

inductive mh_run ::
  "env \<Rightarrow> MemHawk \<Rightarrow> (bool \<times> ptr list \<times> u32) list \<Rightarrow> track_event list \<Rightarrow> MemHawk \<Rightarrow> bool" for e mh0 where
  start: "mh_run e mh0 [] [] mh0"
| alloc: "mh_run e mh0 ids log mh \<Longrightarrow> length (m_thTrackers mh) < 2 ^ 32 \<Longrightarrow> stacktrace_ok trace \<Longrightarrow>
    tracker_roomy (m_btTracker mh) \<Longrightarrow> mh_TrackAlloc e t lvl ext info trace mh = Some (mh', info') \<Longrightarrow>
    mh_run e mh0 (ids @ [(ext, GetTrace trace, ai_traceId info')]) (log @ recorded mh lvl ext [Alloc info']) mh'"
| realloc: "mh_run e mh0 ids log mh \<Longrightarrow> length (m_thTrackers mh) < 2 ^ 32 \<Longrightarrow> stacktrace_ok trace \<Longrightarrow>
    tracker_roomy (m_btTracker mh) \<Longrightarrow> mh_TrackRealloc e t lvl ext prev info trace mh = Some (mh', info') \<Longrightarrow>
    mh_run e mh0 (ids @ [(ext, GetTrace trace, ai_traceId info')]) (log @ recorded mh lvl ext [Dealloc prev, Alloc info']) mh'"
| dealloc: "mh_run e mh0 ids log mh \<Longrightarrow> length (m_thTrackers mh) < 2 ^ 32 \<Longrightarrow>
    mh_TrackDealloc t lvl ext info mh = Some mh' \<Longrightarrow>
    mh_run e mh0 ids (log @ recorded mh lvl ext [Dealloc info]) mh'"
| thread_exit: "mh_run e mh0 ids log mh \<Longrightarrow> ThreadExit t mh = Some mh' \<Longrightarrow> mh_run e mh0 ids log mh'"
| worker: "mh_run e mh0 ids log mh \<Longrightarrow> mh_run e mh0 ids log (TrackingWorker_round mh)"
| modules: "mh_run e mh0 ids log mh \<Longrightarrow> mh_run e mh0 ids log (InvalidateModulesCache mh)"

lemma id_names_post: "mh_post e mh es mh' \<Longrightarrow> id_names mh ext xs i \<Longrightarrow> id_names mh' ext xs i"
  by (auto simp: mh_post_def id_names_def)

lemma mh_post_ok: "mh_post e mh es mh' \<Longrightarrow> mh_ok e mh'"
  by (simp add: mh_post_def)

definition run_post :: "env \<Rightarrow> MemHawk \<Rightarrow> (bool \<times> ptr list \<times> u32) list \<Rightarrow> track_event list \<Rightarrow> MemHawk \<Rightarrow> bool" where
  "run_post e mh0 ids log mh \<longleftrightarrow> mh_post e mh0 log mh \<and> (\<forall>ext xs i. (ext, xs, i) \<in> set ids \<longrightarrow> id_names mh ext xs i)"

lemma run_post_extend:
  assumes "run_post e mh0 ids log mh" "mh_post e mh es mh'"
    and "\<And>ext xs i. (ext, xs, i) \<in> set new \<Longrightarrow> id_names mh' ext xs i"
  shows "run_post e mh0 (ids @ new) (log @ es) mh'"
  using assms id_names_post [OF assms(2)] mh_post_trans by (auto simp: run_post_def)

lemma mh_run_post:
  assumes "mh_run e mh0 ids log mh" "mh_ok e mh0"
  shows "run_post e mh0 ids log mh"
  using assms(1)
proof (induction rule: mh_run.induct)
  case start
  show ?case using assms(2) by (simp add: mh_post_def run_post_def)
next
  case (alloc ids log mh trace t lvl ext info mh' info')
  have "mh_ok e mh" using alloc.IH mh_post_ok by (auto simp: run_post_def)
  then obtain i where i: "info' = info\<lparr>ai_traceId := i\<rparr>"
    "mh_post e mh (recorded mh lvl ext [Alloc info']) mh'" "id_names mh' ext (GetTrace trace) i"
    using mh_TrackAlloc_ok [OF _ alloc.hyps(2-4), of e t lvl ext info] alloc.hyps(5) by auto
  then show ?case by (intro run_post_extend [OF alloc.IH i(2)]) simp
next
  case (realloc ids log mh trace t lvl ext prev info mh' info')
  have "mh_ok e mh" using realloc.IH mh_post_ok by (auto simp: run_post_def)
  then obtain i where i: "info' = info\<lparr>ai_traceId := i\<rparr>"
    "mh_post e mh (recorded mh lvl ext [Dealloc prev, Alloc info']) mh'" "id_names mh' ext (GetTrace trace) i"
    using mh_TrackRealloc_ok [OF _ realloc.hyps(2-4), of e t lvl ext prev info] realloc.hyps(5) by auto
  then show ?case by (intro run_post_extend [OF realloc.IH i(2)]) simp
next
  case (dealloc ids log mh t lvl ext info mh')
  have "mh_ok e mh" using dealloc.IH mh_post_ok by (auto simp: run_post_def)
  then have "mh_post e mh (recorded mh lvl ext [Dealloc info]) mh'"
    using mh_TrackDealloc_ok [OF _ dealloc.hyps(2), of e t lvl ext info] dealloc.hyps(3) by auto
  from run_post_extend [OF dealloc.IH this, of "[]"] show ?case by simp
next
  case (thread_exit ids log mh t mh')
  have "mh_ok e mh" using thread_exit.IH mh_post_ok by (auto simp: run_post_def)
  then have "mh_post e mh [] mh'"
    using ThreadExit_ok [of e mh t] thread_exit.hyps(2) same_books_post by auto
  from run_post_extend [OF thread_exit.IH this, of "[]"] show ?case by simp
next
  case (worker ids log mh)
  have "mh_ok e mh" using worker.IH mh_post_ok by (auto simp: run_post_def)
  from run_post_extend [OF worker.IH TrackingWorker_round_ok [OF this], of "[]"] show ?case by simp
next
  case (modules ids log mh)
  have "mh_ok e mh" using modules.IH mh_post_ok by (auto simp: run_post_def)
  from run_post_extend [OF modules.IH InvalidateModulesCache_ok [OF this], of "[]"] show ?case by simp
qed

lemma mh_run_books:
  assumes "mh_run e (MemHawk_new lru depth maxPostponed) ids log mh" "0 < unat lru" "unat depth < 2 ^ 32 - 1"
  shows "mh_ok e mh" "pending mh i + reported mh i = delta_sum log i" "cfg_CollapseRecursionDepth mh = depth"
    "(ext, xs, j) \<in> set ids \<Longrightarrow> id_names mh ext xs j"
proof -
  have "pending (MemHawk_new lru depth maxPostponed) i + reported (MemHawk_new lru depth maxPostponed) i = 0"
    by (simp add: pending_def reported_def all_trackers_def client_trackers_def MemHawk_new_def new_tracker_facts summary_at_def)
  with mh_run_post [OF assms(1) MemHawk_new_ok [OF assms(2,3)]]
  show "mh_ok e mh" "pending mh i + reported mh i = delta_sum log i" "cfg_CollapseRecursionDepth mh = depth"
    "(ext, xs, j) \<in> set ids \<Longrightarrow> id_names mh ext xs j"
    by (auto simp: mh_post_def run_post_def MemHawk_new_def)
qed

section \<open>Properties\<close>

text \<open>
  C8. Nothing is lost and nothing is counted twice: after any run, for every stack trace identifier,
  what one more round of the worker reports to the writer together with what is still waiting in the
  queue of postponed operations is exactly the sum of the recorded events with that identifier, however
  the events were spread over threads, including blocks that one thread allocated and another freed.
\<close>

theorem worker_reports_everything:
  assumes "mh_run e (MemHawk_new lru depth maxPostponed) ids log mh" "0 < unat lru" "unat depth < 2 ^ 32 - 1"
  shows "reported (TrackingWorker_round mh) i + delta_sum (map postponed_event (m_postponed mh)) i = delta_sum log i"
  using mh_run_books(2) [OF mh_run.worker [OF assms(1)] assms(2,3), of i]
  by (simp add: TrackingWorker_round_books add.commute)

text \<open>
  C9. Tracker ownership. In every reachable state every thread tracker is either on the list of finished ones
  and used by no thread, or not on the list and used by exactly one thread. Threads use, and the list
  names, trackers that exist, and the list names none twice; so a finished tracker is recycled by at
  most one thread and none is lost.
\<close>

theorem tracker_ownership:
  assumes "mh_run e (MemHawk_new lru depth maxPostponed) ids log mh" "0 < unat lru" "unat depth < 2 ^ 32 - 1"
  shows "(\<forall>k < length (m_thTrackers mh).
      if of_nat k \<in> set (m_finishedTrackers mh) then \<forall>t. map_of (gtl_tracker mh) t \<noteq> Some (ThTracker k)
      else \<exists>!t. map_of (gtl_tracker mh) t = Some (ThTracker k)) \<and>
    (\<forall>t k. map_of (gtl_tracker mh) t = Some (ThTracker k) \<longrightarrow> k < length (m_thTrackers mh)) \<and>
    distinct (m_finishedTrackers mh) \<and> (\<forall>i \<in> set (m_finishedTrackers mh). unat i < length (m_thTrackers mh))"
proof -
  let ?n = "length (m_thTrackers mh)" and ?used = "map snd (gtl_trackerFinalizer mh)" and ?fin = "map unat (m_finishedTrackers mh)"
  have ok: "threads_ok mh" using mh_run_books(1) [OF assms] by (simp add: mh_ok_def)
  then have small: "?n \<le> 2 ^ 32" and d: "distinct ?used" "distinct ?fin" "set ?used \<inter> set ?fin = {}" and u: "set ?used \<union> set ?fin = {..<?n}"
    and iff: "\<And>t k. map_of (gtl_tracker mh) t = Some (ThTracker k) \<longleftrightarrow> (t, k) \<in> set (gtl_trackerFinalizer mh)"
    by (auto simp: threads_ok_def)
  have one: "\<exists>!t. (t, k) \<in> set (gtl_trackerFinalizer mh)" if "k \<in> set ?used" for k
    using that d(1) unfolding distinct_map inj_on_def by fastforce
  have "if of_nat k \<in> set (m_finishedTrackers mh) then \<forall>t. map_of (gtl_tracker mh) t \<noteq> Some (ThTracker k)
      else \<exists>!t. map_of (gtl_tracker mh) t = Some (ThTracker k)" if k: "k < ?n" for k
  proof -
    have "of_nat k \<in> set (m_finishedTrackers mh) \<longleftrightarrow> k \<in> set ?fin"
      using k small by (force simp: unat_of_nat_u32 image_iff)
    moreover have "k \<in> set ?used \<longleftrightarrow> k \<notin> set ?fin" using k d(3) u by auto
    moreover have "(t, k) \<notin> set (gtl_trackerFinalizer mh)" if "k \<notin> set ?used" for t using that by force
    ultimately show ?thesis using one [of k] unfolding iff by simp
  qed
  moreover have "k < ?n" if "map_of (gtl_tracker mh) t = Some (ThTracker k)" for t k
    using that u unfolding iff by force
  moreover have "unat i < ?n" if "i \<in> set (m_finishedTrackers mh)" for i using that u by force
  ultimately show ?thesis using d(2) by (simp add: distinct_map)
qed

text \<open>
  C10. Resolution through the finder: as long as the tree tracker has at most \<open>2 ^ 31\<close> nodes its
  identifiers never carry the top bit, so asking the tree tracker first and the static tracker second
  returns, for every identifier ever put in an allocation record, the frames of that very allocation:
  collapsed for the application, cut to six frames for the profiler itself (nothing, when the static
  storage was full).
\<close>

theorem finder_resolves:
  assumes "mh_run e (MemHawk_new lru depth maxPostponed) ids log mh" "0 < unat lru" "unat depth < 2 ^ 32 - 1"
    and "(isExternal, frames, i) \<in> set ids" "length (nodes (m_btTracker mh)) \<le> 2 ^ 31" "length mem = MaxUnwindDepth"
  shows "\<exists>r. Finder_GetStacktraceFromId mem mh i = Some r \<and>
    (if isExternal then \<exists>st. r = Some st \<and> GetTrace st = filter (\<lambda>p. p \<noteq> 0) (collapse_ref frames (unat depth))
     else if i = UnknownTraceId then r = None
     else \<exists>st. r = Some st \<and> GetTrace st = take MaxStacktraceLength frames)"
proof -
  have ok: "tracker_ok (m_btTracker mh)" "static_ok (hash_words e) (m_innerBtTracker mh)"
    using mh_run_books(1) [OF assms(1-3)] by (simp_all add: mh_ok_def stores_ok_def)
  have names: "id_names mh isExternal frames i" "cfg_CollapseRecursionDepth mh = depth"
    using mh_run_books(3,4) [OF assms(1-3)] assms(4) by blast+
  note bt = GetStacktraceFromId_spec [OF ok(1) assms(6), of i]
  note st = static_GetStacktraceFromId_spec [OF ok(2) assms(6), of i]
  show ?thesis
  proof (cases isExternal)
    case True
    then have "tracker_recall (m_btTracker mh) i = Some (nonnull (collapse_ref frames (unat depth)))"
      using names by (simp add: id_names_def tracker.names_def)
    then show ?thesis
      using True bt by (auto simp: tracker_recall_eq ok nonnull_def Finder_GetStacktraceFromId_def split: if_splits)
  next
    case False
    then have n: "i = UnknownTraceId \<or> IsFixedTrackerId i \<and> stored (m_innerBtTracker mh) (unat (i XOR FixedTrackerIdFlag)) (take MaxStacktraceLength frames)"
      using names by (auto simp: id_names_def static.names_def static_recall_iff [OF ok(2)])
    have fixed: "IsFixedTrackerId i"
      using n IsFixedTrackerId_xor [of 513] UnknownTraceId_flag by (auto simp: UnknownTraceId_def ElementsCount_def)
    have "i \<notin> set (leafsId (m_btTracker mh))"
      using fixed small_not_fixed [of i] ok(1) assms(5) by (auto simp: IsFixedTrackerId_bit tracker_ok_def)
    then have F: "Finder_GetStacktraceFromId mem mh i = static_GetStacktraceFromId mem (m_innerBtTracker mh) i"
      using bt by (auto simp: Finder_GetStacktraceFromId_def)
    show ?thesis
    proof (cases "i = UnknownTraceId")
      case True
      then have "\<not> unat (i XOR FixedTrackerIdFlag) < unat (ss_size (m_innerBtTracker mh))"
        using ok(2) by (simp add: UnknownTraceId_flag static_ok_def static_consts)
      then show ?thesis using F False True st by auto
    next
      case Known: False
      then have "stored (m_innerBtTracker mh) (unat (i XOR FixedTrackerIdFlag)) (take MaxStacktraceLength frames)" using n by simp
      moreover from this have "unat (i XOR FixedTrackerIdFlag) < unat (ss_size (m_innerBtTracker mh))" by (simp add: stored_def)
      ultimately show ?thesis using F False Known fixed st by (auto dest: stored_unique)
    qed
  qed
qed

text \<open>
  C11. No operation fails: in every reachable state with room in the 32-bit counters, tracking an
  allocation, a reallocation or a deallocation, from any thread, external or internal, at any nesting
  level, and the end of any thread, all return (no null or dangling tracker is dereferenced, no array is
  left), and the queue of postponed operations stays within its capacity.
\<close>

theorem operations_return:
  assumes "mh_run e (MemHawk_new lru depth maxPostponed) ids log mh" "0 < unat lru" "unat depth < 2 ^ 32 - 1"
    and "length (m_thTrackers mh) < 2 ^ 32" "stacktrace_ok trace" "tracker_roomy (m_btTracker mh)"
  shows "(\<exists>r. mh_TrackAlloc e t lvl ext info trace mh = Some r) \<and> (\<exists>r. mh_TrackRealloc e t lvl ext prev info trace mh = Some r) \<and>
    (\<exists>r. mh_TrackDealloc t lvl ext info mh = Some r) \<and> (\<exists>r. ThreadExit t mh = Some r) \<and>
    length (m_postponed mh) \<le> m_postponedCapacity mh"
proof -
  have ok: "mh_ok e mh" using mh_run_books(1) [OF assms(1-3)] .
  show ?thesis
    using mh_TrackAlloc_ok [OF ok assms(4-6), of t lvl ext info] mh_TrackRealloc_ok [OF ok assms(4-6), of t lvl ext prev info]
      mh_TrackDealloc_ok [OF ok assms(4), of t lvl ext info] ThreadExit_ok [OF ok, of t] ok
    by (auto simp: mh_ok_def books_ok_def)
qed

section \<open>A run\<close>

text \<open>
  A profiler with the sizes of the default configuration: thread 3 allocates from a trace of five frames, the profiler
  allocates for itself. The facts below are the concrete instances of the properties.
\<close>

definition demo_env :: env where
  "demo_env = \<lparr>avx512 = False, hash_ptrs = (\<lambda>_. 0), hash_words = (\<lambda>_. 0)\<rparr>"

definition demo_hawk :: MemHawk where
  "demo_hawk = MemHawk_new 256 demo_depth 512"

lemma SaveTraceId_growth:
  assumes "tracker_ok s" "stacktrace_ok trace" "unat (m_collapseDepth tt) < 2 ^ 32 - 1" "tracker_roomy s"
    and "SaveTraceId a h InsertStacktrace_opt tt s info trace = Some (tt', s', info', trace')"
  shows "length (nodes s') \<le> length (nodes s) + 64"
proof -
  have u: "unat (ucast (m_collapseDepth tt) :: u64) = unat (m_collapseDepth tt)"
    using assms(3) by (simp add: unsigned_ucast_eq take_bit_nat_eq_self)
  obtain tr where ct: "Stacktrace_CollapseRecursion a trace (ucast (m_collapseDepth tt)) = Some tr" "stacktrace_ok tr"
    using Stacktrace_CollapseRecursion_ok [OF assms(2), of "ucast (m_collapseDepth tt)" a] assms(3) u by auto
  obtain s1 i where ins: "InsertStacktrace s tr = (s1, i)" by fastforce
  have "length (nodes s1) \<le> length (nodes s) + 64"
    using InsertStacktrace_spec(8) [OF assms(1) ct(2) tracker_roomy_room [OF assms(4) ct(2)] ins] length_GetTrace_le [OF ct(2)]
    by simp
  then show ?thesis
    using assms(5) ct(1) ins
    by (auto simp: SaveTraceId_def Let_def bind_eq_Some_conv InsertStacktrace_opt_def split: option.splits prod.splits)
qed

lemma demo_run:
  "\<exists>i mh log. mh_run demo_env demo_hawk [(True, [5, 4, 3, 2, 1], i)] log mh \<and>
    log = [Alloc ((mk_AllocInfo 8 16)\<lparr>ai_traceId := i\<rparr>)] \<and>
    map_of (gtl_tracker mh) 3 = Some (ThTracker 0) \<and> length (nodes (m_btTracker mh)) \<le> 65 \<and> length (m_thTrackers mh) = 1 \<and>
    (\<exists>s t. writer_calls (TrackingWorker_round mh) =
       [AccountSnapshot [(i, s)] t, AccountSnapshot [] 0, AccountSnapshot [] 0, UpdateModules, FlushData]) \<and> m_postponed mh = []"
proof -
  let ?tt = "ThreadTracker_new 0 256 demo_depth"
  let ?m = "SetUpThreadTracker 3 0 (demo_hawk\<lparr>m_thTrackers := [?tt]\<rparr>)"
  have own: "own_tracker 3 demo_hawk = Some (?m, ThTracker 0, ?tt)"
    by (simp add: own_tracker_def RegisterThread_def demo_hawk_def MemHawk_new_def get_tracker_def rd_def)
  have bt: "m_btTracker ?m = PostponedConstruct" by (simp add: demo_hawk_def MemHawk_new_def)
  have room: "tracker_roomy (m_btTracker demo_hawk)" "length (m_thTrackers demo_hawk) < 2 ^ 32"
    using PostponedConstruct_roomy by (simp_all add: demo_hawk_def MemHawk_new_def)
  have ok: "mh_ok demo_env demo_hawk"
    unfolding demo_hawk_def by (rule MemHawk_new_ok [OF _ demo_depth_ok]) simp
  obtain mh' i where a: "mh_TrackAlloc demo_env 3 0 True (mk_AllocInfo 8 16) demo_trace demo_hawk =
      Some (mh', (mk_AllocInfo 8 16)\<lparr>ai_traceId := i\<rparr>)"
    using mh_TrackAlloc_ok [OF ok room(2) _ room(1), of demo_trace 3 0 True "mk_AllocInfo 8 16"] by auto
  obtain tt' bt' tr' where sv: "SaveTraceId False (\<lambda>_. 0) InsertStacktrace_opt ?tt PostponedConstruct (mk_AllocInfo 8 16) demo_trace =
      Some (tt', bt', (mk_AllocInfo 8 16)\<lparr>ai_traceId := i\<rparr>, tr')"
    and mh': "mh' = set_tracker (?m\<lparr>m_btTracker := bt'\<rparr>) (ThTracker 0) (TrackAlloc tt' ((mk_AllocInfo 8 16)\<lparr>ai_traceId := i\<rparr>))"
    using a unfolding mh_TrackAlloc_def own bt
    by (auto simp: demo_env_def bt own bind_eq_Some_conv simp del: SetUp_sel)
  have "unat (m_collapseDepth ?tt) < 2 ^ 32 - 1" using demo_depth_ok by (simp add: new_tracker_facts)
  from SaveTraceId_growth [OF PostponedConstruct_ok _ this PostponedConstruct_roomy sv]
  have "length (nodes bt') \<le> 1 + 64"
    by (simp add: PostponedConstruct_def GetPtrId_def StacktraceTree_new_def)
  then have fin: "map_of (gtl_tracker mh') 3 = Some (ThTracker 0)" "length (nodes (m_btTracker mh')) \<le> 65" "length (m_thTrackers mh') = 1"
    "m_postponed mh' = []" by (simp_all add: mh' set_tracker_def demo_hawk_def MemHawk_new_def SetUpThreadTracker_def set_gtl_def)
  have calls: "\<exists>s t. writer_calls (TrackingWorker_round mh') =
      [AccountSnapshot [(i, s)] t, AccountSnapshot [] 0, AccountSnapshot [] 0, UpdateModules, FlushData]"
    by (simp add: TrackingWorker_round_def WorkerPrintData_def WorkerUpdateData_def Let_def Account_eq account_all_eq mh'
        set_tracker_def snapshot_call_def SaveTraceId_frame [OF sv] TrackAlloc_def map_insert_def map_modify_def
        SetUpThreadTracker_def set_gtl_def demo_hawk_def MemHawk_new_def new_tracker_facts ThreadTracker_new_def)
  have "mh_run demo_env demo_hawk ([] @ [(True, GetTrace demo_trace, ai_traceId ((mk_AllocInfo 8 16)\<lparr>ai_traceId := i\<rparr>))])
      ([] @ recorded demo_hawk 0 True [Alloc ((mk_AllocInfo 8 16)\<lparr>ai_traceId := i\<rparr>)]) mh'"
    by (rule mh_run.alloc [OF mh_run.start room(2) _ room(1) a]) simp
  with fin calls show ?thesis by (auto simp: recorded_def)
qed

lemma demo_lru: "0 < unat (256 :: u32)"
  by simp

theorem worker_reports_everything_witness:
  "\<exists>i mh log. mh_run demo_env demo_hawk [(True, [5, 4, 3, 2, 1], i)] log mh \<and>
    reported (TrackingWorker_round mh) i + delta_sum (map postponed_event (m_postponed mh)) i = delta_sum log i"
proof -
  obtain i mh log where r: "mh_run demo_env (MemHawk_new 256 demo_depth 512) [(True, [5, 4, 3, 2, 1], i)] log mh"
    using demo_run unfolding demo_hawk_def by blast
  from worker_reports_everything [OF r demo_lru demo_depth_ok, of i] r show ?thesis
    unfolding demo_hawk_def by blast
qed

theorem tracker_ownership_witness:
  "\<exists>mh :: MemHawk. map_of (gtl_tracker mh) 3 = Some (ThTracker 0) \<and> length (m_thTrackers mh) = 1 \<and>
    0 \<notin> set (m_finishedTrackers mh) \<and> (\<exists>!t. map_of (gtl_tracker mh) t = Some (ThTracker 0))"
proof -
  obtain i mh log where r: "mh_run demo_env (MemHawk_new 256 demo_depth 512) [(True, [5, 4, 3, 2, 1], i)] log mh"
    "map_of (gtl_tracker mh) 3 = Some (ThTracker 0)" "length (m_thTrackers mh) = 1"
    using demo_run unfolding demo_hawk_def by blast
  have "if of_nat 0 \<in> set (m_finishedTrackers mh) then \<forall>t. map_of (gtl_tracker mh) t \<noteq> Some (ThTracker 0)
      else \<exists>!t. map_of (gtl_tracker mh) t = Some (ThTracker 0)"
    using tracker_ownership [OF r(1) demo_lru demo_depth_ok] r(3) by (metis zero_less_one)
  then have "0 \<notin> set (m_finishedTrackers mh)" "\<exists>!t. map_of (gtl_tracker mh) t = Some (ThTracker 0)"
    using r(2) unfolding semiring_1_class.of_nat_0 by (metis (full_types))+
  then show ?thesis using r(2,3) by - (rule exI [of _ mh], intro conjI)
qed

theorem finder_resolves_witness:
  "\<exists>mh i st. Finder_GetStacktraceFromId (replicate 64 0) mh i = Some (Some st) \<and>
    GetTrace st = filter (\<lambda>p. p \<noteq> 0) (collapse_ref [5, 4, 3, 2, 1] 8)"
proof -
  obtain i mh log where r: "mh_run demo_env (MemHawk_new 256 demo_depth 512) [(True, [5, 4, 3, 2, 1], i)] log mh"
    "length (nodes (m_btTracker mh)) \<le> 65"
    using demo_run unfolding demo_hawk_def by blast
  from finder_resolves [OF r(1) demo_lru demo_depth_ok, of True "[5, 4, 3, 2, 1]" i "replicate 64 0"] r(2) show ?thesis
    by (auto simp: MaxUnwindDepth_def demo_depth_def)
qed

theorem operations_return_witness:
  "\<exists>mh r. mh_TrackDealloc 2 0 True (mk_AllocInfo 8 16) mh = Some r \<and> length (m_postponed mh) \<le> m_postponedCapacity mh \<and>
    map_of (gtl_tracker mh) 3 = Some (ThTracker 0)"
proof -
  obtain i mh log where r: "mh_run demo_env (MemHawk_new 256 demo_depth 512) [(True, [5, 4, 3, 2, 1], i)] log mh"
    "map_of (gtl_tracker mh) 3 = Some (ThTracker 0)" "length (nodes (m_btTracker mh)) \<le> 65" "length (m_thTrackers mh) = 1"
    using demo_run unfolding demo_hawk_def by blast
  have "tracker_roomy (m_btTracker mh)" using r(3) by (simp add: tracker_roomy_def MaxUnwindDepth_def)
  from operations_return [OF r(1) demo_lru demo_depth_ok _ demo_trace_facts(1) this, of 2 0 True "mk_AllocInfo 8 16" "mk_AllocInfo 8 16"] r(2,4)
  show ?thesis by auto
qed

end
