(* ===== verification/Worker_Loop.thy ===== *)
theory Worker_Loop
  imports Mem_Hawk
begin

text \<open>
  The thread of the tracking worker and \<open>Stop\<close> (\<open>src/source/memhawk/src/impl/memhawk.cpp\<close>, \<open>TrackingWorker\<close>,
  \<open>Stop\<close>). The two threads share the flag \<open>m_stopped\<close>, the mutex \<open>m_mt\<close> and the condition variable. A step of
  a thread is what happens between two points at which the other can interfere; a thread that waits for
  the mutex or for the end of the worker cannot step (\<open>None\<close>). The wait of the worker ends by time or by a
  notification; a notification without a cause is possible, and the predicate is then tested again. The
  other threads of the process use the profiler at any time (\<open>client\<close>).
\<close>

section \<open>The model\<close>

datatype worker_pc = AtWhile | WantLock | Waiting | Asleep | Running | Finished

datatype stop_pc = NotCalled | InLock | Joining | StopReturned

datatype lock_holder = HeldByWorker | HeldByStop

record loop_state =
  wl_hawk :: MemHawk
  wl_stopped :: bool
  wl_lock :: "lock_holder option"
  wl_worker :: worker_pc
  wl_stop :: stop_pc

definition loop_start :: "MemHawk \<Rightarrow> loop_state" where
  "loop_start mh = \<lparr>wl_hawk = mh, wl_stopped = False, wl_lock = None, wl_worker = AtWhile, wl_stop = NotCalled\<rparr>"

definition worker_step :: "bool \<Rightarrow> loop_state \<Rightarrow> loop_state option" where
  "worker_step timeout s =
     (case wl_worker s of
        AtWhile \<Rightarrow> Some (s\<lparr>wl_worker := if wl_stopped s then Finished else WantLock\<rparr>)
      | WantLock \<Rightarrow>
          if wl_lock s = None then Some (s\<lparr>wl_lock := Some HeldByWorker, wl_worker := Waiting\<rparr>) else None
      | Waiting \<Rightarrow>
          Some (if wl_stopped s then s\<lparr>wl_worker := Running\<rparr> else s\<lparr>wl_lock := None, wl_worker := Asleep\<rparr>)
      | Asleep \<Rightarrow>
          if wl_lock s = None
          then Some (s\<lparr>wl_lock := Some HeldByWorker, wl_worker := if timeout then Running else Waiting\<rparr>)
          else None
      | Running \<Rightarrow>
          Some (s\<lparr>wl_hawk := TrackingWorker_round (wl_hawk s), wl_lock := None, wl_worker := AtWhile\<rparr>)
      | Finished \<Rightarrow> None)"

definition stop_step :: "loop_state \<Rightarrow> loop_state option" where
  "stop_step s =
     (case wl_stop s of
        NotCalled \<Rightarrow> if wl_lock s = None then Some (s\<lparr>wl_lock := Some HeldByStop, wl_stop := InLock\<rparr>) else None
      | InLock \<Rightarrow> Some (s\<lparr>wl_stopped := True, wl_lock := None, wl_stop := Joining\<rparr>)
      | Joining \<Rightarrow> if wl_worker s = Finished then Some (s\<lparr>wl_stop := StopReturned\<rparr>) else None
      | StopReturned \<Rightarrow> None)"

datatype actor = Worker | Stopper | Client

inductive loop_step :: "(MemHawk \<Rightarrow> MemHawk \<Rightarrow> bool) \<Rightarrow> actor \<Rightarrow> loop_state \<Rightarrow> loop_state \<Rightarrow> bool" for use where
  worker: "worker_step timeout s = Some s' \<Longrightarrow> loop_step use Worker s s'"
| stopper: "stop_step s = Some s' \<Longrightarrow> loop_step use Stopper s s'"
| client: "use (wl_hawk s) mh \<Longrightarrow> loop_step use Client s (s\<lparr>wl_hawk := mh\<rparr>)"

inductive_cases loop_stepE: "loop_step use a s s'"

inductive loop_run :: "(MemHawk \<Rightarrow> MemHawk \<Rightarrow> bool) \<Rightarrow> loop_state \<Rightarrow> actor list \<Rightarrow> loop_state \<Rightarrow> bool" for use where
  none: "loop_run use s [] s"
| more: "loop_run use s as s' \<Longrightarrow> loop_step use a s' s'' \<Longrightarrow> loop_run use s (as @ [a]) s''"

section \<open>Invariant\<close>

definition loop_ok :: "loop_state \<Rightarrow> bool" where
  "loop_ok s \<longleftrightarrow>
     (wl_lock s = Some HeldByWorker \<longleftrightarrow> wl_worker s = Waiting \<or> wl_worker s = Running) \<and>
     (wl_lock s = Some HeldByStop \<longleftrightarrow> wl_stop s = InLock) \<and>
     (wl_stopped s \<longleftrightarrow> wl_stop s = Joining \<or> wl_stop s = StopReturned) \<and>
     (wl_worker s = Finished \<longrightarrow> wl_stopped s)"

lemma loop_step_ok: "loop_step use a s s' \<Longrightarrow> loop_ok s \<Longrightarrow> loop_ok s'"
  by (erule loop_stepE)
    (auto simp: loop_ok_def worker_step_def stop_step_def split: worker_pc.splits stop_pc.splits if_splits)

lemma loop_run_ok: "loop_run use s as s' \<Longrightarrow> loop_ok s \<Longrightarrow> loop_ok s'"
  by (induction rule: loop_run.induct) (auto intro: loop_step_ok)

lemma loop_start_ok: "loop_ok (loop_start mh)"
  by (simp add: loop_ok_def loop_start_def)

text \<open>The steps of the worker that are left once it has to stop.\<close>

fun steps_left :: "worker_pc \<Rightarrow> nat" where
  "steps_left Finished = 0"
| "steps_left AtWhile = 1"
| "steps_left Running = 2"
| "steps_left Waiting = 3"
| "steps_left _ = 4"

lemma steps_left_bound: "steps_left pc \<le> 4"
  by (cases pc) simp_all

lemma stopped_step:
  assumes "loop_step use a s s'" "wl_stopped s"
  shows "wl_stopped s' \<and> (if a = Worker then 1 else 0) + steps_left (wl_worker s') \<le> steps_left (wl_worker s)"
  using assms
  by (elim loop_stepE) (auto simp: worker_step_def stop_step_def split: worker_pc.splits stop_pc.splits if_splits)

lemma stopped_run:
  assumes "loop_run use s as s'" "wl_stopped s"
  shows "wl_stopped s' \<and> length (filter ((=) Worker) as) + steps_left (wl_worker s') \<le> steps_left (wl_worker s)"
  using assms
proof (induction rule: loop_run.induct)
  case (more s as s' a s'')
  then show ?case using stopped_step [OF more.hyps(2)] by (auto split: if_splits)
qed simp

lemma stopped_not_blocked:
  assumes "loop_ok s" "wl_stopped s"
  shows "wl_worker s \<noteq> Finished \<Longrightarrow> worker_step b s \<noteq> None" "wl_worker s = Finished \<Longrightarrow> wl_stop s = StopReturned \<or> stop_step s \<noteq> None"
proof -
  have stop: "wl_stop s = Joining \<or> wl_stop s = StopReturned" using assms by (simp add: loop_ok_def)
  then have "wl_lock s \<noteq> Some HeldByStop" using assms(1) by (auto simp: loop_ok_def)
  then have lock: "wl_lock s = None" if "wl_worker s = WantLock \<or> wl_worker s = Asleep"
    using assms(1) that by (cases "wl_lock s"; cases "the (wl_lock s)") (auto simp: loop_ok_def)
  show "worker_step b s \<noteq> None" if "wl_worker s \<noteq> Finished"
    using that lock by (cases "wl_worker s") (simp_all add: worker_step_def)
  show "wl_stop s = StopReturned \<or> stop_step s \<noteq> None" if "wl_worker s = Finished"
    using that stop by (auto simp: stop_step_def)
qed

text \<open>The mutex: whoever holds it gives it back with its next step or the one after.\<close>

lemma lock_released:
  assumes "loop_ok s" "wl_lock s = Some HeldByWorker"
  shows "\<exists>s1. worker_step b s = Some s1 \<and> (wl_lock s1 = None \<or> (\<exists>s2. worker_step b s1 = Some s2 \<and> wl_lock s2 = None))"
proof -
  have "wl_worker s = Waiting \<or> wl_worker s = Running" using assms by (simp add: loop_ok_def)
  then show ?thesis by (elim disjE; cases "wl_stopped s") (simp_all add: worker_step_def)
qed

text \<open>The loop does to the profiler nothing but rounds of the worker.\<close>

lemma loop_refines:
  assumes "loop_run use s as s'" "R (wl_hawk s)" "\<And>mh. R mh \<Longrightarrow> R (TrackingWorker_round mh)" "\<And>mh mh'. R mh \<Longrightarrow> use mh mh' \<Longrightarrow> R mh'"
  shows "R (wl_hawk s')"
  using assms(1,2)
proof (induction rule: loop_run.induct)
  case (more s as s' a s'')
  then have "R (wl_hawk s')" by blast
  with more.hyps(2) show ?case
    by (elim loop_stepE) (auto simp: worker_step_def stop_step_def assms(3,4) split: worker_pc.splits stop_pc.splits if_splits)
qed

section \<open>Properties\<close>

text \<open>
  C24. \<open>Stop\<close> returns. Once \<open>Stop\<close> has set the flag, then however the threads are scheduled from there on,
  the worker is never blocked and takes at most four more steps until it has finished, and when it has
  finished, \<open>Stop\<close> returns with its next step. No notification can be missed in a way that matters.
\<close>

theorem stop_returns:
  assumes "loop_run use (loop_start mh) as s" "wl_stopped s" "loop_run use s as' s'"
  shows "length (filter ((=) Worker) as') \<le> 4 \<and>
    (if wl_worker s' = Finished then wl_stop s' = StopReturned \<or> stop_step s' \<noteq> None else \<forall>b. worker_step b s' \<noteq> None)"
proof -
  have ok: "loop_ok s'" using loop_run_ok [OF assms(3) loop_run_ok [OF assms(1) loop_start_ok]] .
  have R: "wl_stopped s'" "length (filter ((=) Worker) as') \<le> 4"
    using stopped_run [OF assms(3,2)] steps_left_bound [of "wl_worker s"] by simp_all
  then show ?thesis using stopped_not_blocked [OF ok R(1)] by simp
qed

lemma loop_run_snoc: "loop_run use s as s1 \<Longrightarrow> worker_step b s1 = Some s2 \<Longrightarrow> loop_run use s (as @ [Worker]) s2"
  "loop_run use s as s1 \<Longrightarrow> stop_step s1 = Some s2 \<Longrightarrow> loop_run use s (as @ [Stopper]) s2"
  by (auto intro: loop_run.more loop_step.intros)

lemma early_stop:
  "\<exists>s. loop_run use (loop_start mh) [Stopper, Stopper] s \<and> wl_stopped s \<and> wl_worker s = AtWhile \<and> wl_stop s = Joining \<and> wl_hawk s = mh"
proof -
  let ?s1 = "(loop_start mh)\<lparr>wl_lock := Some HeldByStop, wl_stop := InLock\<rparr>"
  let ?s2 = "?s1\<lparr>wl_stopped := True, wl_lock := None, wl_stop := Joining\<rparr>"
  have "loop_run use (loop_start mh) ([] @ [Stopper]) ?s1"
    by (rule loop_run_snoc(2) [OF loop_run.none]) (simp add: stop_step_def loop_start_def)
  then have "loop_run use (loop_start mh) (([] @ [Stopper]) @ [Stopper]) ?s2"
    by (rule loop_run_snoc(2)) (simp add: stop_step_def loop_start_def)
  then show ?thesis by (intro exI [of _ ?s2]) (simp add: loop_start_def)
qed

theorem stop_returns_witness:
  "\<exists>s s' :: loop_state. loop_run (\<lambda>_ _. False) (loop_start demo_hawk) [Stopper, Stopper] s \<and> loop_run (\<lambda>_ _. False) s [Worker] s' \<and>
     wl_worker s' = Finished \<and> (wl_stop s' = StopReturned \<or> stop_step s' \<noteq> None)"
proof -
  obtain s where s: "loop_run (\<lambda>_ _. False) (loop_start demo_hawk) [Stopper, Stopper] s" "wl_stopped s" "wl_worker s = AtWhile"
    using early_stop by blast
  let ?s = "s\<lparr>wl_worker := Finished\<rparr>"
  have "loop_run (\<lambda>_ _. False) s ([] @ [Worker]) ?s"
    by (rule loop_run_snoc(1) [OF loop_run.none, of True]) (simp add: worker_step_def s)
  then have r: "loop_run (\<lambda>_ _. False) s [Worker] ?s" by simp
  from stop_returns [OF s(1,2) r] show ?thesis using s(1) r by (intro exI [of _ s] exI [of _ ?s]) simp
qed

text \<open>
  \<open>Stop\<close> does not wait for a last report. When it is called before the worker tests the flag (before its
  first round, or between two rounds), the worker ends without a round and what was recorded since the
  last one is never handed to the writers.
\<close>

theorem stop_may_skip_report:
  "\<exists>as s. loop_run use (loop_start mh) as s \<and> wl_stop s = StopReturned \<and> wl_worker s = Finished \<and> wl_hawk s = mh"
proof -
  obtain s where s: "loop_run use (loop_start mh) [Stopper, Stopper] s" "wl_stopped s" "wl_worker s = AtWhile" "wl_stop s = Joining" "wl_hawk s = mh"
    using early_stop by blast
  let ?s1 = "s\<lparr>wl_worker := Finished\<rparr>" and ?s2 = "s\<lparr>wl_worker := Finished, wl_stop := StopReturned\<rparr>"
  have "loop_run use (loop_start mh) ([Stopper, Stopper] @ [Worker]) ?s1"
    by (rule loop_run_snoc(1) [OF s(1), of True]) (simp add: worker_step_def s)
  then have "loop_run use (loop_start mh) (([Stopper, Stopper] @ [Worker]) @ [Stopper]) ?s2"
    by (rule loop_run_snoc(2)) (simp add: stop_step_def s)
  then show ?thesis using s(5) by (intro exI [of _ "([Stopper, Stopper] @ [Worker]) @ [Stopper]"] exI [of _ ?s2]) simp
qed

end
