(* ===== verification/Owned_Guards.thy ===== *)
theory Owned_Guards
  imports MH_Prelude
begin

text \<open>
  Callbacks that run once (\<open>src/source/memhawk/src/impl/owned_guards.h\<close>). A callback is registered with
  an owner and handed out as a guard; it runs when the guard is destroyed or when the owner drains its
  list, whichever comes first, and the two may race. MemHawk uses it to give a thread's tracker back.

  A callback is a number. The destructor of a guard and \<open>Drain\<close> each have a part under the lock, which
  takes callbacks off the list, and a part outside it, which executes them. \<open>execute\<close> is an atomic exchange
  and, for the one that finds the mark unset, the call of the callback; other threads may run between the
  two. So the atomic steps are: the two parts under the lock, the exchange, and the call. \<open>drains\<close> holds for
  each running \<open>Drain\<close> the callback it is about to call and the rest of its local list, \<open>dtors\<close> the guards
  whose destructor is before its exchange, \<open>dtor_calls\<close> those that have won it and are about to call.
  \<open>runs\<close> is the history of callbacks that were called.
\<close>

section \<open>The model\<close>

record OwnedGuards =
  callbacks :: "nat list"
  m_executed :: "nat list"
  runs :: "nat list"
  guards :: "nat list"
  drains :: "(nat option \<times> nat list) list"
  dtors :: "nat list"
  dtor_calls :: "nat list"

definition OwnedGuards_new :: OwnedGuards where
  "OwnedGuards_new =
     \<lparr>callbacks = [], m_executed = [], runs = [], guards = [], drains = [], dtors = [], dtor_calls = []\<rparr>"

text \<open>\<open>execute\<close>: the exchange, with the old mark as its result, and the call.\<close>

definition execute_exchange :: "nat \<Rightarrow> OwnedGuards \<Rightarrow> bool \<times> OwnedGuards" where
  "execute_exchange c s = (c \<in> set (m_executed s), s\<lparr>m_executed := List.insert c (m_executed s)\<rparr>)"

definition execute_call :: "nat \<Rightarrow> OwnedGuards \<Rightarrow> OwnedGuards" where
  "execute_call c s = s\<lparr>runs := runs s @ [c]\<rparr>"

definition Register :: "nat \<Rightarrow> OwnedGuards \<Rightarrow> OwnedGuards" where
  "Register c s = s\<lparr>callbacks := callbacks s @ [c], guards := guards s @ [c]\<rparr>"

text \<open>\<open>Drain\<close>: the swap under the lock, then \<open>execute\<close> for one callback after the other.\<close>

definition Drain_swap :: "OwnedGuards \<Rightarrow> OwnedGuards" where
  "Drain_swap s = s\<lparr>callbacks := [], drains := drains s @ [(None, callbacks s)]\<rparr>"

definition Drain_next :: "nat \<Rightarrow> OwnedGuards \<Rightarrow> OwnedGuards" where
  "Drain_next d s =
     (case drains s ! d of
        (Some c, cs) \<Rightarrow> execute_call c (s\<lparr>drains := (drains s)[d := (None, cs)]\<rparr>)
      | (None, []) \<Rightarrow> s\<lparr>drains := take d (drains s) @ drop (d + 1) (drains s)\<rparr>
      | (None, c # cs) \<Rightarrow>
          (let (executed, s) = execute_exchange c s
           in s\<lparr>drains := (drains s)[d := (if executed then None else Some c, cs)]\<rparr>))"

text \<open>\<open>~CallbackGuard\<close>: the removal under the lock, then \<open>execute\<close>.\<close>

definition Guard_remove :: "nat \<Rightarrow> OwnedGuards \<Rightarrow> OwnedGuards" where
  "Guard_remove c s =
     s\<lparr>callbacks := removeAll c (callbacks s), guards := removeAll c (guards s), dtors := dtors s @ [c]\<rparr>"

definition Guard_exchange :: "nat \<Rightarrow> OwnedGuards \<Rightarrow> OwnedGuards" where
  "Guard_exchange c s =
     (let (executed, s) = execute_exchange c (s\<lparr>dtors := removeAll c (dtors s)\<rparr>)
      in if executed then s else s\<lparr>dtor_calls := dtor_calls s @ [c]\<rparr>)"

definition Guard_call :: "nat \<Rightarrow> OwnedGuards \<Rightarrow> OwnedGuards" where
  "Guard_call c s = execute_call c (s\<lparr>dtor_calls := removeAll c (dtor_calls s)\<rparr>)"

section \<open>Interleavings\<close>

text \<open>Each registration makes a new callback; otherwise the steps of all threads interleave freely.\<close>

inductive guards_run :: "nat list \<Rightarrow> OwnedGuards \<Rightarrow> bool" where
  start: "guards_run [] OwnedGuards_new"
| register: "guards_run cs s \<Longrightarrow> c \<notin> set cs \<Longrightarrow> guards_run (cs @ [c]) (Register c s)"
| drain_swap: "guards_run cs s \<Longrightarrow> guards_run cs (Drain_swap s)"
| drain_next: "guards_run cs s \<Longrightarrow> d < length (drains s) \<Longrightarrow> guards_run cs (Drain_next d s)"
| guard_remove: "guards_run cs s \<Longrightarrow> c \<in> set (guards s) \<Longrightarrow> guards_run cs (Guard_remove c s)"
| guard_exchange: "guards_run cs s \<Longrightarrow> c \<in> set (dtors s) \<Longrightarrow> guards_run cs (Guard_exchange c s)"
| guard_call: "guards_run cs s \<Longrightarrow> c \<in> set (dtor_calls s) \<Longrightarrow> guards_run cs (Guard_call c s)"

text \<open>The callbacks that a running \<open>Drain\<close> is about to call, and those that are on its list.\<close>

definition drain_calls :: "(nat option \<times> nat list) list \<Rightarrow> nat list" where
  "drain_calls ds = List.map_filter fst ds"

definition drain_waits :: "(nat option \<times> nat list) list \<Rightarrow> nat list" where
  "drain_waits ds = concat (map snd ds)"

text \<open>
  Every callback is somewhere: waiting on the list (with its guard alive), in a running \<open>Drain\<close>, in a
  destructor before its exchange, or marked; and a callback that is marked was called, or exactly one
  party is about to call it.
\<close>

definition guards_ok :: "nat list \<Rightarrow> OwnedGuards \<Rightarrow> bool" where
  "guards_ok cs s \<longleftrightarrow>
     distinct (runs s @ drain_calls (drains s) @ dtor_calls s) \<and>
     set (runs s @ drain_calls (drains s) @ dtor_calls s) = set (m_executed s) \<and> set (m_executed s) \<subseteq> set cs \<and>
     set cs = set (callbacks s) \<union> set (drain_waits (drains s)) \<union> set (dtors s) \<union> set (m_executed s) \<and>
     set (callbacks s) \<subseteq> set (guards s) \<and> set (guards s) \<subseteq> set cs \<and>
     set cs \<subseteq> set (guards s) \<union> set (dtors s) \<union> set (m_executed s)"

lemma drain_simps [simp]:
  "drain_calls [] = []" "drain_calls ((None, xs) # ds) = drain_calls ds" "drain_calls ((Some c, xs) # ds) = c # drain_calls ds"
  "drain_calls (ds @ es) = drain_calls ds @ drain_calls es"
  "drain_waits [] = []" "drain_waits (p # ds) = snd p @ drain_waits ds" "drain_waits (ds @ es) = drain_waits ds @ drain_waits es"
  by (simp_all add: drain_calls_def drain_waits_def map_filter_def)

lemma split_at_index:
  assumes "d < length ds"
  obtains xs ys where "ds = xs @ ds ! d # ys" "\<And>v. ds[d := v] = xs @ v # ys" "take d ds @ drop (d + 1) ds = xs @ ys"
  using that [of "take d ds" "drop (Suc d) ds"] assms by (simp add: id_take_nth_drop [symmetric] upd_conv_take_nth_drop)

lemma Drain_next_ok:
  assumes "guards_ok cs s" "d < length (drains s)"
  shows "guards_ok cs (Drain_next d s)"
proof -
  obtain xs ys where ds: "drains s = xs @ drains s ! d # ys" "\<And>v. (drains s)[d := v] = xs @ v # ys"
    "take d (drains s) @ drop (d + 1) (drains s) = xs @ ys" using split_at_index [OF assms(2)] by blast
  obtain u l where p: "drains s ! d = (u, l)" by (cases "drains s ! d")
  have "drains s = xs @ (u, l) # ys" using ds(1) p by metis
  note ok = assms(1) [unfolded guards_ok_def this]
  consider (calling) c where "u = Some c" | (finished) "u = None" "l = []" | (marking) c r where "u = None" "l = c # r"
    by (cases u; cases l) blast+
  then show ?thesis
  proof cases
    case calling
    then have "Drain_next d s = execute_call c (s\<lparr>drains := xs @ (None, l) # ys\<rparr>)" using p ds(2) by (simp add: Drain_next_def)
    then show ?thesis unfolding guards_ok_def execute_call_def using ok calling by auto
  next
    case finished
    then have "Drain_next d s = s\<lparr>drains := xs @ ys\<rparr>" using p ds(3) by (simp add: Drain_next_def)
    then show ?thesis unfolding guards_ok_def using ok finished by auto
  next
    case marking
    let ?m = "c \<in> set (m_executed s)"
    have "Drain_next d s = s\<lparr>m_executed := List.insert c (m_executed s), drains := xs @ (if ?m then None else Some c, r) # ys\<rparr>"
      using marking p ds(2) by (simp add: Drain_next_def execute_exchange_def)
    then show ?thesis unfolding guards_ok_def using ok marking by (cases ?m) auto
  qed
qed

lemma Guard_exchange_ok:
  assumes "guards_ok cs s" "c \<in> set (dtors s)"
  shows "guards_ok cs (Guard_exchange c s)"
  using assms unfolding guards_ok_def Guard_exchange_def execute_exchange_def
  by (cases "c \<in> set (m_executed s)") (auto simp: List.insert_def)

lemma guards_run_ok: "guards_run cs s \<Longrightarrow> guards_ok cs s"
proof (induction rule: guards_run.induct)
  case start
  then show ?case by (simp add: guards_ok_def OwnedGuards_new_def)
next
  case (register cs s c)
  then show ?case unfolding guards_ok_def Register_def by simp blast
next
  case (drain_swap cs s)
  then show ?case unfolding guards_ok_def Drain_swap_def by simp blast
next
  case (drain_next cs s d)
  then show ?case by (intro Drain_next_ok)
next
  case (guard_remove cs s c)
  then show ?case unfolding guards_ok_def Guard_remove_def by simp blast
next
  case (guard_exchange cs s c)
  then show ?case by (intro Guard_exchange_ok)
next
  case (guard_call cs s c)
  then show ?case unfolding guards_ok_def Guard_call_def execute_call_def by (auto simp: distinct_removeAll)
qed

section \<open>Properties\<close>

text \<open>
  C23. Exactly once. Under any interleaving of registrations, guard destructors and drains, no callback is
  called twice, and none that was not registered. When the destructor of a guard has finished, its
  callback has been called, or a \<open>Drain\<close> that won the exchange is just about to call it: the destructor does not
  wait for it. When no guard destructor and no \<open>Drain\<close> is in progress and the list is empty, every
  registered callback has been called exactly once.
\<close>

theorem callbacks_run_once:
  assumes "guards_run cs s"
  shows "distinct (runs s) \<and> set (runs s) \<subseteq> set cs \<and>
    (\<forall>c \<in> set cs. c \<notin> set (guards s) \<and> c \<notin> set (dtors s) \<and> c \<notin> set (dtor_calls s) \<longrightarrow>
      (c \<in> set (runs s)) \<noteq> (c \<in> set (drain_calls (drains s)))) \<and>
    (callbacks s = [] \<and> drains s = [] \<and> dtors s = [] \<and> dtor_calls s = [] \<longrightarrow> set (runs s) = set cs)"
proof -
  note ok = guards_run_ok [OF assms, unfolded guards_ok_def]
  then have "\<forall>c \<in> set cs. c \<notin> set (guards s) \<and> c \<notin> set (dtors s) \<and> c \<notin> set (dtor_calls s) \<longrightarrow>
      (c \<in> set (runs s)) \<noteq> (c \<in> set (drain_calls (drains s)))" by auto
  moreover have "set (runs s) = set cs" if "callbacks s = []" "drains s = []" "dtors s = []" "dtor_calls s = []"
    using ok that by simp
  ultimately show ?thesis using ok by auto
qed

text \<open>
  A race that the owner wins: \<open>Drain\<close> has marked the callback, the destructor of its guard finds the mark and
  returns, and only then is the callback called.
\<close>

definition race :: OwnedGuards where
  "race = Guard_exchange 7 (Drain_next 0 (Guard_remove 7 (Drain_swap (Register 8 (Register 7 OwnedGuards_new)))))"

lemmas guards_defs = execute_exchange_def execute_call_def Register_def Drain_swap_def Drain_next_def Guard_remove_def
  Guard_exchange_def Guard_call_def OwnedGuards_new_def

lemma race_run: "guards_run [7, 8] race" "race = \<lparr>callbacks = [], m_executed = [7], runs = [], guards = [8], drains = [(Some 7, [8])],
    dtors = [], dtor_calls = []\<rparr>"
proof -
  have "guards_run (([] @ [7]) @ [8]) (Register 8 (Register 7 OwnedGuards_new))"
    by (intro guards_run.register guards_run.start) simp_all
  then have "guards_run [7, 8] (Drain_swap (Register 8 (Register 7 OwnedGuards_new)))"
    by (intro guards_run.drain_swap) simp
  then show "guards_run [7, 8] race" unfolding race_def
    by (intro guards_run.guard_exchange guards_run.drain_next guards_run.guard_remove) (simp_all add: guards_defs)
qed (simp add: race_def guards_defs)

theorem callbacks_run_once_witness:
  "guards_run [7, 8] race \<and> 7 \<notin> set (guards race) \<and> runs race = [] \<and> drain_calls (drains race) = [7] \<and>
   distinct (runs (Drain_next 0 race)) \<and> runs (Drain_next 0 race) = [7]"
proof -
  have "guards_run [7, 8] (Drain_next 0 race)" by (intro guards_run.drain_next race_run(1)) (simp add: race_run(2))
  from callbacks_run_once [OF this] callbacks_run_once [OF race_run(1)] show ?thesis
    using race_run(1) by (simp add: race_run(2) guards_defs)
qed

end
