(* ===== verification/Fork_Locks.thy ===== *)
theory Fork_Locks
  imports MH_Prelude
begin

text \<open>
  The locks of MemHawk around \<open>fork\<close> (\<open>src/source/memhawk/src/impl/memhawk.cpp\<close>, \<open>spinlock.h\<close>,
  \<open>owned_guards.h\<close>, \<open>thread_tracker.cpp\<close>). A lock is a flag. \<open>PreFork\<close> runs in the forking thread while
  other threads go on; it takes four locks and waits for each of them, so a successful run finds them
  free. The child process has a copy of all flags and only the forking thread: the worker's thread object
  and the condition variable it waits on are copies whose thread does not exist, until \<open>ChildPostFork\<close> makes
  them anew.
\<close>

section \<open>The model\<close>

record locks =
  lk_mt :: bool \<comment> \<open>\<open>m_mt\<close>, the worker's mutex\<close>
  lk_thTrackersMt :: bool
  lk_trackerGuards :: bool
  lk_postponedMt :: bool
  lk_thTrackers :: "bool list" \<comment> \<open>the lock of each thread tracker\<close>
  lk_exitingThreadsTracker :: bool
  lk_innerTracker :: bool
  lk_btTracker :: bool \<comment> \<open>the lock of the tree tracker\<close>
  lk_innerBtTracker :: bool \<comment> \<open>the lock of the static tracker\<close>
  lk_cv :: nat \<comment> \<open>\<open>m_cv\<close>, the number of threads that wait on it\<close>
  lk_worker :: bool \<comment> \<open>\<open>m_worker.joinable()\<close>\<close>

text \<open>Taking a lock: \<open>None\<close> while it is held, since the loop goes round without effect.\<close>

definition spin_lock :: "bool \<Rightarrow> bool option" where
  "spin_lock held = (if held then None else Some True)"

definition spin_unlock :: "bool \<Rightarrow> bool" where
  "spin_unlock held = False"

definition PreFork :: "locks \<Rightarrow> locks option" where
  "PreFork s =
     do { a \<leftarrow> spin_lock (lk_mt s);
          b \<leftarrow> spin_lock (lk_thTrackersMt s);
          c \<leftarrow> spin_lock (lk_trackerGuards s);
          d \<leftarrow> spin_lock (lk_postponedMt s);
          Some (s\<lparr>lk_mt := a, lk_thTrackersMt := b, lk_trackerGuards := c, lk_postponedMt := d\<rparr>) }"

definition ParentPostFork :: "locks \<Rightarrow> locks" where
  "ParentPostFork s =
     s\<lparr>lk_postponedMt := spin_unlock (lk_postponedMt s), lk_trackerGuards := spin_unlock (lk_trackerGuards s),
       lk_thTrackersMt := spin_unlock (lk_thTrackersMt s), lk_mt := spin_unlock (lk_mt s)\<rparr>"

definition ChildPostFork :: "locks \<Rightarrow> locks" where
  "ChildPostFork s =
     (let s = s\<lparr>lk_innerTracker := spin_unlock (lk_innerTracker s),
                lk_exitingThreadsTracker := spin_unlock (lk_exitingThreadsTracker s),
                lk_thTrackers := map spin_unlock (lk_thTrackers s)\<rparr>;
          s = s\<lparr>lk_postponedMt := spin_unlock (lk_postponedMt s), lk_trackerGuards := spin_unlock (lk_trackerGuards s),
                lk_thTrackersMt := spin_unlock (lk_thTrackersMt s), lk_mt := spin_unlock (lk_mt s)\<rparr>
      in s\<lparr>lk_cv := 0, lk_worker := False\<rparr>)"

section \<open>Properties\<close>

text \<open>
  C28. Fork. The parent's locks are after the fork exactly what they were before it. In the child, all locks
  of MemHawk and of the thread trackers are free, whatever the other threads held, and neither a worker nor
  a waiter is left that \<open>Stop\<close> would wait for; the locks of the two trace stores are not touched by any handler and keep the state they had at the fork, so a store lock
  that another thread held then is never released in the child.
\<close>

theorem fork_locks:
  assumes "PreFork s = Some s1"
  shows "ParentPostFork s1 = s \<and>
    \<not> lk_mt (ChildPostFork s1) \<and> \<not> lk_thTrackersMt (ChildPostFork s1) \<and> \<not> lk_trackerGuards (ChildPostFork s1) \<and>
    \<not> lk_postponedMt (ChildPostFork s1) \<and> \<not> lk_innerTracker (ChildPostFork s1) \<and>
    \<not> lk_exitingThreadsTracker (ChildPostFork s1) \<and> True \<notin> set (lk_thTrackers (ChildPostFork s1)) \<and>
    lk_cv (ChildPostFork s1) = 0 \<and> \<not> lk_worker (ChildPostFork s1) \<and>
    spin_lock (lk_btTracker (ChildPostFork s1)) = spin_lock (lk_btTracker s) \<and>
    spin_lock (lk_innerBtTracker (ChildPostFork s1)) = spin_lock (lk_innerBtTracker s)"
proof -
  have "\<not> lk_mt s" "\<not> lk_thTrackersMt s" "\<not> lk_trackerGuards s" "\<not> lk_postponedMt s"
    "s1 = s\<lparr>lk_mt := True, lk_thTrackersMt := True, lk_trackerGuards := True, lk_postponedMt := True\<rparr>"
    using assms by (auto simp: PreFork_def spin_lock_def split: if_splits)
  then show ?thesis
    by (auto simp: ParentPostFork_def ChildPostFork_def Let_def spin_unlock_def intro: locks.equality)
qed

text \<open>Another thread is inside \<open>InsertStacktrace\<close> of the tree tracker, under its own tracker's lock.\<close>

definition demo_fork :: locks where
  "demo_fork = \<lparr>lk_mt = False, lk_thTrackersMt = False, lk_trackerGuards = False, lk_postponedMt = False,
     lk_thTrackers = [False, True], lk_exitingThreadsTracker = False, lk_innerTracker = False,
     lk_btTracker = True, lk_innerBtTracker = False, lk_cv = 1, lk_worker = True\<rparr>"

theorem fork_locks_witness:
  "\<exists>s1. PreFork demo_fork = Some s1 \<and> spin_lock (lk_btTracker (ChildPostFork s1)) = None \<and>
    lk_worker demo_fork \<and> \<not> lk_worker (ChildPostFork s1) \<and> ParentPostFork s1 = demo_fork"
proof -
  obtain s1 where "PreFork demo_fork = Some s1" by (auto simp: PreFork_def spin_lock_def demo_fork_def)
  with fork_locks [OF this] show ?thesis by (auto simp: demo_fork_def spin_lock_def)
qed

end
