(* ===== verification/Hawk_Malloc.thy ===== *)
theory Hawk_Malloc
  imports Thread_Tracker
begin

text \<open>
  The allocation functions that replace those of the C library
  (\<open>src/source/memhawk/src/hawk_malloc.cpp\<close>). Every block carries an \<open>AllocInfo\<close> just below the address the
  user gets, with the distance back to the address the C library returned. Before the hooks are resolved
  blocks come from \<open>mmap\<close> and are marked by a reserved trace identifier.

  Addresses and sizes are 64-bit words and wrap. The C library, \<open>mmap\<close> and \<open>memcpy\<close> are the record \<open>L\<close> of
  functions on a state of their own. The headers in memory are a map from addresses; the newest entry
  counts. What MemHawk is told is recorded in order, and the identifier it writes into a header is an
  argument \<open>mid\<close>. \<open>None\<close> is \<open>abort\<close>, a division by zero, or a header read where none was written.
\<close>

section \<open>The model\<close>

record 'l libc =
  l_malloc :: "'l \<Rightarrow> u64 \<Rightarrow> 'l \<times> ptr"
  l_calloc :: "'l \<Rightarrow> u64 \<Rightarrow> u64 \<Rightarrow> 'l \<times> ptr"
  l_realloc :: "'l \<Rightarrow> ptr \<Rightarrow> u64 \<Rightarrow> 'l \<times> ptr"
  l_aligned_alloc :: "'l \<Rightarrow> u64 \<Rightarrow> u64 \<Rightarrow> 'l \<times> ptr"
  l_posix_memalign :: "'l \<Rightarrow> u64 \<Rightarrow> u64 \<Rightarrow> 'l \<times> int \<times> ptr"
  l_free :: "'l \<Rightarrow> ptr \<Rightarrow> 'l"
  l_mmap :: "'l \<Rightarrow> u64 \<Rightarrow> 'l \<times> ptr"
  l_munmap :: "'l \<Rightarrow> ptr \<Rightarrow> u64 \<Rightarrow> 'l"
  l_memcpy :: "'l \<Rightarrow> ptr \<Rightarrow> ptr \<Rightarrow> u64 \<Rightarrow> 'l"
  l_memset0 :: "'l \<Rightarrow> ptr \<Rightarrow> u64 \<Rightarrow> 'l"
  l_getpagesize :: int
  l_dlopen :: "'l \<Rightarrow> string \<Rightarrow> int \<Rightarrow> 'l \<times> ptr"
  l_dlclose :: "'l \<Rightarrow> ptr \<Rightarrow> 'l \<times> int"

datatype hawk_call =
    CallTrackAlloc AllocInfo
  | CallTrackDealloc AllocInfo
  | CallTrackRealloc AllocInfo AllocInfo
  | CallInvalidateModulesCache

datatype errno = NoError | ENOMEM

record 'l process =
  pr_libc :: 'l
  pr_infos :: "(ptr \<times> AllocInfo) list"
  gl_initialised :: bool
  gl_dlInitialised :: bool
  gl_memhawkReady :: bool
  pr_calls :: "hawk_call list"
  pr_errno :: errno

type_synonym assign_id = "hawk_call list \<Rightarrow> AllocInfo \<Rightarrow> u32"

definition InvalidTraceId :: u32 where
  "InvalidTraceId = - 1"

definition AdditionalSize :: u64 where
  "AdditionalSize = 16"

definition MAP_FAILED :: ptr where
  "MAP_FAILED = - 1"

definition align_ceil :: "u64 \<Rightarrow> u64 \<Rightarrow> u64 option" where
  "align_ceil v alignment =
     (if alignment = 0 then None else Some ((v + alignment - 1) div alignment * alignment))"

definition store_info :: "ptr \<Rightarrow> AllocInfo \<Rightarrow> 'l process \<Rightarrow> 'l process" where
  "store_info a info p = p\<lparr>pr_infos := (a, info) # pr_infos p\<rparr>"

definition load_info :: "'l process \<Rightarrow> ptr \<Rightarrow> AllocInfo option" where
  "load_info p userPtr = map_of (pr_infos p) (userPtr - AdditionalSize)"

subsection \<open>Telling MemHawk\<close>

definition TrackAllocation :: "assign_id \<Rightarrow> ptr \<Rightarrow> u64 \<Rightarrow> u32 \<Rightarrow> 'l process \<Rightarrow> 'l process" where
  "TrackAllocation mid userPtr userSize offset p =
     (let infoLocation = userPtr - AdditionalSize;
          info = mk_AllocInfo userSize offset;
          p = store_info infoLocation info p
      in if gl_memhawkReady p
         then let info = info\<lparr>ai_traceId := mid (pr_calls p) info\<rparr>
              in (store_info infoLocation info p)\<lparr>pr_calls := pr_calls p @ [CallTrackAlloc info]\<rparr>
         else p)"

definition TrackReallocation :: "assign_id \<Rightarrow> ptr \<Rightarrow> u64 \<Rightarrow> u32 \<Rightarrow> AllocInfo \<Rightarrow> 'l process \<Rightarrow> 'l process" where
  "TrackReallocation mid userPtr userSize offset prev p =
     (let infoLocation = userPtr - AdditionalSize;
          info = mk_AllocInfo userSize offset;
          p = store_info infoLocation info p
      in if gl_memhawkReady p
         then let info = info\<lparr>ai_traceId := mid (pr_calls p) info\<rparr>
              in (store_info infoLocation info p)\<lparr>pr_calls := pr_calls p @ [CallTrackRealloc prev info]\<rparr>
         else p)"

subsection \<open>Before initialisation\<close>

definition mmap_malloc :: "'l libc \<Rightarrow> u64 \<Rightarrow> 'l process \<Rightarrow> 'l process \<times> ptr" where
  "mmap_malloc L sz p =
     (let totalSize = sz + AdditionalSize;
          (l, a) = l_mmap L (pr_libc p) totalSize;
          p = p\<lparr>pr_libc := l\<rparr>
      in if a = MAP_FAILED then (p, 0)
         else
           (let p = p\<lparr>pr_libc := l_memset0 L l a totalSize\<rparr>;
                p = store_info a ((mk_AllocInfo sz (ucast AdditionalSize))\<lparr>ai_traceId := InvalidTraceId\<rparr>) p
            in (p, a + AdditionalSize)))"

definition mmap_free :: "'l libc \<Rightarrow> ptr \<Rightarrow> AllocInfo \<Rightarrow> 'l process \<Rightarrow> 'l process" where
  "mmap_free L a info p = p\<lparr>pr_libc := l_munmap L (pr_libc p) a (ai_size info + ucast (ai_offset info))\<rparr>"

definition mmap_realloc :: "'l libc \<Rightarrow> ptr \<Rightarrow> u64 \<Rightarrow> 'l process \<Rightarrow> ('l process \<times> ptr) option" where
  "mmap_realloc L a sz p =
     (if a = 0 then Some (mmap_malloc L sz p)
      else do { info \<leftarrow> load_info p a;
                let origPtr = a - ucast (ai_offset info);
                let (p, realloced) = mmap_malloc L sz p;
                if realloced = 0 then Some (p, 0)
                else
                  (let p = p\<lparr>pr_libc := l_memcpy L (pr_libc p) realloced a (min (ai_size info) sz)\<rparr>
                   in Some (mmap_free L origPtr info p, realloced)) })"

definition mmap_alloc_aligned :: "'l libc \<Rightarrow> u64 \<Rightarrow> u64 \<Rightarrow> 'l process \<Rightarrow> ('l process \<times> ptr) option" where
  "mmap_alloc_aligned L sz alignment p =
     (let totalSize = sz + AdditionalSize + alignment;
          (l, a) = l_mmap L (pr_libc p) totalSize;
          p = p\<lparr>pr_libc := l\<rparr>
      in if a = MAP_FAILED then Some (p, 0)
         else do { let p = p\<lparr>pr_libc := l_memset0 L l a totalSize\<rparr>;
                   alignedPtr \<leftarrow> align_ceil (a + AdditionalSize) alignment;
                   let offset = alignedPtr - a;
                   let info = (mk_AllocInfo (totalSize - offset) (ucast offset))\<lparr>ai_traceId := InvalidTraceId\<rparr>;
                   Some (store_info (alignedPtr - AdditionalSize) info p, alignedPtr) })"

subsection \<open>The allocation functions\<close>

definition hawk_malloc :: "'l libc \<Rightarrow> assign_id \<Rightarrow> u64 \<Rightarrow> 'l process \<Rightarrow> 'l process \<times> ptr" where
  "hawk_malloc L mid sz p =
     (if \<not> gl_initialised p then mmap_malloc L sz p
      else
        (let (l, raw) = l_malloc L (pr_libc p) (sz + AdditionalSize);
             p = p\<lparr>pr_libc := l\<rparr>
         in if raw = 0 then (p, 0)
            else
              (let userPtr = raw + AdditionalSize
               in (TrackAllocation mid userPtr sz (ucast AdditionalSize) p, userPtr))))"

definition hawk_aligned_alloc ::
  "'l libc \<Rightarrow> assign_id \<Rightarrow> u64 \<Rightarrow> u64 \<Rightarrow> 'l process \<Rightarrow> ('l process \<times> ptr) option" where
  "hawk_aligned_alloc L mid align sz p =
     (if \<not> gl_initialised p then mmap_alloc_aligned L sz align p
      else do { alignedSize \<leftarrow> align_ceil AdditionalSize align;
                let (l, raw) = l_aligned_alloc L (pr_libc p) align (sz + alignedSize);
                let p = p\<lparr>pr_libc := l\<rparr>;
                if raw = 0 then Some (p, 0)
                else
                  (let userPtr = raw + alignedSize
                   in Some (TrackAllocation mid userPtr sz (ucast alignedSize) p, userPtr)) })"

text \<open>The result of \<open>hawk_posix_memalign\<close> is its return code and the pointer in \<open>*memptr\<close>.\<close>

definition hawk_posix_memalign ::
  "'l libc \<Rightarrow> assign_id \<Rightarrow> u64 \<Rightarrow> u64 \<Rightarrow> 'l process \<Rightarrow> ('l process \<times> int \<times> ptr) option" where
  "hawk_posix_memalign L mid alignment sz p =
     (if \<not> gl_initialised p
      then do { (p, a) \<leftarrow> mmap_alloc_aligned L sz alignment p; Some (p, 0, a) }
      else do { alignedSize \<leftarrow> align_ceil AdditionalSize alignment;
                let (l, res, raw) = l_posix_memalign L (pr_libc p) alignment (sz + alignedSize);
                let p = p\<lparr>pr_libc := l\<rparr>;
                if res \<noteq> 0 then Some (p, res, raw)
                else
                  (let userPtr = raw + alignedSize
                   in Some (TrackAllocation mid userPtr sz (ucast alignedSize) p, res, userPtr)) })"

definition hawk_calloc :: "'l libc \<Rightarrow> assign_id \<Rightarrow> u64 \<Rightarrow> u64 \<Rightarrow> 'l process \<Rightarrow> 'l process \<times> ptr" where
  "hawk_calloc L mid nm sz p =
     (if unat nm * unat sz \<ge> 2 ^ 64 then (p\<lparr>pr_errno := ENOMEM\<rparr>, 0)
      else if \<not> gl_initialised p then mmap_malloc L (nm * sz) p
      else
        (let (l, raw) = l_calloc L (pr_libc p) 1 (nm * sz + AdditionalSize);
             p = p\<lparr>pr_libc := l\<rparr>
         in if raw = 0 then (p, 0)
            else
              (let userPtr = raw + AdditionalSize
               in (TrackAllocation mid userPtr (nm * sz) (ucast AdditionalSize) p, userPtr))))"

definition hawk_realloc :: "'l libc \<Rightarrow> assign_id \<Rightarrow> ptr \<Rightarrow> u64 \<Rightarrow> 'l process \<Rightarrow> ('l process \<times> ptr) option" where
  "hawk_realloc L mid a sz p =
     (if \<not> gl_initialised p then mmap_realloc L a sz p
      else if a = 0 then Some (hawk_malloc L mid sz p)
      else do { prev \<leftarrow> load_info p a;
                let origPtr = a - ucast (ai_offset prev);
                if ai_traceId prev = InvalidTraceId
                then let (p, clearPtr) = hawk_malloc L mid sz p
                     in if clearPtr = 0 then Some (p, 0)
                        else
                          (let p = p\<lparr>pr_libc := l_memcpy L (pr_libc p) clearPtr a (min (ai_size prev) sz)\<rparr>
                           in Some (mmap_free L origPtr prev p, clearPtr))
                else let (l, realloced) = l_realloc L (pr_libc p) origPtr (sz + ucast (ai_offset prev));
                         p = p\<lparr>pr_libc := l\<rparr>
                     in if realloced = 0 then Some (p, 0)
                        else
                          (let userPtr = realloced + ucast (ai_offset prev)
                           in Some (TrackReallocation mid userPtr sz (ai_offset prev) prev p, userPtr)) })"

definition hawk_valloc :: "'l libc \<Rightarrow> assign_id \<Rightarrow> u64 \<Rightarrow> 'l process \<Rightarrow> ('l process \<times> ptr) option" where
  "hawk_valloc L mid sz p =
     (if \<not> gl_initialised p then None
      else if l_getpagesize L \<le> 0 then None
      else hawk_aligned_alloc L mid (of_int (l_getpagesize L)) sz p)"

definition hawk_pvalloc :: "'l libc \<Rightarrow> assign_id \<Rightarrow> u64 \<Rightarrow> 'l process \<Rightarrow> ('l process \<times> ptr) option" where
  "hawk_pvalloc L mid sz p =
     (if \<not> gl_initialised p then None
      else if l_getpagesize L \<le> 0 then None
      else do { sz \<leftarrow> align_ceil sz (of_int (l_getpagesize L));
                hawk_aligned_alloc L mid (of_int (l_getpagesize L)) sz p })"

definition hawk_free :: "'l libc \<Rightarrow> ptr \<Rightarrow> 'l process \<Rightarrow> 'l process option" where
  "hawk_free L a p =
     (if a = 0 then Some p
      else do { info \<leftarrow> load_info p a;
                let origPtr = a - ucast (ai_offset info);
                if ai_traceId info = InvalidTraceId then Some (mmap_free L origPtr info p)
                else if \<not> gl_initialised p then None
                else
                  (let p = (if gl_memhawkReady p then p\<lparr>pr_calls := pr_calls p @ [CallTrackDealloc info]\<rparr> else p)
                   in Some (p\<lparr>pr_libc := l_free L (pr_libc p) origPtr\<rparr>)) })"

definition hawk_malloc_usable_size :: "ptr \<Rightarrow> 'l process \<Rightarrow> u64 option" where
  "hawk_malloc_usable_size a p = do { info \<leftarrow> load_info p a; Some (ai_size info) }"

definition hawk_dlopen :: "'l libc \<Rightarrow> string \<Rightarrow> int \<Rightarrow> 'l process \<Rightarrow> 'l process \<times> ptr" where
  "hawk_dlopen L file mode p =
     (let p = p\<lparr>gl_dlInitialised := True\<rparr>;
          p = (if gl_memhawkReady p then p\<lparr>pr_calls := pr_calls p @ [CallInvalidateModulesCache]\<rparr> else p);
          (l, a) = l_dlopen L (pr_libc p) file mode
      in (p\<lparr>pr_libc := l\<rparr>, a))"

definition hawk_dlclose :: "'l libc \<Rightarrow> ptr \<Rightarrow> 'l process \<Rightarrow> 'l process \<times> int" where
  "hawk_dlclose L handle p =
     (let p = p\<lparr>gl_dlInitialised := True\<rparr>;
          (l, res) = l_dlclose L (pr_libc p) handle;
          p = p\<lparr>pr_libc := l\<rparr>;
          p = (if gl_memhawkReady p then p\<lparr>pr_calls := pr_calls p @ [CallInvalidateModulesCache]\<rparr> else p)
      in (p, res))"

text \<open>
  The start of the process: the hooks are resolved, and MemHawk is set up if the program name matches.
\<close>

definition process_start :: "'l \<Rightarrow> 'l process" where
  "process_start l =
     \<lparr>pr_libc = l, pr_infos = [], gl_initialised = False, gl_dlInitialised = False, gl_memhawkReady = False, pr_calls = [],
      pr_errno = NoError\<rparr>"

definition init_memhawk :: "bool \<Rightarrow> 'l process \<Rightarrow> 'l process" where
  "init_memhawk prognameMatches p =
     (let p = p\<lparr>gl_dlInitialised := True\<rparr>
      in if prognameMatches then p\<lparr>gl_memhawkReady := True, gl_initialised := True\<rparr> else p\<lparr>gl_initialised := True\<rparr>)"

definition deinit_memhawk :: "'l process \<Rightarrow> 'l process" where
  "deinit_memhawk p = p\<lparr>gl_memhawkReady := False\<rparr>"

subsection \<open>The exported functions\<close>

text \<open>
  The C functions and the C++ operators, with the arguments that the code looks at. The throwing
  operators end with \<open>bad_alloc\<close> when the allocation returned null.
\<close>

datatype entry =
    E_malloc u64 | E_valloc u64 | E_aligned_alloc u64 u64 | E_posix_memalign u64 u64 | E_calloc u64 u64
  | E_realloc ptr u64 | E_pvalloc u64 | E_free ptr | E_free_sized ptr u64 | E_free_aligned_sized ptr u64 u64
  | New u64 | NewArray u64 | NewNothrow u64 | NewArrayNothrow u64
  | NewAligned u64 u64 | NewAlignedNothrow u64 u64 | NewArrayAligned u64 u64 | NewArrayAlignedNothrow u64 u64
  | Delete ptr | DeleteSized ptr u64 | DeleteArray ptr | DeleteArraySized ptr u64
  | DeleteNothrow ptr | DeleteArrayNothrow ptr | DeleteAligned ptr u64 | DeleteAlignedNothrow ptr u64
  | DeleteSizedAligned ptr u64 u64 | DeleteArrayAligned ptr u64 | DeleteArrayAlignedNothrow ptr u64
  | DeleteArraySizedAligned ptr u64 u64

datatype outcome = Pointer ptr | Code int ptr | Done | BadAlloc

definition or_bad_alloc :: "'l process \<times> ptr \<Rightarrow> 'l process \<times> outcome" where
  "or_bad_alloc r = (if snd r = 0 then (fst r, BadAlloc) else (fst r, Pointer (snd r)))"

definition pointer :: "'l process \<times> ptr \<Rightarrow> 'l process \<times> outcome" where
  "pointer r = (fst r, Pointer (snd r))"

fun c_entry :: "'l libc \<Rightarrow> assign_id \<Rightarrow> entry \<Rightarrow> 'l process \<Rightarrow> ('l process \<times> outcome) option" where
  "c_entry L mid (E_malloc sz) p = Some (pointer (hawk_malloc L mid sz p))"
| "c_entry L mid (E_valloc sz) p = map_option pointer (hawk_valloc L mid sz p)"
| "c_entry L mid (E_aligned_alloc align sz) p = map_option pointer (hawk_aligned_alloc L mid align sz p)"
| "c_entry L mid (E_posix_memalign align sz) p =
     do { (p, res, a) \<leftarrow> hawk_posix_memalign L mid align sz p; Some (p, Code res a) }"
| "c_entry L mid (E_calloc nm sz) p = Some (pointer (hawk_calloc L mid nm sz p))"
| "c_entry L mid (E_realloc a sz) p = map_option pointer (hawk_realloc L mid a sz p)"
| "c_entry L mid (E_pvalloc sz) p = map_option pointer (hawk_pvalloc L mid sz p)"
| "c_entry L mid (E_free a) p = map_option (\<lambda>p. (p, Done)) (hawk_free L a p)"
| "c_entry L mid (E_free_sized a sz) p = map_option (\<lambda>p. (p, Done)) (hawk_free L a p)"
| "c_entry L mid (E_free_aligned_sized a align sz) p = map_option (\<lambda>p. (p, Done)) (hawk_free L a p)"
| "c_entry L mid _ p = None"

fun cxx_entry :: "'l libc \<Rightarrow> assign_id \<Rightarrow> entry \<Rightarrow> 'l process \<Rightarrow> ('l process \<times> outcome) option" where
  "cxx_entry L mid (New sz) p = Some (or_bad_alloc (hawk_malloc L mid sz p))"
| "cxx_entry L mid (NewArray sz) p = Some (or_bad_alloc (hawk_malloc L mid sz p))"
| "cxx_entry L mid (NewNothrow sz) p = Some (pointer (hawk_malloc L mid sz p))"
| "cxx_entry L mid (NewArrayNothrow sz) p = Some (pointer (hawk_malloc L mid sz p))"
| "cxx_entry L mid (NewAligned sz align) p = map_option or_bad_alloc (hawk_aligned_alloc L mid align sz p)"
| "cxx_entry L mid (NewAlignedNothrow sz align) p = map_option pointer (hawk_aligned_alloc L mid align sz p)"
| "cxx_entry L mid (NewArrayAligned sz align) p = map_option or_bad_alloc (hawk_aligned_alloc L mid align sz p)"
| "cxx_entry L mid (NewArrayAlignedNothrow sz align) p = map_option pointer (hawk_aligned_alloc L mid align sz p)"
| "cxx_entry L mid (Delete a) p = map_option (\<lambda>p. (p, Done)) (hawk_free L a p)"
| "cxx_entry L mid (DeleteSized a sz) p = map_option (\<lambda>p. (p, Done)) (hawk_free L a p)"
| "cxx_entry L mid (DeleteArray a) p = map_option (\<lambda>p. (p, Done)) (hawk_free L a p)"
| "cxx_entry L mid (DeleteArraySized a sz) p = map_option (\<lambda>p. (p, Done)) (hawk_free L a p)"
| "cxx_entry L mid (DeleteNothrow a) p = map_option (\<lambda>p. (p, Done)) (hawk_free L a p)"
| "cxx_entry L mid (DeleteArrayNothrow a) p = map_option (\<lambda>p. (p, Done)) (hawk_free L a p)"
| "cxx_entry L mid (DeleteAligned a align) p = map_option (\<lambda>p. (p, Done)) (hawk_free L a p)"
| "cxx_entry L mid (DeleteAlignedNothrow a align) p = map_option (\<lambda>p. (p, Done)) (hawk_free L a p)"
| "cxx_entry L mid (DeleteSizedAligned a sz align) p = map_option (\<lambda>p. (p, Done)) (hawk_free L a p)"
| "cxx_entry L mid (DeleteArrayAligned a align) p = map_option (\<lambda>p. (p, Done)) (hawk_free L a p)"
| "cxx_entry L mid (DeleteArrayAlignedNothrow a align) p = map_option (\<lambda>p. (p, Done)) (hawk_free L a p)"
| "cxx_entry L mid (DeleteArraySizedAligned a sz align) p = map_option (\<lambda>p. (p, Done)) (hawk_free L a p)"
| "cxx_entry L mid en p = c_entry L mid en p"

end
