(* ===== verification/Hawk_Heap.thy ===== *)
theory Hawk_Heap
  imports Hawk_Malloc
begin

text \<open>
  What the allocation functions of \<open>Hawk_Malloc\<close> promise a program that uses them properly, given a C
  library that keeps its own promises: headers stay intact, every block goes back to where it came from,
  and what MemHawk is told adds up to the blocks that are live.
\<close>

section \<open>The C library\<close>

text \<open>A region is its first address and its size; \<open>span\<close> is the set of its addresses.\<close>

definition span :: "ptr \<times> u64 \<Rightarrow> nat set" where
  "span r = {unat (fst r) ..< unat (fst r) + unat (snd r)}"

definition fits :: "(ptr \<times> u64) set \<Rightarrow> ptr \<Rightarrow> u64 \<Rightarrow> bool" where
  "fits B q n \<longleftrightarrow> q \<noteq> 0 \<and> unat q + unat n < 2 ^ 64 \<and> (\<forall>r \<in> B. span r \<inter> span (q, n) = {})"

text \<open>
  The documented behaviour the code relies on. \<open>blocks\<close> and \<open>maps\<close> are the regions that are allocated and
  mapped: an allocation returns null and changes nothing, or returns a region apart from all others,
  aligned as asked; releasing a region with the address (and, for mappings, the size) it was obtained
  with removes it; a failed \<open>realloc\<close> leaves the block alone; copying changes neither.
\<close>

type_synonym 'l regions = "'l \<Rightarrow> (ptr \<times> u64) set"

definition allocates :: "'l regions \<Rightarrow> 'l regions \<Rightarrow> nat \<Rightarrow> u64 \<Rightarrow> 'l \<Rightarrow> 'l \<Rightarrow> ptr \<Rightarrow> bool" where
  "allocates blocks maps d n l l' q \<longleftrightarrow> maps l' = maps l \<and>
     (if q = 0 then blocks l' = blocks l
      else fits (blocks l \<union> maps l) q n \<and> d dvd unat q \<and> blocks l' = insert (q, n) (blocks l))"

definition the_block :: "(ptr \<times> u64) set \<Rightarrow> ptr \<Rightarrow> u64 \<Rightarrow> bool" where
  "the_block B r m \<longleftrightarrow> (r, m) \<in> B \<and> (\<forall>m'. (r, m') \<in> B \<longrightarrow> m' = m)"

definition malloc_ok :: "'l libc \<Rightarrow> 'l regions \<Rightarrow> 'l regions \<Rightarrow> bool" where
  "malloc_ok L blocks maps \<longleftrightarrow>
     (\<forall>l n. case l_malloc L l n of (l', q) \<Rightarrow> allocates blocks maps 16 n l l' q) \<and>
     (\<forall>l n. case l_calloc L l 1 n of (l', q) \<Rightarrow> allocates blocks maps 16 n l l' q)"

definition memalign_ok :: "'l libc \<Rightarrow> 'l regions \<Rightarrow> 'l regions \<Rightarrow> bool" where
  "memalign_ok L blocks maps \<longleftrightarrow>
     (\<forall>l a n. case l_aligned_alloc L l a n of (l', q) \<Rightarrow> allocates blocks maps (unat a) n l l' q) \<and>
     (\<forall>l a n. case l_posix_memalign L l a n of (l', res, q) \<Rightarrow>
        if res = 0 then q \<noteq> 0 \<and> allocates blocks maps (unat a) n l l' q else blocks l' = blocks l \<and> maps l' = maps l)"

definition realloc_ok :: "'l libc \<Rightarrow> 'l regions \<Rightarrow> 'l regions \<Rightarrow> bool" where
  "realloc_ok L blocks maps \<longleftrightarrow>
     (\<forall>l r m n. the_block (blocks l) r m \<and> n \<noteq> 0 \<longrightarrow>
        (case l_realloc L l r n of (l', q) \<Rightarrow> maps l' = maps l \<and>
          (if q = 0 then blocks l' = blocks l
           else fits (blocks l - {(r, m)} \<union> maps l) q n \<and> 16 dvd unat q \<and> blocks l' = insert (q, n) (blocks l - {(r, m)})))) \<and>
     (\<forall>l r m. the_block (blocks l) r m \<longrightarrow>
        blocks (l_free L l r) = blocks l - {(r, m)} \<and> maps (l_free L l r) = maps l)"

definition mmap_ok :: "'l libc \<Rightarrow> 'l regions \<Rightarrow> 'l regions \<Rightarrow> bool" where
  "mmap_ok L blocks maps \<longleftrightarrow>
     (\<forall>l n. case l_mmap L l n of (l', q) \<Rightarrow> blocks l' = blocks l \<and>
        (if q = MAP_FAILED then maps l' = maps l
         else fits (blocks l \<union> maps l) q n \<and> 16 dvd unat q \<and> maps l' = insert (q, n) (maps l))) \<and>
     (\<forall>l r m. (r, m) \<in> maps l \<longrightarrow> maps (l_munmap L l r m) = maps l - {(r, m)} \<and> blocks (l_munmap L l r m) = blocks l)"

definition copy_ok :: "'l libc \<Rightarrow> 'l regions \<Rightarrow> 'l regions \<Rightarrow> bool" where
  "copy_ok L blocks maps \<longleftrightarrow>
     (\<forall>l d s n. blocks (l_memcpy L l d s n) = blocks l \<and> maps (l_memcpy L l d s n) = maps l) \<and>
     (\<forall>l d n. blocks (l_memset0 L l d n) = blocks l \<and> maps (l_memset0 L l d n) = maps l)"

definition libc_ok :: "'l libc \<Rightarrow> 'l regions \<Rightarrow> 'l regions \<Rightarrow> bool" where
  "libc_ok L blocks maps \<longleftrightarrow> malloc_ok L blocks maps \<and> memalign_ok L blocks maps \<and> realloc_ok L blocks maps \<and>
     mmap_ok L blocks maps \<and> copy_ok L blocks maps"

lemma libc_mallocD:
  assumes "libc_ok L blocks maps"
  shows "l_malloc L l n = (l', q) \<Longrightarrow> allocates blocks maps 16 n l l' q"
    "l_calloc L l 1 n = (l', q) \<Longrightarrow> allocates blocks maps 16 n l l' q"
  using assms unfolding libc_ok_def malloc_ok_def by (metis (lifting) case_prodD)+

lemma libc_alignedD:
  assumes "libc_ok L blocks maps" "l_aligned_alloc L l a n = (l', q)"
  shows "allocates blocks maps (unat a) n l l' q"
  using assms unfolding libc_ok_def memalign_ok_def by (metis (lifting) case_prodD)

lemma libc_memalignD:
  assumes "libc_ok L blocks maps" "l_posix_memalign L l a n = (l', res, q)"
  shows "if res = 0 then q \<noteq> 0 \<and> allocates blocks maps (unat a) n l l' q else blocks l' = blocks l \<and> maps l' = maps l"
proof -
  have "memalign_ok L blocks maps" using assms(1) by (simp add: libc_ok_def)
  note memalign_ok_def [THEN iffD1, OF this, THEN conjunct2, THEN spec [of _ l], THEN spec [of _ a],
    THEN spec [of _ n]]
  then show ?thesis using assms(2) by simp
qed

lemma libc_reallocD:
  assumes "libc_ok L blocks maps" "the_block (blocks l) r m" "n \<noteq> 0" "l_realloc L l r n = (l', q)"
  shows "maps l' = maps l \<and>
    (if q = 0 then blocks l' = blocks l
     else fits (blocks l - {(r, m)} \<union> maps l) q n \<and> 16 dvd unat q \<and> blocks l' = insert (q, n) (blocks l - {(r, m)}))"
proof -
  have "realloc_ok L blocks maps" using assms(1) by (simp add: libc_ok_def)
  note realloc_ok_def [THEN iffD1, OF this, THEN conjunct1, rule_format, OF conjI, OF assms(2,3)]
  then show ?thesis using assms(4) by simp
qed

lemma libc_freeD:
  assumes "libc_ok L blocks maps" "the_block (blocks l) r m"
  shows "blocks (l_free L l r) = blocks l - {(r, m)}" "maps (l_free L l r) = maps l"
proof -
  have "realloc_ok L blocks maps" using assms(1) by (simp add: libc_ok_def)
  note realloc_ok_def [THEN iffD1, OF this, THEN conjunct2, rule_format, OF assms(2)]
  then show "blocks (l_free L l r) = blocks l - {(r, m)}" "maps (l_free L l r) = maps l" by simp_all
qed

lemma libc_mmapD:
  assumes "libc_ok L blocks maps" "l_mmap L l n = (l', q)"
  shows "blocks l' = blocks l \<and>
    (if q = MAP_FAILED then maps l' = maps l
     else fits (blocks l \<union> maps l) q n \<and> 16 dvd unat q \<and> maps l' = insert (q, n) (maps l))"
proof -
  have "mmap_ok L blocks maps" using assms(1) by (simp add: libc_ok_def)
  note mmap_ok_def [THEN iffD1, OF this, THEN conjunct1, rule_format, of l n]
  then show ?thesis using assms(2) by simp
qed

lemma libc_munmapD:
  assumes "libc_ok L blocks maps" "(r, m) \<in> maps l"
  shows "maps (l_munmap L l r m) = maps l - {(r, m)}" "blocks (l_munmap L l r m) = blocks l"
proof -
  have "mmap_ok L blocks maps" using assms(1) by (simp add: libc_ok_def)
  note mmap_ok_def [THEN iffD1, OF this, THEN conjunct2, rule_format, OF assms(2)]
  then show "maps (l_munmap L l r m) = maps l - {(r, m)}" "blocks (l_munmap L l r m) = blocks l" by simp_all
qed

lemma libc_copyD:
  assumes "libc_ok L blocks maps"
  shows "blocks (l_memcpy L l d s n) = blocks l" "maps (l_memcpy L l d s n) = maps l"
    "blocks (l_memset0 L l d n) = blocks l" "maps (l_memset0 L l d n) = maps l"
  using assms by (simp_all add: libc_ok_def copy_ok_def)

section \<open>Live blocks\<close>

text \<open>
  A live block is the address the user holds and its header. Its region reaches from the address the
  library returned to the end of the user's data.
\<close>

type_synonym block = "ptr \<times> AllocInfo"

definition region :: "block \<Rightarrow> ptr \<times> u64" where
  "region e = (fst e - ucast (ai_offset (snd e)), ai_size (snd e) + ucast (ai_offset (snd e)))"

definition on_heap :: "block \<Rightarrow> bool" where
  "on_heap e \<longleftrightarrow> ai_traceId (snd e) \<noteq> InvalidTraceId"

definition block_ok :: "'l process \<Rightarrow> block \<Rightarrow> bool" where
  "block_ok p e \<longleftrightarrow> load_info p (fst e) = Some (snd e) \<and> 16 \<le> unat (ai_offset (snd e)) \<and>
     unat (ai_offset (snd e)) < unat (fst e) \<and> unat (fst e) + unat (ai_size (snd e)) < 2 ^ 64"

fun call_events :: "hawk_call \<Rightarrow> track_event list" where
  "call_events (CallTrackAlloc i) = [Alloc i]"
| "call_events (CallTrackDealloc i) = [Dealloc i]"
| "call_events (CallTrackRealloc prev i) = [Dealloc prev, Alloc i]"
| "call_events CallInvalidateModulesCache = []"

text \<open>
  What MemHawk was told under an identifier, and what the live blocks with that identifier add up to.
\<close>

definition call_log :: "'l process \<Rightarrow> track_event list" where
  "call_log p = concat (map call_events (pr_calls p))"

definition told :: "'l process \<Rightarrow> u32 \<Rightarrow> AllocSummary" where
  "told p i = delta_sum (call_log p) i"

definition at_id :: "u32 \<Rightarrow> AllocInfo \<Rightarrow> AllocSummary \<Rightarrow> AllocSummary" where
  "at_id i info d = (if ai_traceId info = i then d else 0)"

definition live_delta :: "block \<Rightarrow> AllocSummary" where
  "live_delta e = AllocSummary (ai_size (snd e)) (ucast (ai_offset (snd e))) 1 0 0"

definition live_sum :: "block list \<Rightarrow> u32 \<Rightarrow> AllocSummary" where
  "live_sum live i = sum_list (map (\<lambda>e. at_id i (snd e) (live_delta e)) (filter on_heap live))"

text \<open>Agreement on what is live: sizes, headers and the number of active blocks.\<close>

definition same_live :: "AllocSummary \<Rightarrow> AllocSummary \<Rightarrow> bool" where
  "same_live a b \<longleftrightarrow> sm_size a = sm_size b \<and> sm_overhead a = sm_overhead b \<and> sm_active a = sm_active b"

text \<open>
  The invariant. \<open>layout\<close>: every live block has its header, and regions do not overlap. The regions are
  exactly those the library regards as allocated or mapped. While MemHawk is ready, what it was told
  agrees with the live blocks; before the hooks are resolved it was told nothing.
\<close>

definition layout :: "block list \<Rightarrow> 'l process \<Rightarrow> bool" where
  "layout live p \<longleftrightarrow> distinct (map fst live) \<and> (\<forall>e \<in> set live. block_ok p e) \<and>
     (\<forall>e \<in> set live. \<forall>e' \<in> set live. e \<noteq> e' \<longrightarrow> span (region e) \<inter> span (region e') = {})"

definition heap_ok :: "(ptr \<times> u64) set \<Rightarrow> (ptr \<times> u64) set \<Rightarrow> block list \<Rightarrow> 'l process \<Rightarrow> bool" where
  "heap_ok B M live p \<longleftrightarrow> layout live p \<and>
     B = region ` {e \<in> set live. on_heap e} \<and> M = region ` {e \<in> set live. \<not> on_heap e} \<and>
     (gl_memhawkReady p \<longrightarrow> gl_initialised p \<and> (\<forall>i. same_live (told p i) (live_sum live i))) \<and>
     (\<not> gl_initialised p \<longrightarrow> pr_calls p = [] \<and> (\<forall>e \<in> set live. \<not> on_heap e))"

definition heap_inv :: "'l regions \<Rightarrow> 'l regions \<Rightarrow> block list \<Rightarrow> 'l process \<Rightarrow> bool" where
  "heap_inv blocks maps live p \<longleftrightarrow> heap_ok (blocks (pr_libc p)) (maps (pr_libc p)) live p"

subsection \<open>Address arithmetic\<close>

lemma uadd: "unat a + unat b < 2 ^ 64 \<Longrightarrow> unat (a + b :: u64) = unat a + unat b"
  by (simp add: unat_plus_if_size word_size)

lemma usub: "unat b \<le> unat a \<Longrightarrow> unat (a - b :: u64) = unat a - unat b"
  by (simp add: unat_sub word_le_nat_alt)

lemma unat_ucast_offset [simp]: "unat (ucast (o1 :: u32) :: u64) = unat o1"
proof -
  have "unat o1 < 2 ^ 32" using unsigned_less [of o1, where ?'a = nat] by simp
  then show ?thesis by (simp add: unsigned_ucast_eq take_bit_nat_eq_self)
qed

lemma unat_AdditionalSize [simp]: "unat AdditionalSize = 16"
  by (simp add: AdditionalSize_def)

lemma region_facts:
  assumes "block_ok p e"
  shows "unat (fst (region e)) = unat (fst e) - unat (ai_offset (snd e))"
    "unat (snd (region e)) = unat (ai_size (snd e)) + unat (ai_offset (snd e))"
    "unat (fst e - AdditionalSize) \<in> span (region e)"
proof -
  let ?o = "ai_offset (snd e)"
  have b: "16 \<le> unat ?o" "unat ?o < unat (fst e)" "unat (fst e) + unat (ai_size (snd e)) < 2 ^ 64"
    using assms by (auto simp: block_ok_def)
  show s: "unat (fst (region e)) = unat (fst e) - unat ?o" using b by (simp add: region_def usub)
  show n: "unat (snd (region e)) = unat (ai_size (snd e)) + unat ?o" using b by (simp add: region_def uadd)
  have "unat (fst e - AdditionalSize) = unat (fst e) - 16" using b by (simp add: usub)
  moreover have "unat (fst e) - 16 < unat (fst e) + unat (ai_size (snd e))" using b by linarith
  ultimately show "unat (fst e - AdditionalSize) \<in> span (region e)" using s n b by (simp add: span_def)
qed

lemma span_ne: "block_ok p e \<Longrightarrow> span (region e) \<noteq> {}"
  using region_facts(3) by blast

subsection \<open>Adding and removing blocks\<close>

definition without :: "ptr \<Rightarrow> block list \<Rightarrow> block list" where
  "without a live = filter (\<lambda>e. fst e \<noteq> a) live"

lemma set_without: "set (without a live) = {e \<in> set live. fst e \<noteq> a}"
  by (simp add: without_def)

lemma layout_inj:
  assumes "layout live p" "e \<in> set live" "e' \<in> set live"
  shows "fst e = fst e' \<Longrightarrow> e = e'" "region e = region e' \<Longrightarrow> e = e'"
proof -
  have ok: "block_ok p e" "block_ok p e'" using assms by (auto simp: layout_def)
  show "fst e = fst e' \<Longrightarrow> e = e'" using ok by (simp add: block_ok_def prod_eq_iff)
  show "region e = region e' \<Longrightarrow> e = e'" using assms span_ne [OF ok(1)] unfolding layout_def by (metis Int_absorb)
qed

lemma layout_without: "layout live p \<Longrightarrow> layout (without a live) p"
  unfolding layout_def without_def by (auto intro: distinct_map_filter)

lemma layout_cong: "pr_infos p' = pr_infos p \<Longrightarrow> layout live p' = layout live p"
  by (simp add: layout_def block_ok_def load_info_def)

lemma region_without:
  assumes "layout live p" "e \<in> set live"
  shows "region ` {x \<in> set (without (fst e) live). P x} = region ` {x \<in> set live. P x} - (if P e then {region e} else {})"
proof -
  have "fst x = fst e \<longleftrightarrow> x = e" "region x = region e \<longleftrightarrow> x = e" if "x \<in> set live" for x
    using layout_inj [OF assms(1) that(1) assms(2)] by blast+
  then show ?thesis unfolding set_without using assms(2) by (auto simp: image_iff) blast+
qed

lemma live_sum_without:
  assumes "distinct (map fst live)" "e \<in> set live" "on_heap e"
  shows "live_sum live i = at_id i (snd e) (live_delta e) + live_sum (without (fst e) live) i"
  using assms
proof (induction live)
  case (Cons x live)
  show ?case
  proof (cases "x = e")
    case True
    then have "fst e \<notin> fst ` set live" using Cons.prems(1) by simp
    then have "without (fst e) live = live" unfolding without_def by (metis (mono_tags, lifting) filter_True imageI)
    then show ?thesis using True Cons.prems(3) by (simp add: live_sum_def without_def)
  next
    case False
    then have "e \<in> set live" "fst x \<noteq> fst e" using Cons.prems(1,2) by force+
    then show ?thesis using Cons by (simp add: live_sum_def without_def ac_simps)
  qed
qed simp

lemma live_sum_without_map:
  assumes "\<And>x. x \<in> set live \<Longrightarrow> fst x = a \<Longrightarrow> \<not> on_heap x"
  shows "live_sum (without a live) i = live_sum live i"
proof -
  have "filter on_heap (without a live) = filter on_heap live"
    unfolding without_def filter_filter using assms by (intro filter_cong) auto
  then show ?thesis by (simp add: live_sum_def)
qed

lemma layout_add:
  assumes "layout live p" "fits (region ` set live) (fst (region e)) (snd (region e))"
    and "16 \<le> unat (ai_offset (snd e))" "unat (ai_offset (snd e)) < unat (fst e)"
      "unat (fst e) + unat (ai_size (snd e)) < 2 ^ 64"
    and "load_info p' (fst e) = Some (snd e)" "\<And>a. a \<noteq> fst e \<Longrightarrow> load_info p' a = load_info p a"
  shows "layout (e # live) p'"
proof -
  have ok: "block_ok p' e" using assms(3-6) by (simp add: block_ok_def)
  have dis: "span (region x) \<inter> span (region e) = {}" if "x \<in> set live" for x
    using assms(2) that by (auto simp: fits_def)
  have new: "fst x \<noteq> fst e" if "x \<in> set live" for x
  proof
    assume "fst x = fst e"
    moreover have "block_ok p x" using assms(1) that by (simp add: layout_def)
    ultimately show False
      using region_facts(3) [OF ok] region_facts(3) [of p x] dis [OF that] by auto
  qed
  then have "block_ok p' x" if "x \<in> set live" for x
    using assms(1) that assms(7) [of "fst x"] by (auto simp: layout_def block_ok_def)
  moreover have "fst e \<notin> fst ` set live" using new by (metis imageE)
  moreover have "span (region e) \<inter> span (region x) = {}" if "x \<in> set live" for x
    using dis [OF that] by (simp add: Int_commute)
  ultimately show ?thesis using assms(1) ok dis unfolding layout_def by simp
qed

lemma inv_regions:
  assumes "heap_ok B M live p"
  shows "B \<union> M = region ` set live"
  using assms unfolding heap_ok_def by auto

lemma inv_layout: "heap_ok B M live p \<Longrightarrow> layout live p"
  and inv_told: "heap_ok B M live p \<Longrightarrow> gl_memhawkReady p \<Longrightarrow> same_live (told p i) (live_sum live i)"
  by (simp_all add: heap_ok_def)

lemma same_live_add: "same_live t (u + d) \<Longrightarrow> same_live u v \<Longrightarrow> same_live t (d + v)"
  by (simp add: same_live_def)

lemma same_live_sub:
  "same_live u (at_id i (snd e) (live_delta e) + v) \<Longrightarrow> same_live (u + at_id i (snd e) (free_delta (snd e))) v"
  by (simp add: same_live_def at_id_def live_delta_def free_delta_def)

lemma live_sum_Cons:
  "live_sum (e # live) i = (if on_heap e then at_id i (snd e) (live_delta e) + live_sum live i else live_sum live i)"
  by (simp add: live_sum_def)

lemma inv_heap_add:
  assumes "heap_ok B M live p" "on_heap e" "gl_initialised p"
    and "fits (B \<union> M) (fst (region e)) (snd (region e))"
    and "16 \<le> unat (ai_offset (snd e))" "unat (ai_offset (snd e)) < unat (fst e)"
      "unat (fst e) + unat (ai_size (snd e)) < 2 ^ 64"
    and "load_info p' (fst e) = Some (snd e)" "\<And>a. a \<noteq> fst e \<Longrightarrow> load_info p' a = load_info p a"
    and "gl_memhawkReady p' = gl_memhawkReady p" "gl_initialised p'"
    and "\<And>i. gl_memhawkReady p \<Longrightarrow> same_live (told p' i) (told p i + at_id i (snd e) (live_delta e))"
  shows "heap_ok (insert (region e) B) M (e # live) p'"
proof -
  have "layout (e # live) p'"
    using layout_add [of live p e p'] assms(1,4-9) inv_regions [OF assms(1)] by (simp add: heap_ok_def)
  moreover have "same_live (told p' i) (live_sum (e # live) i)" if "gl_memhawkReady p" for i
    using same_live_add [OF assms(12) [OF that] inv_told [OF assms(1) that]] assms(2) by (simp add: live_sum_Cons)
  moreover have "{x \<in> set (e # live). on_heap x} = insert e {x \<in> set live. on_heap x}"
    "{x \<in> set (e # live). \<not> on_heap x} = {x \<in> set live. \<not> on_heap x}"
    using assms(2) by auto
  ultimately show ?thesis using assms(1,10,11) by (simp add: heap_ok_def)
qed

lemma inv_map_add:
  assumes "heap_ok B M live p" "\<not> on_heap e"
    and "fits (B \<union> M) (fst (region e)) (snd (region e))"
    and "16 \<le> unat (ai_offset (snd e))" "unat (ai_offset (snd e)) < unat (fst e)"
      "unat (fst e) + unat (ai_size (snd e)) < 2 ^ 64"
    and "load_info p' (fst e) = Some (snd e)" "\<And>a. a \<noteq> fst e \<Longrightarrow> load_info p' a = load_info p a"
    and "gl_memhawkReady p' = gl_memhawkReady p" "gl_initialised p' = gl_initialised p" "pr_calls p' = pr_calls p"
  shows "heap_ok B (insert (region e) M) (e # live) p'"
proof -
  have "layout (e # live) p'"
    using layout_add [of live p e p'] assms(1,3-8) inv_regions [OF assms(1)] by (simp add: heap_ok_def)
  moreover have "live_sum (e # live) = live_sum live" "told p' = told p"
    using assms(2,11) by (simp_all add: fun_eq_iff live_sum_def told_def call_log_def)
  moreover have "{x \<in> set (e # live). on_heap x} = {x \<in> set live. on_heap x}"
    "{x \<in> set (e # live). \<not> on_heap x} = insert e {x \<in> set live. \<not> on_heap x}"
    using assms(2) by auto
  ultimately show ?thesis using assms(1,2,9-11) by (simp add: heap_ok_def)
qed

lemma inv_heap_remove:
  assumes "heap_ok B M live p" "e \<in> set live" "on_heap e"
    and "pr_infos p' = pr_infos p"
    and "gl_memhawkReady p' = gl_memhawkReady p" "gl_initialised p' = gl_initialised p"
    and "\<And>i. gl_memhawkReady p \<Longrightarrow> told p' i = told p i + at_id i (snd e) (free_delta (snd e))"
  shows "heap_ok (B - {region e}) M (without (fst e) live) p'"
proof -
  have lay: "layout live p" using assms(1) by (simp add: heap_ok_def)
  have "layout (without (fst e) live) p'" using layout_without [OF lay] layout_cong [OF assms(4)] by simp
  moreover have "same_live (told p' i) (live_sum (without (fst e) live) i)" if "gl_memhawkReady p" for i
    unfolding assms(7) [OF that]
    using inv_told [OF assms(1) that] live_sum_without [OF _ assms(2,3)] lay
    by (intro same_live_sub) (simp add: layout_def)
  moreover have "gl_initialised p" using assms(1-3) by (auto simp: heap_ok_def)
  ultimately show ?thesis
    using assms(1,3,5,6) region_without [OF lay assms(2)] by (simp add: heap_ok_def)
qed

lemma inv_map_remove:
  assumes "heap_ok B M live p" "e \<in> set live" "\<not> on_heap e"
    and "pr_infos p' = pr_infos p" "pr_calls p' = pr_calls p"
    and "gl_memhawkReady p' = gl_memhawkReady p" "gl_initialised p' = gl_initialised p"
  shows "heap_ok B (M - {region e}) (without (fst e) live) p'"
proof -
  have lay: "layout live p" using assms(1) by (simp add: heap_ok_def)
  have "layout (without (fst e) live) p'" using layout_without [OF lay] layout_cong [OF assms(4)] by simp
  moreover have "live_sum (without (fst e) live) = live_sum live"
    using layout_inj(1) [OF lay _ assms(2)] assms(3) by (intro ext live_sum_without_map) blast
  moreover have "told p' = told p" using assms(5) by (simp add: fun_eq_iff told_def call_log_def)
  moreover have "\<forall>x \<in> set live. \<not> on_heap x \<Longrightarrow> \<forall>x \<in> set (without (fst e) live). \<not> on_heap x"
    by (simp add: set_without)
  ultimately show ?thesis
    using assms(1,3,5-7) region_without [OF lay assms(2)] by (simp add: heap_ok_def)
qed

end
