(* ===== verification/Hawk_Run.thy ===== *)
theory Hawk_Run
  imports Hawk_Heap
begin

text \<open>
  Runs of a process through the allocation functions. Every function keeps the invariant of \<open>Hawk_Heap\<close>;
  the properties follow for every reachable state.
\<close>

section \<open>Headers\<close>

lemma load_store [simp]: "load_info (store_info (a - AdditionalSize) i p) b = (if a = b then Some i else load_info p b)"
  by (auto simp: load_info_def store_info_def)

lemma load_libc [simp]: "load_info (p\<lparr>pr_libc := l\<rparr>) a = load_info p a"
  "load_info (p\<lparr>pr_calls := cs\<rparr>) a = load_info p a" "load_info (p\<lparr>pr_errno := er\<rparr>) a = load_info p a"
  by (simp_all add: load_info_def)

lemma store_sel [simp]:
  "pr_libc (store_info a i p) = pr_libc p" "pr_calls (store_info a i p) = pr_calls p"
  "gl_initialised (store_info a i p) = gl_initialised p" "gl_memhawkReady (store_info a i p) = gl_memhawkReady p"
  by (simp_all add: store_info_def)

text \<open>The header that \<open>TrackAllocation\<close> and \<open>TrackReallocation\<close> leave.\<close>

definition header :: "assign_id \<Rightarrow> 'l process \<Rightarrow> u64 \<Rightarrow> u32 \<Rightarrow> AllocInfo" where
  "header mid p sz off =
     (let i = mk_AllocInfo sz off in if gl_memhawkReady p then i\<lparr>ai_traceId := mid (pr_calls p) i\<rparr> else i)"

lemma header_sel [simp]: "ai_size (header mid p sz off) = sz" "ai_offset (header mid p sz off) = off"
  by (simp_all add: header_def mk_AllocInfo_def Let_def)

definition ids_ok :: "assign_id \<Rightarrow> bool" where
  "ids_ok mid \<longleftrightarrow> (\<forall>cs i. mid cs i \<noteq> InvalidTraceId)"

lemma header_on_heap: "ids_ok mid \<Longrightarrow> on_heap (a, header mid p sz off)"
  by (auto simp: ids_ok_def on_heap_def header_def mk_AllocInfo_def Let_def InvalidTraceId_def)

lemma told_libc [simp]: "told (p\<lparr>pr_libc := l\<rparr>) = told p" "told (p\<lparr>pr_errno := er\<rparr>) = told p"
  by (simp_all add: fun_eq_iff told_def call_log_def)

lemma told_track: "told (p\<lparr>pr_calls := pr_calls p @ [c]\<rparr>) i = told p i + delta_sum (call_events c) i"
  by (simp add: told_def call_log_def delta_sum_append)

lemma delta_sum_events [simp]:
  "delta_sum [] i = 0" "delta_sum [Alloc j] i = at_id i j (alloc_delta j)" "delta_sum [Dealloc j] i = at_id i j (free_delta j)"
  "delta_sum [Dealloc j, Alloc k] i = at_id i j (free_delta j) + at_id i k (alloc_delta k)"
  by (simp_all add: delta_sum_def at_id_def)

lemma told_store [simp]: "told (store_info a i p) = told p"
  by (simp add: fun_eq_iff told_def call_log_def)

lemma TrackAllocation_eff:
  shows "pr_libc (TrackAllocation mid a sz off p) = pr_libc p" "gl_initialised (TrackAllocation mid a sz off p) = gl_initialised p" "gl_memhawkReady (TrackAllocation mid a sz off p) = gl_memhawkReady p"
    "load_info (TrackAllocation mid a sz off p) b = (if b = a then Some (header mid p sz off) else load_info p b)"
    "gl_memhawkReady p \<Longrightarrow> told (TrackAllocation mid a sz off p) i = told p i + at_id i (header mid p sz off) (alloc_delta (header mid p sz off))"
  unfolding TrackAllocation_def header_def by (auto simp: Let_def told_def call_log_def delta_sum_append)

lemma TrackReallocation_eff:
  shows "pr_libc (TrackReallocation mid a sz off prev p) = pr_libc p" "gl_initialised (TrackReallocation mid a sz off prev p) = gl_initialised p" "gl_memhawkReady (TrackReallocation mid a sz off prev p) = gl_memhawkReady p"
    "load_info (TrackReallocation mid a sz off prev p) b = (if b = a then Some (header mid p sz off) else load_info p b)"
    "gl_memhawkReady p \<Longrightarrow> told (TrackReallocation mid a sz off prev p) i =
      told p i + at_id i prev (free_delta prev) + at_id i (header mid p sz off) (alloc_delta (header mid p sz off))"
  unfolding TrackReallocation_def header_def by (auto simp: Let_def told_def call_log_def delta_sum_append ac_simps)

lemma same_live_alloc: "same_live (t + at_id j i (alloc_delta i)) (t + at_id j i (live_delta (a, i)))"
  by (simp add: same_live_def at_id_def live_delta_def alloc_delta_def)

section \<open>Allocation\<close>

lemma fits_user:
  assumes "fits B raw (sz + ucast off)" "16 \<le> unat off" "unat sz + unat off < 2 ^ 64"
  defines "a \<equiv> raw + ucast off"
  shows "unat a = unat raw + unat off" "unat off < unat a" "unat a + unat sz < 2 ^ 64"
    "region (a, i\<lparr>ai_size := sz, ai_offset := off\<rparr>) = (raw, sz + ucast off)"
proof -
  have n: "unat (sz + ucast off) = unat sz + unat off" using assms(3) by (intro uadd [THEN trans]) simp_all
  have f: "unat raw + (unat sz + unat off) < 2 ^ 64" "0 < unat raw"
    using assms(1) unfolding fits_def n by (auto simp: unat_gt_0)
  show u: "unat a = unat raw + unat off" unfolding a_def using f by (simp add: uadd)
  show "unat off < unat a" "unat a + unat sz < 2 ^ 64" unfolding u using f by linarith+
  show "region (a, i\<lparr>ai_size := sz, ai_offset := off\<rparr>) = (raw, sz + ucast off)"
    by (simp add: region_def a_def)
qed

lemma region_eq: "region (raw + ucast (ai_offset i), i) = (raw, ai_size i + ucast (ai_offset i))"
  by (simp add: region_def)

text \<open>One lemma for all functions that get a block from the library and write its header.\<close>

lemma heap_block_added:
  assumes "heap_ok B M live p" "gl_initialised p" "on_heap (raw + ucast off, i)" "ai_size i = sz" "ai_offset i = off"
    and "fits (B \<union> M) raw (sz + ucast off)" "16 \<le> unat off" "unat sz + unat off < 2 ^ 64"
    and "\<And>b. load_info p' b = (if b = raw + ucast off then Some i else load_info p b)"
    and "gl_memhawkReady p' = gl_memhawkReady p" "gl_initialised p' = gl_initialised p"
    and "\<And>j. gl_memhawkReady p \<Longrightarrow> told p' j = told p j + at_id j i (alloc_delta i)"
  shows "heap_ok (insert (raw, sz + ucast off) B) M ((raw + ucast off, i) # live) p' \<and> raw + ucast off \<noteq> 0"
proof -
  note u = fits_user [OF assms(6-8)]
  have reg: "region (raw + ucast off, i) = (raw, sz + ucast off)"
    using region_eq [of raw i] assms(4,5) by simp
  have "same_live (told p' j) (told p j + at_id j i (live_delta (raw + ucast off, i)))" if "gl_memhawkReady p" for j
    using assms(12) [OF that, of j] same_live_alloc by simp
  then have "heap_ok (insert (region (raw + ucast off, i)) B) M ((raw + ucast off, i) # live) p'"
    using u reg assms(2,6,7,10,11) by (intro inv_heap_add [OF assms(1,3)]) (simp_all add: assms(4,5,9))
  moreover have "raw + ucast off \<noteq> 0" using u(2) by auto
  ultimately show ?thesis unfolding reg by simp
qed

lemma map_block_added:
  assumes "heap_ok B M live p" "\<not> on_heap (raw + ucast off, i)" "ai_size i = sz" "ai_offset i = off"
    and "fits (B \<union> M) raw (sz + ucast off)" "16 \<le> unat off" "unat sz + unat off < 2 ^ 64"
    and "\<And>b. load_info p' b = (if b = raw + ucast off then Some i else load_info p b)"
    and "gl_memhawkReady p' = gl_memhawkReady p" "gl_initialised p' = gl_initialised p" "pr_calls p' = pr_calls p"
  shows "heap_ok B (insert (raw, sz + ucast off) M) ((raw + ucast off, i) # live) p' \<and> raw + ucast off \<noteq> 0"
proof -
  note u = fits_user [OF assms(5-7)]
  have reg: "region (raw + ucast off, i) = (raw, sz + ucast off)"
    using region_eq [of raw i] assms(3,4) by simp
  have "heap_ok B (insert (region (raw + ucast off, i)) M) ((raw + ucast off, i) # live) p'"
    using u reg assms(5,6,9-11) by (intro inv_map_add [OF assms(1,2)]) (simp_all add: assms(3,4,8))
  moreover have "raw + ucast off \<noteq> 0" using u(2) by auto
  ultimately show ?thesis unfolding reg by simp
qed

lemma inv_libc:
  assumes "heap_inv blocks maps live p" "blocks l' = blocks (pr_libc p)" "maps l' = maps (pr_libc p)"
  shows "heap_inv blocks maps live (p\<lparr>pr_libc := l'\<rparr>)"
  using assms by (simp add: heap_inv_def heap_ok_def layout_def block_ok_def told_def)

text \<open>
  What an allocation grants: null, with nothing but the library's own state changed, or a new block with a
  header, aligned to \<open>d\<close> and of at least the requested size. In both cases the invariant holds for the blocks
  that are now live.
\<close>

definition only_libc :: "'l process \<Rightarrow> 'l process \<Rightarrow> bool" where
  "only_libc p p' \<longleftrightarrow> p' = p\<lparr>pr_libc := pr_libc p'\<rparr>"

lemma only_libc_update [simp]: "only_libc p (p\<lparr>pr_libc := l\<rparr>)"
  by (simp add: only_libc_def)

definition with_block :: "'l process \<Rightarrow> ptr \<Rightarrow> block list \<Rightarrow> block list" where
  "with_block p a live = (if a = 0 then live else (a, the (load_info p a)) # live)"

definition grants :: "'l regions \<Rightarrow> 'l regions \<Rightarrow> nat \<Rightarrow> u64 \<Rightarrow> block list \<Rightarrow> 'l process \<Rightarrow> 'l process \<times> ptr \<Rightarrow> bool" where
  "grants blocks maps d sz live p r \<longleftrightarrow> heap_inv blocks maps (with_block (fst r) (snd r) live) (fst r) \<and>
     (if snd r = 0 then only_libc p (fst r)
      else d dvd unat (snd r) \<and> (\<exists>i. load_info (fst r) (snd r) = Some i \<and> sz \<le> ai_size i)) \<and>
     gl_initialised (fst r) = gl_initialised p \<and> gl_memhawkReady (fst r) = gl_memhawkReady p"

lemma grants_null:
  assumes "heap_inv blocks maps live p" "blocks l' = blocks (pr_libc p)" "maps l' = maps (pr_libc p)"
  shows "grants blocks maps d sz live p (p\<lparr>pr_libc := l'\<rparr>, 0)"
  using inv_libc [OF assms] by (simp add: grants_def with_block_def)

lemma grants_tracked:
  assumes "heap_inv blocks maps live p" "gl_initialised p" "ids_ok mid"
    and "allocates blocks maps d (sz + ucast off) (pr_libc p) l' raw" "raw \<noteq> 0"
    and "16 \<le> unat off" "unat sz + unat off < 2 ^ 64" "d' dvd unat raw + unat off"
  shows "grants blocks maps d' sz live p (TrackAllocation mid (raw + ucast off) sz off (p\<lparr>pr_libc := l'\<rparr>), raw + ucast off)"
proof -
  let ?p = "p\<lparr>pr_libc := l'\<rparr>" and ?a = "raw + ucast off"
  let ?p' = "TrackAllocation mid ?a sz off ?p"
  have al: "fits (blocks (pr_libc p) \<union> maps (pr_libc p)) raw (sz + ucast off)" "maps l' = maps (pr_libc p)"
    "blocks l' = insert (raw, sz + ucast off) (blocks (pr_libc p))"
    using assms(4,5) by (simp_all add: allocates_def)
  have "heap_ok (insert (raw, sz + ucast off) (blocks (pr_libc p))) (maps (pr_libc p)) ((?a, header mid ?p sz off) # live) ?p' \<and> ?a \<noteq> 0"
    using assms(1,2,6,7) al(1) header_on_heap [OF assms(3), of ?a ?p]
    by (intro heap_block_added [where p = p and i = "header mid ?p sz off"])
      (simp_all add: TrackAllocation_eff heap_inv_def)
  then show ?thesis
    using al fits_user(1) [OF al(1) assms(6,7)] assms(8)
    by (simp add: grants_def with_block_def heap_inv_def TrackAllocation_eff)
qed

section \<open>Alignment\<close>

lemma ceil_nat:
  fixes v d :: nat
  assumes "0 < d"
  shows "v \<le> (v + d - 1) div d * d" "(v + d - 1) div d * d < v + d" "d dvd (v + d - 1) div d * d"
proof -
  have "v + d - 1 = (v + d - 1) div d * d + (v + d - 1) mod d" by simp
  moreover have "(v + d - 1) mod d < d" using assms by simp
  ultimately show "v \<le> (v + d - 1) div d * d" "(v + d - 1) div d * d < v + d" using assms by linarith+
qed simp

lemma align_ceil_some:
  assumes "0 < unat d" "unat v + unat d \<le> 2 ^ 64"
  obtains r where "align_ceil v d = Some r" "unat v \<le> unat r" "unat r < unat v + unat d" "unat d dvd unat r"
proof -
  let ?n = "(unat v + unat d - 1) div unat d * unat d"
  have dn: "d \<noteq> 0" using assms(1) by auto
  have "1 \<le> d" using assms(1) by (simp add: word_le_nat_alt)
  then have m: "unat (v + (d - 1)) = unat v + unat d - 1"
    using assms by (subst uadd) (simp_all add: usub word_le_nat_alt)
  have lt: "?n < 2 ^ 64" using ceil_nat(2) [OF assms(1), of "unat v"] assms(2) by linarith
  have "unat ((v + d - 1) div d * d) = ?n"
  proof -
    have "unat ((v + (d - 1)) div d) = (unat v + unat d - 1) div unat d" by (simp add: unat_div_distrib m)
    then show ?thesis using lt by (simp add: unat_word_ariths add_diff_eq)
  qed
  then show ?thesis using that [of "(v + d - 1) div d * d"] ceil_nat [OF assms(1), of "unat v"] dn
    by (simp add: align_ceil_def)
qed

section \<open>Allocation functions\<close>

definition invalid_header :: "u64 \<Rightarrow> u32 \<Rightarrow> AllocInfo" where
  "invalid_header sz off = (mk_AllocInfo sz off)\<lparr>ai_traceId := InvalidTraceId\<rparr>"

lemma invalid_header_sel [simp]:
  "ai_size (invalid_header sz off) = sz" "ai_offset (invalid_header sz off) = off" "\<not> on_heap (a, invalid_header sz off)"
  by (simp_all add: invalid_header_def mk_AllocInfo_def on_heap_def)

lemma AdditionalSize_cast: "ucast (ucast AdditionalSize :: u32) = AdditionalSize" "unat (ucast AdditionalSize :: u32) = 16"
  by (simp_all add: AdditionalSize_def)

lemma grants_mapped:
  assumes "libc_ok L blocks maps" "heap_inv blocks maps live p"
    and "fits (blocks (pr_libc p) \<union> maps (pr_libc p)) raw (sz' + ucast off)"
    and "blocks l' = blocks (pr_libc p)" "maps l' = insert (raw, sz' + ucast off) (maps (pr_libc p))"
    and "16 \<le> unat off" "unat sz' + unat off < 2 ^ 64" "d dvd unat raw + unat off" "sz \<le> sz'"
  shows "grants blocks maps d sz live p
    (store_info (raw + ucast off - AdditionalSize) (invalid_header sz' off) (p\<lparr>pr_libc := l'\<rparr>), raw + ucast off)"
proof -
  let ?a = "raw + ucast off"
  let ?p' = "store_info (?a - AdditionalSize) (invalid_header sz' off) (p\<lparr>pr_libc := l'\<rparr>)"
  have "heap_ok (blocks (pr_libc p)) (insert (raw, sz' + ucast off) (maps (pr_libc p))) ((?a, invalid_header sz' off) # live) ?p' \<and> ?a \<noteq> 0"
    using assms(2,3,6,7) by (intro map_block_added [where p = p]) (simp_all add: heap_inv_def)
  then show ?thesis
    using assms(4,5,8,9) fits_user(1) [OF assms(3,6,7)] by (simp add: grants_def with_block_def heap_inv_def)
qed

lemma mmap_malloc_grants:
  assumes "libc_ok L blocks maps" "heap_inv blocks maps live p" "unat sz + 16 < 2 ^ 64"
  shows "grants blocks maps 16 sz live p (mmap_malloc L sz p)"
proof -
  obtain l a where m: "l_mmap L (pr_libc p) (sz + AdditionalSize) = (l, a)" by fastforce
  note c = libc_mmapD [OF assms(1) m]
  show ?thesis
  proof (cases "a = MAP_FAILED")
    case True
    then show ?thesis using m c assms(2) by (simp add: mmap_malloc_def grants_null)
  next
    case False
    let ?l = "l_memset0 L l a (sz + AdditionalSize)" and ?o = "ucast AdditionalSize :: u32"
    have "16 dvd unat a + unat ?o" using c False by (simp add: AdditionalSize_cast)
    then have "grants blocks maps 16 sz live p
        (store_info (a + ucast ?o - AdditionalSize) (invalid_header sz ?o) (p\<lparr>pr_libc := ?l\<rparr>), a + ucast ?o)"
      using c False assms(3)
      by (intro grants_mapped [OF assms(1,2)]) (simp_all add: AdditionalSize_cast libc_copyD [OF assms(1)])
    then show ?thesis using m False by (simp add: mmap_malloc_def AdditionalSize_cast invalid_header_def)
  qed
qed

lemma grants_tracked16:
  assumes "heap_inv blocks maps live p" "gl_initialised p" "ids_ok mid"
    and "allocates blocks maps 16 (sz + AdditionalSize) (pr_libc p) l' raw" "raw \<noteq> 0" "unat sz + 16 < 2 ^ 64"
  shows "grants blocks maps 16 sz live p
    (TrackAllocation mid (raw + AdditionalSize) sz (ucast AdditionalSize) (p\<lparr>pr_libc := l'\<rparr>), raw + AdditionalSize)"
proof -
  have "16 dvd unat raw + 16" using assms(4,5) by (simp add: allocates_def)
  then show ?thesis
    using grants_tracked [OF assms(1-3), where d = 16 and off = "ucast AdditionalSize" and sz = sz and l' = l' and raw = raw and d' = 16]
      assms(4-6) by (simp add: AdditionalSize_cast)
qed

lemma hawk_malloc_grants:
  assumes "libc_ok L blocks maps" "ids_ok mid" "heap_inv blocks maps live p" "unat sz + 16 < 2 ^ 64"
  shows "grants blocks maps 16 sz live p (hawk_malloc L mid sz p)"
proof (cases "gl_initialised p")
  case True
  obtain l raw where m: "l_malloc L (pr_libc p) (sz + AdditionalSize) = (l, raw)" by fastforce
  note c = libc_mallocD(1) [OF assms(1) m]
  show ?thesis
  proof (cases "raw = 0")
    case False
    then show ?thesis
      using grants_tracked16 [OF assms(3) True assms(2) c False assms(4)] m True by (simp add: hawk_malloc_def Let_def)
  qed (use True m c assms(3) in \<open>simp add: hawk_malloc_def grants_null allocates_def\<close>)
qed (simp add: hawk_malloc_def mmap_malloc_grants [OF assms(1,3,4)])

lemma hawk_calloc_grants:
  assumes "libc_ok L blocks maps" "ids_ok mid" "heap_inv blocks maps live p" "unat nm * unat sz + 16 < 2 ^ 64"
  shows "grants blocks maps 16 (nm * sz) live p (hawk_calloc L mid nm sz p)"
proof -
  have u: "unat (nm * sz) = unat nm * unat sz" using assms(4) by (simp add: unat_word_ariths)
  obtain l raw where m: "l_calloc L (pr_libc p) 1 (nm * sz + AdditionalSize) = (l, raw)" by fastforce
  note c = libc_mallocD(2) [OF assms(1) m]
  have n: "\<not> 2 ^ 64 \<le> unat nm * unat sz" using assms(4) by linarith
  consider "\<not> gl_initialised p" | "gl_initialised p" "raw = 0" | "gl_initialised p" "raw \<noteq> 0" by blast
  then show ?thesis
  proof cases
    case 1
    then show ?thesis using mmap_malloc_grants [OF assms(1,3)] n assms(4) u by (simp add: hawk_calloc_def)
  next
    case 2
    then show ?thesis using n m c assms(3) by (simp add: hawk_calloc_def grants_null allocates_def)
  next
    case 3
    then show ?thesis
      using grants_tracked16 [OF assms(3) 3(1) assms(2) c 3(2)] m n assms(4) u by (simp add: hawk_calloc_def Let_def)
  qed
qed

lemma mmap_alloc_aligned_grants:
  assumes "libc_ok L blocks maps" "heap_inv blocks maps live p" "0 < unat d" "unat d \<le> 2 ^ 31" "unat sz + 16 + unat d < 2 ^ 64"
  obtains r where "mmap_alloc_aligned L sz d p = Some r" "grants blocks maps (unat d) sz live p r"
proof -
  let ?n = "sz + AdditionalSize + d"
  have sz16: "unat (sz + AdditionalSize) = unat sz + 16" using assms(5) by (simp add: uadd)
  then have n: "unat ?n = unat sz + 16 + unat d" using assms(5) by (subst uadd) simp_all
  obtain l a where m: "l_mmap L (pr_libc p) ?n = (l, a)" by fastforce
  note c = libc_mmapD [OF assms(1) m]
  show ?thesis
  proof (cases "a = MAP_FAILED")
    case True
    then show ?thesis using that [of "(p\<lparr>pr_libc := l\<rparr>, 0)"] m c assms(2) by (simp add: mmap_alloc_aligned_def grants_null)
  next
    case False
    then have f: "fits (blocks (pr_libc p) \<union> maps (pr_libc p)) a ?n" using c by simp
    then have lt: "unat a + (unat sz + 16 + unat d) < 2 ^ 64" by (simp add: fits_def n)
    then have a16: "unat (a + AdditionalSize) = unat a + 16" by (simp add: uadd)
    obtain q where q: "align_ceil (a + AdditionalSize) d = Some q" "unat a + 16 \<le> unat q" "unat q < unat a + 16 + unat d" "unat d dvd unat q"
      by (rule align_ceil_some [OF assms(3), of "a + AdditionalSize"]) (use lt a16 in \<open>simp_all\<close>)
    let ?o = "q - a" and ?sz = "?n - (q - a)"
    have o: "unat ?o = unat q - unat a" using q(2) by (simp add: usub)
    then have o16: "16 \<le> unat ?o" "unat ?o < 16 + unat d" using q by linarith+
    have o32: "unat (ucast ?o :: u32) = unat ?o" "ucast (ucast ?o :: u32) = ?o"
    proof -
      have "unat ?o < 2 ^ 32" using o16 assms(4) by simp
      then show u: "unat (ucast ?o :: u32) = unat ?o" by (simp add: unsigned_ucast_eq take_bit_nat_eq_self)
      then show "ucast (ucast ?o :: u32) = ?o" by (simp add: word_unat_eq_iff)
    qed
    have s: "unat ?sz = unat sz + 16 + unat d - unat ?o" using o16 n by (simp add: usub)
    let ?l = "l_memset0 L l a ?n"
    have "grants blocks maps (unat d) sz live p
        (store_info (a + ucast (ucast ?o :: u32) - AdditionalSize) (invalid_header ?sz (ucast ?o)) (p\<lparr>pr_libc := ?l\<rparr>), a + ucast (ucast ?o :: u32))"
      using c False f o16 s n lt o q(4) assms(5)
      by (intro grants_mapped [OF assms(1,2)])
        (simp_all add: o32 libc_copyD [OF assms(1)] word_le_nat_alt)
    then show ?thesis using that m False q(1)
      by (simp add: mmap_alloc_aligned_def o32 invalid_header_def Let_def)
  qed
qed

text \<open>The room for the header in an aligned block.\<close>

lemma aligned_room:
  assumes "0 < unat d" "unat d \<le> 2 ^ 31"
  obtains r where "align_ceil AdditionalSize d = Some r" "16 \<le> unat r" "unat r < 16 + unat d" "unat d dvd unat r"
    "unat (ucast r :: u32) = unat r" "ucast (ucast r :: u32) = r"
proof (rule align_ceil_some [OF assms(1), of AdditionalSize])
  fix r assume r: "align_ceil AdditionalSize d = Some r" "unat AdditionalSize \<le> unat r"
    "unat r < unat AdditionalSize + unat d" "unat d dvd unat r"
  then have "unat r < 2 ^ 32" using assms(2) by simp
  then have u: "unat (ucast r :: u32) = unat r" by (simp add: unsigned_ucast_eq take_bit_nat_eq_self)
  moreover from u have "ucast (ucast r :: u32) = r" by (simp add: word_unat_eq_iff)
  ultimately show thesis using that [of r] r by simp
qed (use assms(2) in simp)

lemma grants_aligned:
  assumes "heap_inv blocks maps live p" "gl_initialised p" "ids_ok mid"
    and "16 \<le> unat r" "unat d dvd unat r" "unat (ucast r :: u32) = unat r" "ucast (ucast r :: u32) = r"
    and "allocates blocks maps (unat d) (sz + r) (pr_libc p) l' raw" "raw \<noteq> 0" "unat sz + unat r < 2 ^ 64"
  shows "grants blocks maps (unat d) sz live p (TrackAllocation mid (raw + r) sz (ucast r) (p\<lparr>pr_libc := l'\<rparr>), raw + r)"
proof -
  have "unat d dvd unat raw + unat r" using assms(5,8,9) by (simp add: allocates_def)
  then show ?thesis
    using grants_tracked [OF assms(1-3), where d = "unat d" and off = "ucast r" and sz = sz and l' = l' and raw = raw and d' = "unat d"]
      assms(4-10) by simp
qed

lemma hawk_aligned_alloc_grants:
  assumes "libc_ok L blocks maps" "ids_ok mid" "heap_inv blocks maps live p"
    and "0 < unat d" "unat d \<le> 2 ^ 31" "unat sz + 16 + unat d < 2 ^ 64"
  obtains r where "hawk_aligned_alloc L mid d sz p = Some r" "grants blocks maps (unat d) sz live p r"
proof (cases "gl_initialised p")
  case True
  obtain r where r: "align_ceil AdditionalSize d = Some r" "16 \<le> unat r" "unat r < 16 + unat d" "unat d dvd unat r"
    "unat (ucast r :: u32) = unat r" "ucast (ucast r :: u32) = r"
    using aligned_room [OF assms(4,5)] .
  obtain l raw where m: "l_aligned_alloc L (pr_libc p) d (sz + r) = (l, raw)" by fastforce
  note c = libc_alignedD [OF assms(1) m]
  show ?thesis
  proof (cases "raw = 0")
    case True
    have "grants blocks maps (unat d) sz live p (p\<lparr>pr_libc := l\<rparr>, 0)"
      using c True assms(3) by (intro grants_null) (simp_all add: allocates_def)
    then show ?thesis using that r(1) m True \<open>gl_initialised p\<close> by (simp add: hawk_aligned_alloc_def)
  next
    case False
    have "unat sz + unat r < 2 ^ 64" using r(3) assms(6) by linarith
    from grants_aligned [OF assms(3) \<open>gl_initialised p\<close> assms(2) r(2,4-6) c False this]
    show ?thesis using that r(1) m False \<open>gl_initialised p\<close> by (simp add: hawk_aligned_alloc_def Let_def)
  qed
next
  case False
  then show ?thesis
    using mmap_alloc_aligned_grants [OF assms(1,3-6)] that by (auto simp: hawk_aligned_alloc_def)
qed

text \<open>\<open>posix_memalign\<close>: the pointer counts when the code is zero.\<close>

lemma hawk_posix_memalign_grants:
  assumes "libc_ok L blocks maps" "ids_ok mid" "heap_inv blocks maps live p"
    and "0 < unat d" "unat d \<le> 2 ^ 31" "unat sz + 16 + unat d < 2 ^ 64"
  obtains p' res a where "hawk_posix_memalign L mid d sz p = Some (p', res, a)"
    "grants blocks maps (unat d) sz live p (p', if res = 0 then a else 0)"
proof (cases "gl_initialised p")
  case True
  obtain r where r: "align_ceil AdditionalSize d = Some r" "16 \<le> unat r" "unat r < 16 + unat d" "unat d dvd unat r"
    "unat (ucast r :: u32) = unat r" "ucast (ucast r :: u32) = r"
    using aligned_room [OF assms(4,5)] .
  obtain l res raw where m: "l_posix_memalign L (pr_libc p) d (sz + r) = (l, res, raw)" using prod_cases3 by blast
  note c = libc_memalignD [OF assms(1) m]
  show ?thesis
  proof (cases "res = 0")
    case False
    have "grants blocks maps (unat d) sz live p (p\<lparr>pr_libc := l\<rparr>, 0)"
      using c False assms(3) by (intro grants_null) simp_all
    then show ?thesis using that r(1) m False \<open>gl_initialised p\<close> by (simp add: hawk_posix_memalign_def)
  next
    case True
    have "unat sz + unat r < 2 ^ 64" using r(3) assms(6) by linarith
    moreover have "allocates blocks maps (unat d) (sz + r) (pr_libc p) l raw" "raw \<noteq> 0" using c True by simp_all
    ultimately show ?thesis
      using grants_aligned [OF assms(3) \<open>gl_initialised p\<close> assms(2) r(2,4-6)] that r(1) m True \<open>gl_initialised p\<close>
      by (simp add: hawk_posix_memalign_def Let_def)
  qed
next
  case False
  obtain r where "mmap_alloc_aligned L sz d p = Some r" "grants blocks maps (unat d) sz live p r"
    using mmap_alloc_aligned_grants [OF assms(1,3-6)] .
  then show ?thesis using that [of "fst r" 0 "snd r"] False by (simp add: hawk_posix_memalign_def case_prod_unfold)
qed

section \<open>Release\<close>

lemma live_header: "heap_inv blocks maps live p \<Longrightarrow> e \<in> set live \<Longrightarrow> load_info p (fst e) = Some (snd e)"
  by (simp add: heap_inv_def heap_ok_def layout_def block_ok_def)

lemma region_pair: "region e = (fst e - ucast (ai_offset (snd e)), ai_size (snd e) + ucast (ai_offset (snd e)))"
  by (simp add: region_def)

lemma live_the_block:
  assumes "heap_inv blocks maps live p" "e \<in> set live" "on_heap e"
  shows "the_block (blocks (pr_libc p)) (fst (region e)) (snd (region e))"
proof -
  have B: "blocks (pr_libc p) = region ` {e \<in> set live. on_heap e}" and lay: "layout live p"
    using assms(1) by (simp_all add: heap_inv_def heap_ok_def)
  have "m' = snd (region e)" if m': "(fst (region e), m') \<in> blocks (pr_libc p)" for m'
  proof -
    obtain x where x: "x \<in> set live" "region x = (fst (region e), m')" using m' unfolding B by auto
    have ok: "block_ok p x" "block_ok p e" using lay x(1) assms(2) by (auto simp: layout_def)
    have s: "unat (fst (region e)) \<in> span (region y)" if "block_ok p y" "fst (region y) = fst (region e)" for y
    proof -
      have "16 \<le> unat (snd (region y))" using region_facts(2) [OF that(1)] that(1) by (simp add: block_ok_def)
      then show ?thesis using that(2) by (simp add: span_def)
    qed
    have "span (region x) \<inter> span (region e) \<noteq> {}" using s [OF ok(1)] s [OF ok(2)] x(2) by auto
    then have "x = e" using lay x(1) assms(2) unfolding layout_def by blast
    then show ?thesis using x(2) by (metis snd_conv)
  qed
  then show ?thesis using assms(2,3) unfolding the_block_def B by auto
qed

lemma live_mapped:
  assumes "heap_inv blocks maps live p" "e \<in> set live" "\<not> on_heap e"
  shows "region e \<in> maps (pr_libc p)"
  using assms by (simp add: heap_inv_def heap_ok_def)

lemma mmap_free_inv:
  assumes "libc_ok L blocks maps" "heap_inv blocks maps live p" "e \<in> set live" "\<not> on_heap e"
  shows "heap_inv blocks maps (without (fst e) live) (mmap_free L (fst e - ucast (ai_offset (snd e))) (snd e) p)"
proof -
  let ?p' = "mmap_free L (fst e - ucast (ai_offset (snd e))) (snd e) p"
  have l: "pr_libc ?p' = l_munmap L (pr_libc p) (fst (region e)) (snd (region e))" by (simp add: mmap_free_def region_def)
  have "heap_ok (blocks (pr_libc p)) (maps (pr_libc p) - {region e}) (without (fst e) live) ?p'"
    using assms(2) by (intro inv_map_remove [OF _ assms(3,4)]) (simp_all add: heap_inv_def mmap_free_def)
  then show ?thesis
    using libc_munmapD [OF assms(1), of "fst (region e)" "snd (region e)" "pr_libc p"] live_mapped [OF assms(2-4)]
    by (simp add: heap_inv_def l)
qed

lemma hawk_free_inv:
  assumes "libc_ok L blocks maps" "heap_inv blocks maps live p" "e \<in> set live"
  obtains p' where "hawk_free L (fst e) p = Some p'" "heap_inv blocks maps (without (fst e) live) p'"
    "gl_initialised p' = gl_initialised p" "gl_memhawkReady p' = gl_memhawkReady p"
proof -
  have nz: "fst e \<noteq> 0" using assms(2,3) by (auto simp: heap_inv_def heap_ok_def layout_def block_ok_def)
  note li = live_header [OF assms(2,3)]
  show ?thesis
  proof (cases "on_heap e")
    case False
    then show ?thesis
      using that mmap_free_inv [OF assms(1-3) False] nz li
      by (simp add: hawk_free_def on_heap_def mmap_free_def)
  next
    case True
    have init: "gl_initialised p" using assms(2,3) True by (auto simp: heap_inv_def heap_ok_def)
    let ?q = "if gl_memhawkReady p then p\<lparr>pr_calls := pr_calls p @ [CallTrackDealloc (snd e)]\<rparr> else p"
    let ?p' = "?q\<lparr>pr_libc := l_free L (pr_libc p) (fst (region e))\<rparr>"
    have "heap_ok (blocks (pr_libc p) - {region e}) (maps (pr_libc p)) (without (fst e) live) ?p'"
      using assms(2) by (intro inv_heap_remove [where p = p, OF _ assms(3) True]) (simp_all add: heap_inv_def told_track)
    then have "heap_inv blocks maps (without (fst e) live) ?p'"
      using libc_freeD [OF assms(1) live_the_block [OF assms(2,3) True]] by (simp add: heap_inv_def)
    then show ?thesis
      using that [of ?p'] nz li init True by (simp add: hawk_free_def on_heap_def region_def)
  qed
qed

section \<open>Reallocation\<close>

text \<open>A reallocation that succeeds takes the old block away; one that fails changes nothing.\<close>

definition regrants :: "'l regions \<Rightarrow> 'l regions \<Rightarrow> ptr \<Rightarrow> u64 \<Rightarrow> block list \<Rightarrow> 'l process \<Rightarrow> 'l process \<times> ptr \<Rightarrow> bool" where
  "regrants blocks maps a sz live p r \<longleftrightarrow>
     heap_inv blocks maps (if snd r = 0 then live else with_block (fst r) (snd r) (without a live)) (fst r) \<and>
     (if snd r = 0 then only_libc p (fst r) else \<exists>i. load_info (fst r) (snd r) = Some i \<and> sz \<le> ai_size i) \<and>
     gl_initialised (fst r) = gl_initialised p \<and> gl_memhawkReady (fst r) = gl_memhawkReady p"

lemma with_block_libc [simp]: "with_block (p\<lparr>pr_libc := l\<rparr>) a live = with_block p a live"
  by (simp add: with_block_def)

lemma mmap_free_sel [simp]: "load_info (mmap_free L q i p) a = load_info p a" "gl_initialised (mmap_free L q i p) = gl_initialised p"
  "gl_memhawkReady (mmap_free L q i p) = gl_memhawkReady p" "with_block (mmap_free L q i p) a live = with_block p a live"
  by (simp_all add: mmap_free_def)

lemma without_other:
  assumes "heap_inv blocks maps (with_block p a live) p" "b \<in> fst ` set live" "a \<noteq> 0"
  shows "without b (with_block p a live) = with_block p a (without b live)"
proof -
  have "distinct (map fst (with_block p a live))" using assms(1) by (simp add: heap_inv_def heap_ok_def layout_def)
  then have "a \<noteq> b" using assms(2,3) by (auto simp: with_block_def)
  then show ?thesis using assms(3) by (simp add: without_def with_block_def)
qed

text \<open>A new block, the user's data copied, the old mapping released.\<close>

lemma launder_regrants:
  assumes "libc_ok L blocks maps" "e \<in> set live" "\<not> on_heap e"
    and "grants blocks maps d sz live p (q, c)" "c \<noteq> 0"
  shows "regrants blocks maps (fst e) sz live p
    (mmap_free L (fst e - ucast (ai_offset (snd e))) (snd e) (q\<lparr>pr_libc := l_memcpy L (pr_libc q) c (fst e) n\<rparr>), c)"
proof -
  let ?q = "q\<lparr>pr_libc := l_memcpy L (pr_libc q) c (fst e) n\<rparr>" and ?live = "with_block q c live"
  have inv: "heap_inv blocks maps ?live ?q"
    using assms(4) by (intro inv_libc) (simp_all add: grants_def libc_copyD [OF assms(1)])
  then have "heap_inv blocks maps (without (fst e) ?live) (mmap_free L (fst e - ucast (ai_offset (snd e))) (snd e) ?q)"
    using assms(2,3) by (intro mmap_free_inv [OF assms(1) inv]) (simp_all add: with_block_def)
  moreover have "without (fst e) ?live = with_block q c (without (fst e) live)"
    using assms(2,4,5) by (intro without_other [of blocks maps]) (simp_all add: grants_def)
  ultimately show ?thesis using assms(4,5) by (simp add: regrants_def grants_def)
qed

lemma mmap_realloc_regrants:
  assumes "libc_ok L blocks maps" "heap_inv blocks maps live p" "e \<in> set live" "\<not> on_heap e" "unat sz + 16 < 2 ^ 64"
  obtains r where "mmap_realloc L (fst e) sz p = Some r" "regrants blocks maps (fst e) sz live p r"
proof -
  have nz: "fst e \<noteq> 0" using assms(2,3) by (auto simp: heap_inv_def heap_ok_def layout_def block_ok_def)
  obtain q c where m: "mmap_malloc L sz p = (q, c)" by fastforce
  have g: "grants blocks maps 16 sz live p (q, c)" using mmap_malloc_grants [OF assms(1,2,5)] m by simp
  note li = live_header [OF assms(2,3)]
  show ?thesis
  proof (cases "c = 0")
    case True
    then show ?thesis using that [of "(q, 0)"] m g nz li by (simp add: mmap_realloc_def regrants_def grants_def with_block_def)
  next
    case False
    then show ?thesis
      using that launder_regrants [OF assms(1,3,4) g False] m nz li by (simp add: mmap_realloc_def)
  qed
qed

lemma tracked_realloc_regrants:
  assumes "libc_ok L blocks maps" "ids_ok mid" "heap_inv blocks maps live p" "e \<in> set live" "on_heap e"
    and "unat sz + unat (ai_offset (snd e)) < 2 ^ 64"
    and "l_realloc L (pr_libc p) (fst (region e)) (sz + ucast (ai_offset (snd e))) = (l', q)" "q \<noteq> 0"
  defines "a \<equiv> q + ucast (ai_offset (snd e))"
  shows "regrants blocks maps (fst e) sz live p
    (TrackReallocation mid a sz (ai_offset (snd e)) (snd e) (p\<lparr>pr_libc := l'\<rparr>), a)"
proof -
  let ?off = "ai_offset (snd e)" and ?B = "blocks (pr_libc p)" and ?M = "maps (pr_libc p)"
  let ?p = "p\<lparr>pr_libc := l'\<rparr>"
  let ?p' = "TrackReallocation mid a sz ?off (snd e) ?p" and ?h = "header mid ?p sz ?off"
  let ?p1 = "if gl_memhawkReady p then p\<lparr>pr_calls := pr_calls p @ [CallTrackDealloc (snd e)]\<rparr> else p"
  have o16: "16 \<le> unat ?off" using assms(3,4) by (auto simp: heap_inv_def heap_ok_def layout_def block_ok_def)
  have "sz + ucast ?off \<noteq> 0" using uadd [of sz "ucast ?off"] assms(6) o16 by auto
  from libc_reallocD [OF assms(1) live_the_block [OF assms(3-5)] this assms(7)] assms(8)
  have c: "maps l' = ?M" "fits (?B - {region e} \<union> ?M) q (sz + ucast ?off)" "blocks l' = insert (q, sz + ucast ?off) (?B - {region e})"
    by simp_all
  have init: "gl_initialised p" using assms(3-5) by (auto simp: heap_inv_def heap_ok_def)
  have "heap_ok (?B - {region e}) ?M (without (fst e) live) ?p1"
    using assms(3) by (intro inv_heap_remove [where p = p, OF _ assms(4,5)]) (simp_all add: heap_inv_def told_track)
  then have "heap_ok (insert (q, sz + ucast ?off) (?B - {region e})) ?M ((q + ucast ?off, ?h) # without (fst e) live) ?p' \<and> q + ucast ?off \<noteq> 0"
    using init header_on_heap [OF assms(2), of "q + ucast ?off" ?p] c(2) o16 assms(6)
    by (intro heap_block_added [where p = ?p1])
      (simp_all add: TrackReallocation_eff a_def told_track ac_simps split: if_splits)
  then show ?thesis using c(1,3) unfolding a_def
    by (simp add: regrants_def with_block_def heap_inv_def TrackReallocation_eff)
qed

lemma hawk_realloc_regrants:
  assumes "libc_ok L blocks maps" "ids_ok mid" "heap_inv blocks maps live p" "e \<in> set live" "unat sz + 2 ^ 32 \<le> 2 ^ 64"
  obtains r where "hawk_realloc L mid (fst e) sz p = Some r" "regrants blocks maps (fst e) sz live p r"
proof -
  have nz: "fst e \<noteq> 0" using assms(3,4) by (auto simp: heap_inv_def heap_ok_def layout_def block_ok_def)
  note li = live_header [OF assms(3,4)]
  have "unat (ai_offset (snd e)) < 2 ^ 32" using unsigned_less [of "ai_offset (snd e)", where ?'a = nat] by simp
  then have szo: "unat sz + unat (ai_offset (snd e)) < 2 ^ 64" and sz16: "unat sz + 16 < 2 ^ 64" using assms(5) by simp_all
  consider "\<not> gl_initialised p" | "gl_initialised p" "\<not> on_heap e" | "gl_initialised p" "on_heap e" by blast
  then show ?thesis
  proof cases
    case 1
    then have "\<not> on_heap e" using assms(3,4) by (auto simp: heap_inv_def heap_ok_def)
    then show ?thesis using mmap_realloc_regrants [OF assms(1,3,4) _ sz16] that 1 by (auto simp: hawk_realloc_def)
  next
    case 2
    obtain q c where m: "hawk_malloc L mid sz p = (q, c)" by fastforce
    have g: "grants blocks maps 16 sz live p (q, c)" using hawk_malloc_grants [OF assms(1-3) sz16] m by simp
    show ?thesis
    proof (cases "c = 0")
      case True
      then show ?thesis
        using that [of "(q, 0)"] m g nz li 2 by (simp add: hawk_realloc_def on_heap_def regrants_def grants_def with_block_def)
    next
      case False
      then show ?thesis
        using that launder_regrants [OF assms(1,4) 2(2) g False] m nz li 2 by (simp add: hawk_realloc_def on_heap_def)
    qed
  next
    case 3
    obtain l' q where m: "l_realloc L (pr_libc p) (fst (region e)) (sz + ucast (ai_offset (snd e))) = (l', q)" by fastforce
    show ?thesis
    proof (cases "q = 0")
      case True
      have "sz + ucast (ai_offset (snd e)) \<noteq> 0"
        using uadd [of sz "ucast (ai_offset (snd e))"] szo assms(3,4)
        by (auto simp: heap_inv_def heap_ok_def layout_def block_ok_def)
      from libc_reallocD [OF assms(1) live_the_block [OF assms(3,4) 3(2)] this m] True
      have "heap_inv blocks maps live (p\<lparr>pr_libc := l'\<rparr>)" by (intro inv_libc [OF assms(3)]) simp_all
      then show ?thesis
        using that [of "(p\<lparr>pr_libc := l'\<rparr>, 0)"] m nz li 3 True
        by (simp add: hawk_realloc_def on_heap_def region_def regrants_def)
    next
      case False
      then show ?thesis
        using that tracked_realloc_regrants [OF assms(1-4) 3(2) szo m False] m nz li 3
        by (simp add: hawk_realloc_def on_heap_def region_def Let_def)
    qed
  qed
qed

section \<open>Calls\<close>

text \<open>
  Behind the exported names there are eight operations. \<open>do_op\<close> runs one; the result is the state, the
  return code of \<open>posix_memalign\<close> (zero for the others) and the pointer (null where there is none).
\<close>

datatype hawk_op =
    OpMalloc u64 | OpCalloc u64 u64 | OpAligned u64 u64 | OpMemalign u64 u64 | OpValloc u64 | OpPvalloc u64
  | OpRealloc ptr u64 | OpFree ptr

definition op_of :: "entry \<Rightarrow> hawk_op" where
  "op_of en =
     (case en of E_malloc n \<Rightarrow> OpMalloc n | E_valloc n \<Rightarrow> OpValloc n | E_aligned_alloc d n \<Rightarrow> OpAligned d n
      | E_posix_memalign d n \<Rightarrow> OpMemalign d n | E_calloc m n \<Rightarrow> OpCalloc m n | E_realloc a n \<Rightarrow> OpRealloc a n
      | E_pvalloc n \<Rightarrow> OpPvalloc n | E_free a \<Rightarrow> OpFree a | E_free_sized a _ \<Rightarrow> OpFree a
      | E_free_aligned_sized a _ _ \<Rightarrow> OpFree a
      | New n \<Rightarrow> OpMalloc n | NewArray n \<Rightarrow> OpMalloc n | NewNothrow n \<Rightarrow> OpMalloc n | NewArrayNothrow n \<Rightarrow> OpMalloc n
      | NewAligned n d \<Rightarrow> OpAligned d n | NewAlignedNothrow n d \<Rightarrow> OpAligned d n
      | NewArrayAligned n d \<Rightarrow> OpAligned d n | NewArrayAlignedNothrow n d \<Rightarrow> OpAligned d n
      | Delete a \<Rightarrow> OpFree a | DeleteSized a _ \<Rightarrow> OpFree a | DeleteArray a \<Rightarrow> OpFree a | DeleteArraySized a _ \<Rightarrow> OpFree a
      | DeleteNothrow a \<Rightarrow> OpFree a | DeleteArrayNothrow a \<Rightarrow> OpFree a | DeleteAligned a _ \<Rightarrow> OpFree a
      | DeleteAlignedNothrow a _ \<Rightarrow> OpFree a | DeleteSizedAligned a _ _ \<Rightarrow> OpFree a | DeleteArrayAligned a _ \<Rightarrow> OpFree a
      | DeleteArrayAlignedNothrow a _ \<Rightarrow> OpFree a | DeleteArraySizedAligned a _ _ \<Rightarrow> OpFree a)"

fun do_op :: "'l libc \<Rightarrow> assign_id \<Rightarrow> hawk_op \<Rightarrow> 'l process \<Rightarrow> ('l process \<times> int \<times> ptr) option" where
  "do_op L mid (OpMalloc n) p = (case hawk_malloc L mid n p of (q, a) \<Rightarrow> Some (q, 0, a))"
| "do_op L mid (OpCalloc m n) p = (case hawk_calloc L mid m n p of (q, a) \<Rightarrow> Some (q, 0, a))"
| "do_op L mid (OpAligned d n) p = map_option (\<lambda>(q, a). (q, 0, a)) (hawk_aligned_alloc L mid d n p)"
| "do_op L mid (OpMemalign d n) p = hawk_posix_memalign L mid d n p"
| "do_op L mid (OpValloc n) p = map_option (\<lambda>(q, a). (q, 0, a)) (hawk_valloc L mid n p)"
| "do_op L mid (OpPvalloc n) p = map_option (\<lambda>(q, a). (q, 0, a)) (hawk_pvalloc L mid n p)"
| "do_op L mid (OpRealloc b n) p = map_option (\<lambda>(q, a). (q, 0, a)) (hawk_realloc L mid b n p)"
| "do_op L mid (OpFree b) p = map_option (\<lambda>q. (q, 0, 0)) (hawk_free L b p)"

text \<open>The pointer the caller may use after the call.\<close>

definition obtained :: "outcome \<Rightarrow> ptr" where
  "obtained out = (case out of Pointer a \<Rightarrow> a | Code res a \<Rightarrow> if res = 0 then a else 0 | Done \<Rightarrow> 0 | BadAlloc \<Rightarrow> 0)"

lemma outcome_simps [simp]:
  "pointer (q, a) = (q, Pointer a)" "or_bad_alloc (q, a) = (q, if a = 0 then BadAlloc else Pointer a)"
  "obtained (Pointer a) = a" "obtained (Code res a) = (if res = 0 then a else 0)" "obtained Done = 0" "obtained BadAlloc = 0"
  by (simp_all add: pointer_def or_bad_alloc_def obtained_def)

lemma cxx_entry_do_op:
  assumes "do_op L mid (op_of en) p = Some (p', res, a)"
  shows "\<exists>out. cxx_entry L mid en p = Some (p', out) \<and> obtained out = (if res = 0 then a else 0)"
  using assms by (cases en) (auto simp: op_of_def split: prod.splits)

text \<open>
  What the program may ask for: sizes that leave room for the header, a usable alignment, page-aligned
  memory only after initialisation, and pointers that are null or live.
\<close>

fun request_ok :: "'l libc \<Rightarrow> block list \<Rightarrow> 'l process \<Rightarrow> hawk_op \<Rightarrow> bool" where
  "request_ok L live p (OpMalloc n) \<longleftrightarrow> unat n + 16 < 2 ^ 64"
| "request_ok L live p (OpCalloc m n) \<longleftrightarrow> unat m * unat n + 16 < 2 ^ 64 \<or> 2 ^ 64 \<le> unat m * unat n"
| "request_ok L live p (OpAligned d n) \<longleftrightarrow> 0 < unat d \<and> unat d \<le> 2 ^ 31 \<and> unat n + 16 + unat d < 2 ^ 64"
| "request_ok L live p (OpMemalign d n) \<longleftrightarrow> 0 < unat d \<and> unat d \<le> 2 ^ 31 \<and> unat n + 16 + unat d < 2 ^ 64"
| "request_ok L live p (OpValloc n) \<longleftrightarrow>
     gl_initialised p \<and> 0 < l_getpagesize L \<and> l_getpagesize L \<le> 2 ^ 31 \<and> int (unat n) + 16 + l_getpagesize L < 2 ^ 64"
| "request_ok L live p (OpPvalloc n) \<longleftrightarrow>
     gl_initialised p \<and> 0 < l_getpagesize L \<and> l_getpagesize L \<le> 2 ^ 31 \<and> int (unat n) + 16 + 2 * l_getpagesize L < 2 ^ 64"
| "request_ok L live p (OpRealloc b n) \<longleftrightarrow> (b = 0 \<or> b \<in> fst ` set live) \<and> unat n + 2 ^ 32 \<le> 2 ^ 64"
| "request_ok L live p (OpFree b) \<longleftrightarrow> b = 0 \<or> b \<in> fst ` set live"

text \<open>The alignment and the size that were asked for.\<close>

fun asked :: "'l libc \<Rightarrow> hawk_op \<Rightarrow> nat \<times> u64" where
  "asked L (OpMalloc n) = (16, n)"
| "asked L (OpCalloc m n) = (16, m * n)"
| "asked L (OpAligned d n) = (unat d, n)"
| "asked L (OpMemalign d n) = (unat d, n)"
| "asked L (OpValloc n) = (nat (l_getpagesize L), n)"
| "asked L (OpPvalloc n) = (nat (l_getpagesize L), n)"
| "asked L (OpRealloc b n) = (1, n)"
| "asked L (OpFree b) = (1, 0)"

text \<open>The blocks that are live after a call that gave the program the pointer \<open>a\<close>.\<close>

fun live_after :: "hawk_op \<Rightarrow> 'l process \<Rightarrow> ptr \<Rightarrow> block list \<Rightarrow> block list" where
  "live_after (OpFree b) p a live = without b live"
| "live_after (OpRealloc b n) p a live = (if a = 0 then live else with_block p a (without b live))"
| "live_after _ p a live = with_block p a live"

text \<open>A product of \<open>calloc\<close> that does not fit, and what a call may change that gives no block.\<close>

fun overflows :: "hawk_op \<Rightarrow> bool" where
  "overflows (OpCalloc m n) \<longleftrightarrow> 2 ^ 64 \<le> unat m * unat n"
| "overflows _ \<longleftrightarrow> False"

fun refused :: "hawk_op \<Rightarrow> 'l process \<Rightarrow> 'l process \<Rightarrow> bool" where
  "refused (OpFree b) p p' \<longleftrightarrow> True"
| "refused op p p' \<longleftrightarrow> (if overflows op then p' = p\<lparr>pr_errno := ENOMEM\<rparr> else only_libc p p')"

definition call_ok :: "'l libc \<Rightarrow> 'l regions \<Rightarrow> 'l regions \<Rightarrow> block list \<Rightarrow> hawk_op \<Rightarrow> 'l process \<Rightarrow> 'l process \<Rightarrow> ptr \<Rightarrow> bool" where
  "call_ok L blocks maps live op p p' a \<longleftrightarrow> heap_inv blocks maps (live_after op p' a live) p' \<and>
     (if a = 0 then refused op p p'
      else fst (asked L op) dvd unat a \<and> (\<exists>i. load_info p' a = Some i \<and> snd (asked L op) \<le> ai_size i)) \<and>
     gl_initialised p' = gl_initialised p \<and> gl_memhawkReady p' = gl_memhawkReady p"

lemma without_zero: "heap_inv blocks maps live p \<Longrightarrow> without 0 live = live"
  by (auto simp: without_def heap_inv_def heap_ok_def layout_def block_ok_def intro!: filter_True)

lemma unat_pagesize: "0 < k \<Longrightarrow> k \<le> 2 ^ 31 \<Longrightarrow> unat (of_int k :: u64) = nat k"
  by (simp add: unsigned_of_int take_bit_int_eq_self)

lemma page_request:
  assumes "0 < k" "k \<le> 2 ^ 31" "int (unat n) + 16 + k < 2 ^ 64"
  shows "0 < unat (of_int k :: u64)" "unat (of_int k :: u64) \<le> 2 ^ 31" "unat n + 16 + unat (of_int k :: u64) < 2 ^ 64"
proof -
  have k: "int (unat (of_int k :: u64)) = k" unfolding unat_pagesize [OF assms(1,2)] using assms(1) by simp
  have "int 0 < int (unat (of_int k :: u64))" "int (unat (of_int k :: u64)) \<le> int (2 ^ 31)"
    "int (unat n + 16 + unat (of_int k :: u64)) < int (2 ^ 64)"
    unfolding of_nat_add k using assms by simp_all
  then show "0 < unat (of_int k :: u64)" "unat (of_int k :: u64) \<le> 2 ^ 31" "unat n + 16 + unat (of_int k :: u64) < 2 ^ 64"
    by (simp_all only: of_nat_less_iff of_nat_le_iff)
qed

lemma realloc_null: "hawk_realloc L mid 0 n p = Some (hawk_malloc L mid n p)"
  by (simp add: hawk_realloc_def mmap_realloc_def hawk_malloc_def)

lemma grants_call:
  "grants blocks maps (fst (asked L op)) (snd (asked L op)) live p (p', a) \<Longrightarrow> \<forall>b n. op \<noteq> OpFree b \<and> op \<noteq> OpRealloc b n \<Longrightarrow>
   \<not> overflows op \<Longrightarrow> call_ok L blocks maps live op p p' a"
  by (cases op) (auto simp: grants_def call_ok_def)

lemma calloc_call_ok:
  assumes "libc_ok L blocks maps" "ids_ok mid" "heap_inv blocks maps live p" "request_ok L live p (OpCalloc m n)"
  shows "\<exists>p' res a. do_op L mid (OpCalloc m n) p = Some (p', res, a) \<and> call_ok L blocks maps live (OpCalloc m n) p p' (if res = 0 then a else 0)"
proof (cases "2 ^ 64 \<le> unat m * unat n")
  case True
  then have "hawk_calloc L mid m n p = (p\<lparr>pr_errno := ENOMEM\<rparr>, 0)" by (simp add: hawk_calloc_def)
  moreover have "heap_inv blocks maps live (p\<lparr>pr_errno := ENOMEM\<rparr>)"
    using assms(3) by (simp add: heap_inv_def heap_ok_def layout_def block_ok_def)
  ultimately show ?thesis using True by (simp add: call_ok_def with_block_def)
next
  case False
  then have "grants blocks maps 16 (m * n) live p (hawk_calloc L mid m n p)"
    using hawk_calloc_grants [OF assms(1-3)] assms(4) by simp
  then show ?thesis using False by (cases "hawk_calloc L mid m n p") (simp add: grants_call)
qed

lemma pvalloc_call_ok:
  assumes lok: "libc_ok L blocks maps" and mid: "ids_ok mid" and inv: "heap_inv blocks maps live p" and rq0: "request_ok L live p (OpPvalloc n)"
  shows "\<exists>p' res a. do_op L mid (OpPvalloc n) p = Some (p', res, a) \<and> call_ok L blocks maps live (OpPvalloc n) p p' (if res = 0 then a else 0)"
proof -
  let ?k = "of_int (l_getpagesize L) :: u64"
  have rq: "gl_initialised p" "0 < l_getpagesize L" "l_getpagesize L \<le> 2 ^ 31" "int (unat n) + 16 + 2 * l_getpagesize L < 2 ^ 64"
    using rq0 by simp_all
  have k: "unat ?k = nat (l_getpagesize L)" using rq by (simp add: unat_pagesize)
  have ik: "int (unat ?k) = l_getpagesize L" unfolding k using rq(2) by simp
  have "int (unat n) + 16 + l_getpagesize L < 2 ^ 64" using rq(2,4) by linarith
  from page_request [OF rq(2,3) this] have ceil: "0 < unat ?k" "unat n + unat ?k \<le> 2 ^ 64" by linarith+
  obtain n' where n': "align_ceil n ?k = Some n'" "unat n \<le> unat n'" "unat n' < unat n + unat ?k"
    using align_ceil_some [OF ceil] by blast
  have "int (unat n') + 16 + l_getpagesize L < 2 ^ 64" using n'(3) rq ik by linarith
  then obtain r where r: "hawk_aligned_alloc L mid ?k n' p = Some r" "grants blocks maps (unat ?k) n' live p r"
    using hawk_aligned_alloc_grants [OF lok mid inv page_request [OF rq(2,3)]] by blast
  have "grants blocks maps (unat ?k) n live p r"
    using r(2) n'(2) by (auto simp: grants_def word_le_nat_alt)
  then show ?thesis using rq n'(1) r(1) by (cases r) (simp add: hawk_pvalloc_def grants_call k)
qed

lemma realloc_call_ok:
  assumes lok: "libc_ok L blocks maps" and mid: "ids_ok mid" and inv: "heap_inv blocks maps live p" and rq0: "request_ok L live p (OpRealloc b n)"
  shows "\<exists>p' res a. do_op L mid (OpRealloc b n) p = Some (p', res, a) \<and> call_ok L blocks maps live (OpRealloc b n) p p' (if res = 0 then a else 0)"
proof (cases "b = 0")
  case True
  have "grants blocks maps 16 n live p (hawk_malloc L mid n p)"
    using hawk_malloc_grants [OF lok mid inv] rq0 by simp
  then show ?thesis
    using True without_zero [OF inv]
    by (cases "hawk_malloc L mid n p") (simp add: realloc_null call_ok_def grants_def with_block_def split: if_splits)
next
  case False
  then obtain e where e: "e \<in> set live" "b = fst e" using rq0 by auto
  obtain r where "hawk_realloc L mid (fst e) n p = Some r" "regrants blocks maps (fst e) n live p r"
    using hawk_realloc_regrants [OF lok mid inv e(1)] rq0 by (metis request_ok.simps(7))
  then show ?thesis using e(2) by (cases r) (auto simp: call_ok_def regrants_def)
qed

lemma do_op_call_ok:
  assumes lok: "libc_ok L blocks maps" and mid: "ids_ok mid" and inv: "heap_inv blocks maps live p"
    and "request_ok L live p op"
  shows "\<exists>p' res a. do_op L mid op p = Some (p', res, a) \<and> call_ok L blocks maps live op p p' (if res = 0 then a else 0)"
proof (cases op)
  case (OpMalloc n)
  have "grants blocks maps 16 n live p (hawk_malloc L mid n p)"
    using hawk_malloc_grants [OF lok mid inv] assms(4) OpMalloc by simp
  then show ?thesis using OpMalloc by (cases "hawk_malloc L mid n p") (simp add: grants_call)
next
  case (OpCalloc m n)
  then show ?thesis using calloc_call_ok [OF lok mid inv] assms(4) by blast
next
  case (OpAligned d n)
  obtain r where "hawk_aligned_alloc L mid d n p = Some r" "grants blocks maps (unat d) n live p r"
    using hawk_aligned_alloc_grants [OF lok mid inv] assms(4) OpAligned by (metis request_ok.simps(3))
  then show ?thesis using OpAligned by (cases r) (simp add: grants_call)
next
  case (OpMemalign d n)
  obtain p' res a where "hawk_posix_memalign L mid d n p = Some (p', res, a)"
    "grants blocks maps (unat d) n live p (p', if res = 0 then a else 0)"
    using hawk_posix_memalign_grants [OF lok mid inv] assms(4) OpMemalign by (metis request_ok.simps(4))
  then show ?thesis using OpMemalign by (simp add: grants_call)
next
  case (OpValloc n)
  let ?k = "of_int (l_getpagesize L) :: u64"
  have rq: "gl_initialised p" "0 < l_getpagesize L" "l_getpagesize L \<le> 2 ^ 31" "int (unat n) + 16 + l_getpagesize L < 2 ^ 64"
    using assms(4) OpValloc by simp_all
  obtain r where "hawk_aligned_alloc L mid ?k n p = Some r" "grants blocks maps (unat ?k) n live p r"
    using hawk_aligned_alloc_grants [OF lok mid inv page_request [OF rq(2-4)]] .
  then show ?thesis using OpValloc rq by (cases r) (simp add: hawk_valloc_def grants_call unat_pagesize)
next
  case (OpPvalloc n)
  then show ?thesis using pvalloc_call_ok [OF lok mid inv] assms(4) by blast
next
  case (OpRealloc b n)
  then show ?thesis using realloc_call_ok [OF lok mid inv] assms(4) by blast
next
  case (OpFree b)
  show ?thesis
  proof (cases "b = 0")
    case True
    then show ?thesis using OpFree inv without_zero [OF inv] by (simp add: hawk_free_def call_ok_def)
  next
    case False
    then obtain e where e: "e \<in> set live" "b = fst e" using assms(4) OpFree by auto
    then show ?thesis using hawk_free_inv [OF lok inv e(1)] OpFree by (auto simp: call_ok_def)
  qed
qed

section \<open>Runs\<close>

text \<open>
  The states of a process with its live blocks: any exported function may be called with a proper request,
  the hooks are resolved once, and MemHawk may be stopped.
\<close>

inductive hawk_reach :: "'l libc \<Rightarrow> assign_id \<Rightarrow> 'l \<Rightarrow> block list \<Rightarrow> 'l process \<Rightarrow> bool" for L mid l0 where
  start: "hawk_reach L mid l0 [] (process_start l0)"
| call: "hawk_reach L mid l0 live p \<Longrightarrow> request_ok L live p (op_of en) \<Longrightarrow> cxx_entry L mid en p = Some (p', out) \<Longrightarrow>
    hawk_reach L mid l0 (live_after (op_of en) p' (obtained out) live) p'"
| init: "hawk_reach L mid l0 live p \<Longrightarrow> \<not> gl_initialised p \<Longrightarrow> hawk_reach L mid l0 live (init_memhawk matches p)"
| deinit: "hawk_reach L mid l0 live p \<Longrightarrow> hawk_reach L mid l0 live (deinit_memhawk p)"

text \<open>The environment of a run: a C library that keeps its promises, nothing allocated at the start.\<close>

definition setting_ok :: "'l libc \<Rightarrow> assign_id \<Rightarrow> 'l regions \<Rightarrow> 'l regions \<Rightarrow> 'l \<Rightarrow> bool" where
  "setting_ok L mid blocks maps l0 \<longleftrightarrow> libc_ok L blocks maps \<and> ids_ok mid \<and> blocks l0 = {} \<and> maps l0 = {}"

lemma entry_call_ok:
  assumes "libc_ok L blocks maps" "ids_ok mid" "heap_inv blocks maps live p" "request_ok L live p (op_of en)"
  shows "\<exists>p' out. cxx_entry L mid en p = Some (p', out) \<and> call_ok L blocks maps live (op_of en) p p' (obtained out)"
proof -
  obtain p' res a where d: "do_op L mid (op_of en) p = Some (p', res, a)"
      "call_ok L blocks maps live (op_of en) p p' (if res = 0 then a else 0)"
    using do_op_call_ok [OF assms] by blast
  then obtain out where out: "cxx_entry L mid en p = Some (p', out)" "obtained out = (if res = 0 then a else 0)"
    using cxx_entry_do_op by blast
  show ?thesis using out(1) d(2) unfolding out(2) [symmetric] by blast
qed

lemma init_inv:
  assumes "heap_inv blocks maps live p" "\<not> gl_initialised p"
  shows "heap_inv blocks maps live (init_memhawk matches p)"
proof -
  have h: "pr_calls p = []" "\<forall>e \<in> set live. \<not> on_heap e" using assms by (simp_all add: heap_inv_def heap_ok_def)
  then have "live_sum live i = 0" for i by (simp add: live_sum_def filter_False)
  then have "same_live (told (init_memhawk matches p) i) (live_sum live i)" for i
    using h(1) by (simp add: same_live_def told_def call_log_def init_memhawk_def Let_def)
  then show ?thesis
    using assms(1) by (simp add: heap_inv_def heap_ok_def init_memhawk_def Let_def layout_def block_ok_def load_info_def)
qed

lemma reach_inv:
  assumes "setting_ok L mid blocks maps l0" "hawk_reach L mid l0 live p"
  shows "heap_inv blocks maps live p"
  using assms(2)
proof induction
  case start
  then show ?case
    using assms(1) by (simp add: setting_ok_def process_start_def heap_inv_def heap_ok_def layout_def)
next
  case (call live p en p' out)
  then show ?case
    using entry_call_ok [of L blocks maps mid live p en] assms(1) by (auto simp: setting_ok_def call_ok_def)
next
  case (init live p matches)
  then show ?case by (intro init_inv)
next
  case (deinit live p)
  then show ?case
    by (simp add: heap_inv_def heap_ok_def deinit_memhawk_def layout_def block_ok_def load_info_def told_def call_log_def)
qed

end
