(* ===== verification/Hawk_Safety.thy ===== *)
theory Hawk_Safety
  imports Hawk_Run
begin

text \<open>
  The guarantees of the allocation functions in every reachable state, and a small C library that keeps
  the promises of \<open>libc_ok\<close>, on which the witnesses run.
\<close>

section \<open>A small C library\<close>

text \<open>
  The state is the list of allocated and the list of mapped regions. New regions are placed above all
  others, rounded up to the alignment; null when the address space is used up.
\<close>

type_synonym small = "(ptr \<times> u64) list \<times> (ptr \<times> u64) list"

definition top_of :: "(ptr \<times> u64) list \<Rightarrow> nat" where
  "top_of rs = foldr (\<lambda>r t. max (unat (fst r) + unat (snd r)) t) rs 4096"

definition place :: "small \<Rightarrow> nat \<Rightarrow> u64 \<Rightarrow> ptr" where
  "place l d n =
     (let q = (top_of (fst l @ snd l) + d - 1) div d * d
      in if d = 0 \<or> 2 ^ 64 \<le> q + unat n then 0 else of_nat q)"

definition small_alloc :: "small \<Rightarrow> nat \<Rightarrow> u64 \<Rightarrow> small \<times> ptr" where
  "small_alloc l d n = (let q = place l d n in if q = 0 then (l, 0) else (((q, n) # fst l, snd l), q))"

definition small_free :: "small \<Rightarrow> ptr \<Rightarrow> small" where
  "small_free l r = (filter (\<lambda>x. fst x \<noteq> r) (fst l), snd l)"

definition small_libc :: "small libc" where
  "small_libc =
     \<lparr>l_malloc = (\<lambda>l n. small_alloc l 16 n),
      l_calloc = (\<lambda>l m n. small_alloc l 16 (m * n)),
      l_realloc = (\<lambda>l r n. if n = 0 then (l, 0)
        else (let (l', q) = small_alloc l 16 n in if q = 0 then (l, 0) else (((q, n) # fst (small_free l r), snd l), q))),
      l_aligned_alloc = (\<lambda>l a n. small_alloc l (unat a) n),
      l_posix_memalign = (\<lambda>l a n. let (l', q) = small_alloc l (unat a) n in if q = 0 then (l, 12, 0) else (l', 0, q)),
      l_free = small_free,
      l_mmap = (\<lambda>l n. let q = place l 4096 n in if q = 0 then (l, MAP_FAILED) else ((fst l, (q, n) # snd l), q)),
      l_munmap = (\<lambda>l r m. (fst l, filter (\<lambda>x. x \<noteq> (r, m)) (snd l))),
      l_memcpy = (\<lambda>l d s n. l),
      l_memset0 = (\<lambda>l d n. l),
      l_getpagesize = 4096,
      l_dlopen = (\<lambda>l f m. (l, 0)),
      l_dlclose = (\<lambda>l h. (l, 0))\<rparr>"

definition small_blocks :: "small \<Rightarrow> (ptr \<times> u64) set" where
  "small_blocks l = set (fst l)"

definition small_maps :: "small \<Rightarrow> (ptr \<times> u64) set" where
  "small_maps l = set (snd l)"

lemma top_of_ge: "r \<in> set rs \<Longrightarrow> unat (fst r) + unat (snd r) \<le> top_of rs" "4096 \<le> top_of rs"
  by (induction rs) (auto simp: top_of_def)

lemma place_fits:
  assumes "place l d n \<noteq> 0"
  shows "fits (small_blocks l \<union> small_maps l) (place l d n) n" "d dvd unat (place l d n)"
proof -
  define q where "q = (top_of (fst l @ snd l) + d - 1) div d * d"
  have d: "0 < d" "q + unat n < 2 ^ 64" "place l d n = of_nat q"
    using assms by (auto simp: place_def q_def Let_def split: if_splits)
  have ge: "top_of (fst l @ snd l) \<le> q" "d dvd q"
    using ceil_nat [OF d(1), of "top_of (fst l @ snd l)"] by (simp_all add: q_def)
  have u: "unat (place l d n) = q" unfolding d(3) using d(2) by (simp add: unat_of_nat)
  show "d dvd unat (place l d n)" using u ge by simp
  have "span r \<inter> span (place l d n, n) = {}" if "r \<in> small_blocks l \<union> small_maps l" for r
  proof -
    have "r \<in> set (fst l @ snd l)" using that by (simp add: small_blocks_def small_maps_def)
    then have "unat (fst r) + unat (snd r) \<le> q" using top_of_ge(1) ge(1) le_trans by blast
    then show ?thesis by (auto simp: span_def u)
  qed
  then show "fits (small_blocks l \<union> small_maps l) (place l d n) n" using assms d(2) by (auto simp: fits_def u)
qed

lemma small_alloc_allocates: "small_alloc l d n = (l', q) \<Longrightarrow> allocates small_blocks small_maps d n l l' q"
proof (cases "place l d n = 0")
  case False
  assume a: "small_alloc l d n = (l', q)"
  have "q = place l d n" "small_blocks l' = insert (q, n) (small_blocks l)" "small_maps l' = small_maps l"
    using a False by (auto simp: small_alloc_def Let_def small_blocks_def small_maps_def)
  then show ?thesis using False place_fits [OF False] by (simp add: allocates_def)
qed (auto simp: small_alloc_def allocates_def)

lemma small_free_blocks:
  assumes "the_block (small_blocks l) r m"
  shows "small_blocks (small_free l r) = small_blocks l - {(r, m)}" "small_maps (small_free l r) = small_maps l"
proof -
  have "fst x \<noteq> r \<longleftrightarrow> x \<noteq> (r, m)" if "x \<in> set (fst l)" for x
    using assms that by (cases x) (simp add: the_block_def small_blocks_def, metis)
  then show "small_blocks (small_free l r) = small_blocks l - {(r, m)}"
    unfolding small_blocks_def small_free_def fst_conv set_filter by blast
  show "small_maps (small_free l r) = small_maps l" by (simp add: small_maps_def small_free_def)
qed

lemma small_realloc_ok: "realloc_ok small_libc small_blocks small_maps"
proof -
  have key: "small_maps l' = small_maps l \<and>
      (if q = 0 then small_blocks l' = small_blocks l
       else fits (small_blocks l - {(r, m)} \<union> small_maps l) q n \<and> 16 dvd unat q \<and>
         small_blocks l' = insert (q, n) (small_blocks l - {(r, m)}))"
    if "the_block (small_blocks l) r m" "n \<noteq> 0" "l_realloc small_libc l r n = (l', q)" for l r m n l' q
  proof (cases "place l 16 n = 0")
    case True
    then show ?thesis using that(2,3) by (simp add: small_libc_def small_alloc_def)
  next
    case False
    have "fits (small_blocks l - {(r, m)} \<union> small_maps l) (place l 16 n) n"
      using place_fits(1) [OF False] by (auto simp: fits_def)
    moreover have "l' = ((place l 16 n, n) # fst (small_free l r), snd l)" "q = place l 16 n"
      using that(2,3) False by (auto simp: small_libc_def small_alloc_def Let_def)
    moreover from this have "small_blocks l' = insert (q, n) (small_blocks (small_free l r))" "small_maps l' = small_maps l"
      by (simp_all add: small_blocks_def small_maps_def)
    ultimately show ?thesis
      using False place_fits(2) [OF False] small_free_blocks(1) [OF that(1)] by simp
  qed
  have "l_free small_libc = small_free" by (simp add: small_libc_def)
  note free = small_free_blocks [folded this]
  show ?thesis unfolding realloc_ok_def
    by (rule conjI; intro allI impI; (rule case_prodI2, erule conjE, rule key; assumption)?; rule conjI; rule free; assumption)
qed

lemma small_mmap_ok: "mmap_ok small_libc small_blocks small_maps"
proof -
  have "place l 4096 n \<noteq> MAP_FAILED" "16 dvd unat (place l 4096 n)" for l n
  proof -
    have "4096 dvd unat (place l 4096 n)"
      using place_fits(2) [of l 4096 n] by (cases "place l 4096 n = 0") simp_all
    then show "16 dvd unat (place l 4096 n)" using dvd_trans [of 16 "4096 :: nat"] by simp
    moreover have "unat MAP_FAILED = 2 ^ 64 - 1" by (simp add: MAP_FAILED_def unsigned_minus_1_eq_mask mask_eq_exp_minus_1)
    ultimately show "place l 4096 n \<noteq> MAP_FAILED" by auto
  qed
  then show ?thesis
    using place_fits(1)
    by (auto simp: mmap_ok_def small_libc_def Let_def small_blocks_def small_maps_def)
qed

lemma small_libc_ok: "libc_ok small_libc small_blocks small_maps"
proof -
  have "malloc_ok small_libc small_blocks small_maps" "memalign_ok small_libc small_blocks small_maps"
    using small_alloc_allocates unfolding malloc_ok_def memalign_ok_def
    by (auto simp: small_libc_def Let_def allocates_def split: prod.splits)
  then show ?thesis
    using small_realloc_ok small_mmap_ok by (simp add: libc_ok_def copy_ok_def small_libc_def)
qed

lemma small_setting: "(\<And>cs i. mid cs i \<noteq> InvalidTraceId) \<Longrightarrow> setting_ok small_libc mid small_blocks small_maps ([], [])"
  using small_libc_ok by (simp add: setting_ok_def ids_ok_def small_blocks_def small_maps_def)

section \<open>Properties\<close>

text \<open>
  C6. Calls return and give what was asked for. In every reachable state every exported function, called
  with a proper request, returns (no header is read where none was written, nothing is divided by zero,
  no path aborts); a pointer it gives is aligned as asked, has a header, and has at least the requested
  size.
\<close>

theorem calls_return:
  assumes "setting_ok L mid blocks maps l0" "hawk_reach L mid l0 live p" "request_ok L live p (op_of en)"
  shows "\<exists>p' out. cxx_entry L mid en p = Some (p', out) \<and>
    (obtained out = 0 \<or>
     fst (asked L (op_of en)) dvd unat (obtained out) \<and>
     (\<exists>i. load_info p' (obtained out) = Some i \<and> snd (asked L (op_of en)) \<le> ai_size i))"
proof -
  have "libc_ok L blocks maps" "ids_ok mid" using assms(1) by (simp_all add: setting_ok_def)
  from entry_call_ok [OF this reach_inv [OF assms(1,2)] assms(3)]
  show ?thesis unfolding call_ok_def by (elim exE conjE) (intro exI conjI, assumption, simp split: if_splits)
qed

text \<open>
  C7. Blocks stay apart and nothing leaks. In every reachable state the header of every live block is as it
  was written and lies inside its region; the regions of two live blocks, header and data, do not overlap;
  and the regions that the C library and the kernel regard as in use are exactly those of the live
  blocks: none are in use when no block is live.
\<close>

theorem blocks_intact:
  assumes "setting_ok L mid blocks maps l0" "hawk_reach L mid l0 live p"
  shows "(\<forall>e \<in> set live. load_info p (fst e) = Some (snd e) \<and> unat (fst e - AdditionalSize) \<in> span (region e)) \<and>
    (\<forall>e \<in> set live. \<forall>e' \<in> set live. e \<noteq> e' \<longrightarrow> span (region e) \<inter> span (region e') = {}) \<and>
    blocks (pr_libc p) = region ` {x \<in> set live. on_heap x} \<and> maps (pr_libc p) = region ` {x \<in> set live. \<not> on_heap x}"
proof -
  have inv: "heap_inv blocks maps live p" by (rule reach_inv [OF assms])
  then have lay: "layout live p" by (simp add: heap_inv_def heap_ok_def)
  then have "unat (fst e - AdditionalSize) \<in> span (region e)" if "e \<in> set live" for e
    using that region_facts(3) [of p e] by (simp add: layout_def)
  moreover have "blocks (pr_libc p) = region ` {x \<in> set live. on_heap x} \<and> maps (pr_libc p) = region ` {x \<in> set live. \<not> on_heap x}"
    using inv by (simp add: heap_inv_def heap_ok_def)
  ultimately show ?thesis using live_header [OF inv] lay unfolding layout_def by blast
qed

text \<open>
  The books balance. While MemHawk is ready, for every stack trace identifier, the sizes, header
  overheads and counts it was told add up to those of the live blocks with that identifier.
\<close>

theorem told_matches_live:
  assumes "setting_ok L mid blocks maps l0" "hawk_reach L mid l0 live p" "gl_memhawkReady p"
  shows "same_live (told p i) (live_sum live i)"
  using reach_inv [OF assms(1,2)] assms(3) by (simp add: heap_inv_def heap_ok_def)

text \<open>
  What is freed goes back where it came from: \<open>hawk_free\<close> on a live block returns, and takes exactly
  the region that the library (or \<open>mmap\<close>, before initialisation) had handed out, header included.
\<close>

theorem free_gives_back:
  assumes "setting_ok L mid blocks maps l0" "hawk_reach L mid l0 live p" "e \<in> set live"
  shows "\<exists>p'. hawk_free L (fst e) p = Some p' \<and> region e \<in> blocks (pr_libc p) \<union> maps (pr_libc p) \<and>
    blocks (pr_libc p') = blocks (pr_libc p) - (if on_heap e then {region e} else {}) \<and>
    maps (pr_libc p') = maps (pr_libc p) - (if on_heap e then {} else {region e})"
proof -
  have inv: "heap_inv blocks maps live p" by (rule reach_inv [OF assms(1,2)])
  then have lay: "layout live p" by (simp add: heap_inv_def heap_ok_def)
  obtain p' where p': "hawk_free L (fst e) p = Some p'" "heap_inv blocks maps (without (fst e) live) p'"
    using hawk_free_inv [OF _ inv assms(3)] assms(1) unfolding setting_ok_def by blast
  have "region e \<in> blocks (pr_libc p) \<union> maps (pr_libc p)"
    using inv assms(3) unfolding heap_inv_def inv_regions [OF inv [unfolded heap_inv_def]] by blast
  then show ?thesis
    using p' inv region_without [OF lay assms(3), of on_heap] region_without [OF lay assms(3), of "\<lambda>x. \<not> on_heap x"]
    by (simp add: heap_inv_def heap_ok_def)
qed

text \<open>How an exported function tells its caller that it has no block.\<close>

fun throwing :: "entry \<Rightarrow> bool" where
  "throwing (New n) \<longleftrightarrow> True"
| "throwing (NewArray n) \<longleftrightarrow> True"
| "throwing (NewAligned n d) \<longleftrightarrow> True"
| "throwing (NewArrayAligned n d) \<longleftrightarrow> True"
| "throwing _ \<longleftrightarrow> False"

fun fails_as :: "bool \<Rightarrow> entry \<Rightarrow> outcome \<Rightarrow> bool" where
  "fails_as initialised (E_posix_memalign d n) out \<longleftrightarrow> (\<exists>res a. out = Code res a \<and> (res \<noteq> 0 \<longleftrightarrow> initialised))"
| "fails_as initialised en out \<longleftrightarrow> out = (if throwing en then BadAlloc else Pointer 0)"

lemma refusedE:
  assumes "if c then p' = p\<lparr>pr_errno := ENOMEM\<rparr> else only_libc p p'"
  obtains l where "p' = p\<lparr>pr_libc := l, pr_errno := if c then ENOMEM else pr_errno p\<rparr>"
proof (cases c)
  case True
  then show thesis using assms that [of "pr_libc p"] by simp
next
  case False
  then obtain l where "p' = p\<lparr>pr_libc := l\<rparr>" using assms by (auto simp: only_libc_def)
  then show thesis using False that [of l] by simp
qed

lemma TrackAllocation_stores: "pr_infos (TrackAllocation mid a sz off p) \<noteq> pr_infos p"
  by (simp add: TrackAllocation_def store_info_def Let_def)

lemma memalign_code:
  assumes "hawk_posix_memalign L mid d n p = Some (p', res, a)" "pr_infos p' = pr_infos p"
  shows "res \<noteq> 0 \<longleftrightarrow> gl_initialised p"
  using assms TrackAllocation_stores [of mid _ _ _ "p\<lparr>pr_libc := _\<rparr>"]
  by (auto simp: hawk_posix_memalign_def Let_def split: if_splits bind_splits prod.splits)

lemma fails_as_entry:
  assumes "cxx_entry L mid en p = Some (p', out)" "obtained out = 0" "\<forall>b. op_of en \<noteq> OpFree b" "pr_infos p' = pr_infos p"
  shows "fails_as (gl_initialised p) en out"
proof (cases "\<exists>d n. en = E_posix_memalign d n")
  case True
  then obtain d n where en: "en = E_posix_memalign d n" by blast
  then obtain res a where "hawk_posix_memalign L mid d n p = Some (p', res, a)" "out = Code res a"
    using assms(1) by (auto split: bind_splits)
  then show ?thesis using en memalign_code [OF _ assms(4)] by auto
next
  case False
  then show ?thesis using assms(1-3)
    by (cases en) (auto simp: op_of_def pointer_def or_bad_alloc_def split: prod.splits if_splits)
qed

text \<open>
  C21. Failure. In every reachable state, when an exported function that allocates (all of them but the
  functions that free) was properly called and gives no block, then nothing has happened: every header is
  as it was, also that of a block that was to be reallocated, MemHawk is told nothing, and the same regions
  are in use. The throwing operators, and only they, end with \<open>bad_alloc\<close>; \<open>posix_memalign\<close> returns an error
  code once the hooks are initialised, but zero before; all others return null. A \<open>calloc\<close> whose size does
  not fit in 64 bits sets \<open>ENOMEM\<close>.
\<close>

theorem allocation_failure:
  assumes "setting_ok L mid blocks maps l0" "hawk_reach L mid l0 live p" "request_ok L live p (op_of en)"
    and "cxx_entry L mid en p = Some (p', out)" "obtained out = 0" "\<forall>b. op_of en \<noteq> OpFree b"
  shows "pr_infos p' = pr_infos p \<and> pr_calls p' = pr_calls p \<and>
    blocks (pr_libc p') = blocks (pr_libc p) \<and> maps (pr_libc p') = maps (pr_libc p) \<and>
    fails_as (gl_initialised p) en out \<and> pr_errno p' = (if overflows (op_of en) then ENOMEM else pr_errno p)"
proof -
  have L: "libc_ok L blocks maps" "ids_ok mid" using assms(1) by (simp_all add: setting_ok_def)
  have inv: "heap_inv blocks maps live p" by (rule reach_inv [OF assms(1,2)])
  have ok: "call_ok L blocks maps live (op_of en) p p' 0"
    using entry_call_ok [OF L inv assms(3)] assms(4,5) by auto
  then have "refused (op_of en) p p'" by (simp add: call_ok_def)
  then have "if overflows (op_of en) then p' = p\<lparr>pr_errno := ENOMEM\<rparr> else only_libc p p'"
    using assms(6) by (cases "op_of en") simp_all
  then obtain l where same: "p' = p\<lparr>pr_libc := l, pr_errno := if overflows (op_of en) then ENOMEM else pr_errno p\<rparr>"
    by (rule refusedE)
  then have info: "pr_infos p' = pr_infos p" "pr_calls p' = pr_calls p" by simp_all
  have "live_after (op_of en) p' 0 live = live" using assms(6) by (cases "op_of en") (simp_all add: with_block_def)
  then have "heap_inv blocks maps live p'" using ok by (simp add: call_ok_def)
  then show ?thesis using inv same info fails_as_entry [OF assms(4-6) info(1)] by (simp add: heap_inv_def heap_ok_def)
qed

text \<open>
  C29. The size of a request is added to the size of the header without a check: asked for the largest
  size, \<open>hawk_malloc\<close> takes 15 bytes from the library, and the block it returns has a header that
  promises all of the requested size.
\<close>

theorem malloc_size_wraps:
  assumes "gl_initialised p" "l_malloc L (pr_libc p) 15 = (l, raw)" "raw \<noteq> 0"
  shows "\<exists>p' i. hawk_malloc L mid (- 1) p = (p', raw + AdditionalSize) \<and> pr_libc p' = l \<and>
    load_info p' (raw + AdditionalSize) = Some i \<and> unat (ai_size i) = 2 ^ 64 - 1"
proof -
  let ?p = "p\<lparr>pr_libc := l\<rparr>" and ?a = "raw + AdditionalSize"
  have "hawk_malloc L mid (- 1) p = (TrackAllocation mid ?a (- 1) (ucast AdditionalSize) ?p, ?a)"
    using assms by (simp add: hawk_malloc_def AdditionalSize_def Let_def)
  moreover have "unat (- 1 :: u64) = 2 ^ 64 - 1" by (simp add: unsigned_minus_1_eq_mask mask_eq_exp_minus_1)
  ultimately show ?thesis
    by (intro exI [of _ "TrackAllocation mid ?a (- 1) (ucast AdditionalSize) ?p"] exI [of _ "header mid ?p (- 1) (ucast AdditionalSize)"])
      (simp add: TrackAllocation_eff)
qed

section \<open>Witnesses\<close>

text \<open>
  A run on the small library: a block before initialisation, initialisation, a block of the
  library.
\<close>

definition small_mid :: assign_id where
  "small_mid cs i = 7"

lemma small_ok: "setting_ok small_libc small_mid small_blocks small_maps ([], [])"
  by (rule small_setting) (simp add: small_mid_def InvalidTraceId_def)

definition small_p1 :: "small process" where
  "small_p1 = fst (hawk_malloc small_libc small_mid 100 (process_start ([], [])))"

definition small_p2 :: "small process" where
  "small_p2 = fst (hawk_malloc small_libc small_mid 40 (init_memhawk True small_p1))"

lemma small_run1:
  "hawk_malloc small_libc small_mid 100 (process_start ([], [])) = (small_p1, 4112)"
  "load_info small_p1 4112 = Some (invalid_header 100 16)" "\<not> gl_initialised small_p1"
  by (simp_all add: small_p1_def hawk_malloc_def process_start_def mmap_malloc_def small_libc_def place_def top_of_def
      AdditionalSize_def MAP_FAILED_def Let_def load_info_def store_info_def invalid_header_def)

lemma small_run2:
  "hawk_malloc small_libc small_mid 40 (init_memhawk True small_p1) = (small_p2, 4240)"
  "load_info small_p2 4240 = Some \<lparr>ai_size = 40, ai_offset = 16, ai_traceId = 7\<rparr>"
  "gl_initialised small_p2" "gl_memhawkReady small_p2" "pr_libc small_p2 = ([(4224, 56)], [(4096, 116)])"
  by (simp_all add: small_p1_def small_p2_def hawk_malloc_def process_start_def mmap_malloc_def small_libc_def place_def
      top_of_def AdditionalSize_def MAP_FAILED_def Let_def load_info_def store_info_def init_memhawk_def small_alloc_def
      TrackAllocation_def mk_AllocInfo_def small_mid_def)

definition small_live :: "block list" where
  "small_live = [(4240, \<lparr>ai_size = 40, ai_offset = 16, ai_traceId = 7\<rparr>), (4112, invalid_header 100 16)]"

lemma small_reach: "hawk_reach small_libc small_mid ([], []) small_live small_p2"
proof -
  have "hawk_reach small_libc small_mid ([], []) (live_after (op_of (E_malloc 100)) small_p1 (obtained (Pointer 4112)) []) small_p1"
    by (rule hawk_reach.call [OF hawk_reach.start]) (simp_all add: op_of_def small_run1)
  then have "hawk_reach small_libc small_mid ([], []) [(4112, invalid_header 100 16)] (init_memhawk True small_p1)"
    using small_run1 by (intro hawk_reach.init) (simp_all add: op_of_def with_block_def)
  then have "hawk_reach small_libc small_mid ([], [])
      (live_after (op_of (E_malloc 40)) small_p2 (obtained (Pointer 4240)) [(4112, invalid_header 100 16)]) small_p2"
    by (rule hawk_reach.call) (simp_all add: op_of_def small_run2)
  then show ?thesis by (simp add: op_of_def with_block_def small_run2 small_live_def)
qed

theorem calls_return_witness:
  "\<exists>p' out. cxx_entry small_libc small_mid (E_aligned_alloc 64 10) small_p2 = Some (p', out) \<and>
    (obtained out = 0 \<or> 64 dvd unat (obtained out) \<and> (\<exists>i. load_info p' (obtained out) = Some i \<and> 10 \<le> ai_size i))"
  using calls_return [OF small_ok small_reach, of "E_aligned_alloc 64 10"] by (simp add: op_of_def)

theorem blocks_intact_witness:
  "load_info small_p2 4240 = Some \<lparr>ai_size = 40, ai_offset = 16, ai_traceId = 7\<rparr> \<and>
   span (region (4240, \<lparr>ai_size = 40, ai_offset = 16, ai_traceId = 7\<rparr>)) \<inter> span (region (4112, invalid_header 100 16)) = {} \<and>
   small_blocks (pr_libc small_p2) = region ` {x \<in> set small_live. on_heap x} \<and> small_blocks ([], []) = {}"
  using blocks_intact [OF small_ok small_reach] blocks_intact [OF small_ok hawk_reach.start]
  by (simp add: small_live_def process_start_def)

theorem told_matches_live_witness: "same_live (told small_p2 7) (live_sum small_live 7) \<and> gl_memhawkReady small_p2"
  using told_matches_live [OF small_ok small_reach small_run2(4)] small_run2(4) by simp

theorem free_gives_back_witness:
  "\<exists>p'. hawk_free small_libc 4240 small_p2 = Some p' \<and> small_blocks (pr_libc p') = {} \<and>
    small_maps (pr_libc p') = {(4096, 116)}"
  using free_gives_back [OF small_ok small_reach, of "(4240, \<lparr>ai_size = 40, ai_offset = 16, ai_traceId = 7\<rparr>)"]
  by (simp add: small_live_def on_heap_def InvalidTraceId_def region_def small_blocks_def small_maps_def small_run2)

text \<open>Requests that are larger than the address space above the blocks of the small library.\<close>

lemma small_full:
  "hawk_malloc small_libc small_mid (- 100) small_p2 = (small_p2, 0)"
  "hawk_posix_memalign small_libc small_mid 64 (- 200) small_p2 = Some (small_p2, 12, 0)"
  "hawk_posix_memalign small_libc small_mid 64 (- 200) (process_start ([], [])) = Some (process_start ([], []), 0, 0)"
  by (simp_all add: hawk_malloc_def hawk_posix_memalign_def mmap_alloc_aligned_def process_start_def align_ceil_def small_run2
      small_libc_def small_alloc_def place_def top_of_def AdditionalSize_def)

theorem allocation_failure_witness:
  "cxx_entry small_libc small_mid (New (- 100)) small_p2 = Some (small_p2, BadAlloc) \<and> fails_as True (New (- 100)) BadAlloc \<and>
   fails_as True (E_posix_memalign 64 (- 200)) (Code 12 0) \<and>
   cxx_entry small_libc small_mid (E_posix_memalign 64 (- 200)) (process_start ([], [])) = Some (process_start ([], []), Code 0 0) \<and>
   fails_as False (E_posix_memalign 64 (- 200)) (Code 0 0)"
proof -
  have c: "cxx_entry small_libc small_mid (New (- 100)) small_p2 = Some (small_p2, BadAlloc)"
    "cxx_entry small_libc small_mid (E_posix_memalign 64 (- 200)) small_p2 = Some (small_p2, Code 12 0)"
    "cxx_entry small_libc small_mid (E_posix_memalign 64 (- 200)) (process_start ([], [])) = Some (process_start ([], []), Code 0 0)"
    by (simp_all add: small_full)
  have r: "request_ok small_libc live p (op_of (New (- 100)))" "request_ok small_libc live p (op_of (E_posix_memalign 64 (- 200)))" for live p
    by (simp_all add: op_of_def)
  note f = allocation_failure [OF small_ok small_reach r(1) c(1)] allocation_failure [OF small_ok small_reach r(2) c(2)]
    allocation_failure [OF small_ok hawk_reach.start r(2) c(3)]
  then show ?thesis using c by (simp add: op_of_def small_run2 process_start_def)
qed

theorem malloc_size_wraps_witness:
  "\<exists>p' i. hawk_malloc small_libc small_mid (- 1) small_p2 = (p', 4304) \<and> load_info p' 4304 = Some i \<and>
    unat (ai_size i) = 2 ^ 64 - 1 \<and> pr_libc p' = ([(4288, 15), (4224, 56)], [(4096, 116)])"
proof -
  have "l_malloc small_libc (pr_libc small_p2) 15 = (([(4288, 15), (4224, 56)], [(4096, 116)]), 4288)"
    by (simp add: small_run2 small_libc_def small_alloc_def place_def top_of_def)
  from malloc_size_wraps [OF small_run2(3) this, of small_mid] show ?thesis by (auto simp: AdditionalSize_def)
qed

end
