(* ===== verification/Flame_Trie.thy ===== *)
theory Flame_Trie
  imports MH_Prelude
begin

text \<open>
  The compressed trie of the flame graph tool (\<open>src/source/flamegraph/src/graph.h\<close>): building it.

  Nodes and path elements are in two growing arrays; a node holds the span of its path, its outgoing edges
  by first key, and the 64-bit sums \<open>total\<close> (of the subtree) and \<open>value\<close> (of the paths that end in it),
  which wrap. \<open>None\<close> is an access outside an array; the loop of \<open>Append\<close> is a partial function, so
  \<open>Some\<close> also says that it ends.
\<close>

section \<open>The model\<close>

record PathSpan =
  ps_begin :: u32
  ps_end :: u32

definition ps_size :: "PathSpan \<Rightarrow> nat" where
  "ps_size s = unat (ps_end s - ps_begin s)"

definition ps_offset :: "u32 \<Rightarrow> PathSpan \<Rightarrow> PathSpan" where
  "ps_offset count s = \<lparr>ps_begin = ps_begin s + count, ps_end = ps_end s\<rparr>"

definition ps_first :: "u32 \<Rightarrow> PathSpan \<Rightarrow> PathSpan" where
  "ps_first count s = \<lparr>ps_begin = ps_begin s, ps_end = ps_begin s + count\<rparr>"

record TrieNode =
  nd_path :: PathSpan
  nd_edges :: "(u32 \<times> u32) list"
  nd_total :: u64
  nd_value :: u64

record CompressedTrie =
  m_nodes :: "TrieNode list"
  m_paths :: "u32 list"

definition Node_empty :: TrieNode where
  "Node_empty = \<lparr>nd_path = \<lparr>ps_begin = 0, ps_end = 0\<rparr>, nd_edges = [], nd_total = 0, nd_value = 0\<rparr>"

definition CompressedTrie_new :: CompressedTrie where
  "CompressedTrie_new = \<lparr>m_nodes = [Node_empty], m_paths = []\<rparr>"

definition CreatePath :: "u32 list \<Rightarrow> CompressedTrie \<Rightarrow> CompressedTrie \<times> PathSpan" where
  "CreatePath path t =
     (let first = of_nat (length (m_paths t));
          t = t\<lparr>m_paths := m_paths t @ path\<rparr>;
          last = of_nat (length (m_paths t))
      in (t, \<lparr>ps_begin = first, ps_end = last\<rparr>))"

text \<open>The loop of \<open>SplitPath\<close>, from \<open>matched\<close> with \<open>n\<close> more elements to compare.\<close>

fun match_loop :: "u32 list \<Rightarrow> nat \<Rightarrow> u32 list \<Rightarrow> nat \<Rightarrow> nat \<Rightarrow> nat option" where
  "match_loop paths b path matched 0 = Some matched"
| "match_loop paths b path matched (Suc n) =
     do { x \<leftarrow> rd path matched;
          y \<leftarrow> rd paths (b + matched);
          if x \<noteq> y then Some matched else match_loop paths b path (Suc matched) n }"

definition SplitPath :: "u32 \<Rightarrow> u32 list \<Rightarrow> CompressedTrie \<Rightarrow> (CompressedTrie \<times> nat) option" where
  "SplitPath root path t =
     do { node \<leftarrow> rd (m_nodes t) (unat root);
          let nodePath = nd_path node;
          let maxMatched = min (length path) (ps_size nodePath);
          matched \<leftarrow> match_loop (m_paths t) (unat (ps_begin nodePath)) path 0 maxMatched;
          if matched = ps_size nodePath then Some (t, matched)
          else do { key \<leftarrow> rd (m_paths t) (unat (ps_begin nodePath + of_nat matched));
                    let matchedSpan = ps_first (of_nat matched) nodePath;
                    let leftoverSpan = ps_offset (of_nat matched) nodePath;
                    let leftoverNodeId = of_nat (length (m_nodes t));
                    let leftoverNode = node\<lparr>nd_path := leftoverSpan\<rparr>;
                    let node = node\<lparr>nd_path := matchedSpan, nd_edges := [(key, leftoverNodeId)], nd_value := 0\<rparr>;
                    Some (t\<lparr>m_nodes := (m_nodes t)[unat root := node] @ [leftoverNode]\<rparr>, matched) } }"

text \<open>The edge to follow for the rest of the path: an existing one, or a new node that holds the rest.\<close>

definition follow_edge :: "u32 \<Rightarrow> u32 list \<Rightarrow> CompressedTrie \<Rightarrow> (CompressedTrie \<times> u32) option" where
  "follow_edge root path t =
     do { node \<leftarrow> rd (m_nodes t) (unat root);
          key \<leftarrow> rd path 0;
          case map_of (nd_edges node) key of
            Some next \<Rightarrow> Some (t, next)
          | None \<Rightarrow>
              (let nextNodeId = of_nat (length (m_nodes t));
                   (t, span) = CreatePath path t;
                   node = node\<lparr>nd_edges := map_insert key nextNodeId (nd_edges node)\<rparr>;
                   new = \<lparr>nd_path = span, nd_edges = [], nd_total = 0, nd_value = 0\<rparr>
               in Some (t\<lparr>m_nodes := (m_nodes t)[unat root := node] @ [new]\<rparr>, nextNodeId)) }"

definition add_total :: "u64 \<Rightarrow> u32 \<Rightarrow> CompressedTrie \<Rightarrow> CompressedTrie option" where
  "add_total value root t =
     do { node \<leftarrow> rd (m_nodes t) (unat root);
          Some (t\<lparr>m_nodes := (m_nodes t)[unat root := node\<lparr>nd_total := nd_total node + value\<rparr>]\<rparr>) }"

partial_function (option) append_loop :: "u64 \<Rightarrow> u32 \<Rightarrow> u32 list \<Rightarrow> CompressedTrie \<Rightarrow> (CompressedTrie \<times> u32) option" where
  "append_loop value root path t =
     (if path = [] then Some (t, root)
      else do { (t, matched) \<leftarrow> SplitPath root path t;
                if drop matched path = [] then Some (t, root)
                else do { t \<leftarrow> add_total value root t;
                          (t, next) \<leftarrow> follow_edge root (drop matched path) t;
                          append_loop value next (drop matched path) t } })"

declare append_loop.simps [code]

definition Append :: "u32 list \<Rightarrow> u64 \<Rightarrow> CompressedTrie \<Rightarrow> CompressedTrie option" where
  "Append path value t =
     do { (t, root) \<leftarrow> append_loop value 0 path t;
          node \<leftarrow> rd (m_nodes t) (unat root);
          Some (t\<lparr>m_nodes := (m_nodes t)[unat root := node\<lparr>nd_total := nd_total node + value, nd_value := nd_value node + value\<rparr>]\<rparr>) }"

section \<open>Shape\<close>

text \<open>
  A trie with its words: \<open>ws ! i\<close> is the path from the root to the end of node \<open>i\<close>. Words are distinct,
  the path of a node begins with the key of the edge that leads to it, and every node but the root is at
  the end of an edge.
\<close>

definition path_of :: "u32 list \<Rightarrow> PathSpan \<Rightarrow> u32 list" where
  "path_of paths s = take (ps_size s) (drop (unat (ps_begin s)) paths)"

definition pth :: "CompressedTrie \<Rightarrow> nat \<Rightarrow> u32 list" where
  "pth t i = path_of (m_paths t) (nd_path (m_nodes t ! i))"

definition edge :: "CompressedTrie \<Rightarrow> nat \<Rightarrow> u32 \<Rightarrow> nat \<Rightarrow> bool" where
  "edge t i k j \<longleftrightarrow> i < length (m_nodes t) \<and> (\<exists>u. (k, u) \<in> set (nd_edges (m_nodes t ! i)) \<and> unat u = j)"

definition span_ok :: "u32 list \<Rightarrow> PathSpan \<Rightarrow> bool" where
  "span_ok paths s \<longleftrightarrow> unat (ps_begin s) \<le> unat (ps_end s) \<and> unat (ps_end s) \<le> length paths"

definition shape :: "u32 list list \<Rightarrow> CompressedTrie \<Rightarrow> bool" where
  "shape ws t \<longleftrightarrow>
     length ws = length (m_nodes t) \<and> 0 < length ws \<and> length ws < 2 ^ 32 \<and> length (m_paths t) < 2 ^ 32 \<and>
     ws ! 0 = [] \<and> pth t 0 = [] \<and> distinct ws \<and>
     (\<forall>i < length ws. span_ok (m_paths t) (nd_path (m_nodes t ! i)) \<and> distinct (map fst (nd_edges (m_nodes t ! i)))) \<and>
     (\<forall>i k j. edge t i k j \<longrightarrow> j < length ws \<and> pth t j \<noteq> [] \<and> hd (pth t j) = k \<and> ws ! j = ws ! i @ pth t j) \<and>
     (\<forall>j < length ws. 0 < j \<longrightarrow> (\<exists>i k. edge t i k j))"

lemma shapeD:
  assumes "shape ws t"
  shows "length ws = length (m_nodes t)" "0 < length ws" "length ws < 2 ^ 32" "length (m_paths t) < 2 ^ 32"
    "ws ! 0 = []" "pth t 0 = []" "distinct ws"
    "i < length ws \<Longrightarrow> span_ok (m_paths t) (nd_path (m_nodes t ! i))"
    "i < length ws \<Longrightarrow> distinct (map fst (nd_edges (m_nodes t ! i)))"
    "0 < j \<Longrightarrow> j < length ws \<Longrightarrow> \<exists>i k. edge t i k j"
  using assms unfolding shape_def by blast+

lemma shape_edge:
  assumes "shape ws t" "edge t i k j"
  shows "i < length ws" "j < length ws" "pth t j \<noteq> []" "hd (pth t j) = k" "ws ! j = ws ! i @ pth t j"
proof -
  have "\<forall>i k j. edge t i k j \<longrightarrow> j < length ws \<and> pth t j \<noteq> [] \<and> hd (pth t j) = k \<and> ws ! j = ws ! i @ pth t j"
    using assms(1) unfolding shape_def by (elim conjE)
  from this [rule_format, OF assms(2)]
  show "j < length ws" "pth t j \<noteq> []" "hd (pth t j) = k" "ws ! j = ws ! i @ pth t j" by simp_all
  show "i < length ws" using assms shapeD(1) [OF assms(1)] by (simp add: edge_def)
qed

lemma no_edge_to_root: "shape ws t \<Longrightarrow> \<not> edge t i k 0"
  using shape_edge(3) [of ws t i k 0] shapeD(6) [of ws t] by blast

lemma edge_unique:
  assumes "shape ws t" "edge t i k j" "edge t i k j'"
  shows "j = j'"
proof -
  have "distinct (map fst (nd_edges (m_nodes t ! i)))" using shapeD(9) [OF assms(1) shape_edge(1) [OF assms(1,2)]] .
  then show ?thesis using assms(2,3) unfolding edge_def by (metis eq_key_imp_eq_value)
qed

lemma prefix_trichotomy:
  assumes "prefix (a @ [k]) w" "prefix b w"
  shows "prefix (a @ [k]) b \<or> b = a \<or> strict_prefix b a"
proof -
  have "prefix (a @ [k]) b \<or> prefix b (a @ [k])" using prefix_same_cases [OF assms] .
  then show ?thesis unfolding prefix_snoc strict_prefix_def by auto
qed

lemma strict_prefix_next:
  assumes "strict_prefix b a" "prefix a w" "prefix (b @ [k]) w"
  shows "prefix (b @ [k]) a"
  using prefix_length_prefix [OF assms(3,2)] prefix_length_less [OF assms(1)] by simp

lemma descend:
  assumes "shape ws t" "i < length ws" "j < length ws" "prefix (ws ! i @ [k]) (ws ! j)"
  shows "\<exists>j'. edge t i k j' \<and> prefix (ws ! j') (ws ! j)"
  using assms(2-4)
proof (induction "length (ws ! j)" arbitrary: i j k rule: less_induct)
  case less
  have "0 < j" using less.prems(3) shapeD(5) [OF assms(1)] by (cases j) auto
  then obtain i' k' where e: "edge t i' k' j" using shapeD(10) [OF assms(1) _ less.prems(2)] by blast
  note se = shape_edge [OF assms(1) e]
  have len: "length (ws ! i') < length (ws ! j)" using se(3,5) by simp
  have key: "prefix (ws ! i' @ [k']) (ws ! j)" using se(3,4,5) by (cases "pth t j") simp_all
  have up: "prefix (ws ! i') (ws ! j)" using se(5) by simp
  consider "prefix (ws ! i @ [k]) (ws ! i')" | "ws ! i' = ws ! i" | "strict_prefix (ws ! i') (ws ! i)"
    using prefix_trichotomy [OF less.prems(3) up] by blast
  then show ?case
  proof cases
    case 1
    then obtain j' where "edge t i k j'" "prefix (ws ! j') (ws ! i')"
      using less.hyps [OF len less.prems(1) se(1)] by blast
    then show ?thesis using se(5) by (metis prefix_prefix)
  next
    case 2
    then have "i' = i" using shapeD(7) [OF assms(1)] se(1) less.prems(1) by (simp add: nth_eq_iff_index_eq)
    moreover have "k' = k"
      using less.prems(3) se(3,4,5) 2 by (cases "pth t j") auto
    ultimately show ?thesis using e by blast
  next
    case 3
    have li: "length (ws ! i) < length (ws ! j)" using prefix_length_le [OF less.prems(3)] by simp
    have "prefix (ws ! i) (ws ! j)" using less.prems(3) append_prefixD by blast
    then have "prefix (ws ! i' @ [k']) (ws ! i)" using strict_prefix_next [OF 3 _ key] by blast
    then obtain j' where "edge t i' k' j'" "prefix (ws ! j') (ws ! i)"
      using less.hyps [OF li se(1) less.prems(1)] by blast
    then have "prefix (ws ! j) (ws ! i)" using edge_unique [OF assms(1) e] by simp
    then show ?thesis using li prefix_length_le by fastforce
  qed
qed

text \<open>No word ends inside the path of an edge.\<close>

lemma no_inside:
  assumes "shape ws t" "edge t i k j" "x < length ws" "prefix (ws ! i @ [k]) (ws ! x)"
  shows "prefix (ws ! j) (ws ! x)"
  using descend [OF assms(1) shape_edge(1) [OF assms(1,2)] assms(3,4)] edge_unique [OF assms(1,2)] by blast

section \<open>Spans\<close>

lemma ps_size_eq: "span_ok paths s \<Longrightarrow> ps_size s = unat (ps_end s) - unat (ps_begin s)"
  by (simp add: span_ok_def ps_size_def unat_sub word_le_nat_alt)

lemma length_path_of: "span_ok paths s \<Longrightarrow> length (path_of paths s) = ps_size s"
  by (auto simp: path_of_def ps_size_eq span_ok_def)

lemma nth_path_of:
  assumes "span_ok paths s" "m < ps_size s"
  shows "path_of paths s ! m = paths ! (unat (ps_begin s) + m)" "unat (ps_begin s) + m < length paths"
proof -
  show "unat (ps_begin s) + m < length paths"
    using assms(2) ps_size_eq [OF assms(1)] assms(1) by (auto simp: span_ok_def)
  then show "path_of paths s ! m = paths ! (unat (ps_begin s) + m)" using assms(2) by (simp add: path_of_def)
qed

lemma path_of_append:
  assumes "span_ok paths s"
  shows "path_of (paths @ xs) s = path_of paths s" "span_ok (paths @ xs) s"
  using assms ps_size_eq [OF assms] by (auto simp: span_ok_def path_of_def)

lemma unat_begin_plus:
  assumes "span_ok paths s" "m \<le> ps_size s" "length paths < 2 ^ 32"
  shows "unat (ps_begin s + of_nat m) = unat (ps_begin s) + m"
proof -
  have "unat (ps_begin s) + m < 2 ^ 32" using assms ps_size_eq [OF assms(1)] by (auto simp: span_ok_def)
  then show ?thesis by (simp add: unat_word_ariths unat_of_nat)
qed

lemma path_of_first:
  assumes "span_ok paths s" "m \<le> ps_size s" "length paths < 2 ^ 32"
  shows "span_ok paths (ps_first (of_nat m) s)" "path_of paths (ps_first (of_nat m) s) = take m (path_of paths s)"
proof -
  note u = unat_begin_plus [OF assms] and z = ps_size_eq [OF assms(1)]
  show k: "span_ok paths (ps_first (of_nat m) s)" using assms(1,2) u z by (auto simp: span_ok_def ps_first_def)
  have "ps_size (ps_first (of_nat m) s) = m" using ps_size_eq [OF k] u by (simp add: ps_first_def)
  then show "path_of paths (ps_first (of_nat m) s) = take m (path_of paths s)"
    using assms(2) by (simp add: path_of_def min_absorb1) (simp add: ps_first_def)
qed

lemma path_of_offset:
  assumes "span_ok paths s" "m \<le> ps_size s" "length paths < 2 ^ 32"
  shows "span_ok paths (ps_offset (of_nat m) s)" "path_of paths (ps_offset (of_nat m) s) = drop m (path_of paths s)"
proof -
  note u = unat_begin_plus [OF assms] and z = ps_size_eq [OF assms(1)]
  show k: "span_ok paths (ps_offset (of_nat m) s)" using assms(1,2) u z by (auto simp: span_ok_def ps_offset_def)
  have "ps_size (ps_offset (of_nat m) s) = ps_size s - m" using ps_size_eq [OF k] u z by (simp add: ps_offset_def)
  then show "path_of paths (ps_offset (of_nat m) s) = drop m (path_of paths s)"
    using u by (simp add: path_of_def drop_take) (simp add: ps_offset_def add.commute)
qed

section \<open>Matching\<close>

lemma match_loop_spec:
  assumes "m + n \<le> length path" "b + (m + n) \<le> length paths"
  shows "\<exists>r. match_loop paths b path m n = Some r \<and> m \<le> r \<and> r \<le> m + n \<and>
    (\<forall>x. m \<le> x \<and> x < r \<longrightarrow> path ! x = paths ! (b + x)) \<and> (r < m + n \<longrightarrow> path ! r \<noteq> paths ! (b + r))"
  using assms
proof (induction n arbitrary: m)
  case (Suc n)
  show ?case
  proof (cases "path ! m = paths ! (b + m)")
    case True
    obtain r where r: "match_loop paths b path (Suc m) n = Some r" "Suc m \<le> r" "r \<le> Suc m + n"
      "\<forall>x. Suc m \<le> x \<and> x < r \<longrightarrow> path ! x = paths ! (b + x)" "r < Suc m + n \<longrightarrow> path ! r \<noteq> paths ! (b + r)"
      using Suc.IH [of "Suc m"] Suc.prems by auto
    then have "\<forall>x. m \<le> x \<and> x < r \<longrightarrow> path ! x = paths ! (b + x)" using True by (metis Suc_leI le_neq_implies_less)
    then show ?thesis using r True Suc.prems by (auto simp: rd_def)
  next
    case False
    then show ?thesis using Suc.prems by (auto simp: rd_def)
  qed
qed auto

text \<open>The trie after a node was split at position \<open>m\<close> of its path.\<close>

definition split_at :: "nat \<Rightarrow> nat \<Rightarrow> CompressedTrie \<Rightarrow> CompressedTrie" where
  "split_at r m t =
     (let node = m_nodes t ! r
      in t\<lparr>m_nodes := (m_nodes t)[r := node\<lparr>nd_path := ps_first (of_nat m) (nd_path node),
                 nd_edges := [(pth t r ! m, of_nat (length (m_nodes t)))], nd_value := 0\<rparr>] @
             [node\<lparr>nd_path := ps_offset (of_nat m) (nd_path node)\<rparr>]\<rparr>)"

lemma SplitPath_spec:
  assumes "shape ws t" "unat root < length ws"
  shows "\<exists>m. SplitPath root path t = Some (if m = length (pth t (unat root)) then t else split_at (unat root) m t, m) \<and>
    m \<le> length path \<and> m \<le> length (pth t (unat root)) \<and> take m path = take m (pth t (unat root)) \<and>
    (m < length path \<and> m < length (pth t (unat root)) \<longrightarrow> path ! m \<noteq> pth t (unat root) ! m)"
proof -
  let ?r = "unat root" and ?node = "m_nodes t ! unat root"
  let ?s = "nd_path ?node"
  note ok = shapeD(8) [OF assms] and len = shapeD(4) [OF assms(1)]
  have lp: "length (pth t ?r) = ps_size ?s" using length_path_of [OF ok] by (simp add: pth_def)
  have nth: "pth t ?r ! x = m_paths t ! (unat (ps_begin ?s) + x)" if "x < ps_size ?s" for x
    using nth_path_of(1) [OF ok that] by (simp add: pth_def)
  have bound: "unat (ps_begin ?s) + (0 + min (length path) (ps_size ?s)) \<le> length (m_paths t)"
    using ok ps_size_eq [OF ok] by (auto simp: span_ok_def)
  obtain m where m: "match_loop (m_paths t) (unat (ps_begin ?s)) path 0 (min (length path) (ps_size ?s)) = Some m"
    "m \<le> min (length path) (ps_size ?s)" "\<forall>x. x < m \<longrightarrow> path ! x = m_paths t ! (unat (ps_begin ?s) + x)"
    "m < min (length path) (ps_size ?s) \<longrightarrow> path ! m \<noteq> m_paths t ! (unat (ps_begin ?s) + m)"
    using match_loop_spec [of 0 "min (length path) (ps_size ?s)" path, OF _ bound] by auto
  have "take m path = take m (pth t ?r)"
    using m(2,3) lp nth by (intro nth_equalityI) auto
  moreover have "SplitPath root path t = Some (if m = length (pth t ?r) then t else split_at ?r m t, m)"
  proof (cases "m = ps_size ?s")
    case True
    then show ?thesis using m(1) shapeD(1) [OF assms(1)] assms(2) lp by (simp add: SplitPath_def rd_def Let_def)
  next
    case False
    then have lt: "m < ps_size ?s" using m(2) by simp
    then have "rd (m_paths t) (unat (ps_begin ?s + of_nat m)) = Some (pth t ?r ! m)"
      using unat_begin_plus [OF ok _ len, of m] nth_path_of [OF ok lt] by (simp add: rd_def pth_def)
    then show ?thesis
      using m(1) shapeD(1) [OF assms(1)] assms(2) lp False by (simp add: SplitPath_def rd_def [of "m_nodes t"] Let_def split_at_def)
  qed
  ultimately show ?thesis using m(2,4) lp nth by (intro exI [of _ m]) auto
qed

section \<open>Splitting keeps the shape\<close>

lemma split_facts:
  assumes "shape ws t" "r < length ws" "m \<le> length (pth t r)"
  defines "n \<equiv> length (m_nodes t)"
  shows "m_paths (split_at r m t) = m_paths t" "length (m_nodes (split_at r m t)) = Suc n"
    "i < Suc n \<Longrightarrow> pth (split_at r m t) i = (if i = r then take m (pth t r) else if i = n then drop m (pth t r) else pth t i)"
    "i < Suc n \<Longrightarrow> span_ok (m_paths t) (nd_path (m_nodes (split_at r m t) ! i)) \<and> distinct (map fst (nd_edges (m_nodes (split_at r m t) ! i)))"
    "i < Suc n \<Longrightarrow> edge (split_at r m t) i k j \<longleftrightarrow>
       (if i = r then k = pth t r ! m \<and> j = unat (of_nat n :: u32) else if i = n then edge t r k j else edge t i k j)"
    "i < n \<Longrightarrow> i \<noteq> r \<Longrightarrow> m_nodes (split_at r m t) ! i = m_nodes t ! i"
    "nd_total (m_nodes (split_at r m t) ! r) = nd_total (m_nodes t ! r)" "nd_value (m_nodes (split_at r m t) ! r) = 0"
    "nd_total (m_nodes (split_at r m t) ! n) = nd_total (m_nodes t ! r)" "nd_value (m_nodes (split_at r m t) ! n) = nd_value (m_nodes t ! r)"
proof -
  have rn: "r < n" using assms(2) shapeD(1) [OF assms(1)] by (simp add: n_def)
  have ok: "span_ok (m_paths t) (nd_path (m_nodes t ! i))" "distinct (map fst (nd_edges (m_nodes t ! i)))" if "i < n" for i
    using shapeD(8,9) [OF assms(1)] shapeD(1) [OF assms(1)] that by (simp_all add: n_def)
  have mz: "m \<le> ps_size (nd_path (m_nodes t ! r))"
    using assms(3) length_path_of [OF ok(1) [OF rn]] by (simp add: pth_def)
  note fst = path_of_first [OF ok(1) [OF rn] mz shapeD(4) [OF assms(1)]]
    and off = path_of_offset [OF ok(1) [OF rn] mz shapeD(4) [OF assms(1)]]
  show "m_paths (split_at r m t) = m_paths t" "length (m_nodes (split_at r m t)) = Suc n"
    by (simp_all add: split_at_def Let_def n_def)
  show nodes: "i < n \<Longrightarrow> i \<noteq> r \<Longrightarrow> m_nodes (split_at r m t) ! i = m_nodes t ! i"
    by (simp add: split_at_def Let_def n_def nth_append)
  show "i < Suc n \<Longrightarrow> pth (split_at r m t) i = (if i = r then take m (pth t r) else if i = n then drop m (pth t r) else pth t i)"
    using rn fst(2) off(2) by (auto simp: pth_def split_at_def Let_def n_def nth_append less_Suc_eq)
  show "i < Suc n \<Longrightarrow> span_ok (m_paths t) (nd_path (m_nodes (split_at r m t) ! i)) \<and> distinct (map fst (nd_edges (m_nodes (split_at r m t) ! i)))"
    using rn fst(1) off(1) ok by (auto simp: split_at_def Let_def n_def nth_append nth_list_update less_Suc_eq)
  show "i < Suc n \<Longrightarrow> edge (split_at r m t) i k j \<longleftrightarrow>
       (if i = r then k = pth t r ! m \<and> j = unat (of_nat n :: u32) else if i = n then edge t r k j else edge t i k j)"
    using rn by (auto simp: edge_def split_at_def Let_def n_def nth_append less_Suc_eq)
  show "nd_total (m_nodes (split_at r m t) ! r) = nd_total (m_nodes t ! r)" "nd_value (m_nodes (split_at r m t) ! r) = 0"
    "nd_total (m_nodes (split_at r m t) ! n) = nd_total (m_nodes t ! r)" "nd_value (m_nodes (split_at r m t) ! n) = nd_value (m_nodes t ! r)"
    using rn by (simp_all add: split_at_def Let_def n_def nth_append)
qed

lemma split_word_new:
  assumes "shape ws t" "edge t i0 k0 r" "0 < m" "m < length (pth t r)"
  shows "ws ! i0 @ take m (pth t r) \<notin> set ws"
proof
  note e0 = shape_edge [OF assms(1,2)]
  assume "ws ! i0 @ take m (pth t r) \<in> set ws"
  then obtain x where x: "x < length ws" "ws ! x = ws ! i0 @ take m (pth t r)" by (auto simp: in_set_conv_nth)
  have "prefix (ws ! i0 @ [k0]) (ws ! x)" using x(2) e0(3,4) assms(3) by (cases "pth t r"; cases m) simp_all
  from prefix_length_le [OF no_inside [OF assms(1,2) x(1) this]] show False using x(2) e0(5) assms(4) by simp
qed

lemma split_distinct:
  assumes "shape ws t" "edge t i0 k0 r" "0 < m" "m < length (pth t r)"
  shows "distinct (ws[r := ws ! i0 @ take m (pth t r)] @ [ws ! r])"
proof -
  let ?w = "ws ! i0 @ take m (pth t r)"
  note e0 = shape_edge [OF assms(1,2)] and d = shapeD(7) [OF assms(1)]
  have "distinct (ws[r := ?w])" using split_word_new [OF assms] d by (simp add: distinct_list_update)
  moreover have "ws ! r \<notin> set (ws[r := ?w])"
  proof
    assume "ws ! r \<in> set (ws[r := ?w])"
    then obtain x where x: "x < length ws" "ws[r := ?w] ! x = ws ! r" by (auto simp: in_set_conv_nth)
    show False
    proof (cases "x = r")
      case True
      then have "take m (pth t r) = pth t r" using x e0(5) by (metis same_append_eq nth_list_update_eq)
      then have "length (take m (pth t r)) = length (pth t r)" by simp
      then show False using assms(4) by simp
    next
      case False
      then show False using x d e0(2) by (simp add: nth_eq_iff_index_eq)
    qed
  qed
  ultimately show ?thesis by simp
qed

lemma split_parent:
  assumes "shape ws t" "edge t i0 k0 r" "0 < m" "m < length (pth t r)" "Suc (length ws) < 2 ^ 32" "j < Suc (length ws)" "0 < j"
  shows "\<exists>i k. edge (split_at r m t) i k j"
proof -
  let ?n = "length (m_nodes t)"
  note e0 = shape_edge [OF assms(1,2)] and n = shapeD(1) [OF assms(1)]
  note sf = split_facts [OF assms(1) e0(2) less_imp_le [OF assms(4)]]
  have un: "unat (of_nat ?n :: u32) = ?n" using assms(5) n by (simp add: unat_of_nat)
  show ?thesis
  proof (cases "j = ?n")
    case True
    then show ?thesis using sf(5) [of r "pth t r ! m" ?n] e0(2) n un by auto
  next
    case False
    then obtain i k where e: "edge t i k j" using shapeD(10) [OF assms(1), of j] assms(6,7) n by auto
    note se = shape_edge [OF assms(1) e]
    show ?thesis
    proof (cases "i = r")
      case True
      then show ?thesis using sf(5) [of ?n k j] e e0(2) n by auto
    next
      case False
      then show ?thesis using sf(5) [of i k j] e se(1) n by auto
    qed
  qed
qed

lemma split_shape:
  assumes "shape ws t" "edge t i0 k0 r" "0 < m" "m < length (pth t r)" "Suc (length ws) < 2 ^ 32"
  shows "shape (ws[r := ws ! i0 @ take m (pth t r)] @ [ws ! r]) (split_at r m t)"
proof -
  let ?n = "length (m_nodes t)" and ?t = "split_at r m t" and ?w = "ws ! i0 @ take m (pth t r)"
  let ?ws = "ws[r := ?w] @ [ws ! r]"
  note e0 = shape_edge [OF assms(1,2)] and n = shapeD(1) [OF assms(1)]
  note sf = split_facts [OF assms(1) e0(2) less_imp_le [OF assms(4)]]
  have un: "unat (of_nat ?n :: u32) = ?n" using assms(5) n by (simp add: unat_of_nat)
  have r0: "0 < r" using e0(3) shapeD(6) [OF assms(1)] by (cases r) auto
  have wr: "ws ! r = ws ! i0 @ pth t r" using e0(5) .
  have at: "?ws ! r = ?w" "?ws ! ?n = ws ! r" "\<And>i. i < ?n \<Longrightarrow> i \<noteq> r \<Longrightarrow> ?ws ! i = ws ! i"
    using e0(2) n by (simp_all add: nth_append)
  have pr: "pth ?t r = take m (pth t r)" "pth ?t ?n = drop m (pth t r)" "\<And>i. i < ?n \<Longrightarrow> i \<noteq> r \<Longrightarrow> pth ?t i = pth t i"
    using sf(3) e0(2) n by simp_all
  note dist = split_distinct [OF assms(1-4)]
  have ed: "j < length ?ws \<and> pth ?t j \<noteq> [] \<and> hd (pth ?t j) = k \<and> ?ws ! j = ?ws ! i @ pth ?t j" if e: "edge ?t i k j" for i k j
  proof -
    have "i < Suc ?n" using e sf(2) by (simp add: edge_def)
    then consider "i = r" "k = pth t r ! m" "j = ?n" | "i = ?n" "i \<noteq> r" "edge t r k j" | "i < ?n" "i \<noteq> r" "edge t i k j"
      using e sf(5) [of i k j] un by (auto split: if_splits)
    then show ?thesis
    proof cases
      case 1
      then show ?thesis using at pr assms(4) wr n e0(2) by (simp add: hd_drop_conv_nth)
    next
      case 2
      note se = shape_edge [OF assms(1) 2(3)]
      then have "j \<noteq> r" by auto
      then show ?thesis using se at pr 2 n by simp
    next
      case 3
      note se = shape_edge [OF assms(1) 3(3)]
      show ?thesis
      proof (cases "j = r")
        case True
        then have "ws ! i = ws ! i0" using se(5) wr by simp
        then show ?thesis using True se at pr 3 n assms(3) by (simp add: take_eq_Nil hd_take)
      next
        case False
        then show ?thesis using se at pr 3 n by simp
      qed
    qed
  qed
  note par = split_parent [OF assms]
  have "?ws ! 0 = []" "pth ?t 0 = []" using at(3) [of 0] pr(3) [of 0] r0 shapeD(2,5,6) [OF assms(1)] n by simp_all
  then show ?thesis
    unfolding shape_def using sf(1,2) assms(5) n shapeD(4) [OF assms(1)] dist sf(4) ed par by auto
qed

section \<open>A new leaf keeps the shape\<close>

definition leaf_at :: "nat \<Rightarrow> u32 list \<Rightarrow> CompressedTrie \<Rightarrow> CompressedTrie" where
  "leaf_at r path t =
     (let node = m_nodes t ! r; n = length (m_nodes t); b = length (m_paths t)
      in t\<lparr>m_paths := m_paths t @ path,
           m_nodes := (m_nodes t)[r := node\<lparr>nd_edges := (hd path, of_nat n) # nd_edges node\<rparr>] @
             [\<lparr>nd_path = \<lparr>ps_begin = of_nat b, ps_end = of_nat (b + length path)\<rparr>, nd_edges = [], nd_total = 0, nd_value = 0\<rparr>]\<rparr>)"

lemma follow_edge_spec:
  assumes "shape ws t" "unat root < length ws" "path \<noteq> []"
  shows "(\<exists>nxt. edge t (unat root) (hd path) (unat nxt) \<and> follow_edge root path t = Some (t, nxt)) \<or>
    (\<forall>j. \<not> edge t (unat root) (hd path) j) \<and>
    follow_edge root path t = Some (leaf_at (unat root) path t, of_nat (length (m_nodes t)))"
proof (cases "map_of (nd_edges (m_nodes t ! unat root)) (hd path)")
  case None
  then have "\<forall>j. \<not> edge t (unat root) (hd path) j" by (auto simp: edge_def map_of_eq_None_iff rev_image_eqI)
  moreover have "follow_edge root path t = Some (leaf_at (unat root) path t, of_nat (length (m_nodes t)))"
    using None assms(2,3) shapeD(1) [OF assms(1)]
    by (simp add: follow_edge_def rd_def CreatePath_def Let_def leaf_at_def map_insert_def hd_conv_nth)
  ultimately show ?thesis by blast
next
  case (Some nxt)
  then have "edge t (unat root) (hd path) (unat nxt)"
    using assms(2) shapeD(1) [OF assms(1)] by (auto simp: edge_def dest: map_of_SomeD)
  moreover have "follow_edge root path t = Some (t, nxt)"
    using Some assms(2,3) shapeD(1) [OF assms(1)] by (simp add: follow_edge_def rd_def hd_conv_nth)
  ultimately show ?thesis by blast
qed

lemma leaf_facts:
  assumes "shape ws t" "r < length ws" "length (m_paths t) + length path < 2 ^ 32"
  defines "n \<equiv> length (m_nodes t)"
  shows "length (m_paths (leaf_at r path t)) = length (m_paths t) + length path" "length (m_nodes (leaf_at r path t)) = Suc n"
    "i < Suc n \<Longrightarrow> pth (leaf_at r path t) i = (if i = n then path else pth t i)"
    "i < Suc n \<Longrightarrow> span_ok (m_paths (leaf_at r path t)) (nd_path (m_nodes (leaf_at r path t) ! i))"
    "i < Suc n \<Longrightarrow> edge (leaf_at r path t) i k j \<longleftrightarrow>
       i < n \<and> edge t i k j \<or> i = r \<and> k = hd path \<and> j = unat (of_nat n :: u32)"
    "i < n \<Longrightarrow> nd_total (m_nodes (leaf_at r path t) ! i) = nd_total (m_nodes t ! i) \<and>
      nd_value (m_nodes (leaf_at r path t) ! i) = nd_value (m_nodes t ! i)"
    "nd_total (m_nodes (leaf_at r path t) ! n) = 0" "nd_value (m_nodes (leaf_at r path t) ! n) = 0"
    "nd_edges (m_nodes (leaf_at r path t) ! n) = []" "map fst (nd_edges (m_nodes (leaf_at r path t) ! r)) = hd path # map fst (nd_edges (m_nodes t ! r))"
    "i < n \<Longrightarrow> i \<noteq> r \<Longrightarrow> nd_edges (m_nodes (leaf_at r path t) ! i) = nd_edges (m_nodes t ! i)"
proof -
  let ?s = "\<lparr>ps_begin = of_nat (length (m_paths t)), ps_end = of_nat (length (m_paths t) + length path)\<rparr> :: PathSpan"
  have rn: "r < n" using assms(2) shapeD(1) [OF assms(1)] by (simp add: n_def)
  have ok: "span_ok (m_paths t) (nd_path (m_nodes t ! i))" if "i < n" for i
    using shapeD(8) [OF assms(1)] shapeD(1) [OF assms(1)] that by (simp add: n_def)
  have u: "unat (of_nat (length (m_paths t)) :: u32) = length (m_paths t)"
    "unat (of_nat (length (m_paths t) + length path) :: u32) = length (m_paths t) + length path"
    using assms(3) by (simp_all only: unat_of_nat) simp_all
  have sn: "span_ok (m_paths t @ path) ?s" using u by (simp add: span_ok_def)
  have pn: "path_of (m_paths t @ path) ?s = path" using ps_size_eq [OF sn] u by (simp add: path_of_def)
  show "length (m_paths (leaf_at r path t)) = length (m_paths t) + length path" "length (m_nodes (leaf_at r path t)) = Suc n"
    by (simp_all add: leaf_at_def Let_def n_def)
  show "i < Suc n \<Longrightarrow> pth (leaf_at r path t) i = (if i = n then path else pth t i)"
    using pn path_of_append(1) [OF ok, of i path] rn
    by (auto simp: pth_def leaf_at_def Let_def n_def nth_append nth_list_update less_Suc_eq)
  show "i < Suc n \<Longrightarrow> span_ok (m_paths (leaf_at r path t)) (nd_path (m_nodes (leaf_at r path t) ! i))"
    using sn path_of_append(2) [OF ok, of i path] rn
    by (auto simp: leaf_at_def Let_def n_def nth_append nth_list_update less_Suc_eq)
  show "i < Suc n \<Longrightarrow> edge (leaf_at r path t) i k j \<longleftrightarrow>
       i < n \<and> edge t i k j \<or> i = r \<and> k = hd path \<and> j = unat (of_nat n :: u32)"
    using rn by (auto simp: edge_def leaf_at_def Let_def n_def nth_append nth_list_update less_Suc_eq)
  show "i < n \<Longrightarrow> nd_total (m_nodes (leaf_at r path t) ! i) = nd_total (m_nodes t ! i) \<and>
      nd_value (m_nodes (leaf_at r path t) ! i) = nd_value (m_nodes t ! i)"
    by (cases "i = r") (simp_all add: leaf_at_def Let_def n_def nth_append)
  show "nd_total (m_nodes (leaf_at r path t) ! n) = 0" "nd_value (m_nodes (leaf_at r path t) ! n) = 0"
    "nd_edges (m_nodes (leaf_at r path t) ! n) = []"
    by (simp_all add: leaf_at_def Let_def n_def nth_append)
  show "map fst (nd_edges (m_nodes (leaf_at r path t) ! r)) = hd path # map fst (nd_edges (m_nodes t ! r))"
    using rn by (simp add: leaf_at_def Let_def n_def nth_append)
  show "i < n \<Longrightarrow> i \<noteq> r \<Longrightarrow> nd_edges (m_nodes (leaf_at r path t) ! i) = nd_edges (m_nodes t ! i)"
    by (simp add: leaf_at_def Let_def n_def nth_append)
qed

lemma leaf_shape:
  assumes "shape ws t" "r < length ws" "path \<noteq> []" "\<forall>j. \<not> edge t r (hd path) j"
    and "Suc (length ws) < 2 ^ 32" "length (m_paths t) + length path < 2 ^ 32"
  shows "shape (ws @ [ws ! r @ path]) (leaf_at r path t)"
proof -
  let ?n = "length (m_nodes t)" and ?t = "leaf_at r path t" and ?ws = "ws @ [ws ! r @ path]"
  note n = shapeD(1) [OF assms(1)] and lf = leaf_facts [OF assms(1,2,6)]
  have un: "unat (of_nat ?n :: u32) = ?n" using assms(5) n by (simp add: unat_of_nat)
  have "ws ! r @ path \<notin> set ws"
  proof
    assume "ws ! r @ path \<in> set ws"
    then obtain x where x: "x < length ws" "ws ! x = ws ! r @ path" by (auto simp: in_set_conv_nth)
    have "prefix (ws ! r @ [hd path]) (ws ! x)" using x(2) assms(3) by (cases path) simp_all
    then show False using descend [OF assms(1,2) x(1)] assms(4) by blast
  qed
  then have dist: "distinct ?ws" using shapeD(7) [OF assms(1)] by simp
  have keys: "distinct (map fst (nd_edges (m_nodes ?t ! i)))" if i: "i < Suc ?n" for i
  proof -
    have "hd path \<notin> fst ` set (nd_edges (m_nodes t ! r))" using assms(2,4) n unfolding edge_def by fastforce
    then show ?thesis using lf(9-11) shapeD(9) [OF assms(1)] i n assms(2) by (cases "i = r"; cases "i = ?n") auto
  qed
  have ed: "j < length ?ws \<and> pth ?t j \<noteq> [] \<and> hd (pth ?t j) = k \<and> ?ws ! j = ?ws ! i @ pth ?t j" if e: "edge ?t i k j" for i k j
  proof -
    have i: "i < Suc ?n" using e lf(2) by (simp add: edge_def)
    then consider "i < ?n" "edge t i k j" | "i = r" "k = hd path" "j = ?n" using e lf(5) [of i k j] un by auto
    then show ?thesis
    proof cases
      case 1
      note se = shape_edge [OF assms(1) 1(2)]
      then show ?thesis using lf(3) [of j] n by (auto simp: nth_append)
    next
      case 2
      then show ?thesis using lf(3) [of ?n] n assms(2,3) by (auto simp: nth_append)
    qed
  qed
  have par: "\<exists>i k. edge ?t i k j" if j: "j < length ?ws" "0 < j" for j
  proof (cases "j = ?n")
    case True
    then show ?thesis using lf(5) [of r "hd path" ?n] un assms(2) n by auto
  next
    case False
    then obtain i k where e: "edge t i k j" using shapeD(10) [OF assms(1), of j] j n by auto
    then show ?thesis using lf(5) [of i k j] shape_edge(1) [OF assms(1) e] n by auto
  qed
  have "?ws ! 0 = []" "pth ?t 0 = []" using lf(3) [of 0] shapeD(2,5,6) [OF assms(1)] n by (auto simp: nth_append)
  then show ?thesis unfolding shape_def using lf(1,2,4) assms(5,6) n dist keys ed par by auto
qed

section \<open>Contents\<close>

text \<open>
  The paths and values that were appended; the sums over the paths with a given prefix and over the
  paths that are equal to a given one. A trie represents a log when the sums in its nodes are these, and
  every appended path ends in a node. Every word is a prefix of an appended path.
\<close>

type_synonym path_log = "(u32 list \<times> u64) list"

definition prefix_sum :: "path_log \<Rightarrow> u32 list \<Rightarrow> u64" where
  "prefix_sum log w = sum_list (map snd (filter (\<lambda>e. prefix w (fst e)) log))"

definition exact_sum :: "path_log \<Rightarrow> u32 list \<Rightarrow> u64" where
  "exact_sum log w = sum_list (map snd (filter (\<lambda>e. fst e = w) log))"

definition content :: "(u32 list \<Rightarrow> u64) \<Rightarrow> (u32 list \<Rightarrow> u64) \<Rightarrow> u32 list list \<Rightarrow> CompressedTrie \<Rightarrow> bool" where
  "content F V ws t \<longleftrightarrow> (\<forall>i < length ws. nd_total (m_nodes t ! i) = F (ws ! i) \<and> nd_value (m_nodes t ! i) = V (ws ! i))"

definition covered :: "u32 list set \<Rightarrow> u32 list list \<Rightarrow> bool" where
  "covered B ws \<longleftrightarrow> (\<forall>w \<in> set ws. \<exists>b \<in> B. prefix w b)"

definition represents :: "path_log \<Rightarrow> CompressedTrie \<Rightarrow> bool" where
  "represents log t \<longleftrightarrow>
     (\<exists>ws. shape ws t \<and> content (prefix_sum log) (exact_sum log) ws t \<and> fst ` set log \<subseteq> set ws \<and>
       covered (insert [] (fst ` set log)) ws)"

lemma content_cong:
  assumes "content F V ws t" "\<And>i. i < length ws \<Longrightarrow> F (ws ! i) = F' (ws ! i)"
  shows "content F' V ws t"
  using assms by (simp add: content_def)

lemma edge_prefixes:
  assumes "shape ws t" "edge t i k r" "x < length ws"
  shows "prefix (ws ! x) (ws ! r) \<longleftrightarrow> x = r \<or> prefix (ws ! x) (ws ! i)"
proof -
  note se = shape_edge [OF assms(1,2)]
  have up: "prefix (ws ! i @ [k]) (ws ! r)" using se(3-5) by (cases "pth t r") simp_all
  show ?thesis
  proof
    assume p: "prefix (ws ! x) (ws ! r)"
    from prefix_trichotomy [OF up this] show "x = r \<or> prefix (ws ! x) (ws ! i)"
    proof (elim disjE)
      assume "prefix (ws ! i @ [k]) (ws ! x)"
      from no_inside [OF assms(1,2,3) this] p have "ws ! x = ws ! r" by (simp add: prefix_order.eq_iff)
      then show ?thesis using shapeD(7) [OF assms(1)] assms(3) se(2) by (simp add: nth_eq_iff_index_eq)
    qed (simp_all add: strict_prefix_def)
  qed (use se(5) in auto)
qed

text \<open>Sums do not change inside the path of an edge.\<close>

lemma sums_inside:
  assumes "shape ws t" "edge t i k r" "0 < m" "m < length (pth t r)" "fst ` set log \<subseteq> set ws"
  shows "prefix_sum log (ws ! i @ take m (pth t r)) = prefix_sum log (ws ! r)" "exact_sum log (ws ! i @ take m (pth t r)) = 0"
proof -
  let ?w = "ws ! i @ take m (pth t r)"
  note se = shape_edge [OF assms(1,2)]
  have k: "prefix (ws ! i @ [k]) ?w" using se(3,4) assms(3) by (cases "pth t r"; cases m) simp_all
  have wr: "prefix ?w (ws ! r)" using se(5) by (simp add: take_is_prefix)
  have "prefix ?w (fst e) \<longleftrightarrow> prefix (ws ! r) (fst e)" "fst e \<noteq> ?w" if "e \<in> set log" for e
  proof -
    have "fst e \<in> set ws" using assms(5) that by blast
    then obtain x where x: "x < length ws" "ws ! x = fst e" unfolding in_set_conv_nth by blast
    have "prefix (ws ! r) (fst e)" if "prefix ?w (fst e)"
      using no_inside [OF assms(1,2) x(1)] prefix_order.trans [OF k that] x(2) by simp
    then show "prefix ?w (fst e) \<longleftrightarrow> prefix (ws ! r) (fst e)" using wr prefix_order.trans by blast
    show "fst e \<noteq> ?w"
    proof
      assume "fst e = ?w"
      from prefix_length_le [OF no_inside [OF assms(1,2) x(1)]] k x(2) this show False using se(5) assms(4) by simp
    qed
  qed
  note e = this
  have "filter (\<lambda>e. prefix ?w (fst e)) log = filter (\<lambda>e. prefix (ws ! r) (fst e)) log"
    by (rule filter_cong) (simp_all only: e(1))
  moreover have "filter (\<lambda>e. fst e = ?w) log = []" unfolding filter_empty_conv using e(2) by blast
  ultimately show "prefix_sum log ?w = prefix_sum log (ws ! r)" "exact_sum log ?w = 0"
    by (simp_all add: prefix_sum_def exact_sum_def)
qed

lemma split_content:
  assumes "shape ws t" "edge t i0 k0 r" "m < length (pth t r)" "content F V ws t"
    and "F (ws ! i0 @ take m (pth t r)) = F (ws ! r)" "V (ws ! i0 @ take m (pth t r)) = 0"
  shows "content F V (ws[r := ws ! i0 @ take m (pth t r)] @ [ws ! r]) (split_at r m t)"
proof -
  note sf = split_facts [OF assms(1) shape_edge(2) [OF assms(1,2)] less_imp_le [OF assms(3)]]
  show ?thesis
    unfolding content_def
  proof (intro allI impI)
    fix i assume "i < length (ws[r := ws ! i0 @ take m (pth t r)] @ [ws ! r])"
    then consider "i = r" | "i = length ws" "i \<noteq> r" | "i < length ws" "i \<noteq> r" by force
    then show "nd_total (m_nodes (split_at r m t) ! i) = F ((ws[r := ws ! i0 @ take m (pth t r)] @ [ws ! r]) ! i) \<and>
        nd_value (m_nodes (split_at r m t) ! i) = V ((ws[r := ws ! i0 @ take m (pth t r)] @ [ws ! r]) ! i)"
      using sf(6-10) assms(4-6) shapeD(1) [OF assms(1)] shape_edge(2) [OF assms(1,2)]
      by cases (simp_all add: content_def nth_append)
  qed
qed

lemma log_in_split:
  assumes "P \<subseteq> set ws" "r < length ws"
  shows "P \<subseteq> set (ws[r := w] @ [ws ! r])"
proof
  fix p assume "p \<in> P"
  then obtain x where "x < length ws" "ws ! x = p" using assms(1) by (metis in_set_conv_nth subsetD)
  then show "p \<in> set (ws[r := w] @ [ws ! r])"
    by (cases "x = r") (auto simp: in_set_conv_nth nth_append intro!: exI [of _ x])
qed

text \<open>Adding to the total of a node changes nothing else.\<close>

lemma add_total_spec:
  assumes "shape ws t" "unat root < length ws" "content F V ws t"
  shows "\<exists>t'. add_total v root t = Some t' \<and> shape ws t' \<and> edge t' = edge t \<and> pth t' = pth t \<and> m_paths t' = m_paths t \<and>
    content (\<lambda>w. F w + (if w = ws ! unat root then v else 0)) V ws t'"
proof -
  let ?r = "unat root" and ?node = "m_nodes t ! unat root"
  let ?t = "t\<lparr>m_nodes := (m_nodes t)[?r := ?node\<lparr>nd_total := nd_total ?node + v\<rparr>]\<rparr>"
  note n = shapeD(1) [OF assms(1)]
  have same: "nd_path (m_nodes ?t ! i) = nd_path (m_nodes t ! i)" "nd_edges (m_nodes ?t ! i) = nd_edges (m_nodes t ! i)" for i
    using assms(2) n by (cases "i = ?r"; simp)+
  have e: "edge ?t = edge t" "pth ?t = pth t" by (simp_all only: fun_eq_iff edge_def pth_def same) simp_all
  have lens: "length (m_nodes ?t) = length (m_nodes t)" "m_paths ?t = m_paths t" by simp_all
  have "shape ws ?t" using assms(1) unfolding shape_def e same lens .
  moreover have "content (\<lambda>w. F w + (if w = ws ! ?r then v else 0)) V ws ?t"
    using assms(2,3) n shapeD(7) [OF assms(1)] by (auto simp: content_def nth_list_update nth_eq_iff_index_eq)
  moreover have "add_total v root t = Some ?t" using assms(2) n by (simp add: add_total_def rd_def)
  ultimately show ?thesis using e by auto
qed

section \<open>Append\<close>

text \<open>
  The position of the loop: it is at node \<open>r\<close>, has followed the word \<open>c\<close> up to the beginning of the
  path of \<open>r\<close>, and has \<open>path\<close> left. The totals of the nodes on \<open>c\<close> already count the new value.
\<close>

definition at_pos :: "u32 list list \<Rightarrow> CompressedTrie \<Rightarrow> nat \<Rightarrow> u32 list \<Rightarrow> u32 list \<Rightarrow> bool" where
  "at_pos ws t r c path \<longleftrightarrow> r < length ws \<and>
     (r = 0 \<and> c = [] \<or> (\<exists>i k. edge t i k r \<and> c = ws ! i \<and> path \<noteq> [] \<and> hd path = k))"

definition counted :: "path_log \<Rightarrow> u64 \<Rightarrow> nat \<Rightarrow> u32 list \<Rightarrow> u32 list \<Rightarrow> u64" where
  "counted log v r c w = prefix_sum log w + (if r \<noteq> 0 \<and> prefix w c then v else 0)"

definition ahead :: "u32 list list \<Rightarrow> nat \<Rightarrow> u32 list \<Rightarrow> bool" where
  "ahead ws r c \<longleftrightarrow> (\<forall>x < length ws. prefix (ws ! x) (ws ! r) \<longleftrightarrow> x = r \<or> r \<noteq> 0 \<and> prefix (ws ! x) c) \<and>
     (r \<noteq> 0 \<longrightarrow> \<not> prefix (ws ! r) c)"

lemma at_pos_ahead:
  assumes "shape ws t" "r < length ws" "ws ! r = c @ pth t r" "r = 0 \<longrightarrow> c = []"
  shows "ahead ws r c"
proof (cases "r = 0")
  case True
  then have "ws ! x = ws ! r \<longleftrightarrow> x = r" if "x < length ws" for x
    using shapeD(7) [OF assms(1)] that assms(2) by (simp add: nth_eq_iff_index_eq)
  then show ?thesis using True shapeD(5) [OF assms(1)] by (simp add: ahead_def)
next
  case False
  then obtain i k where e: "edge t i k r" using shapeD(10) [OF assms(1) _ assms(2)] by blast
  then have "c = ws ! i" using shape_edge(5) [OF assms(1) e] assms(3) by simp
  moreover have "\<not> prefix (ws ! r) c" unfolding assms(3) using shape_edge(3) [OF assms(1) e] by (auto dest: prefix_length_le)
  ultimately show ?thesis using edge_prefixes [OF assms(1) e] False by (simp add: ahead_def)
qed

lemma at_pos_word: "shape ws t \<Longrightarrow> at_pos ws t r c path \<Longrightarrow> ws ! r = c @ pth t r"
  using shapeD(5,6) shape_edge(5) by (fastforce simp: at_pos_def)

lemma split_step:
  assumes "shape ws t" "fst ` set log \<subseteq> set ws" "at_pos ws t (unat root) c path" "path \<noteq> []"
    and "content (counted log v (unat root) c) (exact_sum log) ws t" "Suc (length ws) < 2 ^ 32" "covered B ws"
  shows "\<exists>m t1 ws1. SplitPath root path t = Some (t1, m) \<and> shape ws1 t1 \<and> fst ` set log \<subseteq> set ws1 \<and>
    content (counted log v (unat root) c) (exact_sum log) ws1 t1 \<and> unat root < length ws1 \<and>
    ws1 ! unat root = c @ take m path \<and> m \<le> length path \<and> (0 < m \<or> unat root = 0) \<and> m_paths t1 = m_paths t \<and>
    length ws1 \<le> length ws + m \<and> ahead ws1 (unat root) c \<and> covered B ws1"
proof -
  let ?r = "unat root" and ?q = "pth t (unat root)"
  have r: "?r < length ws" "?r = 0 \<longrightarrow> c = []" using assms(3) no_edge_to_root [OF assms(1)] unfolding at_pos_def by auto
  note w = at_pos_word [OF assms(1,3)]
  obtain m where m: "SplitPath root path t = Some (if m = length ?q then t else split_at ?r m t, m)" "m \<le> length path"
    "m \<le> length ?q" "take m path = take m ?q" "m < length path \<and> m < length ?q \<longrightarrow> path ! m \<noteq> ?q ! m"
    using SplitPath_spec [OF assms(1) r(1), of path] by blast
  show ?thesis
  proof (cases "m = length ?q")
    case True
    then have "0 < m \<or> ?r = 0" using assms(3) shape_edge(3) [OF assms(1)] by (auto simp: at_pos_def)
    then show ?thesis using m True assms r w at_pos_ahead [OF assms(1) r(1) w r(2)] by (intro exI [of _ m] exI [of _ t] exI [of _ ws]) simp
  next
    case False
    then have lt: "m < length ?q" using m(3) by simp
    then have "?r \<noteq> 0" using shapeD(6) [OF assms(1)] by (cases "?r = 0") simp_all
    then obtain i k where e: "edge t i k ?r" "c = ws ! i" "hd path = k" using assms(3) by (auto simp: at_pos_def)
    note se = shape_edge [OF assms(1) e(1)]
    have m0: "0 < m"
    proof (rule ccontr)
      assume "\<not> 0 < m"
      then show False using m(5) lt assms(4) se(3,4) e(3) by (simp add: hd_conv_nth)
    qed
    let ?t1 = "split_at ?r m t" and ?ws1 = "ws[?r := ws ! i @ take m ?q] @ [ws ! ?r]"
    have sh: "shape ?ws1 ?t1" using split_shape [OF assms(1) e(1) m0 lt assms(6)] .
    have neq: "\<not> prefix (c @ take m ?q) c" "\<not> prefix (ws ! ?r) c"
      using m0 lt se(5) e(2) by (auto dest: prefix_length_le)
    have ct: "content (counted log v ?r c) (exact_sum log) ?ws1 ?t1"
      using sums_inside [OF assms(1) e(1) m0 lt assms(2)] neq e(2)
      by (intro split_content [OF assms(1) e(1) lt assms(5)]) (simp_all add: counted_def)
    have wr: "?ws1 ! ?r = c @ take m path" using r(1) e(2) m(4) by (simp add: nth_append)
    have "pth ?t1 ?r = take m ?q" using split_facts(3) [OF assms(1) r(1) m(3), of ?r] r(1) shapeD(1) [OF assms(1)] by simp
    then have "ahead ?ws1 ?r c" using at_pos_ahead [OF sh _ _ r(2)] wr r(1) m(4) by simp
    moreover have "covered B ?ws1"
    proof -
      obtain b where b: "b \<in> B" "prefix (ws ! ?r) b" using assms(7) r(1) unfolding covered_def by (meson nth_mem)
      moreover have "prefix (ws ! i @ take m ?q) (ws ! ?r)" using se(5) by (simp add: take_is_prefix)
      ultimately have "prefix (ws ! i @ take m ?q) b" using prefix_order.trans by blast
      then show ?thesis using assms(7) b set_update_subset_insert [of ws ?r "ws ! i @ take m ?q"] unfolding covered_def by fastforce
    qed
    moreover have "m_paths ?t1 = m_paths t" by (simp add: split_at_def Let_def)
    moreover have "SplitPath root path t = Some (?t1, m)" using m(1) False by simp
    moreover have "unat root < length ?ws1" "length ?ws1 \<le> length ws + m" using r(1) m0 by simp_all
    ultimately show ?thesis using sh ct wr m0 m(2) log_in_split [OF assms(2) r(1)] by blast
  qed
qed

text \<open>Where the loop ends: at the node of the whole word, with the totals of all its proper prefixes done.\<close>

definition append_done :: "path_log \<Rightarrow> u64 \<Rightarrow> u32 list \<Rightarrow> nat \<Rightarrow> CompressedTrie \<Rightarrow> u32 \<Rightarrow> bool" where
  "append_done log v p cap t root \<longleftrightarrow>
     (\<exists>ws. shape ws t \<and> fst ` set log \<subseteq> set ws \<and> unat root < length ws \<and> ws ! unat root = p \<and>
       content (\<lambda>w. prefix_sum log w + (if strict_prefix w p then v else 0)) (exact_sum log) ws t \<and>
       length ws \<le> cap \<and> covered (insert p (fst ` set log)) ws)"

lemma append_done_mono: "append_done log v p cap t root \<Longrightarrow> cap \<le> cap' \<Longrightarrow> append_done log v p cap' t root"
  unfolding append_done_def by (elim exE conjE, rule exI, intro conjI) (assumption | simp)+

lemma counted_done:
  assumes "shape ws t" "fst ` set log \<subseteq> set ws" "unat root < length ws" "ws ! unat root = p" "ahead ws (unat root) c"
    and "content (counted log v (unat root) c) (exact_sum log) ws t" "length ws \<le> cap" "covered (insert p (fst ` set log)) ws"
  shows "append_done log v p cap t root"
proof -
  have "counted log v (unat root) c (ws ! i) = prefix_sum log (ws ! i) + (if strict_prefix (ws ! i) p then v else 0)"
    if i: "i < length ws" for i
  proof -
    have "strict_prefix (ws ! i) p \<longleftrightarrow> unat root \<noteq> 0 \<and> prefix (ws ! i) c"
    proof (cases "i = unat root")
      case True
      have "\<not> (unat root \<noteq> 0 \<and> prefix (ws ! unat root) c)"
        using assms(5) unfolding ahead_def by blast
      then show ?thesis using True assms(4) by simp
    next
      case False
      then have "ws ! i \<noteq> p" using assms(3,4) i shapeD(7) [OF assms(1)] by (metis nth_eq_iff_index_eq)
      then show ?thesis using False assms(4,5) i by (auto simp: ahead_def strict_prefix_def)
    qed
    then show ?thesis by (simp add: counted_def)
  qed
  from content_cong [OF assms(6) this] show ?thesis
    unfolding append_done_def using assms(1-4,7,8) by (intro exI [of _ ws] conjI) simp_all
qed

lemma counted_add:
  assumes "shape ws t" "ahead ws r c" "r < length ws" "nxt \<noteq> 0" "i < length ws"
  shows "counted log v r c (ws ! i) + (if ws ! i = ws ! r then v else 0) = counted log v nxt (ws ! r) (ws ! i)"
proof -
  have "ws ! i = ws ! r \<longleftrightarrow> i = r" using shapeD(7) [OF assms(1)] assms(3,5) by (simp add: nth_eq_iff_index_eq)
  then show ?thesis using assms(2-5) by (auto simp: counted_def ahead_def)
qed

text \<open>A new leaf holds the rest of the path, and no path of the log goes through it.\<close>

lemma leaf_done:
  assumes "shape ws t" "r < length ws" "fst ` set log \<subseteq> set ws" "path \<noteq> []" "\<forall>j. \<not> edge t r (hd path) j"
    and "Suc (length ws) < 2 ^ 32" "length (m_paths t) + length path < 2 ^ 32"
    and "content (counted log v n (ws ! r)) (exact_sum log) ws t" "n = length (m_nodes t)"
      "covered (insert (ws ! r @ path) (fst ` set log)) ws"
  shows "append_done log v (ws ! r @ path) (Suc (length ws)) (leaf_at r path t) (of_nat n)"
proof -
  let ?p = "ws ! r @ path" and ?t = "leaf_at r path t"
  note sh = leaf_shape [OF assms(1,2,4-7)] and lf = leaf_facts [OF assms(1,2,7)] and len = shapeD(1) [OF assms(1)]
  have un: "unat (of_nat n :: u32) = n" using assms(6,9) len by (simp add: unat_of_nat)
  have n0: "n \<noteq> 0" using shapeD(2) [OF assms(1)] assms(9) len by simp
  have none: "\<not> prefix ?p (fst e)" if "e \<in> set log" for e
  proof
    assume p: "prefix ?p (fst e)"
    have "fst e \<in> set ws" using assms(3) that by blast
    then obtain x where x: "x < length ws" "ws ! x = fst e" unfolding in_set_conv_nth by blast
    have "prefix (ws ! r @ [hd path]) ?p" using assms(4) by (cases path) simp_all
    from prefix_order.trans [OF this p] have "prefix (ws ! r @ [hd path]) (ws ! x)" unfolding x(2) .
    then show False using descend [OF assms(1,2) x(1)] assms(5) by blast
  qed
  then have "fst e \<noteq> ?p" if "e \<in> set log" for e using that by (metis prefix_order.order_refl)
  with none have "filter (\<lambda>e. prefix ?p (fst e)) log = []" "filter (\<lambda>e. fst e = ?p) log = []"
    by (simp_all add: filter_empty_conv del: same_prefix_prefix)
  then have zero: "prefix_sum log ?p = 0" "exact_sum log ?p = 0" by (simp_all add: prefix_sum_def exact_sum_def)
  have np: "\<not> prefix ?p (ws ! r)" using assms(4) by (auto dest: prefix_length_le)
  have wr: "(ws @ [?p]) ! n = ?p" using assms(9) len by (simp add: nth_append)
  have "content (counted log v n (ws ! r)) (exact_sum log) (ws @ [?p]) ?t"
    unfolding content_def
  proof (intro allI impI)
    fix i assume "i < length (ws @ [?p])"
    then consider "i < length ws" | "i = n" using assms(9) len by fastforce
    then show "nd_total (m_nodes ?t ! i) = counted log v n (ws ! r) ((ws @ [?p]) ! i) \<and>
        nd_value (m_nodes ?t ! i) = exact_sum log ((ws @ [?p]) ! i)"
    proof cases
      case 1
      then show ?thesis using lf(6) [of i] assms(8) len by (simp add: content_def nth_append)
    next
      case 2
      then show ?thesis using lf(7,8) assms(9) wr zero np by (simp add: counted_def)
    qed
  qed
  moreover have "ahead (ws @ [?p]) n (ws ! r)"
    using at_pos_ahead [OF sh, of n "ws ! r"] wr lf(3) [of n] assms(9) len n0 by simp
  moreover have "covered (insert ?p (fst ` set log)) (ws @ [?p])" using assms(10) by (simp add: covered_def)
  ultimately show ?thesis
    using sh wr un assms(3,9) len by (intro counted_done [where c = "ws ! r" and ws = "ws @ [?p]"]) auto
qed

text \<open>A fresh leaf holds the rest of the path, so the loop ends there.\<close>

lemma append_leaf:
  assumes "shape ws t" "i < length ws" "rest \<noteq> []" "\<forall>j. \<not> edge t i (hd rest) j" "Suc (length ws) < 2 ^ 32" "length (m_paths t) + length rest < 2 ^ 32"
  shows "append_loop v (of_nat (length (m_nodes t))) rest (leaf_at i rest t) = Some (leaf_at i rest t, of_nat (length (m_nodes t)))"
proof -
  let ?n = "length (m_nodes t)"
  have n: "?n = length ws" using shapeD(1) [OF assms(1)] by simp
  have un: "unat (of_nat ?n :: u32) = ?n" using assms(5) n by (simp add: unat_of_nat)
  note sh = leaf_shape [OF assms]
  have pn: "pth (leaf_at i rest t) ?n = rest" using leaf_facts(3) [OF assms(1,2,6), of ?n] by simp
  obtain k where k: "SplitPath (of_nat ?n) rest (leaf_at i rest t) =
      Some (if k = length rest then leaf_at i rest t else split_at ?n k (leaf_at i rest t), k)"
    "k \<le> length rest" "k < length rest \<longrightarrow> rest ! k \<noteq> rest ! k"
    using SplitPath_spec [OF sh, of "of_nat ?n" rest] n un pn by auto
  then have "k = length rest" by auto
  then show ?thesis using k(1) assms(3) by (subst append_loop.simps) simp
qed

lemma append_to_leaf:
  assumes "shape ws t" "fst ` set log \<subseteq> set ws" "i < length ws" "rest \<noteq> []" "\<forall>j. \<not> edge t i (hd rest) j"
    and "Suc (length ws) < 2 ^ 32" "length (m_paths t) + length rest < 2 ^ 32" "covered (insert (ws ! i @ rest) (fst ` set log)) ws"
    and "content (counted log v (length (m_nodes t)) (ws ! i)) (exact_sum log) ws t"
  shows "append_loop v (of_nat (length (m_nodes t))) rest (leaf_at i rest t) = Some (leaf_at i rest t, of_nat (length (m_nodes t)))"
    "append_done log v (ws ! i @ rest) (Suc (length ws)) (leaf_at i rest t) (of_nat (length (m_nodes t)))"
    "length (m_paths (leaf_at i rest t)) = length (m_paths t) + length rest"
  using append_leaf [OF assms(1,3-7)] leaf_done [OF assms(1,3,2,4-7,9) refl assms(8)] leaf_facts(1) [OF assms(1,3,7)] .

text \<open>One turn of the loop: the path ends at the node, or the rest of it goes on from there.\<close>

lemma append_turn:
  assumes "shape ws t" "fst ` set log \<subseteq> set ws" "at_pos ws t (unat root) c path"
    and "content (counted log v (unat root) c) (exact_sum log) ws t" "path \<noteq> []" "Suc (length ws) < 2 ^ 32"
    and "covered (insert (c @ path) (fst ` set log)) ws"
  obtains (finish) t1 where "append_loop v root path t = Some (t1, root)" "append_done log v (c @ path) (length ws + length path + 1) t1 root"
      "m_paths t1 = m_paths t"
  | (more) ws1 t2 rest where "append_loop v root path t = do { (t3, nxt) \<leftarrow> follow_edge root rest t2; append_loop v nxt rest t3 }"
      "rest \<noteq> []" "length rest < length path \<or> unat root = 0 \<and> length rest = length path" "shape ws1 t2" "fst ` set log \<subseteq> set ws1"
      "unat root < length ws1" "ws1 ! unat root @ rest = c @ path" "length ws1 + length rest \<le> length ws + length path" "m_paths t2 = m_paths t"
      "covered (insert (c @ path) (fst ` set log)) ws1" "\<And>n. n \<noteq> 0 \<Longrightarrow> content (counted log v n (ws1 ! unat root)) (exact_sum log) ws1 t2"
proof -
  let ?r = "unat root"
  obtain m t1 ws1 where sp: "SplitPath root path t = Some (t1, m)" "shape ws1 t1" "fst ` set log \<subseteq> set ws1"
    "content (counted log v ?r c) (exact_sum log) ws1 t1" "?r < length ws1" "ws1 ! ?r = c @ take m path" "m \<le> length path"
    "0 < m \<or> ?r = 0" "m_paths t1 = m_paths t" "length ws1 \<le> length ws + m" "ahead ws1 ?r c"
    "covered (insert (c @ path) (fst ` set log)) ws1" using split_step [OF assms(1-3,5,4,6,7)] by blast
  show thesis
  proof (cases "m = length path")
    case True
    then have "append_loop v root path t = Some (t1, root)" using sp(1) assms(5) by (subst append_loop.simps) simp
    moreover have "append_done log v (c @ path) (length ws + length path + 1) t1 root"
      using sp True by (intro counted_done [OF sp(2,3,5) _ sp(11,4)]) simp_all
    ultimately show ?thesis using sp(9) by (rule finish)
  next
    case False
    then have rest: "drop m path \<noteq> []" "length (drop m path) = length path - m" "m < length path" using sp(7) by auto
    obtain t2 where t2: "add_total v root t1 = Some t2" "shape ws1 t2" "m_paths t2 = m_paths t1"
      "content (\<lambda>w. counted log v ?r c w + (if w = ws1 ! ?r then v else 0)) (exact_sum log) ws1 t2"
      using add_total_spec [OF sp(2,5,4), of v] by blast
    show ?thesis
    proof (rule more [of "drop m path" t2 ws1])
      show "append_loop v root path t = do { (t3, nxt) \<leftarrow> follow_edge root (drop m path) t2; append_loop v nxt (drop m path) t3 }"
        using sp(1) t2(1) rest assms(5) by (subst append_loop.simps) simp
      show "content (counted log v n (ws1 ! ?r)) (exact_sum log) ws1 t2" if "n \<noteq> 0" for n
        by (rule content_cong [OF t2(4)]) (rule counted_add [OF sp(2,11,5) that])
    qed (use sp t2(2,3) rest in auto)
  qed
qed

lemma append_loop_spec:
  assumes "shape ws t" "fst ` set log \<subseteq> set ws" "at_pos ws t (unat root) c path"
    and "content (counted log v (unat root) c) (exact_sum log) ws t" "path \<noteq> []"
    and "length ws + length path + 1 < 2 ^ 32" "length (m_paths t) + length path < 2 ^ 32"
    and "covered (insert (c @ path) (fst ` set log)) ws"
  shows "\<exists>t' root'. append_loop v root path t = Some (t', root') \<and>
    append_done log v (c @ path) (length ws + length path + 1) t' root' \<and> length (m_paths t') \<le> length (m_paths t) + length path"
  using assms
proof (induction "2 * length path + (if unat root = 0 then 1 else 0)" arbitrary: ws t root c path rule: less_induct)
  case less
  let ?r = "unat root"
  have "Suc (length ws) < 2 ^ 32" using less.prems(5,6) by (cases path) simp_all
  from less.prems(1-5) this less.prems(8) show ?case
  proof (cases rule: append_turn)
    case (finish t1)
    then show ?thesis by simp
  next
    case (more ws1 t2 rest)
    let ?c = "ws1 ! unat root"
    have cap: "length ws1 + length rest + 1 < 2 ^ 32" "length (m_paths t2) + length rest < 2 ^ 32" "length rest \<le> length path"
      using more(3,8,9) less.prems(6,7) by auto
    have cov: "covered (insert (?c @ rest) (fst ` set log)) ws1" unfolding more(7) by (rule more(10))
    from follow_edge_spec [OF more(4,6,2)] show ?thesis
    proof (elim disjE exE conjE)
      fix nxt assume e: "edge t2 ?r (hd rest) (unat nxt)" and f: "follow_edge root rest t2 = Some (t2, nxt)"
      have n0: "unat nxt \<noteq> 0" using e no_edge_to_root [OF more(4)] by metis
      then have "2 * length rest + (if unat nxt = 0 then 1 else 0) < 2 * length path + (if ?r = 0 then 1 else 0)" using more(3) by auto
      moreover have "at_pos ws1 t2 (unat nxt) ?c rest" using e shape_edge(2) [OF more(4) e] more(2) unfolding at_pos_def by blast
      ultimately obtain t' root' where t': "append_loop v nxt rest t2 = Some (t', root')"
        "append_done log v (?c @ rest) (length ws1 + length rest + 1) t' root'" "length (m_paths t') \<le> length (m_paths t2) + length rest"
        using less.hyps [OF _ more(4,5) _ more(11) [OF n0] more(2) cap(1,2) cov] by blast
      have "append_done log v (c @ path) (length ws + length path + 1) t' root'"
        by (rule append_done_mono [OF t'(2) [unfolded more(7)]]) (use more(8) in linarith)
      then show ?thesis using more(1,9) f t'(1,3) cap(3) by auto
    next
      let ?n = "length (m_nodes t2)"
      assume ne: "\<forall>j. \<not> edge t2 ?r (hd rest) j" and f: "follow_edge root rest t2 = Some (leaf_at ?r rest t2, of_nat ?n)"
      have n: "?n \<noteq> 0" "Suc (length ws1) < 2 ^ 32" using shapeD(1,2) [OF more(4)] cap(1) more(2) by (linarith, cases rest) simp_all
      note leaf = append_to_leaf [OF more(4-6,2) ne n(2) cap(2) cov more(11) [OF n(1)]]
      have "append_done log v (c @ path) (length ws + length path + 1) (leaf_at ?r rest t2) (of_nat ?n)"
        by (rule append_done_mono [OF leaf(2) [unfolded more(7)]]) (use more(2,8) in \<open>cases rest, simp_all\<close>)
      then show ?thesis using more(1,9) f leaf(1,3) cap(3) by auto
    qed
  qed
qed

lemma prefix_sum_snoc: "prefix_sum (log @ [(p, v)]) w = prefix_sum log w + (if prefix w p then v else 0)"
  and exact_sum_snoc: "exact_sum (log @ [(p, v)]) w = exact_sum log w + (if w = p then v else 0)"
  by (auto simp: prefix_sum_def exact_sum_def)

lemma Append_represents:
  assumes "represents log t" "length (m_nodes t) + length p + 1 < 2 ^ 32" "length (m_paths t) + length p < 2 ^ 32"
  shows "\<exists>t'. Append p v t = Some t' \<and> represents (log @ [(p, v)]) t' \<and>
    length (m_nodes t') \<le> length (m_nodes t) + length p + 1 \<and> length (m_paths t') \<le> length (m_paths t) + length p"
proof -
  obtain ws where ws: "shape ws t" "content (prefix_sum log) (exact_sum log) ws t" "fst ` set log \<subseteq> set ws"
    "covered (insert [] (fst ` set log)) ws"
    using assms(1) unfolding represents_def by blast
  then have cov: "covered (insert p (fst ` set log)) ws" unfolding covered_def by fastforce
  note n = shapeD(1) [OF ws(1)]
  have "\<exists>t1 r. append_loop v 0 p t = Some (t1, r) \<and> append_done log v p (length ws + length p + 1) t1 r \<and>
      length (m_paths t1) \<le> length (m_paths t) + length p"
  proof (cases "p = []")
    case True
    then have "append_loop v 0 p t = Some (t, 0)" by (subst append_loop.simps) simp
    moreover have "append_done log v p (length ws + length p + 1) t 0"
      unfolding append_done_def using ws cov shapeD(2,5) [OF ws(1)] True by (intro exI [of _ ws]) simp
    ultimately show ?thesis by auto
  next
    case False
    have "at_pos ws t (unat (0 :: u32)) [] p" using shapeD(2) [OF ws(1)] by (simp add: at_pos_def)
    moreover have "content (counted log v (unat (0 :: u32)) []) (exact_sum log) ws t" using ws(2) by (simp add: content_def counted_def)
    ultimately show ?thesis using append_loop_spec [OF ws(1,3) _ _ False, of 0 "[]" v] assms(2,3) n cov by auto
  qed
  then obtain t1 r ws1 where l: "append_loop v 0 p t = Some (t1, r)" "shape ws1 t1" "fst ` set log \<subseteq> set ws1" "unat r < length ws1"
    "ws1 ! unat r = p" "content (\<lambda>w. prefix_sum log w + (if strict_prefix w p then v else 0)) (exact_sum log) ws1 t1"
    "length ws1 \<le> length ws + length p + 1" "length (m_paths t1) \<le> length (m_paths t) + length p"
    "covered (insert p (fst ` set log)) ws1"
    unfolding append_done_def by blast
  let ?node = "m_nodes t1 ! unat r"
  let ?t = "t1\<lparr>m_nodes := (m_nodes t1)[unat r := ?node\<lparr>nd_total := nd_total ?node + v, nd_value := nd_value ?node + v\<rparr>]\<rparr>"
  note n1 = shapeD(1) [OF l(2)]
  have same: "nd_path (m_nodes ?t ! i) = nd_path (m_nodes t1 ! i)" "nd_edges (m_nodes ?t ! i) = nd_edges (m_nodes t1 ! i)" for i
    using l(4) n1 by (cases "i = unat r"; simp)+
  have e: "edge ?t = edge t1" "pth ?t = pth t1" by (simp_all only: fun_eq_iff edge_def pth_def same) simp_all
  have lens: "length (m_nodes ?t) = length (m_nodes t1)" "m_paths ?t = m_paths t1" by simp_all
  have "shape ws1 ?t" using l(2) unfolding shape_def e same lens .
  moreover have "content (prefix_sum (log @ [(p, v)])) (exact_sum (log @ [(p, v)])) ws1 ?t"
    unfolding content_def
  proof (intro allI impI)
    fix i assume i: "i < length ws1"
    have "ws1 ! i = p \<longleftrightarrow> i = unat r" using shapeD(7) [OF l(2)] i l(4,5) by (metis nth_eq_iff_index_eq)
    then show "nd_total (m_nodes ?t ! i) = prefix_sum (log @ [(p, v)]) (ws1 ! i) \<and>
        nd_value (m_nodes ?t ! i) = exact_sum (log @ [(p, v)]) (ws1 ! i)"
      using l(4-6) i n1
      by (cases "i = unat r") (simp_all add: content_def prefix_sum_snoc exact_sum_snoc strict_prefix_def)
  qed
  moreover have "fst ` set (log @ [(p, v)]) \<subseteq> set ws1" using l(3-5) by auto
  moreover have "covered (insert [] (fst ` set (log @ [(p, v)]))) ws1" using l(9) by (auto simp: covered_def)
  ultimately have "represents (log @ [(p, v)]) ?t" unfolding represents_def by blast
  moreover have "Append p v t = Some ?t" using l(1,4) n1 by (simp add: Append_def rd_def)
  ultimately show ?thesis using l(7,8) n n1 by (intro exI [of _ ?t]) simp
qed

section \<open>Properties\<close>

fun append_all :: "path_log \<Rightarrow> CompressedTrie \<Rightarrow> CompressedTrie option" where
  "append_all [] t = Some t"
| "append_all ((p, v) # log) t = do { t \<leftarrow> Append p v t; append_all log t }"

definition log_size :: "path_log \<Rightarrow> nat" where
  "log_size log = sum_list (map (\<lambda>e. length (fst e) + 1) log)"

lemma new_represents: "represents [] CompressedTrie_new"
proof -
  have "shape [[]] CompressedTrie_new"
    by (auto simp: shape_def CompressedTrie_new_def Node_empty_def pth_def path_of_def edge_def span_ok_def ps_size_def)
  moreover have "content (prefix_sum []) (exact_sum []) [[]] CompressedTrie_new"
    by (simp add: content_def CompressedTrie_new_def Node_empty_def prefix_sum_def exact_sum_def)
  ultimately show ?thesis unfolding represents_def by (intro exI [of _ "[[]]"]) (simp add: covered_def)
qed

lemma append_all_represents:
  assumes "represents log0 t" "length (m_nodes t) + log_size log < 2 ^ 32" "length (m_paths t) + log_size log < 2 ^ 32"
  shows "\<exists>t'. append_all log t = Some t' \<and> represents (log0 @ log) t'"
  using assms
proof (induction log arbitrary: log0 t)
  case (Cons e log)
  obtain p v where e: "e = (p, v)" by (cases e)
  have sz: "log_size (e # log) = length p + 1 + log_size log" by (simp add: log_size_def e)
  obtain t1 where t1: "Append p v t = Some t1" "represents (log0 @ [(p, v)]) t1"
    "length (m_nodes t1) \<le> length (m_nodes t) + length p + 1" "length (m_paths t1) \<le> length (m_paths t) + length p"
    using Append_represents [OF Cons.prems(1), of p v] Cons.prems(2,3) sz by auto
  then show ?case using Cons.IH [OF t1(2)] Cons.prems(2,3) sz e by simp
qed simp

text \<open>Reading a trie: the sums at a path, which may end inside the path of a node.\<close>

fun walk :: "nat \<Rightarrow> CompressedTrie \<Rightarrow> nat \<Rightarrow> u32 list \<Rightarrow> (u64 \<times> u64) option" where
  "walk fuel t i [] = Some (nd_total (m_nodes t ! i), nd_value (m_nodes t ! i))"
| "walk 0 t i (k # w) = None"
| "walk (Suc fuel) t i (k # w) =
     (case map_of (nd_edges (m_nodes t ! i)) k of
        None \<Rightarrow> None
      | Some j \<Rightarrow>
          (let q = pth t (unat j)
           in if prefix q (k # w) then walk fuel t (unat j) (drop (length q) (k # w))
              else if prefix (k # w) q then Some (nd_total (m_nodes t ! unat j), 0)
              else None))"

definition sums_at :: "CompressedTrie \<Rightarrow> u32 list \<Rightarrow> (u64 \<times> u64) option" where
  "sums_at t w = walk (length w) t 0 w"

definition sums_right :: "path_log \<Rightarrow> u32 list \<Rightarrow> (u64 \<times> u64) option \<Rightarrow> bool" where
  "sums_right log w s =
     (case s of
        Some s \<Rightarrow> s = (prefix_sum log w, exact_sum log w) \<and> (\<exists>p \<in> insert [] (fst ` set log). prefix w p)
      | None \<Rightarrow> \<forall>p \<in> insert [] (fst ` set log). \<not> prefix w p)"

lemma walk_through:
  assumes "shape ws t" "fst ` set log \<subseteq> set ws" "i < length ws" "p \<in> fst ` set log" "prefix (ws ! i @ k # w') p"
  shows "edge t i k j \<Longrightarrow> prefix (ws ! j) p" "\<exists>j. edge t i k j"
proof -
  have "p \<in> set ws" using assms(2,4) by (rule subsetD)
  then obtain x where x: "x < length ws" "ws ! x = p" unfolding in_set_conv_nth by blast
  have "prefix (ws ! i @ [k]) (ws ! i @ k # w')" by simp
  from prefix_order.trans [OF this assms(5)] have pk: "prefix (ws ! i @ [k]) (ws ! x)" unfolding x(2) .
  show "edge t i k j \<Longrightarrow> prefix (ws ! j) p" using no_inside [OF assms(1) _ x(1) pk] x(2) by simp
  show "\<exists>j. edge t i k j" using descend [OF assms(1,3) x(1) pk] by blast
qed

text \<open>The sums at a node, inside the path of an edge, and off the paths.\<close>

lemma node_covered: "covered B ws \<Longrightarrow> i < length ws \<Longrightarrow> \<exists>p \<in> B. prefix (ws ! i) p"
  unfolding covered_def by (meson nth_mem)

lemma sums_at_node:
  assumes "content (prefix_sum log) (exact_sum log) ws t" "covered (insert [] (fst ` set log)) ws" "i < length ws"
  shows "sums_right log (ws ! i) (Some (nd_total (m_nodes t ! i), nd_value (m_nodes t ! i)))"
  using assms(1,3) node_covered [OF assms(2,3)] unfolding sums_right_def content_def by simp

lemma sums_in_edge:
  assumes "shape ws t" "content (prefix_sum log) (exact_sum log) ws t" "fst ` set log \<subseteq> set ws" "covered (insert [] (fst ` set log)) ws"
    and "edge t i k j" "w \<noteq> []" "prefix w (pth t j)" "w \<noteq> pth t j"
  shows "sums_right log (ws ! i @ w) (Some (nd_total (m_nodes t ! j), 0))"
proof -
  note se = shape_edge [OF assms(1,5)]
  have len: "0 < length w" "length w < length (pth t j)" "take (length w) (pth t j) = w"
    using assms(6-8) by (auto simp: prefix_def nat_less_le)
  from sums_inside [OF assms(1,5) len(1,2) assms(3)] len(3)
  have "prefix_sum log (ws ! i @ w) = prefix_sum log (ws ! j)" "exact_sum log (ws ! i @ w) = 0" by simp_all
  moreover obtain p where "p \<in> insert [] (fst ` set log)" "prefix (ws ! j) p" using node_covered [OF assms(4) se(2)] by blast
  moreover have "prefix (ws ! i @ w) (ws ! j)" using se(5) assms(7) by simp
  ultimately show ?thesis using assms(2) se(2) prefix_order.trans unfolding sums_right_def content_def by fastforce
qed

lemma sums_off_edge:
  assumes "shape ws t" "fst ` set log \<subseteq> set ws" "edge t i k j" "\<not> prefix (pth t j) (k # w)" "\<not> prefix (k # w) (pth t j)"
  shows "sums_right log (ws ! i @ k # w) None"
proof -
  note se = shape_edge [OF assms(1,3)]
  have "\<not> prefix (ws ! i @ k # w) p" if "p \<in> fst ` set log" for p
  proof
    assume p: "prefix (ws ! i @ k # w) p"
    from walk_through(1) [OF assms(1,2) se(1) that p assms(3)] have "prefix (ws ! i @ pth t j) p" using se(5) by simp
    from prefix_same_cases [OF p this] assms(4,5) show False by simp
  qed
  then show ?thesis by (simp add: sums_right_def)
qed

lemma walk_right:
  assumes "shape ws t" "content (prefix_sum log) (exact_sum log) ws t" "fst ` set log \<subseteq> set ws"
    and "i < length ws" "length w \<le> fuel" "covered (insert [] (fst ` set log)) ws"
  shows "sums_right log (ws ! i @ w) (walk fuel t i w)"
  using assms(4,5)
proof (induction fuel arbitrary: i w)
  case 0
  then show ?case using sums_at_node [OF assms(2,6)] by simp
next
  case (Suc fuel)
  show ?case
  proof (cases w)
    case Nil
    then show ?thesis using sums_at_node [OF assms(2,6) Suc.prems(1)] by simp
  next
    case (Cons k w')
    show ?thesis
    proof (cases "map_of (nd_edges (m_nodes t ! i)) k")
      case None
      then have "\<not> edge t i k j" for j by (auto simp: edge_def map_of_eq_None_iff rev_image_eqI)
      then have "\<not> prefix (ws ! i @ w) p" if "p \<in> fst ` set log" for p
        using walk_through(2) [OF assms(1,3) Suc.prems(1) that, of k w'] Cons by blast
      then show ?thesis using None Cons by (simp add: sums_right_def)
    next
      case (Some j)
      let ?q = "pth t (unat j)"
      have e: "edge t i k (unat j)" using Some Suc.prems(1) shapeD(1) [OF assms(1)] by (auto simp: edge_def dest: map_of_SomeD)
      note se = shape_edge [OF assms(1) e]
      consider "prefix ?q w" | "\<not> prefix ?q w" "prefix w ?q" | "\<not> prefix ?q w" "\<not> prefix w ?q" by blast
      then show ?thesis
      proof cases
        case 1
        then have w: "ws ! i @ w = ws ! unat j @ drop (length ?q) w" using se(5) by (auto simp: prefix_def)
        have "length (drop (length ?q) w) \<le> fuel" using Suc.prems(2) se(3) by (cases ?q) (simp_all add: Cons)
        from Suc.IH [OF se(2) this] show ?thesis using Some Cons 1 w by simp
      next
        case 2
        then have "w \<noteq> ?q" by blast
        from sums_in_edge [OF assms(1-3,6) e _ 2(2) this] show ?thesis using Some Cons 2 by simp
      next
        case 3
        with sums_off_edge [OF assms(1,3) e, of w'] show ?thesis using Some Cons by simp
      qed
    qed
  qed
qed

text \<open>
  C17. The flame graph trie. Appending any list of paths with values to the empty trie returns, as long as
  the 32-bit counters have room; and in the trie that results, at every path, whether it ends at a node
  or inside the compressed path of one, the two sums are the sum of the values of all appended paths that
  begin with it and the sum of the values of the appended paths that are equal to it. The paths in the
  trie are exactly the prefixes of the appended ones.
\<close>

theorem Append_sums:
  assumes "log_size log + 1 < 2 ^ 32"
  shows "\<exists>t. append_all log CompressedTrie_new = Some t \<and> sums_right log w (sums_at t w)"
proof -
  obtain t where t: "append_all log CompressedTrie_new = Some t" "represents log t"
    using append_all_represents [OF new_represents, of log] assms by (auto simp: CompressedTrie_new_def)
  then obtain ws where ws: "shape ws t" "content (prefix_sum log) (exact_sum log) ws t" "fst ` set log \<subseteq> set ws"
    "covered (insert [] (fst ` set log)) ws"
    unfolding represents_def by blast
  have "sums_right log (ws ! 0 @ w) (walk (length w) t 0 w)"
    using walk_right [OF ws(1-3) shapeD(2) [OF ws(1)] order_refl ws(4)] .
  then show ?thesis using t(1) shapeD(5) [OF ws(1)] by (simp add: sums_at_def)
qed

theorem Append_sums_witness:
  "\<exists>t. append_all [([1, 2, 3], 5), ([1, 2, 4], 6), ([1, 2], 7)] CompressedTrie_new = Some t \<and>
    sums_right [([1, 2, 3], 5), ([1, 2, 4], 6), ([1, 2], 7)] [1, 2] (sums_at t [1, 2])"
  using Append_sums [of "[([1, 2, 3], 5), ([1, 2, 4], 6), ([1, 2], 7)]" "[1, 2]"] by (simp add: log_size_def)

end
