(* ===== verification/Flame_Top.thy ===== *)
theory Flame_Top
  imports Flame_Trie "HOL-Library.Product_Lexorder" "HOL-Library.Multiset"
begin

text \<open>
  The flame graph tool (\<open>src/source/flamegraph/src/graph.h\<close>): choosing the heaviest nodes and listing them.

  A position \<open>NodeOnPath\<close> is a node and a length of its path. The priority queue is the list of its items;
  which of several least items it returns is not fixed by the source, so the choice is an argument \<open>pick\<close>
  about which only \<open>pick_ok\<close> is assumed. The loop is a partial function; the recursion of \<open>RetrieveNodes\<close>
  has fuel, and the number of nodes is shown to be enough.
\<close>

section \<open>The model\<close>

record RetrievedNode =
  rn_total :: u64
  rn_value :: u64
  rn_depth :: u32
  rn_key :: u32

record NodeOnPath =
  np_nodeId :: u32
  np_pathSize :: u32

record QueueItem =
  qi_neg_total :: u64
  qi_depth :: u32
  qi_node :: NodeOnPath

text \<open>\<open>operator>\<close> of the items: signed totals, then depths.\<close>

definition item_greater :: "QueueItem \<Rightarrow> QueueItem \<Rightarrow> bool" where
  "item_greater a b \<longleftrightarrow>
     sint (qi_neg_total b) < sint (qi_neg_total a) \<or>
     sint (qi_neg_total a) = sint (qi_neg_total b) \<and> unat (qi_depth b) < unat (qi_depth a)"

definition pick_ok :: "(QueueItem list \<Rightarrow> QueueItem) \<Rightarrow> bool" where
  "pick_ok pick \<longleftrightarrow> (\<forall>q. q \<noteq> [] \<longrightarrow> pick q \<in> set q \<and> (\<forall>x \<in> set q. \<not> item_greater (pick q) x))"

text \<open>The items of one child: one for each length of its path.\<close>

definition child_items :: "CompressedTrie \<Rightarrow> u32 \<Rightarrow> u32 \<Rightarrow> QueueItem list option" where
  "child_items t depth childId =
     do { childNode \<leftarrow> rd (m_nodes t) (unat childId);
          Some (map (\<lambda>pos. \<lparr>qi_neg_total = - nd_total childNode, qi_depth = depth + of_nat pos + 1,
                             qi_node = \<lparr>np_nodeId = childId, np_pathSize = of_nat pos + 1\<rparr>\<rparr>)
                  [0..<ps_size (nd_path childNode)]) }"

fun push_children :: "CompressedTrie \<Rightarrow> u32 \<Rightarrow> (u32 \<times> u32) list \<Rightarrow> QueueItem list \<Rightarrow> QueueItem list option" where
  "push_children t depth [] queue = Some queue"
| "push_children t depth ((key, childId) # es) queue =
     do { items \<leftarrow> child_items t depth childId; push_children t depth es (queue @ items) }"

partial_function (option) select_loop ::
  "(QueueItem list \<Rightarrow> QueueItem) \<Rightarrow> CompressedTrie \<Rightarrow> nat \<Rightarrow> NodeOnPath list \<Rightarrow> QueueItem list \<Rightarrow> NodeOnPath list option" where
  "select_loop pick t cnt selectedNodes queue =
     (if length selectedNodes < cnt \<and> queue \<noteq> []
      then do { let item = pick queue;
                let queue = remove1 item queue;
                let selectedNodes = List.insert (qi_node item) selectedNodes;
                node \<leftarrow> rd (m_nodes t) (unat (np_nodeId (qi_node item)));
                if unat (np_pathSize (qi_node item)) \<noteq> ps_size (nd_path node)
                then select_loop pick t cnt selectedNodes queue
                else do { queue \<leftarrow> push_children t (qi_depth item) (nd_edges node) queue;
                          select_loop pick t cnt selectedNodes queue } }
      else Some selectedNodes)"

declare select_loop.simps [code]

text \<open>The loop of \<open>RetrieveNodes\<close> over a path; the flag says whether the whole path was selected.\<close>

fun emit_loop ::
  "CompressedTrie \<Rightarrow> NodeOnPath list \<Rightarrow> u32 \<Rightarrow> u32 \<Rightarrow> TrieNode \<Rightarrow> nat \<Rightarrow> nat \<Rightarrow> RetrievedNode list \<Rightarrow> (RetrievedNode list \<times> bool) option" where
  "emit_loop t selectedNodes nodeId depth node pos 0 result = Some (result, True)"
| "emit_loop t selectedNodes nodeId depth node pos (Suc n) result =
     (if \<lparr>np_nodeId = nodeId, np_pathSize = of_nat pos + 1\<rparr> \<notin> set selectedNodes then Some (result, False)
      else do { key \<leftarrow> rd (m_paths t) (unat (ps_begin (nd_path node)) + pos);
                let value = (if pos + 1 = ps_size (nd_path node) then nd_value node else 0);
                emit_loop t selectedNodes nodeId depth node (pos + 1) n
                  (result @ [\<lparr>rn_total = nd_total node, rn_value = value, rn_depth = depth + of_nat pos + 1, rn_key = key\<rparr>]) })"

fun children_totals :: "CompressedTrie \<Rightarrow> (u32 \<times> u32) list \<Rightarrow> (u64 \<times> u32) list option" where
  "children_totals t [] = Some []"
| "children_totals t ((key, childId) # es) =
     do { childNode \<leftarrow> rd (m_nodes t) (unat childId);
          rest \<leftarrow> children_totals t es;
          Some ((nd_total childNode, key) # rest) }"

definition order_children :: "(u64 \<times> u32) list \<Rightarrow> (u64 \<times> u32) list" where
  "order_children cs = rev (sort_key (\<lambda>c. (sint (fst c), unat (snd c))) cs)"

fun fold_opt :: "('a \<Rightarrow> 'b \<Rightarrow> 'b option) \<Rightarrow> 'a list \<Rightarrow> 'b \<Rightarrow> 'b option" where
  "fold_opt f [] s = Some s"
| "fold_opt f (x # xs) s = do { s \<leftarrow> f x s; fold_opt f xs s }"

primrec RetrieveNodes ::
  "nat \<Rightarrow> CompressedTrie \<Rightarrow> NodeOnPath list \<Rightarrow> u32 \<Rightarrow> u32 \<Rightarrow> RetrievedNode list \<Rightarrow> RetrievedNode list option" where
  "RetrieveNodes 0 t selectedNodes nodeId depth result = None"
| "RetrieveNodes (Suc fuel) t selectedNodes nodeId depth result =
     do { node \<leftarrow> rd (m_nodes t) (unat nodeId);
          (result, whole) \<leftarrow> emit_loop t selectedNodes nodeId depth node 0 (ps_size (nd_path node)) result;
          if \<not> whole then Some result
          else do { let result = (if nodeId = 0
                      then result @ [\<lparr>rn_total = nd_total node, rn_value = 0, rn_depth = depth, rn_key = 0\<rparr>] else result);
                    cs \<leftarrow> children_totals t (nd_edges node);
                    fold_opt (\<lambda>c result.
                        do { childId \<leftarrow> map_of (nd_edges node) (snd c);
                             RetrieveNodes fuel t selectedNodes childId (depth + of_nat (ps_size (nd_path node))) result })
                      (order_children cs) result } }"

definition GetTop :: "(QueueItem list \<Rightarrow> QueueItem) \<Rightarrow> nat \<Rightarrow> CompressedTrie \<Rightarrow> RetrievedNode list option" where
  "GetTop pick cnt t =
     do { root \<leftarrow> rd (m_nodes t) 0;
          let queue = [\<lparr>qi_neg_total = - nd_total root, qi_depth = 0, qi_node = \<lparr>np_nodeId = 0, np_pathSize = 0\<rparr>\<rparr>];
          selectedNodes \<leftarrow> select_loop pick t cnt [] queue;
          RetrieveNodes (length (m_nodes t)) t selectedNodes 0 0 [] }"

section \<open>Positions\<close>

text \<open>
  A position as a pair of numbers: \<open>(j, m)\<close> is the end of the first \<open>m\<close> keys of the path of node \<open>j\<close>, and
  \<open>(0, 0)\<close> is the root. \<open>wd\<close> is the word that leads there, \<open>full i\<close> the end of a node.
\<close>

type_synonym pos = "nat \<times> nat"

definition pos_ok :: "u32 list list \<Rightarrow> CompressedTrie \<Rightarrow> pos \<Rightarrow> bool" where
  "pos_ok ws t x \<longleftrightarrow> fst x < length ws \<and> (if fst x = 0 then snd x = 0 else 0 < snd x \<and> snd x \<le> length (pth t (fst x)))"

definition wd :: "u32 list list \<Rightarrow> CompressedTrie \<Rightarrow> pos \<Rightarrow> u32 list" where
  "wd ws t x = take (length (ws ! fst x) - length (pth t (fst x)) + snd x) (ws ! fst x)"

definition full :: "CompressedTrie \<Rightarrow> nat \<Rightarrow> pos" where
  "full t i = (i, length (pth t i))"

definition node_of :: "pos \<Rightarrow> NodeOnPath" where
  "node_of x = \<lparr>np_nodeId = of_nat (fst x), np_pathSize = of_nat (snd x)\<rparr>"

definition item_of :: "u32 list list \<Rightarrow> CompressedTrie \<Rightarrow> pos \<Rightarrow> QueueItem" where
  "item_of ws t x = \<lparr>qi_neg_total = - nd_total (m_nodes t ! fst x), qi_depth = of_nat (length (wd ws t x)), qi_node = node_of x\<rparr>"

text \<open>A trie whose words are short enough for 32-bit depths.\<close>

definition trie_ok :: "u32 list list \<Rightarrow> CompressedTrie \<Rightarrow> bool" where
  "trie_ok ws t \<longleftrightarrow> shape ws t \<and> (\<forall>w \<in> set ws. length w < 2 ^ 32)"

lemma trie_shape: "trie_ok ws t \<Longrightarrow> shape ws t"
  by (simp add: trie_ok_def)

lemma ps_size_pth:
  assumes "shape ws t" "i < length ws"
  shows "ps_size (nd_path (m_nodes t ! i)) = length (pth t i)" "length (pth t i) < 2 ^ 32"
proof -
  note ok = shapeD(8) [OF assms]
  show l: "ps_size (nd_path (m_nodes t ! i)) = length (pth t i)" using length_path_of [OF ok] by (simp add: pth_def)
  show "length (pth t i) < 2 ^ 32"
    using ok ps_size_eq [OF ok] l shapeD(4) [OF assms(1)] by (auto simp: span_ok_def)
qed

lemma wd_edge: "shape ws t \<Longrightarrow> edge t i k j \<Longrightarrow> m \<le> length (pth t j) \<Longrightarrow> wd ws t (j, m) = ws ! i @ take m (pth t j)"
  using shape_edge(5) by (simp add: wd_def)

lemma wd_root: "shape ws t \<Longrightarrow> wd ws t (0, 0) = []"
  by (simp add: wd_def shapeD(5))

lemma wd_full:
  assumes a: "shape ws t" "i < length ws"
  shows "wd ws t (full t i) = ws ! i"
proof (cases "i = 0")
  case True
  then show ?thesis using a shapeD(5) by (simp add: wd_def full_def)
next
  case False
  then obtain i' k where e: "edge t i' k i" using shapeD(10) [OF a(1) _ a(2)] by blast
  then show ?thesis using wd_edge [OF a(1) e order_refl] shape_edge(5) [OF a(1) e] by (simp add: full_def)
qed

lemma full_ok: "shape ws t \<Longrightarrow> i < length ws \<Longrightarrow> pos_ok ws t (full t i)"
  using shapeD(6) [of ws t] shapeD(10) [of ws t i] shape_edge(3) [of ws t _ _ i]
  by (cases "i = 0") (auto simp: pos_ok_def full_def)

lemma wd_prefix: "prefix (wd ws t x) (ws ! fst x)"
  by (simp add: wd_def take_is_prefix)

lemma pos_bounds:
  assumes "trie_ok ws t" "pos_ok ws t x"
  shows "fst x < 2 ^ 32" "snd x < 2 ^ 32" "length (wd ws t x) < 2 ^ 32"
proof -
  note sh = trie_shape [OF assms(1)]
  have x: "fst x < length ws" "snd x \<le> length (pth t (fst x))" using assms(2) by (auto simp: pos_ok_def split: if_splits)
  show "fst x < 2 ^ 32" using x(1) shapeD(3) [OF sh] by linarith
  show "snd x < 2 ^ 32" using x(2) ps_size_pth(2) [OF sh x(1)] by linarith
  have "length (ws ! fst x) < 2 ^ 32" using assms(1) x(1) by (simp add: trie_ok_def)
  then show "length (wd ws t x) < 2 ^ 32" using prefix_length_le [OF wd_prefix [of ws t x]] by linarith
qed

lemma unat_node_of:
  assumes "trie_ok ws t" "pos_ok ws t x"
  shows "unat (np_nodeId (node_of x)) = fst x" "unat (np_pathSize (node_of x)) = snd x"
  using pos_bounds [OF assms] by (simp_all add: node_of_def unat_of_nat)

lemma node_of_inj:
  assumes "trie_ok ws t" "pos_ok ws t x" "pos_ok ws t y" "node_of x = node_of y"
  shows "x = y"
  using unat_node_of [OF assms(1,2)] unat_node_of [OF assms(1,3)] assms(4) by (simp add: prod_eq_iff)

text \<open>The positions of the children of a node.\<close>

definition kids :: "CompressedTrie \<Rightarrow> nat \<Rightarrow> pos list" where
  "kids t i = concat (map (\<lambda>e. map (\<lambda>m. (unat (snd e), Suc m)) [0..<length (pth t (unat (snd e)))]) (nd_edges (m_nodes t ! i)))"

lemma set_kids:
  assumes "i < length (m_nodes t)"
  shows "set (kids t i) = {(j, m). (\<exists>k. edge t i k j) \<and> 0 < m \<and> m \<le> length (pth t j)}"
proof (rule set_eqI)
  fix x :: pos
  obtain j m where x: "x = (j, m)" by (cases x)
  have "x \<in> set (kids t i) \<longleftrightarrow> (\<exists>e \<in> set (nd_edges (m_nodes t ! i)). j = unat (snd e) \<and> (\<exists>m' < length (pth t j). m = Suc m'))"
    by (force simp: kids_def x)
  also have "\<dots> \<longleftrightarrow> (\<exists>k. edge t i k j) \<and> (\<exists>m' < length (pth t j). m = Suc m')"
    using assms by (force simp: edge_def)
  also have "(\<exists>m' < length (pth t j). m = Suc m') \<longleftrightarrow> 0 < m \<and> m \<le> length (pth t j)" by (cases m) auto
  finally show "x \<in> set (kids t i) \<longleftrightarrow> x \<in> {(j, m). (\<exists>k. edge t i k j) \<and> 0 < m \<and> m \<le> length (pth t j)}" by (simp add: x)
qed

lemma edge_targets_distinct:
  assumes "shape ws t" "i < length ws"
  shows "distinct (map (\<lambda>e. unat (snd e)) (nd_edges (m_nodes t ! i)))"
proof -
  let ?es = "nd_edges (m_nodes t ! i)"
  have "inj_on (\<lambda>e. unat (snd e)) (set ?es)"
  proof (rule inj_onI)
    fix e e' assume a: "e \<in> set ?es" "e' \<in> set ?es" "unat (snd e) = unat (snd e')"
    have "edge t i (fst e) (unat (snd e))" "edge t i (fst e') (unat (snd e))"
      using a assms shapeD(1) [OF assms(1)] by (auto simp: edge_def intro: exI [of _ "snd e"] exI [of _ "snd e'"])
    then have "fst e = fst e'" using shape_edge(4) [OF assms(1)] by metis
    then show "e = e'" using a(3) by (simp add: prod_eq_iff word_unat_eq_iff)
  qed
  moreover have "distinct ?es" using shapeD(9) [OF assms] by (simp add: distinct_map)
  ultimately show ?thesis by (simp add: distinct_map)
qed

lemma distinct_kids:
  assumes "shape ws t" "i < length ws"
  shows "distinct (kids t i)"
proof -
  have "distinct (concat (map (\<lambda>j. map (\<lambda>m. (j, Suc m)) [0..<length (pth t j)]) js))" if "distinct js" for js
    using that by (induction js) (auto simp: distinct_map inj_on_def)
  from this [OF edge_targets_distinct [OF assms]] show ?thesis by (simp add: kids_def comp_def)
qed

lemma push_children_kids:
  assumes "trie_ok ws t" "i < length ws" "depth = of_nat (length (ws ! i))"
  shows "push_children t depth (nd_edges (m_nodes t ! i)) queue = Some (queue @ map (item_of ws t) (kids t i))"
proof -
  note sh = trie_shape [OF assms(1)]
  have item: "child_items t depth (snd e) = Some (map (item_of ws t) (map (\<lambda>m. (unat (snd e), Suc m)) [0..<length (pth t (unat (snd e)))]))"
    if e: "e \<in> set (nd_edges (m_nodes t ! i))" for e
  proof -
    have ed: "edge t i (fst e) (unat (snd e))"
      using e assms(2) shapeD(1) [OF sh] by (auto simp: edge_def intro: exI [of _ "snd e"])
    note se = shape_edge [OF sh ed]
    have "item_of ws t (unat (snd e), Suc m) =
        \<lparr>qi_neg_total = - nd_total (m_nodes t ! unat (snd e)), qi_depth = depth + of_nat m + 1,
          qi_node = \<lparr>np_nodeId = snd e, np_pathSize = of_nat m + 1\<rparr>\<rparr>"
      if "m < length (pth t (unat (snd e)))" for m
      using wd_edge [OF sh ed, of "Suc m"] that assms(3) by (simp add: item_of_def node_of_def min_absorb1)
    then show ?thesis
      using se(2) shapeD(1) [OF sh] ps_size_pth(1) [OF sh se(2)] by (simp add: child_items_def rd_def)
  qed
  have "push_children t depth es queue = Some (queue @ map (item_of ws t)
      (concat (map (\<lambda>e. map (\<lambda>m. (unat (snd e), Suc m)) [0..<length (pth t (unat (snd e)))]) es)))"
    if "set es \<subseteq> set (nd_edges (m_nodes t ! i))" for es
    using that
  proof (induction es arbitrary: queue)
    case (Cons e es)
    then show ?case using item [of e] by (cases e) simp
  qed simp
  then show ?thesis by (simp add: kids_def)
qed

section \<open>Selection\<close>

text \<open>
  The invariant of the loop, for the selected positions \<open>S\<close> and the positions \<open>Q\<close> in the queue: together
  they are the root and the positions of all children of nodes that are selected to their end; the
  selected positions of a node are the first ones of its path; and no position in the queue weighs more
  than a selected one, if no node weighs more than its parent.
\<close>

definition weight :: "CompressedTrie \<Rightarrow> pos \<Rightarrow> int" where
  "weight t x = - sint (- nd_total (m_nodes t ! fst x))"

definition tapered :: "CompressedTrie \<Rightarrow> bool" where
  "tapered t \<longleftrightarrow> (\<forall>i k j. edge t i k j \<longrightarrow> weight t (full t j) \<le> weight t (full t i))"

definition selecting :: "u32 list list \<Rightarrow> CompressedTrie \<Rightarrow> pos list \<Rightarrow> pos list \<Rightarrow> bool" where
  "selecting ws t S Q \<longleftrightarrow> distinct (S @ Q) \<and>
     set (S @ Q) = insert (0, 0) {x. pos_ok ws t x \<and> (\<exists>i k. edge t i k (fst x) \<and> full t i \<in> set S)} \<and>
     (\<forall>j m m'. (j, m) \<in> set S \<and> 0 < m' \<and> m' < m \<longrightarrow> (j, m') \<in> set S) \<and>
     (tapered t \<longrightarrow> (\<forall>s \<in> set S. \<forall>q \<in> set Q. weight t q \<le> weight t s))"

lemma selectingD:
  assumes "selecting ws t S Q"
  shows "distinct S" "distinct Q" "set S \<inter> set Q = {}"
    "x \<in> set S \<or> x \<in> set Q \<longleftrightarrow> x = (0, 0) \<or> pos_ok ws t x \<and> (\<exists>i k. edge t i k (fst x) \<and> full t i \<in> set S)"
    "(j, m) \<in> set S \<Longrightarrow> 0 < m' \<Longrightarrow> m' < m \<Longrightarrow> (j, m') \<in> set S"
    "tapered t \<Longrightarrow> s \<in> set S \<Longrightarrow> q \<in> set Q \<Longrightarrow> weight t q \<le> weight t s"
proof -
  have d: "distinct (S @ Q)" and s: "set (S @ Q) = insert (0, 0) {x. pos_ok ws t x \<and> (\<exists>i k. edge t i k (fst x) \<and> full t i \<in> set S)}"
    and f: "\<forall>j m m'. (j, m) \<in> set S \<and> 0 < m' \<and> m' < m \<longrightarrow> (j, m') \<in> set S"
    and w: "tapered t \<longrightarrow> (\<forall>s \<in> set S. \<forall>q \<in> set Q. weight t q \<le> weight t s)"
    using assms unfolding selecting_def by blast+
  show "distinct S" "distinct Q" "set S \<inter> set Q = {}" using d by simp_all
  have "x \<in> set S \<or> x \<in> set Q \<longleftrightarrow> x \<in> set (S @ Q)" by simp
  then show "x \<in> set S \<or> x \<in> set Q \<longleftrightarrow> x = (0, 0) \<or> pos_ok ws t x \<and> (\<exists>i k. edge t i k (fst x) \<and> full t i \<in> set S)"
    unfolding s by blast
  show "(j, m) \<in> set S \<Longrightarrow> 0 < m' \<Longrightarrow> m' < m \<Longrightarrow> (j, m') \<in> set S" using f by blast
  show "tapered t \<Longrightarrow> s \<in> set S \<Longrightarrow> q \<in> set Q \<Longrightarrow> weight t q \<le> weight t s" using w by blast
qed

lemma root_ok: "shape ws t \<Longrightarrow> pos_ok ws t (0, 0)"
  using shapeD(2) by (simp add: pos_ok_def)

lemma selecting_ok: "trie_ok ws t \<Longrightarrow> selecting ws t S Q \<Longrightarrow> x \<in> set S \<or> x \<in> set Q \<Longrightarrow> pos_ok ws t x"
  using selectingD(4) [of ws t S Q x] root_ok [OF trie_shape] by blast

lemma parent_unique:
  assumes "shape ws t" "edge t i k j" "edge t i' k' j"
  shows "i = i'"
proof -
  have "ws ! i = ws ! i'" using shape_edge(5) [OF assms(1,2)] shape_edge(5) [OF assms(1,3)] by simp
  then show ?thesis
    using shapeD(7) [OF assms(1)] shape_edge(1) [OF assms(1,2)] shape_edge(1) [OF assms(1,3)] by (simp add: nth_eq_iff_index_eq)
qed

text \<open>The least item of the queue continues the selected part of its node.\<close>

lemma picked_next:
  assumes "trie_ok ws t" "selecting ws t S Q" "(j, m) \<in> set Q" "0 < m'" "m' < m"
    and "\<forall>x \<in> set Q. \<not> item_greater (item_of ws t (j, m)) (item_of ws t x)"
  shows "(j, m') \<in> set S"
proof -
  note sh = trie_shape [OF assms(1)]
  have ok: "pos_ok ws t (j, m)" using selecting_ok [OF assms(1,2)] assms(3) by blast
  then have j: "0 < j" "m \<le> length (pth t j)" using assms(5) by (auto simp: pos_ok_def split: if_splits)
  then obtain i k where e: "edge t i k j" "full t i \<in> set S"
    using selectingD(4) [OF assms(2), of "(j, m)"] assms(3) by auto
  have ok': "pos_ok ws t (j, m')" using ok j assms(4,5) by (simp add: pos_ok_def)
  then have "(j, m') \<in> set S \<or> (j, m') \<in> set Q" using selectingD(4) [OF assms(2), of "(j, m')"] e by auto
  moreover have "(j, m') \<notin> set Q"
  proof
    assume q: "(j, m') \<in> set Q"
    have "length (wd ws t (j, m')) < length (wd ws t (j, m))"
      using wd_edge [OF sh e(1)] j(2) assms(5) by simp
    moreover note pos_bounds(3) [OF assms(1) ok] pos_bounds(3) [OF assms(1) ok']
    ultimately have "item_greater (item_of ws t (j, m)) (item_of ws t (j, m'))"
      by (simp add: item_greater_def item_of_def unat_of_nat)
    then show False using assms(6) q by blast
  qed
  ultimately show ?thesis by blast
qed

lemma picked_heaviest:
  assumes "\<not> item_greater (item_of ws t x) (item_of ws t y)"
  shows "weight t y \<le> weight t x"
  using assms by (auto simp: item_greater_def item_of_def weight_def)

definition at_end :: "CompressedTrie \<Rightarrow> pos \<Rightarrow> bool" where
  "at_end t x \<longleftrightarrow> snd x = length (pth t (fst x))"

lemma at_end_iff: "at_end t x \<longleftrightarrow> x = full t (fst x)"
  by (cases x) (simp add: at_end_def full_def)

definition new_kids :: "CompressedTrie \<Rightarrow> pos \<Rightarrow> pos list" where
  "new_kids t x = (if at_end t x then kids t (fst x) else [])"

lemma set_new_kids:
  assumes "trie_ok ws t" "pos_ok ws t x"
  shows "y \<in> set (new_kids t x) \<longleftrightarrow> pos_ok ws t y \<and> at_end t x \<and> (\<exists>k. edge t (fst x) k (fst y))"
proof -
  note sh = trie_shape [OF assms(1)]
  have n: "fst x < length (m_nodes t)" using assms(2) shapeD(1) [OF sh] by (simp add: pos_ok_def)
  have "0 < fst y \<and> fst y < length ws" if "edge t (fst x) k (fst y)" for k
    using shape_edge(2) [OF sh that] no_edge_to_root [OF sh, of "fst x" k] that by (cases "fst y = 0") simp_all
  note target = this
  obtain j m where y: "y = (j, m)" by (cases y)
  have "(j, m) \<in> set (kids t (fst x)) \<longleftrightarrow> pos_ok ws t (j, m) \<and> (\<exists>k. edge t (fst x) k j)"
    unfolding set_kids [OF n] using target by (auto simp: y pos_ok_def)
  then show ?thesis unfolding y new_kids_def fst_conv by (cases "at_end t x") (simp_all only: if_True if_False simp_thms list.set empty_iff)
qed

lemma weight_node: "weight t x = weight t (full t (fst x))"
  by (simp add: weight_def full_def)

lemma new_kids_fresh:
  assumes "trie_ok ws t" "selecting ws t S Q" "x \<in> set Q" "y \<in> set (new_kids t x)"
  shows "y \<notin> set S \<union> set Q"
proof
  note sh = trie_shape [OF assms(1)] and D = selectingD [OF assms(2)]
  have ok: "pos_ok ws t x" using selecting_ok [OF assms(1,2)] assms(3) by blast
  assume y: "y \<in> set S \<union> set Q"
  obtain k where k: "at_end t x" "edge t (fst x) k (fst y)" using assms(4) unfolding set_new_kids [OF assms(1) ok] by blast
  then have "y \<noteq> (0, 0)" using no_edge_to_root [OF sh] by auto
  then obtain i k' where i: "edge t i k' (fst y)" "full t i \<in> set S" using D(4) [of y] y by blast
  have "x \<notin> set S" using D(3) assms(3) by blast
  then show False using parent_unique [OF sh k(2) i(1)] k(1) i(2) unfolding at_end_iff by metis
qed

lemma select_step_distinct:
  assumes "trie_ok ws t" "selecting ws t S Q" "x \<in> set Q"
  shows "distinct ((x # S) @ remove1 x Q @ new_kids t x)"
proof -
  note D = selectingD [OF assms(2)] and fresh = new_kids_fresh [OF assms]
  have "pos_ok ws t x" using selecting_ok [OF assms(1,2)] assms(3) by blast
  then have dk: "distinct (new_kids t x)" using distinct_kids [OF trie_shape [OF assms(1)]] by (simp add: new_kids_def pos_ok_def)
  have Q: "x \<notin> set S" "set (remove1 x Q) = set Q - {x}" using D(2,3) assms(3) by auto
  have "set (new_kids t x) \<inter> set S = {}" "set (new_kids t x) \<inter> set Q = {}" "x \<notin> set (new_kids t x)"
    using fresh assms(3) by blast+
  then have "set S \<inter> set (remove1 x Q @ new_kids t x) = {}" "x \<notin> set (remove1 x Q @ new_kids t x)"
    "set (remove1 x Q) \<inter> set (new_kids t x) = {}" using D(3) Q by auto
  then show ?thesis using D(1,2) Q(1) dk by (simp add: distinct_remove1)
qed

lemma select_step_heaviest:
  assumes "trie_ok ws t" "selecting ws t S Q" "x \<in> set Q" "\<forall>y \<in> set Q. \<not> item_greater (item_of ws t x) (item_of ws t y)"
    and "tapered t" "s \<in> set (x # S)" "q \<in> set (remove1 x Q @ new_kids t x)"
  shows "weight t q \<le> weight t s"
proof -
  note D = selectingD [OF assms(2)]
  have ok: "pos_ok ws t x" using selecting_ok [OF assms(1,2)] assms(3) by blast
  have sx: "weight t x \<le> weight t s" using assms(6) D(6) [OF assms(5) _ assms(3), of s] by (cases "s = x") simp_all
  have "weight t q \<le> weight t x"
  proof (cases "q \<in> set Q")
    case True
    then show ?thesis using assms(4) picked_heaviest by blast
  next
    case False
    then obtain k where "edge t (fst x) k (fst q)" using assms(7) set_new_kids [OF assms(1) ok, of q] D(2) by auto
    then show ?thesis using assms(5) weight_node [of t x] weight_node [of t q] unfolding tapered_def by metis
  qed
  then show ?thesis using sx by linarith
qed

lemma select_step:
  assumes "trie_ok ws t" "selecting ws t S Q" "x \<in> set Q"
    and "\<forall>y \<in> set Q. \<not> item_greater (item_of ws t x) (item_of ws t y)"
  shows "selecting ws t (x # S) (remove1 x Q @ new_kids t x)"
proof -
  note D = selectingD [OF assms(2)]
  have ok: "pos_ok ws t x" using selecting_ok [OF assms(1,2)] assms(3) by blast
  have full: "full t i \<in> set (x # S) \<longleftrightarrow> full t i \<in> set S \<or> at_end t x \<and> i = fst x" for i
    by (cases x) (auto simp: full_def at_end_def)
  have mem: "y \<in> set ((x # S) @ remove1 x Q @ new_kids t x) \<longleftrightarrow> y \<in> set S \<or> y \<in> set Q \<or> y \<in> set (new_kids t x)" for y
    using assms(3) D(2) by auto
  show ?thesis unfolding selecting_def
  proof (intro conjI)
    show "distinct ((x # S) @ remove1 x Q @ new_kids t x)" by (rule select_step_distinct [OF assms(1-3)])
    show "set ((x # S) @ remove1 x Q @ new_kids t x) =
        insert (0, 0) {y. pos_ok ws t y \<and> (\<exists>i k. edge t i k (fst y) \<and> full t i \<in> set (x # S))}"
    proof (rule set_eqI)
      fix y
      show "y \<in> set ((x # S) @ remove1 x Q @ new_kids t x) \<longleftrightarrow>
          y \<in> insert (0, 0) {y. pos_ok ws t y \<and> (\<exists>i k. edge t i k (fst y) \<and> full t i \<in> set (x # S))}"
        unfolding mem full using D(4) [of y] set_new_kids [OF assms(1) ok, of y] by blast
    qed
    have "(j, m') \<in> set (x # S)" if "(j, m) \<in> set (x # S)" "0 < m'" "m' < m" for j m m'
      using that D(5) picked_next [OF assms(1,2) _ that(2,3)] assms(3,4) by auto
    then show "\<forall>j m m'. (j, m) \<in> set (x # S) \<and> 0 < m' \<and> m' < m \<longrightarrow> (j, m') \<in> set (x # S)" by blast
    show "tapered t \<longrightarrow> (\<forall>s \<in> set (x # S). \<forall>q \<in> set (remove1 x Q @ new_kids t x). weight t q \<le> weight t s)"
      using select_step_heaviest [OF assms] by blast
  qed
qed

lemma remove1_map_inj:
  assumes "inj_on f (set xs)" "x \<in> set xs"
  shows "remove1 (f x) (map f xs) = map f (remove1 x xs)"
  using assms by (induction xs) (auto simp: inj_on_def)

lemma item_of_inj: "trie_ok ws t \<Longrightarrow> pos_ok ws t x \<Longrightarrow> pos_ok ws t y \<Longrightarrow> item_of ws t x = item_of ws t y \<Longrightarrow> x = y"
  using node_of_inj by (simp add: item_of_def)

text \<open>One turn of the loop takes the picked position and adds what lies below it.\<close>

lemma select_turn:
  assumes "trie_ok ws t" "selecting ws t S Q" "x \<in> set Q" "pick (map (item_of ws t) Q) = item_of ws t x" "length S < cnt"
  shows "select_loop pick t cnt (map node_of S) (map (item_of ws t) Q) =
    select_loop pick t cnt (map node_of (x # S)) (map (item_of ws t) (remove1 x Q @ new_kids t x))"
proof -
  note sh = trie_shape [OF assms(1)]
  let ?items = "map (item_of ws t) Q"
  have ok: "pos_ok ws t y" if "y \<in> set S \<or> y \<in> set Q" for y using selecting_ok [OF assms(1,2) that] .
  then have okx: "pos_ok ws t x" using assms(3) by blast
  then have fx: "fst x < length ws" "fst x < length (m_nodes t)" using shapeD(1) [OF sh] by (auto simp: pos_ok_def)
  have ne: "Q \<noteq> []" using assms(3) by auto
  have rem: "remove1 (item_of ws t x) ?items = map (item_of ws t) (remove1 x Q)"
    using item_of_inj [OF assms(1)] ok assms(3) by (intro remove1_map_inj) (auto simp: inj_on_def)
  have "node_of x \<notin> node_of ` set S" using node_of_inj [OF assms(1) okx] ok selectingD(3) [OF assms(2)] assms(3) by blast
  then have ins: "List.insert (node_of x) (map node_of S) = map node_of (x # S)" by (simp add: List.insert_def)
  have node: "unat (np_nodeId (node_of x)) = fst x" "unat (np_pathSize (node_of x)) = snd x" using unat_node_of [OF assms(1) okx] .
  have whole: "snd x \<noteq> ps_size (nd_path (m_nodes t ! fst x)) \<longleftrightarrow> \<not> at_end t x" using ps_size_pth(1) [OF sh fx(1)] by (simp add: at_end_def)
  show ?thesis
  proof (cases "at_end t x")
    case True
    then have "qi_depth (item_of ws t x) = of_nat (length (ws ! fst x))"
      using wd_full [OF sh fx(1)] unfolding at_end_iff by (metis QueueItem.select_convs(2) item_of_def)
    from push_children_kids [OF assms(1) fx(1) this] True
    have "push_children t (qi_depth (item_of ws t x)) (nd_edges (m_nodes t ! fst x)) (map (item_of ws t) (remove1 x Q)) =
        Some (map (item_of ws t) (remove1 x Q @ new_kids t x))" by (simp add: new_kids_def)
    then show ?thesis
      using ne assms(4,5) rem ins node whole fx(2) True by (subst select_loop.simps) (simp add: rd_def item_of_def [of ws t x])
  next
    case False
    then show ?thesis
      using ne assms(4,5) rem ins node whole fx(2)
      by (subst select_loop.simps) (simp add: rd_def item_of_def [of ws t x] new_kids_def)
  qed
qed

lemma select_loop_spec:
  assumes "trie_ok ws t" "pick_ok pick" "selecting ws t S Q"
  shows "\<exists>S' Q'. select_loop pick t cnt (map node_of S) (map (item_of ws t) Q) = Some (map node_of S') \<and>
    selecting ws t S' Q' \<and> length S' \<le> max cnt (length S) \<and> (length S' < cnt \<longrightarrow> Q' = []) \<and> set S \<subseteq> set S' \<and>
    (length S < cnt \<and> Q \<noteq> [] \<longrightarrow> S' \<noteq> [])"
  using assms(3)
proof (induction "cnt - length S" arbitrary: S Q rule: less_induct)
  case less
  show ?case
  proof (cases "length S < cnt \<and> Q \<noteq> []")
    case False
    then show ?thesis using less.prems by (intro exI [of _ S] exI [of _ Q]) (subst select_loop.simps, auto)
  next
    case True
    let ?items = "map (item_of ws t) Q"
    have "?items \<noteq> []" using True by simp
    then have "pick ?items \<in> set ?items" "\<forall>y \<in> set ?items. \<not> item_greater (pick ?items) y"
      using assms(2) unfolding pick_ok_def by blast+
    then obtain x where x: "x \<in> set Q" "pick ?items = item_of ws t x"
      "\<forall>y \<in> set Q. \<not> item_greater (item_of ws t x) (item_of ws t y)" by auto
    have "cnt - length (x # S) < cnt - length S" using True by (intro diff_less_mono2) auto
    from less.hyps [OF this select_step [OF assms(1) less.prems x(1,3)]]
    obtain S' Q' where "select_loop pick t cnt (map node_of (x # S)) (map (item_of ws t) (remove1 x Q @ new_kids t x)) = Some (map node_of S')"
      "selecting ws t S' Q'" "length S' \<le> max cnt (length (x # S))" "length S' < cnt \<longrightarrow> Q' = []" "set (x # S) \<subseteq> set S'"
      by blast
    moreover have "length S < cnt" using True by blast
    note select_turn [where pick = pick, OF assms(1) less.prems x(1,2) this]
    ultimately show ?thesis using True by (intro exI [of _ S'] exI [of _ Q']) auto
  qed
qed

section \<open>Listing\<close>

text \<open>The positions that \<open>RetrieveNodes\<close> lists, and the line it writes for each.\<close>

fun lead :: "pos list \<Rightarrow> nat \<Rightarrow> nat \<Rightarrow> nat \<Rightarrow> pos list" where
  "lead S j pos 0 = []"
| "lead S j pos (Suc n) = (if (j, Suc pos) \<in> set S then (j, Suc pos) # lead S j (Suc pos) n else [])"

definition child_order :: "CompressedTrie \<Rightarrow> nat \<Rightarrow> nat list" where
  "child_order t i =
     (let es = nd_edges (m_nodes t ! i)
      in map (\<lambda>c. unat (the (map_of es (snd c)))) (order_children (map (\<lambda>e. (nd_total (m_nodes t ! unat (snd e)), fst e)) es)))"

primrec visit :: "nat \<Rightarrow> pos list \<Rightarrow> CompressedTrie \<Rightarrow> nat \<Rightarrow> pos list" where
  "visit 0 S t j = []"
| "visit (Suc n) S t j =
     (let E = lead S j 0 (length (pth t j))
      in if length E < length (pth t j) then E
         else E @ (if j = 0 then [(0, 0)] else []) @ concat (map (visit n S t) (child_order t j)))"

definition entry_at :: "u32 list list \<Rightarrow> CompressedTrie \<Rightarrow> pos \<Rightarrow> RetrievedNode" where
  "entry_at ws t x =
     \<lparr>rn_total = nd_total (m_nodes t ! fst x),
      rn_value = (if fst x = 0 then 0 else if snd x = length (pth t (fst x)) then nd_value (m_nodes t ! fst x) else 0),
      rn_depth = of_nat (length (wd ws t x)),
      rn_key = (if fst x = 0 then 0 else pth t (fst x) ! (snd x - 1))\<rparr>"

lemma lead_length: "length (lead S j p n) \<le> n"
  by (induction S j p n rule: lead.induct) auto

lemma lead_set: "set (lead S j p n) \<subseteq> {(j, m) | m. p < m \<and> m \<le> p + n} \<inter> set S"
  by (induction S j p n rule: lead.induct) (auto, fastforce+)

lemma lead_fst: "x \<in> set (lead S j p n) \<Longrightarrow> fst x = j \<and> x \<in> set S"
  using lead_set [of S j p n] by (cases x) auto

lemma lead_distinct: "distinct (lead S j p n)"
proof (induction S j p n rule: lead.induct)
  case (2 S j p n)
  then show ?case using lead_set [of S j "Suc p" n] by auto
qed simp

lemma lead_whole: "\<not> length (lead S j p n) < n \<Longrightarrow> p < m \<Longrightarrow> m \<le> p + n \<Longrightarrow> (j, m) \<in> set (lead S j p n)"
proof (induction S j p n rule: lead.induct)
  case (2 S j p n)
  then show ?case by (cases "m = Suc p") (auto split: if_splits)
qed simp

lemma lead_first:
  "(\<And>m'. p < m' \<Longrightarrow> m' \<le> m \<Longrightarrow> (j, m') \<in> set S) \<Longrightarrow> p < m \<Longrightarrow> m \<le> p + n \<Longrightarrow> (j, m) \<in> set (lead S j p n)"
proof (induction S j p n rule: lead.induct)
  case (2 S j p n)
  have "(j, Suc p) \<in> set S" using "2.prems" by simp
  then show ?case using "2.IH" "2.prems" by (cases "m = Suc p") auto
qed simp

lemma children_totals_eq:
  assumes "\<And>e. e \<in> set es \<Longrightarrow> unat (snd e) < length (m_nodes t)"
  shows "children_totals t es = Some (map (\<lambda>e. (nd_total (m_nodes t ! unat (snd e)), fst e)) es)"
  using assms
proof (induction es)
  case (Cons e es)
  have "unat (snd e) < length (m_nodes t)" using Cons.prems [of e] by simp
  then show ?case using Cons by (cases e) (simp add: rd_def)
qed simp

lemma child_order_mset:
  assumes "distinct (map fst (nd_edges (m_nodes t ! i)))"
  shows "mset (child_order t i) = mset (map (\<lambda>e. unat (snd e)) (nd_edges (m_nodes t ! i)))"
proof -
  let ?es = "nd_edges (m_nodes t ! i)"
  let ?cs = "map (\<lambda>e. (nd_total (m_nodes t ! unat (snd e)), fst e)) ?es"
  have "mset (child_order t i) = image_mset (\<lambda>c. unat (the (map_of ?es (snd c)))) (mset ?cs)"
    by (simp only: child_order_def Let_def order_children_def mset_map mset_rev mset_sort)
  also have "\<dots> = mset (map (\<lambda>e. unat (the (map_of ?es (fst e)))) ?es)" by (simp add: image_mset.compositionality comp_def)
  also have "map (\<lambda>e. unat (the (map_of ?es (fst e)))) ?es = map (\<lambda>e. unat (snd e)) ?es"
    using assms by (intro map_cong) auto
  finally show ?thesis .
qed

lemma child_order_facts:
  assumes "shape ws t" "i < length ws"
  shows "distinct (child_order t i)" "j \<in> set (child_order t i) \<longleftrightarrow> (\<exists>k. edge t i k j)"
proof -
  note m = child_order_mset [OF shapeD(9) [OF assms]]
  show "distinct (child_order t i)" using mset_eq_imp_distinct_iff [OF m] edge_targets_distinct [OF assms] by simp
  show "j \<in> set (child_order t i) \<longleftrightarrow> (\<exists>k. edge t i k j)"
    unfolding mset_eq_setD [OF m] using assms(2) shapeD(1) [OF assms(1)] by (force simp: edge_def)
qed

lemma fold_opt_append:
  assumes "\<And>x s. x \<in> set xs \<Longrightarrow> f x s = Some (s @ g x)"
  shows "fold_opt f xs s = Some (s @ concat (map g xs))"
  using assms by (induction xs arbitrary: s) auto

lemma selected_node_iff:
  assumes "trie_ok ws t" "\<And>x. x \<in> set S \<Longrightarrow> pos_ok ws t x" "pos_ok ws t (j, Suc p)"
  shows "\<lparr>np_nodeId = of_nat j, np_pathSize = of_nat p + 1\<rparr> \<in> set (map node_of S) \<longleftrightarrow> (j, Suc p) \<in> set S"
proof -
  have "\<lparr>np_nodeId = of_nat j, np_pathSize = of_nat p + 1\<rparr> = node_of (j, Suc p)" by (simp add: node_of_def add.commute)
  then show ?thesis using node_of_inj [OF assms(1,3) assms(2)] by auto
qed

lemma emit_loop_spec:
  assumes "trie_ok ws t" "\<And>x. x \<in> set S \<Longrightarrow> pos_ok ws t x" "j < length ws" "ws ! j = c @ pth t j" "p + n = length (pth t j)"
  shows "emit_loop t (map node_of S) (of_nat j) (of_nat (length c)) (m_nodes t ! j) p n res =
    Some (res @ map (entry_at ws t) (lead S j p n), length (lead S j p n) = n)"
  using assms(5)
proof (induction n arbitrary: p res)
  case (Suc n)
  note sh = trie_shape [OF assms(1)]
  have j0: "j \<noteq> 0" using Suc.prems shapeD(6) [OF sh] by (cases j) auto
  then have ok: "pos_ok ws t (j, Suc p)" using Suc.prems assms(3) by (simp add: pos_ok_def)
  have sp: "span_ok (m_paths t) (nd_path (m_nodes t ! j))" using shapeD(8) [OF sh assms(3)] .
  have key: "rd (m_paths t) (unat (ps_begin (nd_path (m_nodes t ! j))) + p) = Some (pth t j ! p)"
    using nth_path_of [OF sp, of p] ps_size_pth(1) [OF sh assms(3)] Suc.prems by (simp add: rd_def pth_def)
  have "entry_at ws t (j, Suc p) =
      \<lparr>rn_total = nd_total (m_nodes t ! j), rn_value = (if p + 1 = ps_size (nd_path (m_nodes t ! j)) then nd_value (m_nodes t ! j) else 0),
        rn_depth = of_nat (length c) + of_nat p + 1, rn_key = pth t j ! p\<rparr>"
    using j0 ps_size_pth(1) [OF sh assms(3)] assms(4) Suc.prems by (simp add: entry_at_def wd_def min_absorb1)
  then show ?case
    using Suc.IH [of "Suc p"] Suc.prems selected_node_iff [OF assms(1,2) ok] key by simp
qed simp

text \<open>The number of nodes below a node is enough fuel.\<close>

definition below :: "u32 list list \<Rightarrow> nat \<Rightarrow> nat set" where
  "below ws j = {x. x < length ws \<and> strict_prefix (ws ! j) (ws ! x)}"

lemma finite_below [simp]: "finite (below ws j)"
  by (simp add: below_def)

lemma below_child:
  assumes "shape ws t" "edge t i k j"
  shows "card (below ws j) < card (below ws i)"
proof (rule psubset_card_mono)
  note se = shape_edge [OF assms]
  have sp: "strict_prefix (ws ! i) (ws ! j)" using se(3,5) by (simp add: strict_prefix_def)
  then have "below ws j \<subseteq> below ws i" unfolding below_def using prefix_order.less_trans by blast
  moreover have "j \<in> below ws i" "j \<notin> below ws j" using sp se(2) by (simp_all add: below_def)
  ultimately show "below ws j \<subset> below ws i" by blast
qed simp

lemma RetrieveNodes_visit:
  assumes "trie_ok ws t" "\<And>x. x \<in> set S \<Longrightarrow> pos_ok ws t x" "j < length ws" "ws ! j = c @ pth t j" "card (below ws j) < n"
  shows "RetrieveNodes n t (map node_of S) (of_nat j) (of_nat (length c)) res = Some (res @ map (entry_at ws t) (visit n S t j))"
  using assms(3-5)
proof (induction n arbitrary: j c res)
  case (Suc n)
  note sh = trie_shape [OF assms(1)]
  let ?E = "lead S j 0 (length (pth t j))" and ?node = "m_nodes t ! j"
  have "j < 2 ^ 32" using Suc.prems(1) shapeD(3) [OF sh] by linarith
  then have uj: "unat (of_nat j :: u32) = j" by (simp add: unat_of_nat)
  have root: "(of_nat j :: u32) = 0 \<longleftrightarrow> j = 0" using uj by (metis unat_0 semiring_1_class.of_nat_0)
  have rd: "rd (m_nodes t) j = Some ?node" using Suc.prems(1) shapeD(1) [OF sh] by (simp add: rd_def)
  note emit = emit_loop_spec [OF assms(1,2) Suc.prems(1,2), of S 0 "length (pth t j)" res, simplified]
  have c0: "c = []" "pth t j = []" if "j = 0" using Suc.prems(2) shapeD(5,6) [OF sh] that by simp_all
  have target: "edge t j (fst e) (unat (snd e))" if "e \<in> set (nd_edges ?node)" for e
    using that Suc.prems(1) shapeD(1) [OF sh] by (auto simp: edge_def intro: exI [of _ "snd e"])
  have tot: "children_totals t (nd_edges ?node) = Some (map (\<lambda>e. (nd_total (m_nodes t ! unat (snd e)), fst e)) (nd_edges ?node))"
    using shape_edge(2) [OF sh target] shapeD(1) [OF sh] by (intro children_totals_eq) simp
  let ?cs = "order_children (map (\<lambda>e. (nd_total (m_nodes t ! unat (snd e)), fst e)) (nd_edges ?node))"
  have child: "map_of (nd_edges ?node) (snd ch) \<bind>
      (\<lambda>childId. RetrieveNodes n t (map node_of S) childId (of_nat (length c) + of_nat (ps_size (nd_path ?node))) r) =
      Some (r @ map (entry_at ws t) (visit n S t (unat (the (map_of (nd_edges ?node) (snd ch))))))"
    if ch: "ch \<in> set ?cs" for ch r
  proof -
    obtain e where e: "e \<in> set (nd_edges ?node)" "snd ch = fst e" using ch by (auto simp: order_children_def)
    have m: "map_of (nd_edges ?node) (snd ch) = Some (snd e)" using e shapeD(9) [OF sh Suc.prems(1)] by simp
    note se = shape_edge [OF sh target [OF e(1)]]
    have "card (below ws (unat (snd e))) < n" using below_child [OF sh target [OF e(1)]] Suc.prems(3) by simp
    from Suc.IH [OF se(2,5) this, of r] show ?thesis
      using m Suc.prems(2) ps_size_pth(1) [OF sh Suc.prems(1)] by simp
  qed
  have whole: "ps_size (nd_path ?node) = length (pth t j)" using ps_size_pth(1) [OF sh Suc.prems(1)] .
  show ?case
  proof (cases "length ?E < length (pth t j)")
    case True
    then show ?thesis using uj rd emit whole by simp
  next
    case False
    then have len: "length ?E = length (pth t j)" using lead_length [of S j 0 "length (pth t j)"] by simp
    let ?r = "res @ map (entry_at ws t) (?E @ (if j = 0 then [(0, 0)] else []))"
    have r: "(if (of_nat j :: u32) = 0
        then (res @ map (entry_at ws t) ?E) @ [\<lparr>rn_total = nd_total ?node, rn_value = 0, rn_depth = of_nat (length c), rn_key = 0\<rparr>]
        else res @ map (entry_at ws t) ?E) = ?r"
      using root c0 wd_root [OF sh] by (simp add: entry_at_def)
    have "fold_opt (\<lambda>ch r. map_of (nd_edges ?node) (snd ch) \<bind>
        (\<lambda>childId. RetrieveNodes n t (map node_of S) childId (of_nat (length c) + of_nat (ps_size (nd_path ?node))) r)) ?cs ?r =
        Some (?r @ concat (map (\<lambda>ch. map (entry_at ws t) (visit n S t (unat (the (map_of (nd_edges ?node) (snd ch)))))) ?cs))"
      by (rule fold_opt_append) (rule child)
    then show ?thesis
      using uj rd emit whole len tot r by (simp add: child_order_def map_concat comp_def Let_def)
  qed
qed simp

section \<open>What is listed\<close>

lemma distinct_concat_map:
  assumes "distinct js" "\<And>j. j \<in> set js \<Longrightarrow> distinct (f j)"
    and "\<And>j j' x. j \<in> set js \<Longrightarrow> j' \<in> set js \<Longrightarrow> x \<in> set (f j) \<Longrightarrow> x \<in> set (f j') \<Longrightarrow> j = j'"
  shows "distinct (concat (map f js))"
  using assms
proof (induction js)
  case (Cons j js)
  have "set (f j) \<inter> set (concat (map f js)) = {}" using Cons.prems(1,3) by fastforce
  moreover have "distinct (concat (map f js))" using Cons.prems by (intro Cons.IH) auto
  ultimately show ?case using Cons.prems(2) [of j] by simp
qed simp

lemma visit_subtree:
  assumes "shape ws t" "j < length ws" "x \<in> set (visit n S t j)"
  shows "(x \<in> set S \<or> x = (0, 0) \<and> j = 0) \<and> prefix (ws ! j) (ws ! fst x)"
  using assms(2,3)
proof (induction n arbitrary: j)
  case (Suc n)
  let ?E = "lead S j 0 (length (pth t j))"
  have "x \<in> set ?E \<or> j = 0 \<and> x = (0, 0) \<or> (\<exists>j'. j' \<in> set (child_order t j) \<and> x \<in> set (visit n S t j'))"
    using Suc.prems(2) by (auto simp: Let_def split: if_splits)
  then show ?case
  proof (elim disjE exE conjE)
    assume "x \<in> set ?E"
    from lead_fst [OF this] show ?thesis by simp
  next
    fix j' assume j': "j' \<in> set (child_order t j)" "x \<in> set (visit n S t j')"
    then obtain k where e: "edge t j k j'" using child_order_facts(2) [OF assms(1) Suc.prems(1)] by blast
    note se = shape_edge [OF assms(1) e]
    have "j' \<noteq> 0" using e no_edge_to_root [OF assms(1)] by metis
    then show ?thesis using Suc.IH [OF se(2) j'(2)] se(5) by (metis prefix_order.trans prefixI)
  qed simp
qed simp

lemma visit_distinct:
  assumes "shape ws t" "j < length ws"
  shows "distinct (visit n S t j)"
  using assms(2)
proof (induction n arbitrary: j)
  case (Suc n)
  let ?E = "lead S j 0 (length (pth t j))" and ?cs = "concat (map (visit n S t) (child_order t j))"
  have kid: "\<exists>k. edge t j k j' \<and> prefix (ws ! j @ [k]) (ws ! fst x)"
    if j': "j' \<in> set (child_order t j)" "x \<in> set (visit n S t j')" for j' x
  proof -
    obtain k where e: "edge t j k j'" using child_order_facts(2) [OF assms(1) Suc.prems] j'(1) by blast
    note se = shape_edge [OF assms(1) e]
    have "prefix (ws ! j @ [k]) (ws ! j')" using se(3-5) by (cases "pth t j'") simp_all
    then show ?thesis using e visit_subtree [OF assms(1) se(2) j'(2)] prefix_order.trans by blast
  qed
  have "distinct ?cs"
  proof (rule distinct_concat_map)
    show "distinct (visit n S t j')" if "j' \<in> set (child_order t j)" for j'
      using Suc.IH shape_edge(2) [OF assms(1)] child_order_facts(2) [OF assms(1) Suc.prems] that by blast
    fix j1 j2 x assume a: "j1 \<in> set (child_order t j)" "j2 \<in> set (child_order t j)" "x \<in> set (visit n S t j1)" "x \<in> set (visit n S t j2)"
    obtain k1 k2 where k: "edge t j k1 j1" "prefix (ws ! j @ [k1]) (ws ! fst x)" "edge t j k2 j2" "prefix (ws ! j @ [k2]) (ws ! fst x)"
      using kid [OF a(1,3)] kid [OF a(2,4)] by blast
    then have "k1 = k2" by (auto simp: prefix_def)
    then show "j1 = j2" using edge_unique [OF assms(1) k(1)] k(3) by simp
  qed (rule child_order_facts(1) [OF assms(1) Suc.prems])
  moreover have other: "fst x \<noteq> j" if "x \<in> set ?cs" for x
  proof
    assume f: "fst x = j"
    obtain j' where "j' \<in> set (child_order t j)" "x \<in> set (visit n S t j')" using \<open>x \<in> set ?cs\<close> by auto
    from kid [OF this] f show False by (auto dest: prefix_length_le)
  qed
  moreover have "set ?E \<inter> set ?cs = {}" using other lead_fst by blast
  moreover have "(0, 0) \<notin> set ?cs" "?E = []" if "j = 0" using other [of "(0, 0)"] that shapeD(6) [OF assms(1)] by auto
  ultimately show ?case
    using lead_distinct [of S j 0] by (cases "j = 0") (simp_all add: Let_def del: set_concat)
qed simp

definition closed :: "CompressedTrie \<Rightarrow> pos list \<Rightarrow> bool" where
  "closed t S \<longleftrightarrow> (\<forall>j m m'. (j, m) \<in> set S \<and> 0 < m' \<and> m' < m \<longrightarrow> (j, m') \<in> set S) \<and>
     (\<forall>x i k. x \<in> set S \<and> edge t i k (fst x) \<longrightarrow> full t i \<in> set S)"

lemma selecting_closed:
  assumes "shape ws t" "selecting ws t S Q"
  shows "closed t S"
  unfolding closed_def
proof (intro conjI allI impI)
  fix x i k assume a: "x \<in> set S \<and> edge t i k (fst x)"
  then have "x \<noteq> (0, 0)" using no_edge_to_root [OF assms(1)] by auto
  then obtain i' k' where "edge t i' k' (fst x)" "full t i' \<in> set S" using selectingD(4) [OF assms(2), of x] a by blast
  then show "full t i \<in> set S" using parent_unique [OF assms(1)] a by metis
qed (use selectingD(5) [OF assms(2)] in blast)

lemma ancestors_full:
  assumes "shape ws t" "closed t S" "x \<in> set S" "fst x < length ws" "j < length ws" "prefix (ws ! j) (ws ! fst x)" "j \<noteq> fst x"
  shows "full t j \<in> set S"
  using assms(3-7)
proof (induction "length (ws ! fst x)" arbitrary: x rule: less_induct)
  case less
  have "fst x \<noteq> 0"
  proof
    assume "fst x = 0"
    then have "ws ! j = ws ! 0" using less.prems(4) shapeD(5) [OF assms(1)] by simp
    then show False
      using less.prems(3,5) shapeD(2,7) [OF assms(1)] \<open>fst x = 0\<close> by (simp add: nth_eq_iff_index_eq)
  qed
  then obtain i k where e: "edge t i k (fst x)" using shapeD(10) [OF assms(1) _ less.prems(2)] by blast
  note se = shape_edge [OF assms(1) e]
  have f: "full t i \<in> set S" using assms(2) less.prems(1) e unfolding closed_def by blast
  have p: "prefix (ws ! j) (ws ! i)" using edge_prefixes [OF assms(1) e less.prems(3)] less.prems(4,5) by blast
  show ?case
  proof (cases "j = i")
    case True
    then show ?thesis using f by simp
  next
    case False
    have "length (ws ! fst (full t i)) < length (ws ! fst x)" using se(3,5) by (simp add: full_def)
    then show ?thesis using less.hyps [of "full t i"] f se(1) less.prems(3) p False by (simp add: full_def)
  qed
qed

text \<open>In a closed set, the selected positions on the path of a node are found from its start on.\<close>

lemma lead_reaches:
  assumes "closed t S" "(j, m) \<in> set S" "0 < m" "m \<le> length (pth t j)"
  shows "(j, m) \<in> set (lead S j 0 (length (pth t j)))"
proof -
  have "(j, m') \<in> set S" if "0 < m'" "m' \<le> m" for m'
    using assms(1,2) that unfolding closed_def by (metis le_neq_implies_less)
  then show ?thesis using assms(3,4) by (intro lead_first) simp_all
qed

lemma lead_closed:
  assumes "closed t S" "full t j \<in> set S"
  shows "\<not> length (lead S j 0 (length (pth t j))) < length (pth t j)"
proof -
  let ?E = "lead S j 0 (length (pth t j))"
  have "(j, m) \<in> set S" if "0 < m" "m \<le> length (pth t j)" for m
    using assms that unfolding closed_def full_def by (metis le_neq_implies_less)
  then have "Pair j ` {1..length (pth t j)} \<subseteq> set ?E" using lead_first [of 0 _ j S] by auto
  then have "card (Pair j ` {1..length (pth t j)}) \<le> card (set ?E)" by (intro card_mono) simp_all
  moreover have "card (Pair j ` {1..length (pth t j)}) = length (pth t j)" by (subst card_image) (simp_all add: inj_on_def)
  ultimately show ?thesis using card_length [of ?E] by simp
qed

lemma visit_complete:
  assumes "trie_ok ws t" "closed t S" "x \<in> set S" "pos_ok ws t x" "j < length ws" "prefix (ws ! j) (ws ! fst x)" "card (below ws j) < n"
  shows "x \<in> set (visit n S t j)"
  using assms(5-7)
proof (induction n arbitrary: j)
  case (Suc n)
  note sh = trie_shape [OF assms(1)]
  show ?case
  proof (cases "j = fst x")
    case True
    show ?thesis
    proof (cases "j = 0")
      case zero: True
      then have "x = (0, 0)" using True assms(4) by (cases x) (simp add: pos_ok_def)
      then show ?thesis using zero shapeD(6) [OF sh] by (simp add: Let_def)
    next
      case False
      then have "x \<in> set (lead S j 0 (length (pth t j)))"
        using lead_reaches [OF assms(2), of j "snd x"] assms(3,4) True by (simp add: pos_ok_def)
      then show ?thesis by (simp add: Let_def)
    qed
  next
    case False
    have sp: "strict_prefix (ws ! j) (ws ! fst x)"
      using Suc.prems(1,2) False assms(4) shapeD(7) [OF sh] by (auto simp: strict_prefix_def pos_ok_def nth_eq_iff_index_eq)
    have fx: "fst x < length ws" using assms(4) by (simp add: pos_ok_def)
    obtain k rest where "ws ! fst x = ws ! j @ k # rest" using sp by (auto elim: strict_prefixE')
    then have "prefix (ws ! j @ [k]) (ws ! fst x)" by simp
    then obtain j' where e: "edge t j k j'" "prefix (ws ! j') (ws ! fst x)" using descend [OF sh Suc.prems(1) fx] by blast
    have "card (below ws j') < n" using below_child [OF sh e(1)] Suc.prems(3) by simp
    then have vx: "x \<in> set (visit n S t j')" using Suc.IH [OF shape_edge(2) [OF sh e(1)] e(2)] by blast
    have "full t j \<in> set S" using ancestors_full [OF sh assms(2,3) fx Suc.prems(1,2) False] .
    from lead_closed [OF assms(2) this] have "\<not> length (lead S j 0 (length (pth t j))) < length (pth t j)" .
    moreover have "j' \<in> set (child_order t j)" using child_order_facts(2) [OF sh Suc.prems(1)] e(1) by blast
    ultimately show ?thesis using vx by (auto simp: Let_def)
  qed
qed simp

section \<open>Words of positions\<close>

lemma wd_key:
  assumes "shape ws t" "pos_ok ws t x" "fst x \<noteq> 0"
  obtains i k where "edge t i k (fst x)" "wd ws t x = ws ! i @ take (snd x) (pth t (fst x))" "prefix (ws ! i @ [k]) (wd ws t x)"
    "0 < snd x" "snd x \<le> length (pth t (fst x))"
proof -
  have x: "fst x < length ws" "0 < snd x" "snd x \<le> length (pth t (fst x))" using assms(2,3) by (simp_all add: pos_ok_def)
  then obtain i k where e: "edge t i k (fst x)" using shapeD(10) [OF assms(1)] assms(3) by blast
  note se = shape_edge [OF assms(1) e]
  have w: "wd ws t x = ws ! i @ take (snd x) (pth t (fst x))" using wd_edge [OF assms(1) e x(3)] by simp
  moreover have "prefix (ws ! i @ [k]) (wd ws t x)"
    unfolding w using se(3,4) x(2) by (cases "pth t (fst x)"; cases "snd x") simp_all
  ultimately show thesis using that [OF e] x by blast
qed

lemma pos_zero: "pos_ok ws t x \<Longrightarrow> fst x = 0 \<longleftrightarrow> x = (0, 0)"
  by (cases x) (auto simp: pos_ok_def)

lemma wd_Nil_iff: "shape ws t \<Longrightarrow> pos_ok ws t x \<Longrightarrow> wd ws t x = [] \<longleftrightarrow> x = (0, 0)"
proof (cases "fst x = 0")
  case True
  assume "shape ws t" "pos_ok ws t x"
  then show ?thesis using True pos_zero wd_root by metis
next
  case False
  assume a: "shape ws t" "pos_ok ws t x"
  from wd_key [OF a False] show ?thesis using False by (metis fst_conv prefix_Nil snoc_eq_iff_butlast)
qed

lemma wd_length: "shape ws t \<Longrightarrow> pos_ok ws t x \<Longrightarrow> length (wd ws t x) = length (ws ! fst x) - length (pth t (fst x)) + snd x"
proof (cases "fst x = 0")
  case True
  assume "shape ws t" "pos_ok ws t x"
  then show ?thesis using True by (simp add: wd_def shapeD(5,6) pos_ok_def)
next
  case False
  assume a: "shape ws t" "pos_ok ws t x"
  from wd_key [OF a False] obtain i k where "edge t i k (fst x)" "wd ws t x = ws ! i @ take (snd x) (pth t (fst x))"
    "snd x \<le> length (pth t (fst x))" by blast
  then show ?thesis using shape_edge(5) [OF a(1)] by simp
qed

lemma wd_inj:
  assumes "shape ws t" "pos_ok ws t x" "pos_ok ws t y" "wd ws t x = wd ws t y"
  shows "x = y"
proof (cases "wd ws t x = []")
  case True
  then show ?thesis using wd_Nil_iff [OF assms(1,2)] wd_Nil_iff [OF assms(1,3)] assms(4) by simp
next
  case False
  have inside: "prefix (ws ! fst u) (ws ! fst v)"
    if u: "pos_ok ws t u" "pos_ok ws t v" "wd ws t u = wd ws t v" "wd ws t u \<noteq> []" for u v
  proof -
    have "fst u \<noteq> 0" using u(4) wd_Nil_iff [OF assms(1) u(1)] pos_zero [OF u(1)] by simp
    from wd_key [OF assms(1) u(1) this] obtain i k where e: "edge t i k (fst u)" "prefix (ws ! i @ [k]) (wd ws t u)" by blast
    from prefix_order.trans [OF e(2) [unfolded u(3)] wd_prefix] have p: "prefix (ws ! i @ [k]) (ws ! fst v)" .
    show ?thesis using no_inside [OF assms(1) e(1) _ p] u(2) by (simp add: pos_ok_def)
  qed
  have "ws ! fst x = ws ! fst y"
    using prefix_order.antisym [OF inside [OF assms(2-4) False] inside [OF assms(3,2) assms(4) [symmetric] False [unfolded assms(4)]]] .
  then have f: "fst x = fst y" using shapeD(7) [OF assms(1)] assms(2,3) by (simp add: pos_ok_def nth_eq_iff_index_eq)
  then have "length (wd ws t x) = length (ws ! fst x) - length (pth t (fst x)) + snd x"
    "length (wd ws t y) = length (ws ! fst x) - length (pth t (fst x)) + snd y"
    using wd_length [OF assms(1,2)] wd_length [OF assms(1,3)] by simp_all
  then have "snd x = snd y" using assms(4) by simp
  then show ?thesis using f by (simp add: prod_eq_iff)
qed

text \<open>Every prefix of a word is the word of a position.\<close>

lemma wd_onto:
  assumes "shape ws t" "x < length ws" "prefix w (ws ! x)"
  shows "\<exists>y. pos_ok ws t y \<and> wd ws t y = w"
  using assms(2,3)
proof (induction "length (ws ! x)" arbitrary: x rule: less_induct)
  case less
  show ?case
  proof (cases "x = 0")
    case True
    then show ?thesis using less.prems(2) shapeD(5) [OF assms(1)] root_ok [OF assms(1)] wd_root [OF assms(1)] by auto
  next
    case False
    then obtain i k where e: "edge t i k x" using shapeD(10) [OF assms(1) _ less.prems(1)] by blast
    note se = shape_edge [OF assms(1) e]
    show ?thesis
    proof (cases "length w \<le> length (ws ! i)")
      case True
      then have "prefix w (ws ! i)" using less.prems(2) se(5) prefix_length_prefix by (metis prefixI)
      then show ?thesis using less.hyps [OF _ se(1)] se(3,5) by simp
    next
      case long: False
      let ?m = "length w - length (ws ! i)"
      have "w = take (length w) (ws ! x)" using less.prems(2) by (auto simp: prefix_def)
      then have w: "w = ws ! i @ take ?m (pth t x)" using long se(5) by simp
      have "?m \<le> length (pth t x)" using prefix_length_le [OF less.prems(2)] se(5) by simp
      then have "pos_ok ws t (x, ?m)" "wd ws t (x, ?m) = w"
        using False less.prems(1) long w wd_edge [OF assms(1) e, of ?m] by (simp_all add: pos_ok_def)
      then show ?thesis by blast
    qed
  qed
qed

section \<open>Properties\<close>

text \<open>The line for a path, and what a listing of paths must satisfy.\<close>

definition line_of :: "path_log \<Rightarrow> u32 list \<Rightarrow> RetrievedNode" where
  "line_of log w =
     \<lparr>rn_total = prefix_sum log w, rn_value = (if w = [] then 0 else exact_sum log w),
      rn_depth = of_nat (length w), rn_key = (if w = [] then 0 else last w)\<rparr>"

definition listing :: "path_log \<Rightarrow> nat \<Rightarrow> u32 list list \<Rightarrow> bool" where
  "listing log cnt words \<longleftrightarrow> distinct words \<and> words \<noteq> [] \<and> hd words = [] \<and>
     (\<forall>w \<in> set words. w \<noteq> [] \<longrightarrow> butlast w \<in> set words) \<and>
     (\<forall>w \<in> set words. \<exists>p \<in> insert [] (fst ` set log). prefix w p) \<and>
     length words \<le> max 1 cnt \<and>
     (length words < cnt \<longrightarrow> (\<forall>p \<in> fst ` set log. \<forall>w. prefix w p \<longrightarrow> w \<in> set words))"

definition heaviest :: "path_log \<Rightarrow> u32 list list \<Rightarrow> bool" where
  "heaviest log words \<longleftrightarrow>
     (\<forall>w \<in> set words. \<forall>p \<in> fst ` set log. \<forall>w'. prefix w' p \<and> w' \<notin> set words \<longrightarrow>
        unat (prefix_sum log w') \<le> unat (prefix_sum log w))"

definition light :: "path_log \<Rightarrow> bool" where
  "light log \<longleftrightarrow> sum_list (map (\<lambda>e. unat (snd e)) log) < 2 ^ 63"

lemma unat_sum_list: "sum_list (map unat xs) < 2 ^ 64 \<Longrightarrow> unat (sum_list (xs :: u64 list)) = sum_list (map unat xs)"
proof (induction xs)
  case (Cons x xs)
  then show ?case by (simp add: unat_word_ariths)
qed simp

lemma sum_filter_le:
  assumes "\<And>x. x \<in> set xs \<Longrightarrow> P x \<Longrightarrow> Q x"
  shows "sum_list (map f (filter P xs)) \<le> sum_list (map (f :: 'a \<Rightarrow> nat) (filter Q xs))"
  using assms by (induction xs) (auto intro: le_SucI add_left_mono trans_le_add2)

lemma unat_prefix_sum:
  assumes "light log"
  shows "unat (prefix_sum log w) = sum_list (map (\<lambda>e. unat (snd e)) (filter (\<lambda>e. prefix w (fst e)) log))"
    "unat (prefix_sum log w) < 2 ^ 63"
proof -
  let ?xs = "filter (\<lambda>e. prefix w (fst e)) log"
  have le: "sum_list (map (\<lambda>e. unat (snd e)) ?xs) < 2 ^ 63"
    using sum_filter_le [of log "\<lambda>e. prefix w (fst e)" "\<lambda>_. True" "\<lambda>e. unat (snd e)"] assms by (simp add: light_def)
  then have "sum_list (map unat (map snd ?xs)) < 2 ^ 64" by (simp add: comp_def)
  from unat_sum_list [OF this] show "unat (prefix_sum log w) = sum_list (map (\<lambda>e. unat (snd e)) ?xs)"
    by (simp add: prefix_sum_def comp_def)
  then show "unat (prefix_sum log w) < 2 ^ 63" using le by simp
qed

lemma prefix_sum_mono:
  assumes "light log" "prefix w w'"
  shows "unat (prefix_sum log w') \<le> unat (prefix_sum log w)"
  unfolding unat_prefix_sum(1) [OF assms(1)]
proof (rule sum_filter_le)
  fix e :: "u32 list \<times> u64" assume "prefix w' (fst e)"
  from prefix_order.trans [OF assms(2) this] show "prefix w (fst e)" .
qed

lemma minus_sint_minus: "unat (u :: u64) < 2 ^ 63 \<Longrightarrow> - sint (- u) = int (unat u)"
proof -
  assume "unat u < 2 ^ 63"
  then have "int (unat u) < int (2 ^ 63)" by (simp only: of_nat_less_iff)
  then have i: "uint u < 2 ^ 63" by simp
  have neg: "- (2 ^ 63) \<le> uint u" by (rule order.trans [OF _ uint_ge_0]) simp
  have neg': "- uint u < 2 ^ 63" by (rule le_less_trans [of _ 0]) (simp_all add: uint_ge_0)
  have s: "sint u = uint u" unfolding sint_uint using i neg by (intro signed_take_bit_int_eq_self) simp_all
  have "sint (- u) = signed_take_bit 63 (- sint u)" using sint_word_ariths(4) [of u] by simp
  also have "\<dots> = - uint u" unfolding s using i neg' by (intro signed_take_bit_int_eq_self) simp_all
  finally show ?thesis by simp
qed

lemma entry_line:
  assumes "shape ws t" "content (prefix_sum log) (exact_sum log) ws t" "fst ` set log \<subseteq> set ws" "pos_ok ws t x"
  shows "entry_at ws t x = line_of log (wd ws t x)" "nd_total (m_nodes t ! fst x) = prefix_sum log (wd ws t x)"
proof -
  have x: "fst x < length ws" using assms(4) by (simp add: pos_ok_def)
  then have c: "nd_total (m_nodes t ! fst x) = prefix_sum log (ws ! fst x)" "nd_value (m_nodes t ! fst x) = exact_sum log (ws ! fst x)"
    using assms(2) by (simp_all add: content_def)
  have both: "entry_at ws t x = line_of log (wd ws t x) \<and> nd_total (m_nodes t ! fst x) = prefix_sum log (wd ws t x)"
  proof (cases "fst x = 0")
    case True
    then have "x = (0, 0)" using pos_zero [OF assms(4)] by simp
    then show ?thesis using c wd_root [OF assms(1)] shapeD(5) [OF assms(1)] by (simp add: entry_at_def line_of_def)
  next
    case False
    from wd_key [OF assms(1,4) False]
    obtain i k where e: "edge t i k (fst x)" "wd ws t x = ws ! i @ take (snd x) (pth t (fst x))" "0 < snd x" "snd x \<le> length (pth t (fst x))"
      by blast
    have ne: "wd ws t x \<noteq> []" using wd_Nil_iff [OF assms(1,4)] False by auto
    have "take (snd x) (pth t (fst x)) \<noteq> []" using e(3,4) by auto
    then have key: "last (wd ws t x) = pth t (fst x) ! (snd x - 1)"
      unfolding e(2) using e(3,4) by (simp add: last_append last_conv_nth)
    show ?thesis
    proof (cases "snd x = length (pth t (fst x))")
      case True
      then have "wd ws t x = ws ! fst x" using e shape_edge(5) [OF assms(1) e(1)] by simp
      then show ?thesis using c True False ne key by (simp add: entry_at_def line_of_def)
    next
      case part: False
      then have "snd x < length (pth t (fst x))" using e(4) by simp
      from sums_inside [OF assms(1) e(1,3) this assms(3), folded e(2)] show ?thesis
        using c part False ne key by (simp add: entry_at_def line_of_def)
    qed
  qed
  then show "entry_at ws t x = line_of log (wd ws t x)" "nd_total (m_nodes t ! fst x) = prefix_sum log (wd ws t x)" by simp_all
qed

lemma start_selecting: "shape ws t \<Longrightarrow> selecting ws t [] [(0, 0)]"
  by (simp add: selecting_def)

lemma root_selected:
  assumes "shape ws t" "closed t S" "\<And>x. x \<in> set S \<Longrightarrow> pos_ok ws t x" "S \<noteq> []"
  shows "(0, 0) \<in> set S"
proof -
  obtain x where x: "x \<in> set S" using assms(4) by (cases S) auto
  have ok: "pos_ok ws t x" using assms(3) [OF x] .
  show ?thesis
  proof (cases "fst x = 0")
    case True
    then show ?thesis using pos_zero [OF ok] x by simp
  next
    case False
    then have "full t 0 \<in> set S"
      using ancestors_full [OF assms(1,2) x, of 0] ok shapeD(2,5) [OF assms(1)] by (simp add: pos_ok_def)
    then show ?thesis using shapeD(6) [OF assms(1)] by (simp add: full_def)
  qed
qed

lemma butlast_selected:
  assumes "shape ws t" "closed t S" "x \<in> set S" "pos_ok ws t x" "wd ws t x \<noteq> []"
  shows "butlast (wd ws t x) \<in> wd ws t ` set S"
proof -
  have "fst x \<noteq> 0" using assms(5) wd_Nil_iff [OF assms(1,4)] pos_zero [OF assms(4)] by simp
  from wd_key [OF assms(1,4) this]
  obtain i k where e: "edge t i k (fst x)" "wd ws t x = ws ! i @ take (snd x) (pth t (fst x))" "0 < snd x" "snd x \<le> length (pth t (fst x))"
    by blast
  show ?thesis
  proof (cases "snd x = 1")
    case True
    then have "butlast (wd ws t x) = ws ! i" using e by (cases "pth t (fst x)") (simp_all add: butlast_append)
    moreover have "full t i \<in> set S" using assms(2,3) e(1) unfolding closed_def by blast
    ultimately show ?thesis using wd_full [OF assms(1) shape_edge(1) [OF assms(1) e(1)]] by (metis imageI)
  next
    case False
    have "take (snd x) (pth t (fst x)) \<noteq> []" using e(3,4) by auto
    then have "butlast (wd ws t x) = ws ! i @ take (snd x - 1) (pth t (fst x))"
      unfolding e(2) using e(3,4) by (simp add: butlast_append butlast_take)
    also have "\<dots> = wd ws t (fst x, snd x - 1)" using wd_edge [OF assms(1) e(1), of "snd x - 1"] e(4) by simp
    finally have "butlast (wd ws t x) = wd ws t (fst x, snd x - 1)" .
    moreover have "(fst x, snd x - 1) \<in> set S"
      using assms(2,3) e(3) False unfolding closed_def
      by (metis One_nat_def Suc_lessI diff_less less_numeral_extra(1) prod.collapse zero_less_diff)
    ultimately show ?thesis by (metis imageI)
  qed
qed

lemma GetTop_positions:
  assumes "trie_ok ws t" "pick_ok pick"
  shows "\<exists>S Q. GetTop pick cnt t = Some (map (entry_at ws t) (visit (length ws) S t 0)) \<and> selecting ws t S Q \<and>
    length S \<le> cnt \<and> (length S < cnt \<longrightarrow> Q = []) \<and> (0 < cnt \<longrightarrow> S \<noteq> [])"
proof -
  note sh = trie_shape [OF assms(1)]
  have n: "m_nodes t \<noteq> []" "length (m_nodes t) = length ws" using shapeD(1,2) [OF sh] by auto
  obtain S Q where S: "select_loop pick t cnt [] [item_of ws t (0, 0)] = Some (map node_of S)" "selecting ws t S Q"
    "length S \<le> cnt" "length S < cnt \<longrightarrow> Q = []" "0 < cnt \<longrightarrow> S \<noteq> []"
    using select_loop_spec [OF assms start_selecting [OF sh], of cnt] by auto
  have item: "item_of ws t (0, 0) =
      \<lparr>qi_neg_total = - nd_total (m_nodes t ! 0), qi_depth = 0, qi_node = \<lparr>np_nodeId = 0, np_pathSize = 0\<rparr>\<rparr>"
    using wd_root [OF sh] by (simp add: item_of_def node_of_def)
  have "card (below ws 0) < card {..<length ws}"
    using shapeD(2) [OF sh] by (intro psubset_card_mono) (auto simp: below_def)
  then have "RetrieveNodes (length ws) t (map node_of S) (of_nat 0) (of_nat (length ([] :: u32 list))) [] =
      Some ([] @ map (entry_at ws t) (visit (length ws) S t 0))"
    using selecting_ok [OF assms(1) S(2)] shapeD(2,5,6) [OF sh] by (intro RetrieveNodes_visit [OF assms(1)]) auto
  then have "GetTop pick cnt t = Some (map (entry_at ws t) (visit (length ws) S t 0))"
    using S(1) n shapeD(2) [OF sh] unfolding item by (simp add: GetTop_def rd_def)
  then show ?thesis using S by blast
qed

lemma visited:
  assumes "trie_ok ws t" "selecting ws t S Q"
  shows "set (visit (length ws) S t 0) = insert (0, 0) (set S)" "distinct (visit (length ws) S t 0)" "hd (visit (length ws) S t 0) = (0, 0)"
proof -
  note sh = trie_shape [OF assms(1)]
  obtain n where n: "length ws = Suc n" using shapeD(2) [OF sh] by (cases "length ws") auto
  have root: "visit (length ws) S t 0 = (0, 0) # concat (map (visit n S t) (child_order t 0))"
    using shapeD(6) [OF sh] by (simp add: n Let_def)
  have "card (below ws 0) < card {..<length ws}"
    using shapeD(2) [OF sh] by (intro psubset_card_mono) (auto simp: below_def)
  then have "x \<in> set (visit (length ws) S t 0)" if "x \<in> set S" for x
    using that selecting_ok [OF assms] selecting_closed [OF sh assms(2)] shapeD(2,5) [OF sh]
    by (intro visit_complete [OF assms(1)]) auto
  moreover have "x \<in> insert (0, 0) (set S)" if "x \<in> set (visit (length ws) S t 0)" for x
    using visit_subtree [OF sh shapeD(2) [OF sh] that] by blast
  moreover have "(0, 0) \<in> set (visit (length ws) S t 0)" unfolding root by simp
  ultimately show "set (visit (length ws) S t 0) = insert (0, 0) (set S)" by blast
  show "distinct (visit (length ws) S t 0)" using visit_distinct [OF sh] shapeD(2) [OF sh] by blast
  show "hd (visit (length ws) S t 0) = (0, 0)" unfolding root by simp
qed

lemma unselected_below:
  assumes "trie_ok ws t" "selecting ws t S Q" "S \<noteq> []" "tapered t" "pos_ok ws t y" "y \<notin> set S"
  shows "\<exists>q \<in> set Q. weight t y \<le> weight t q"
  using assms(5,6)
proof (induction "length (ws ! fst y)" arbitrary: y rule: less_induct)
  case less
  note sh = trie_shape [OF assms(1)]
  have "(0, 0) \<in> set S"
    using root_selected [OF sh selecting_closed [OF sh assms(2)] selecting_ok [OF assms(1,2)] assms(3)] by blast
  then have "fst y \<noteq> 0" using pos_zero [OF less.prems(1)] less.prems(2) by auto
  from wd_key [OF sh less.prems(1) this] obtain i k where e: "edge t i k (fst y)" by blast
  note se = shape_edge [OF sh e]
  show ?case
  proof (cases "full t i \<in> set S")
    case True
    then have "y \<in> set Q" using selectingD(4) [OF assms(2), of y] less.prems e by blast
    then show ?thesis by blast
  next
    case False
    have "length (ws ! fst (full t i)) < length (ws ! fst y)" using se(3,5) by (simp add: full_def)
    from less.hyps [OF this full_ok [OF sh se(1)] False] obtain q where "q \<in> set Q" "weight t (full t i) \<le> weight t q" by blast
    moreover have "weight t y \<le> weight t (full t i)" using assms(4) e weight_node [of t y] unfolding tapered_def by metis
    ultimately show ?thesis by (meson order.trans)
  qed
qed

lemma log_trie:
  assumes "log_size log + 1 < 2 ^ 32" "append_all log CompressedTrie_new = Some t"
  obtains ws where "trie_ok ws t" "content (prefix_sum log) (exact_sum log) ws t" "fst ` set log \<subseteq> set ws"
    "covered (insert [] (fst ` set log)) ws"
proof -
  have "represents log t"
    using append_all_represents [OF new_represents, of log] assms by (auto simp: CompressedTrie_new_def)
  then obtain ws where ws: "shape ws t" "content (prefix_sum log) (exact_sum log) ws t" "fst ` set log \<subseteq> set ws"
    "covered (insert [] (fst ` set log)) ws" unfolding represents_def by blast
  have "length w < 2 ^ 32" if "w \<in> set ws" for w
  proof -
    obtain b where b: "b = [] \<or> b \<in> fst ` set log" "prefix w b" using ws(4) \<open>w \<in> set ws\<close> unfolding covered_def by blast
    have big: "length b + 1 \<le> log_size log" if "b \<in> fst ` set log"
      using that unfolding log_size_def by (force intro: member_le_sum_list)
    have "length b < 2 ^ 32"
    proof (cases "b = []")
      case False
      then have "length b + 1 \<le> log_size log" using b(1) by (intro big) simp
      then show ?thesis using assms(1) by linarith
    qed simp
    then show ?thesis using prefix_length_le [OF b(2)] by linarith
  qed
  then have "trie_ok ws t" using ws(1) by (simp add: trie_ok_def)
  then show thesis using ws that by blast
qed

text \<open>A deterministic choice from the queue: the first of its least items.\<close>

fun first_least :: "QueueItem list \<Rightarrow> QueueItem" where
  "first_least [] = \<lparr>qi_neg_total = 0, qi_depth = 0, qi_node = \<lparr>np_nodeId = 0, np_pathSize = 0\<rparr>\<rparr>"
| "first_least [x] = x"
| "first_least (x # y # ys) = (let m = first_least (y # ys) in if item_greater x m then m else x)"

lemma first_least_ok: "pick_ok first_least"
proof -
  have "first_least q \<in> set q \<and> (\<forall>x \<in> set q. \<not> item_greater (first_least q) x)" if "q \<noteq> []" for q
    using that
  proof (induction q rule: first_least.induct)
    case (3 x y ys)
    then have m: "first_least (y # ys) \<in> set (y # ys)" "\<forall>z \<in> set (y # ys). \<not> item_greater (first_least (y # ys)) z" by auto
    show ?case
    proof (cases "item_greater x (first_least (y # ys))")
      case True
      then have "\<not> item_greater (first_least (y # ys)) x" by (auto simp: item_greater_def)
      then show ?thesis using True m by auto
    next
      case False
      then have "\<not> item_greater x z" if "z \<in> set (y # ys)" for z
        using m(2) [rule_format, OF that] by (auto simp: item_greater_def)
      then show ?thesis using False by (auto simp: item_greater_def)
    qed
  qed (simp_all add: item_greater_def)
  then show ?thesis by (simp add: pick_ok_def)
qed

lemma GetTop_words:
  assumes "log_size log + 1 < 2 ^ 32" "pick_ok pick" "append_all log CompressedTrie_new = Some t"
  obtains ws S Q where "trie_ok ws t" "content (prefix_sum log) (exact_sum log) ws t" "fst ` set log \<subseteq> set ws"
    "covered (insert [] (fst ` set log)) ws" "selecting ws t S Q" "length S \<le> cnt" "length S < cnt \<longrightarrow> Q = []" "0 < cnt \<longrightarrow> S \<noteq> []"
    "GetTop pick cnt t = Some (map (line_of log) (map (wd ws t) (visit (length ws) S t 0)))"
proof -
  obtain ws where ws: "trie_ok ws t" "content (prefix_sum log) (exact_sum log) ws t" "fst ` set log \<subseteq> set ws"
    "covered (insert [] (fst ` set log)) ws" using log_trie [OF assms(1,3)] by blast
  note sh = trie_shape [OF ws(1)]
  obtain S Q where S: "GetTop pick cnt t = Some (map (entry_at ws t) (visit (length ws) S t 0))" "selecting ws t S Q"
    "length S \<le> cnt" "length S < cnt \<longrightarrow> Q = []" "0 < cnt \<longrightarrow> S \<noteq> []" using GetTop_positions [OF ws(1) assms(2), of cnt] by (elim exE conjE) (rule that)
  have "entry_at ws t x = line_of log (wd ws t x)" if "x \<in> set (visit (length ws) S t 0)" for x
    using that selecting_ok [OF ws(1) S(2)] root_ok [OF sh] unfolding visited(1) [OF ws(1) S(2)]
    by (intro entry_line(1) [OF sh ws(2,3)]) blast
  then have "GetTop pick cnt t = Some (map (line_of log) (map (wd ws t) (visit (length ws) S t 0)))"
    using S(1) by simp
  from that [OF ws S(2-5) this] show thesis .
qed

lemma tapered_log:
  assumes "trie_ok ws t" "content (prefix_sum log) (exact_sum log) ws t" "light log"
  shows "tapered t" "pos_ok ws t x \<Longrightarrow> fst ` set log \<subseteq> set ws \<Longrightarrow> weight t x = int (unat (prefix_sum log (wd ws t x)))"
proof -
  note sh = trie_shape [OF assms(1)]
  have w: "weight t x = int (unat (prefix_sum log (ws ! fst x)))" if "fst x < length ws" for x
    using that assms(2) minus_sint_minus [OF unat_prefix_sum(2) [OF assms(3)]] by (simp add: weight_def content_def)
  show "tapered t" unfolding tapered_def
  proof (intro allI impI)
    fix i k j assume e: "edge t i k j"
    note se = shape_edge [OF sh e]
    have "prefix (ws ! i) (ws ! j)" using se(5) by simp
    note le = prefix_sum_mono [OF assms(3) this]
    have "weight t (full t j) = int (unat (prefix_sum log (ws ! j)))" "weight t (full t i) = int (unat (prefix_sum log (ws ! i)))"
      using w [of "full t j"] w [of "full t i"] se(1,2) by (simp_all add: full_def)
    then show "weight t (full t j) \<le> weight t (full t i)" using le by (simp only: of_nat_le_iff)
  qed
  assume "pos_ok ws t x" "fst ` set log \<subseteq> set ws"
  then show "weight t x = int (unat (prefix_sum log (wd ws t x)))"
    using entry_line(2) [OF sh assms(2)] minus_sint_minus [OF unat_prefix_sum(2) [OF assms(3)]] by (simp add: weight_def)
qed

lemma log_position:
  assumes "shape ws t" "fst ` set log \<subseteq> set ws" "p \<in> fst ` set log" "prefix w p"
  obtains y where "pos_ok ws t y" "wd ws t y = w"
proof -
  have "p \<in> set ws" using assms(2,3) by (rule subsetD)
  then obtain x where x: "x < length ws" "ws ! x = p" unfolding in_set_conv_nth by blast
  have "prefix w (ws ! x)" using assms(4) x(2) by simp
  from wd_onto [OF assms(1) x(1) this] obtain y where "pos_ok ws t y" "wd ws t y = w" by (elim exE conjE) (rule that)
  from that [OF this] show thesis .
qed

lemma all_selected:
  assumes "trie_ok ws t" "selecting ws t S []" "S \<noteq> []" "pos_ok ws t y"
  shows "y \<in> set S"
  using assms(4)
proof (induction "length (ws ! fst y)" arbitrary: y rule: less_induct)
  case less
  note sh = trie_shape [OF assms(1)]
  have root: "(0, 0) \<in> set S"
    using root_selected [OF sh selecting_closed [OF sh assms(2)] selecting_ok [OF assms(1,2)] assms(3)] by blast
  show ?case
  proof (cases "fst y = 0")
    case True
    then show ?thesis using root pos_zero [OF less.prems] by simp
  next
    case False
    from wd_key [OF sh less.prems False] obtain i k where e: "edge t i k (fst y)" by blast
    note se = shape_edge [OF sh e]
    have "length (ws ! fst (full t i)) < length (ws ! fst y)" using se(3,5) by (simp add: full_def)
    from less.hyps [OF this full_ok [OF sh se(1)]] show ?thesis
      using selectingD(4) [OF assms(2), of y] less.prems e by auto
  qed
qed

lemma listing_words:
  assumes "trie_ok ws t" "fst ` set log \<subseteq> set ws" "covered (insert [] (fst ` set log)) ws"
    and "selecting ws t S Q" "length S \<le> cnt" "length S < cnt \<longrightarrow> Q = []" "0 < cnt \<longrightarrow> S \<noteq> []"
  shows "listing log cnt (map (wd ws t) (visit (length ws) S t 0))"
proof -
  note sh = trie_shape [OF assms(1)] and V = visited [OF assms(1,4)]
  let ?P = "visit (length ws) S t 0"
  note cl = selecting_closed [OF sh assms(4)]
  have ok: "pos_ok ws t x" if "x \<in> set ?P" for x
    using that selecting_ok [OF assms(1,4)] root_ok [OF sh] unfolding V(1) by blast
  have root: "(0, 0) \<in> set S" if "S \<noteq> []" using root_selected [OF sh cl selecting_ok [OF assms(1,4)] that] by blast
  have ne: "?P \<noteq> []" using V(1) by auto
  have "card (set ?P) \<le> max 1 cnt"
    using root assms(5) distinct_card [OF selectingD(1) [OF assms(4)]] unfolding V(1) by (cases "S = []") (auto simp: insert_absorb)
  then have len: "length ?P \<le> max 1 cnt" using distinct_card [OF V(2)] by simp
  have parent: "butlast w \<in> wd ws t ` set ?P" if "w \<in> wd ws t ` set ?P" "w \<noteq> []" for w
  proof -
    obtain x where x: "x \<in> set ?P" "w = wd ws t x" using \<open>w \<in> wd ws t ` set ?P\<close> by blast
    then have "x \<in> set S" using \<open>w \<noteq> []\<close> wd_root [OF sh] unfolding V(1) by auto
    from butlast_selected [OF sh cl this ok [OF x(1)]] show ?thesis using x \<open>w \<noteq> []\<close> unfolding V(1) by blast
  qed
  have pre: "\<exists>p \<in> insert [] (fst ` set log). prefix w p" if "w \<in> wd ws t ` set ?P" for w
  proof -
    obtain x where x: "x \<in> set ?P" "w = wd ws t x" using \<open>w \<in> wd ws t ` set ?P\<close> by blast
    then have "ws ! fst x \<in> set ws" using ok [OF x(1)] by (simp add: pos_ok_def)
    then obtain b where "b \<in> insert [] (fst ` set log)" "prefix (ws ! fst x) b" using assms(3) unfolding covered_def by blast
    then show ?thesis using prefix_order.trans [OF wd_prefix] x(2) by blast
  qed
  have all: "w \<in> wd ws t ` set ?P" if short: "length ?P < cnt" and p: "p \<in> fst ` set log" "prefix w p" for p w
  proof -
    have "set S \<subseteq> set ?P" unfolding V(1) by blast
    then have "length S \<le> length ?P"
      using card_mono [of "set ?P" "set S"] distinct_card [OF V(2)] distinct_card [OF selectingD(1) [OF assms(4)]] by simp
    then have "Q = []" "S \<noteq> []" using short assms(6,7) by auto
    obtain y where y: "pos_ok ws t y" "wd ws t y = w" using log_position [OF sh assms(2) p] by blast
    have "y \<in> set S" using all_selected [OF assms(1) _ \<open>S \<noteq> []\<close> y(1)] assms(4) \<open>Q = []\<close> by simp
    then show ?thesis using y(2) unfolding V(1) by blast
  qed
  have inj: "inj_on (wd ws t) (set ?P)" using wd_inj [OF sh] ok by (auto simp: inj_on_def)
  have "hd (map (wd ws t) ?P) = []" using V(3) ne wd_root [OF sh] by (simp add: hd_map)
  moreover have "distinct (map (wd ws t) ?P)" using V(2) inj by (simp add: distinct_map)
  moreover have "map (wd ws t) ?P \<noteq> []" using ne by simp
  ultimately show ?thesis
    unfolding listing_def set_map length_map using len parent pre all by blast
qed

lemma GetTop_listing:
  assumes "log_size log + 1 < 2 ^ 32" "pick_ok pick" "append_all log CompressedTrie_new = Some t"
  shows "\<exists>words. GetTop pick cnt t = Some (map (line_of log) words) \<and> listing log cnt words"
proof -
  obtain ws S Q where T: "trie_ok ws t" "content (prefix_sum log) (exact_sum log) ws t" "fst ` set log \<subseteq> set ws"
    "covered (insert [] (fst ` set log)) ws" "selecting ws t S Q" "length S \<le> cnt" "length S < cnt \<longrightarrow> Q = []" "0 < cnt \<longrightarrow> S \<noteq> []"
    "GetTop pick cnt t = Some (map (line_of log) (map (wd ws t) (visit (length ws) S t 0)))"
    using GetTop_words [OF assms] by blast
  show ?thesis using T(9) listing_words [OF T(1,3-8)] by blast
qed

lemma heaviest_words:
  assumes "trie_ok ws t" "content (prefix_sum log) (exact_sum log) ws t" "fst ` set log \<subseteq> set ws" "selecting ws t S Q" "light log"
  shows "heaviest log (map (wd ws t) (visit (length ws) S t 0))"
proof -
  note sh = trie_shape [OF assms(1)] and V = visited [OF assms(1,4)] and tap = tapered_log [OF assms(1,2,5)]
  have "unat (prefix_sum log w') \<le> unat (prefix_sum log (wd ws t x))"
    if x: "x \<in> insert (0, 0) (set S)" and p: "p \<in> fst ` set log" "prefix w' p" and new: "w' \<notin> wd ws t ` insert (0, 0) (set S)" for x p w'
  proof (cases "x = (0, 0)")
    case True
    then have "prefix (wd ws t x) w'" using wd_root [OF sh] by simp
    then show ?thesis by (rule prefix_sum_mono [OF assms(5)])
  next
    case False
    then have S: "x \<in> set S" "S \<noteq> []" using x by auto
    obtain y where y: "pos_ok ws t y" "wd ws t y = w'" using log_position [OF sh assms(3) p] by blast
    have "y \<notin> set S" using new y(2) by blast
    from unselected_below [OF assms(1,4) S(2) tap(1) y(1) this] obtain q where q: "q \<in> set Q" "weight t y \<le> weight t q" by blast
    have "weight t q \<le> weight t x" using selectingD(6) [OF assms(4) tap(1) S(1) q(1)] .
    then have "weight t y \<le> weight t x" using q(2) by linarith
    moreover have "pos_ok ws t x" using selecting_ok [OF assms(1,4)] S(1) by blast
    ultimately show ?thesis using tap(2) [OF _ assms(3)] y by (simp only: of_nat_le_iff)
  qed
  then show ?thesis unfolding heaviest_def set_map V(1) by blast
qed

text \<open>
  C18. The top of a flame graph of fewer than \<open>2 ^ 32\<close> path elements whose values together are below \<open>2 ^ 63\<close>
  (so that the signed comparison of the queue orders the totals), whichever of several least items the
  queue prefers. \<open>GetTop\<close> returns. Its lines are for distinct paths, each with its depth, its last key, the
  sum of the values of the appended paths that begin with it and, except for the root, the sum of the
  values of those equal to it. The root comes first; with a path its parent is listed; only prefixes of
  appended paths are listed, at most \<open>count\<close> of them (and the root), all of them if there are fewer than
  \<open>count\<close>; and no prefix of an appended path that is left out has a larger total than one that is listed.
\<close>

theorem GetTop_heaviest:
  assumes "log_size log + 1 < 2 ^ 32" "pick_ok pick" "append_all log CompressedTrie_new = Some t" "light log"
  shows "\<exists>words. GetTop pick cnt t = Some (map (line_of log) words) \<and> listing log cnt words \<and> heaviest log words"
proof -
  obtain ws S Q where T: "trie_ok ws t" "content (prefix_sum log) (exact_sum log) ws t" "fst ` set log \<subseteq> set ws"
    "covered (insert [] (fst ` set log)) ws" "selecting ws t S Q" "length S \<le> cnt" "length S < cnt \<longrightarrow> Q = []" "0 < cnt \<longrightarrow> S \<noteq> []"
    "GetTop pick cnt t = Some (map (line_of log) (map (wd ws t) (visit (length ws) S t 0)))"
    using GetTop_words [OF assms(1-3)] by blast
  show ?thesis using T(9) listing_words [OF T(1,3-8)] heaviest_words [OF T(1-3,5) assms(4)] by blast
qed

theorem GetTop_heaviest_witness:
  "\<exists>t. append_all [([1, 2, 3], 5), ([1, 2, 4], 6), ([7], 2)] CompressedTrie_new = Some t \<and>
     (\<exists>words. GetTop first_least 4 t = Some (map (line_of [([1, 2, 3], 5), ([1, 2, 4], 6), ([7], 2)]) words) \<and>
       listing [([1, 2, 3], 5), ([1, 2, 4], 6), ([7], 2)] 4 words \<and> heaviest [([1, 2, 3], 5), ([1, 2, 4], 6), ([7], 2)] words)"
proof -
  let ?log = "[([1, 2, 3], 5), ([1, 2, 4], 6), ([7], 2)] :: path_log"
  have small: "log_size ?log + 1 < 2 ^ 32" by (simp add: log_size_def)
  have light: "light ?log" by (simp add: light_def)
  from small obtain t where t: "append_all ?log CompressedTrie_new = Some t"
    using append_all_represents [OF new_represents, of ?log] by (auto simp: CompressedTrie_new_def)
  show ?thesis using t GetTop_heaviest [OF small first_least_ok t light, of 4] by blast
qed

end
