(* ===== verification/Text_Numbers.thy ===== *)
theory Text_Numbers
  imports MH_Prelude
begin

text \<open>
  Numbers in text, as the standard library reads and writes them: \<open>std::from_chars\<close>, which the sources use
  for the options of the profiler and for the input of the flame graph tool, and the decimal and
  hexadecimal output of streams.
\<close>

datatype errc = NoError | InvalidArgument | ResultOutOfRange

definition is_digit :: "char \<Rightarrow> bool" where
  "is_digit c \<longleftrightarrow> 48 \<le> (of_char c :: nat) \<and> (of_char c :: nat) \<le> 57"

definition digits_value :: "string \<Rightarrow> nat" where
  "digits_value ds = foldl (\<lambda>n c. 10 * n + (of_char c - 48)) 0 ds"

text \<open>
  \<open>std::from_chars\<close> of the standard library, base ten, for a type with the values from \<open>lo\<close> to \<open>hi\<close>: a minus sign
  for signed types only, then all digits that follow; the text that is left, the error and the value.
\<close>

definition from_chars :: "bool \<Rightarrow> int \<Rightarrow> int \<Rightarrow> string \<Rightarrow> string \<times> errc \<times> int" where
  "from_chars isSigned lo hi s =
     (let neg = (isSigned \<and> s \<noteq> [] \<and> hd s = CHR ''-'');
          body = (if neg then tl s else s);
          ds = takeWhile is_digit body;
          rest = dropWhile is_digit body;
          v = (if neg then - int (digits_value ds) else int (digits_value ds))
      in if ds = [] then (s, InvalidArgument, 0)
         else if v < lo \<or> hi < v then (rest, ResultOutOfRange, 0)
         else (rest, NoError, v))"

text \<open>Decimal output of a stream.\<close>

fun show_nat :: "nat \<Rightarrow> string" where
  "show_nat n = (if n < 10 then [char_of (48 + n)] else show_nat (n div 10) @ [char_of (48 + n mod 10)])"

declare show_nat.simps [simp del]

definition show_int :: "int \<Rightarrow> string" where
  "show_int i = (if i < 0 then CHR ''-'' # show_nat (nat (- i)) else show_nat (nat i))"

section \<open>Numbers\<close>

lemma digit_char: "n < 10 \<Longrightarrow> is_digit (char_of (48 + n))" "n < 10 \<Longrightarrow> (of_char (char_of (48 + n) :: char) :: nat) - 48 = n"
  by (simp_all add: is_digit_def)

lemma show_nat_digits: "\<forall>c \<in> set (show_nat n). is_digit c"
  by (induction n rule: show_nat.induct) (subst show_nat.simps, auto simp: digit_char)

lemma show_nat_nonempty [simp]: "show_nat n \<noteq> []"
  by (subst show_nat.simps) simp

lemma digits_value_snoc: "digits_value (ds @ [c]) = 10 * digits_value ds + (of_char c - 48)"
  by (simp add: digits_value_def)

lemma digits_value_show [simp]: "digits_value (show_nat n) = n"
proof (induction n rule: show_nat.induct)
  case (1 n)
  then show ?case
    by (subst show_nat.simps) (auto simp: digits_value_snoc digits_value_def)
qed

definition stops :: "string \<Rightarrow> bool" where
  "stops s \<longleftrightarrow> s = [] \<or> \<not> is_digit (hd s)"

lemma span_show:
  assumes "stops rest"
  shows "takeWhile is_digit (show_nat n @ rest) = show_nat n" "dropWhile is_digit (show_nat n @ rest) = rest"
  using assms show_nat_digits [of n] by (cases rest; simp add: stops_def takeWhile_append dropWhile_append)+

lemma hd_show_nat: "is_digit (hd (show_nat n @ rest))"
  using show_nat_digits [of n] by (cases "show_nat n") auto

lemma not_digits [simp]: "\<not> is_digit CHR ''-''" "\<not> is_digit CHR '',''" "\<not> is_digit CHR '']''" "\<not> is_digit CHR ''[''" "\<not> is_digit CHR 0x09" "\<not> is_digit CHR 0x0A"
  by (simp_all add: is_digit_def)

lemma hd_show_nat_not: "\<not> is_digit c \<Longrightarrow> hd (show_nat n @ rest) \<noteq> c"
  using hd_show_nat by metis

lemma show_int_nonempty [simp]: "show_int i \<noteq> []"
  by (simp add: show_int_def)

lemma from_chars_nat:
  assumes "stops rest" "lo \<le> int n" "int n \<le> hi"
  shows "from_chars isSigned lo hi (show_nat n @ rest) = (rest, NoError, int n)"
  using assms hd_show_nat_not [of "CHR ''-''" n rest] by (simp add: from_chars_def Let_def span_show)

section \<open>Joining and splitting\<close>

fun join_by :: "char \<Rightarrow> string list \<Rightarrow> string" where
  "join_by c [] = []"
| "join_by c [n] = n"
| "join_by c (n # m # ns) = n @ c # join_by c (m # ns)"

lemma join_by_inject:
  assumes "join_by c xs = join_by c ys" "xs \<noteq> []" "ys \<noteq> []" "\<forall>x \<in> set xs. c \<notin> set x" "\<forall>y \<in> set ys. c \<notin> set y"
  shows "xs = ys"
  using assms
proof (induction c xs arbitrary: ys rule: join_by.induct)
  case (2 c n)
  then show ?case by (cases "(c, ys)" rule: join_by.cases) auto
next
  case (3 c n m ns)
  have n: "c \<notin> set n" using 3(5) by simp
  show ?case
  proof (cases "(c, ys)" rule: join_by.cases)
    case (1 c')
    then show ?thesis using \<open>ys \<noteq> []\<close> by simp
  next
    case (2 c' y)
    then show ?thesis using 3(2) 3(6) by auto
  next
    case (3 c' y y' ys')
    then have y: "c \<notin> set y" using \<open>\<forall>y \<in> set ys. c \<notin> set y\<close> by simp
    have eq: "n @ c # join_by c (m # ns) = y @ c # join_by c (y' # ys')"
      using \<open>join_by c (n # m # ns) = join_by c ys\<close> 3 by simp
    have tw: "takeWhile (\<lambda>d. d \<noteq> c) (l @ c # r) = l" if "c \<notin> set l" for l r using that by (subst takeWhile_append2) auto
    have "n = y" using arg_cong [OF eq, of "takeWhile (\<lambda>d. d \<noteq> c)"] tw [OF n] tw [OF y] by simp
    then show ?thesis
      using "3.IH" [of "y' # ys'"] eq "3.prems" 3 by simp
  qed
qed simp

text \<open>The splitting itself.\<close>

fun split_at :: "char \<Rightarrow> string \<Rightarrow> string list" where
  "split_at c [] = [[]]"
| "split_at c (d # s) =
     (if d = c then [] # split_at c s
      else case split_at c s of [] \<Rightarrow> [[d]] | x # xs \<Rightarrow> (d # x) # xs)"

lemma split_at_facts: "split_at c s \<noteq> []" "join_by c (split_at c s) = s" "\<forall>x \<in> set (split_at c s). c \<notin> set x"
proof -
  have "split_at c s \<noteq> [] \<and> join_by c (split_at c s) = s \<and> (\<forall>x \<in> set (split_at c s). c \<notin> set x)"
  proof (induction c s rule: split_at.induct)
    case (2 c d s)
    then show ?case by (cases "split_at c s" rule: remdups_adj.cases) auto
  qed simp
  then show "split_at c s \<noteq> []" "join_by c (split_at c s) = s" "\<forall>x \<in> set (split_at c s). c \<notin> set x" by blast+
qed

lemma split_at_join: "xs \<noteq> [] \<Longrightarrow> \<forall>x \<in> set xs. c \<notin> set x \<Longrightarrow> split_at c (join_by c xs) = xs"
  by (rule join_by_inject [of c]) (simp_all add: split_at_facts)

end
