(* ===== verification/Flame_Stats.thy ===== *)
theory Flame_Stats
  imports Flame_Top Text_Numbers
begin

text \<open>
  \<open>Stats\<close> of the compressed trie (\<open>src/source/flamegraph/src/graph.h\<close>): a depth first search counts the nodes by
  the length of their path and by the number of their edges. The two maps of the source, which start with
  zeros, are functions; the recursion has the number of nodes as its fuel.
\<close>

section \<open>The model\<close>

type_synonym histogram = "u32 \<Rightarrow> u64"

definition bump :: "u32 \<Rightarrow> histogram \<Rightarrow> histogram" where
  "bump k m = m(k := m k + 1)"

primrec stats_dfs :: "nat \<Rightarrow> CompressedTrie \<Rightarrow> u32 \<Rightarrow> histogram \<times> histogram \<Rightarrow> (histogram \<times> histogram) option" where
  "stats_dfs 0 t nodeId hs = None"
| "stats_dfs (Suc fuel) t nodeId hs =
     do { node \<leftarrow> rd (m_nodes t) (unat nodeId);
          let (children, pathStat) = hs;
          let children = bump (of_nat (length (nd_edges node))) children;
          let pathStat = bump (of_nat (ps_size (nd_path node))) pathStat;
          fold_opt (\<lambda>e hs. stats_dfs fuel t (snd e) hs) (nd_edges node) (children, pathStat) }"

definition histogram_text :: "histogram \<Rightarrow> string" where
  "histogram_text m =
     concat (map (\<lambda>i. if m (of_nat i) \<noteq> 0 then show_nat i @ '' '' @ show_nat (unat (m (of_nat i))) @ [CHR 0x0A] else []) [0 ..< 256])"

definition Stats :: "CompressedTrie \<Rightarrow> string option" where
  "Stats t =
     do { (children, pathStat) \<leftarrow> stats_dfs (length (m_nodes t)) t 0 (\<lambda>_. 0, \<lambda>_. 0);
          Some (''PathStat'' @ [CHR 0x0A, CHR 0x0A] @ histogram_text pathStat @ replicate 4 (CHR 0x0A) @
                ''Children'' @ [CHR 0x0A, CHR 0x0A] @ histogram_text children @ [CHR 0x0A] @
                ''Nodes:  '' @ show_nat (length (m_nodes t)) @ [CHR 0x0A] @
                ''Pathes: '' @ show_nat (length (m_paths t)) @ [CHR 0x0A, CHR 0x0A]) }"

section \<open>The order of the search\<close>

abbreviation kids :: "CompressedTrie \<Rightarrow> nat \<Rightarrow> nat list" where
  "kids t j \<equiv> map (\<lambda>e. unat (snd e)) (nd_edges (m_nodes t ! j))"

primrec dfs_order :: "nat \<Rightarrow> CompressedTrie \<Rightarrow> nat \<Rightarrow> nat list" where
  "dfs_order 0 t j = []"
| "dfs_order (Suc n) t j = j # concat (map (dfs_order n t) (kids t j))"

lemma kids_edge: "j < length (m_nodes t) \<Longrightarrow> j' \<in> set (kids t j) \<longleftrightarrow> (\<exists>k. edge t j k j')"
  by (force simp: edge_def)

lemma kids_distinct:
  assumes "shape ws t" "j < length ws"
  shows "distinct (kids t j)"
proof -
  let ?es = "nd_edges (m_nodes t ! j)"
  have d: "distinct (map fst ?es)" and j: "j < length (m_nodes t)" using shapeD(1,9) [OF assms(1)] assms(2) by simp_all
  have "e = e'" if e: "e \<in> set ?es" "e' \<in> set ?es" "unat (snd e) = unat (snd e')" for e e'
  proof -
    have "edge t j (fst e) (unat (snd e))" "edge t j (fst e') (unat (snd e))" using e j unfolding edge_def by (metis prod.collapse)+
    then have "fst e = fst e'" using shape_edge(4) [OF assms(1)] by metis
    then show ?thesis using e(3) by (intro prod_eqI) (simp_all add: word_unat_eq_iff)
  qed
  then show ?thesis using d by (simp add: distinct_map inj_on_def)
qed

lemma dfs_below:
  assumes "shape ws t" "j < length ws" "x \<in> set (dfs_order n t j)"
  shows "x < length ws \<and> prefix (ws ! j) (ws ! x)"
  using assms(2,3)
proof (induction n arbitrary: j)
  case (Suc n)
  consider "x = j" | j' where "j' \<in> set (kids t j)" "x \<in> set (dfs_order n t j')" using Suc.prems(2) by auto
  then show ?case
  proof cases
    case (2 j')
    then obtain k where "edge t j k j'" using kids_edge Suc.prems(1) shapeD(1) [OF assms(1)] by metis
    note se = shape_edge [OF assms(1) this]
    show ?thesis using Suc.IH [OF se(2) 2(2)] se(5) prefix_order.trans by (metis prefixI)
  qed (use Suc.prems in simp)
qed simp

lemma dfs_under_kid:
  assumes "shape ws t" "j < length ws" "j' \<in> set (kids t j)" "x \<in> set (dfs_order n t j')"
  shows "\<exists>k. edge t j k j' \<and> prefix (ws ! j @ [k]) (ws ! x)"
proof -
  obtain k where e: "edge t j k j'" using kids_edge assms(2,3) shapeD(1) [OF assms(1)] by metis
  note se = shape_edge [OF assms(1) e]
  have "prefix (ws ! j @ [k]) (ws ! j')" using se(3-5) by (cases "pth t j'") simp_all
  then show ?thesis using e dfs_below [OF assms(1) se(2) assms(4)] prefix_order.trans by blast
qed

lemma dfs_distinct:
  assumes "shape ws t" "j < length ws"
  shows "distinct (dfs_order n t j)"
  using assms(2)
proof (induction n arbitrary: j)
  case (Suc n)
  note kid = dfs_under_kid [OF assms(1) Suc.prems]
  have "distinct (concat (map (dfs_order n t) (kids t j)))"
  proof (rule distinct_concat_map)
    show "distinct (dfs_order n t j')" if "j' \<in> set (kids t j)" for j'
    proof (cases n)
      case (Suc m)
      then have "j' \<in> set (dfs_order n t j')" by simp
      from kid [OF that this] obtain k where "edge t j k j'" by blast
      from Suc.IH [OF shape_edge(2) [OF assms(1) this]] show ?thesis .
    qed simp
    fix j1 j2 x assume a: "j1 \<in> set (kids t j)" "j2 \<in> set (kids t j)" "x \<in> set (dfs_order n t j1)" "x \<in> set (dfs_order n t j2)"
    obtain k1 k2 where k: "edge t j k1 j1" "prefix (ws ! j @ [k1]) (ws ! x)" "edge t j k2 j2" "prefix (ws ! j @ [k2]) (ws ! x)"
      using kid [OF a(1,3)] kid [OF a(2,4)] by blast
    then have "k1 = k2" by (auto simp: prefix_def)
    then show "j1 = j2" using edge_unique [OF assms(1) k(1)] k(3) by simp
  qed (rule kids_distinct [OF assms(1) Suc.prems])
  moreover have "j \<notin> set (concat (map (dfs_order n t) (kids t j)))"
  proof
    assume "j \<in> set (concat (map (dfs_order n t) (kids t j)))"
    then obtain j' where "j' \<in> set (kids t j)" "j \<in> set (dfs_order n t j')" by auto
    from kid [OF this] show False by (auto dest: prefix_length_le)
  qed
  ultimately show ?case by simp
qed simp

lemma dfs_complete:
  assumes "shape ws t" "x < length ws" "j < length ws" "prefix (ws ! j) (ws ! x)" "card (below ws j) < n"
  shows "x \<in> set (dfs_order n t j)"
  using assms(3-5)
proof (induction n arbitrary: j)
  case (Suc n)
  show ?case
  proof (cases "j = x")
    case False
    then have "strict_prefix (ws ! j) (ws ! x)"
      using Suc.prems(1,2) assms(2) shapeD(7) [OF assms(1)] by (auto simp: strict_prefix_def nth_eq_iff_index_eq)
    then obtain k rest where "ws ! x = ws ! j @ k # rest" by (auto elim: strict_prefixE')
    then have "prefix (ws ! j @ [k]) (ws ! x)" by simp
    then obtain j' where e: "edge t j k j'" "prefix (ws ! j') (ws ! x)" using descend [OF assms(1) Suc.prems(1) assms(2)] by blast
    have "card (below ws j') < n" using below_child [OF assms(1) e(1)] Suc.prems(3) by simp
    then have "x \<in> set (dfs_order n t j')" using Suc.IH [OF shape_edge(2) [OF assms(1) e(1)] e(2)] by blast
    moreover have "j' \<in> set (kids t j)" using e(1) kids_edge Suc.prems(1) shapeD(1) [OF assms(1)] by metis
    ultimately show ?thesis by auto
  qed simp
qed simp

section \<open>Counting\<close>

definition count_node :: "CompressedTrie \<Rightarrow> nat \<Rightarrow> histogram \<times> histogram \<Rightarrow> histogram \<times> histogram" where
  "count_node t i hs =
     (bump (of_nat (length (nd_edges (m_nodes t ! i)))) (fst hs), bump (of_nat (ps_size (nd_path (m_nodes t ! i)))) (snd hs))"

lemma fold_opt_Some: "(\<And>x s. x \<in> set xs \<Longrightarrow> f x s = Some (g x s)) \<Longrightarrow> fold_opt f xs s = Some (fold g xs s)"
  by (induction xs arbitrary: s) auto

lemma fold_concat: "fold (\<lambda>x. fold f (h x)) xs s = fold f (concat (map h xs)) s"
  by (induction xs arbitrary: s) auto

lemma stats_dfs_order:
  assumes "shape ws t" "j < length ws" "card (below ws j) < n"
  shows "stats_dfs n t (of_nat j) hs = Some (fold (count_node t) (dfs_order n t j) hs)"
  using assms(2,3)
proof (induction n arbitrary: j hs)
  case (Suc n)
  have j: "unat (of_nat j :: u32) = j" "j < length (m_nodes t)"
    using Suc.prems(1) shapeD(1,3) [OF assms(1)] by (simp_all add: unat_of_nat take_bit_nat_eq_self)
  have "stats_dfs n t (snd e) hs = Some (fold (count_node t) (dfs_order n t (unat (snd e))) hs)"
    if "e \<in> set (nd_edges (m_nodes t ! j))" for e hs
  proof -
    have e: "edge t j (fst e) (unat (snd e))" using that j(2) unfolding edge_def by (metis prod.collapse)
    have "card (below ws (unat (snd e))) < n" using below_child [OF assms(1) e] Suc.prems(2) by simp
    from Suc.IH [OF shape_edge(2) [OF assms(1) e] this] show ?thesis by simp
  qed
  then have "fold_opt (\<lambda>e hs. stats_dfs n t (snd e) hs) (nd_edges (m_nodes t ! j)) hs =
      Some (fold (\<lambda>e. fold (count_node t) (dfs_order n t (unat (snd e)))) (nd_edges (m_nodes t ! j)) hs)" for hs
    by (rule fold_opt_Some)
  then show ?case
    by (cases hs) (simp add: j rd_def fold_concat count_node_def [of t j] o_def)
qed simp

lemma fold_count_node:
  "fst (fold (count_node t) is hs) k = fst hs k + of_nat (length (filter (\<lambda>i. of_nat (length (nd_edges (m_nodes t ! i))) = k) is))"
  "snd (fold (count_node t) is hs) k = snd hs k + of_nat (length (filter (\<lambda>i. of_nat (ps_size (nd_path (m_nodes t ! i))) = k) is))"
  by (induction "is" arbitrary: hs) (simp_all add: count_node_def bump_def add.assoc)

lemma length_filter_indices:
  assumes "distinct is" "set is = {0 ..< length xs}"
  shows "length (filter (\<lambda>i. P (xs ! i)) is) = length (filter P xs)"
proof -
  have "length (filter (\<lambda>i. P (xs ! i)) is) = card ({i. P (xs ! i)} \<inter> set is)" by (rule distinct_length_filter [OF assms(1)])
  also have "{i. P (xs ! i)} \<inter> set is = {i. i < length xs \<and> P (xs ! i)}" unfolding assms(2) by auto
  also have "card \<dots> = length (filter P xs)" by (rule length_filter_conv_card [symmetric])
  finally show ?thesis .
qed

lemma stats_dfs_counts:
  assumes "shape ws t"
  obtains children pathStat where "stats_dfs (length (m_nodes t)) t 0 (\<lambda>_. 0, \<lambda>_. 0) = Some (children, pathStat)"
    "\<forall>k. children k = of_nat (length (filter (\<lambda>nd. of_nat (length (nd_edges nd)) = k) (m_nodes t)))"
    "\<forall>k. pathStat k = of_nat (length (filter (\<lambda>nd. of_nat (ps_size (nd_path nd)) = k) (m_nodes t)))"
proof -
  let ?n = "length (m_nodes t)" and ?is = "dfs_order (length (m_nodes t)) t 0"
  note d = shapeD [OF assms]
  have "below ws 0 \<subseteq> {0 ..< length ws} - {0}" by (auto simp: below_def d(5))
  then have "card (below ws 0) \<le> card ({0 ..< length ws} - {0})" by (intro card_mono) simp_all
  also have "\<dots> = ?n - 1" using d(1,2) by simp
  finally have fuel: "card (below ws 0) < ?n" using d(1,2) by linarith
  have run: "stats_dfs ?n t 0 (\<lambda>_. 0, \<lambda>_. 0) = Some (fold (count_node t) ?is (\<lambda>_. 0, \<lambda>_. 0))"
    using stats_dfs_order [OF assms d(2) fuel] by simp
  have all: "set ?is = {0 ..< ?n}"
    using dfs_below [OF assms d(2)] dfs_complete [OF assms _ d(2) _ fuel] d(1,5) by auto
  note len = length_filter_indices [OF dfs_distinct [OF assms d(2)] all]
  have n: "length (filter (\<lambda>i. of_nat (length (nd_edges (m_nodes t ! i))) = k) ?is) = length (filter (\<lambda>nd. of_nat (length (nd_edges nd)) = k) (m_nodes t))"
    "length (filter (\<lambda>i. of_nat (ps_size (nd_path (m_nodes t ! i))) = k) ?is) = length (filter (\<lambda>nd. of_nat (ps_size (nd_path nd)) = k) (m_nodes t))"
    for k :: u32 by (rule len)+
  show thesis
    by (rule that [of "fst (fold (count_node t) ?is (\<lambda>_. 0, \<lambda>_. 0))" "snd (fold (count_node t) ?is (\<lambda>_. 0, \<lambda>_. 0))"])
      (simp_all add: run fold_count_node n)
qed

section \<open>Properties\<close>

text \<open>
  C20. Statistics of the trie. After appending any log of paths, \<open>Stats\<close> returns: the search visits every node
  of the trie exactly once, so that the printed table of path lengths has, for every length below 256 that
  occurs, the number of nodes with a path of that length, and the table of children the number of nodes
  with so many edges; larger lengths and numbers are counted but not printed.
\<close>

theorem Stats_counts_nodes:
  assumes "log_size log + 1 < 2 ^ 32" "append_all log CompressedTrie_new = Some t"
  shows "\<exists>children pathStat.
    Stats t = Some (''PathStat'' @ [CHR 0x0A, CHR 0x0A] @ histogram_text pathStat @ replicate 4 (CHR 0x0A) @
      ''Children'' @ [CHR 0x0A, CHR 0x0A] @ histogram_text children @ [CHR 0x0A] @
      ''Nodes:  '' @ show_nat (length (m_nodes t)) @ [CHR 0x0A] @ ''Pathes: '' @ show_nat (length (m_paths t)) @ [CHR 0x0A, CHR 0x0A]) \<and>
    (\<forall>k. children k = of_nat (length (filter (\<lambda>nd. of_nat (length (nd_edges nd)) = k) (m_nodes t)))) \<and>
    (\<forall>k. pathStat k = of_nat (length (filter (\<lambda>nd. of_nat (ps_size (nd_path nd)) = k) (m_nodes t))))"
proof -
  obtain ws where "trie_ok ws t" by (rule log_trie [OF assms])
  then have sh: "shape ws t" by (rule trie_shape)
  obtain children pathStat where c: "stats_dfs (length (m_nodes t)) t 0 (\<lambda>_. 0, \<lambda>_. 0) = Some (children, pathStat)"
    "\<forall>k. children k = of_nat (length (filter (\<lambda>nd. of_nat (length (nd_edges nd)) = k) (m_nodes t)))"
    "\<forall>k. pathStat k = of_nat (length (filter (\<lambda>nd. of_nat (ps_size (nd_path nd)) = k) (m_nodes t)))" by (rule stats_dfs_counts [OF sh])
  show ?thesis using c(2,3) by (intro exI [of _ children] exI [of _ pathStat]) (simp add: Stats_def c(1))
qed

theorem Stats_counts_nodes_witness:
  "\<exists>t children pathStat. append_all [([1, 2, 3], 5), ([1, 2, 4], 6)] CompressedTrie_new = Some t \<and>
     stats_dfs (length (m_nodes t)) t 0 (\<lambda>_. 0, \<lambda>_. 0) = Some (children, pathStat) \<and> Stats t \<noteq> None \<and>
     pathStat 2 = of_nat (length (filter (\<lambda>nd. of_nat (ps_size (nd_path nd)) = (2 :: u32)) (m_nodes t)))"
proof -
  let ?log = "[([1, 2, 3], 5), ([1, 2, 4], 6)]"
  have small: "log_size ?log + 1 < 2 ^ 32" by (simp add: log_size_def)
  obtain t where t: "append_all ?log CompressedTrie_new = Some t"
    using append_all_represents [OF new_represents, of ?log] small by (auto simp: CompressedTrie_new_def)
  obtain ws where "trie_ok ws t" by (rule log_trie [OF small t])
  then have sh: "shape ws t" by (rule trie_shape)
  obtain children pathStat where c: "stats_dfs (length (m_nodes t)) t 0 (\<lambda>_. 0, \<lambda>_. 0) = Some (children, pathStat)"
    "\<forall>k. pathStat k = of_nat (length (filter (\<lambda>nd. of_nat (ps_size (nd_path nd)) = k) (m_nodes t)))" by (rule stats_dfs_counts [OF sh]) blast
  have "Stats t \<noteq> None" using Stats_counts_nodes [OF small t] by auto
  then show ?thesis using t c by blast
qed

end
