(* ===== verification/Flame_Main.thy ===== *)
theory Flame_Main
  imports Flame_Stats
begin

text \<open>
  The program of the flame graph tool (\<open>src/source/flamegraph/src/main.cpp\<close>): reading lines, its
  arguments, and printing the table.

  Texts are lists of characters. A pair of pointers \<open>begin\<close>, \<open>end\<close> is the text that is left. A routine that
  returns \<open>false\<close> returns \<open>None\<close>: no caller looks at its results then. What the tool prints and how it
  ends is a value of type \<open>outcome\<close>.
\<close>

section \<open>The model\<close>

definition parse_number :: "bool \<Rightarrow> int \<Rightarrow> int \<Rightarrow> string \<Rightarrow> (string \<times> int) option" where
  "parse_number isSigned lo hi s =
     (case from_chars isSigned lo hi s of (ptr, ec, v) \<Rightarrow>
        if length ptr = length s then None
        else if ec = NoError then Some (ptr, v) else None)"

definition parse_number_all :: "bool \<Rightarrow> int \<Rightarrow> int \<Rightarrow> string \<Rightarrow> int option" where
  "parse_number_all isSigned lo hi s =
     do { (ptr, v) \<leftarrow> parse_number isSigned lo hi s; if ptr = [] then Some v else None }"

abbreviation parse_int64 :: "string \<Rightarrow> (string \<times> int) option" where
  "parse_int64 \<equiv> parse_number True (- (2 ^ 63)) (2 ^ 63 - 1)"

abbreviation parse_uint32 :: "string \<Rightarrow> (string \<times> int) option" where
  "parse_uint32 \<equiv> parse_number False 0 (2 ^ 32 - 1)"

lemma parse_number_shorter: "parse_number isSigned lo hi s = Some (ptr, v) \<Longrightarrow> length ptr < length s"
  using length_dropWhile_le [of is_digit s] length_dropWhile_le [of is_digit "tl s"]
  by (cases s) (auto simp: parse_number_def from_chars_def Let_def split: if_splits)

text \<open>The loop over the elements of a path.\<close>

function parse_path :: "string \<Rightarrow> u32 list \<Rightarrow> u32 list option" where
  "parse_path s path =
     (if s = [] \<or> hd s = CHR '']'' then Some path
      else case parse_uint32 s of
          None \<Rightarrow> None
        | Some (ptr, v) \<Rightarrow>
            if ptr \<noteq> [] \<and> (hd ptr = CHR '','' \<or> hd ptr = CHR '']'') then parse_path (tl ptr) (path @ [word_of_int v])
            else None)"
  by pat_completeness auto
termination
proof (relation "measure (length \<circ> fst)")
  fix s :: string and path :: "u32 list" and ptr v
  fix x
  assume "parse_uint32 s = Some x" "(ptr, v) = x" "ptr \<noteq> [] \<and> (hd ptr = CHR '','' \<or> hd ptr = CHR '']'')"
  then show "((tl ptr, path @ [word_of_int v]), (s, path)) \<in> measure (length \<circ> fst)"
    using parse_number_shorter [of False 0 "2 ^ 32 - 1" s ptr v] by auto
qed simp

declare parse_path.simps [simp del]

record LineValue =
  lv_value :: u64
  lv_path :: "u32 list"

definition parse_line :: "string \<Rightarrow> LineValue option" where
  "parse_line s =
     (if s = [] then Some \<lparr>lv_value = 0, lv_path = []\<rparr>
      else do { (ptr, v) \<leftarrow> parse_int64 s;
                if ptr \<noteq> [] \<and> hd ptr = CHR 0x09 then do {
                  let ptr = tl ptr;
                  if ptr \<noteq> [] \<and> hd ptr = CHR ''['' then do {
                    path \<leftarrow> parse_path (tl ptr) [];
                    Some \<lparr>lv_value = word_of_int v, lv_path = path\<rparr> }
                  else None }
                else None })"

text \<open>\<open>std::getline\<close>: the next line without its end, and the text after it; \<open>None\<close> at the end of the input.\<close>

definition getline :: "string \<Rightarrow> (string \<times> string) option" where
  "getline s =
     (if s = [] then None
      else Some (takeWhile (\<lambda>c. c \<noteq> CHR 0x0A) s, tl (dropWhile (\<lambda>c. c \<noteq> CHR 0x0A) s)))"

datatype outcome =
    IncorrectLine string
  | MissingRoot string
  | Printed string
  | Usage

text \<open>A line of the table.\<close>

definition print_row :: "nat \<Rightarrow> RetrievedNode \<Rightarrow> string" where
  "print_row ind elem =
     show_nat ind @ CHR 0x09 # show_nat (unat (rn_key elem)) @ CHR 0x09 # show_nat (unat (rn_depth elem)) @ CHR 0x09 #
     show_int (sint (rn_total elem)) @ CHR 0x09 # show_int (sint (rn_value elem)) @ [CHR 0x0A]"

definition print_table :: "RetrievedNode list \<Rightarrow> string" where
  "print_table rows = concat (map (\<lambda>(ind, elem). print_row ind elem) (enumerate 0 rows))"

text \<open>The loop over the input: the trie of all lines, or the message with which the tool gives up.\<close>

function read_lines :: "string \<Rightarrow> CompressedTrie \<Rightarrow> (outcome + CompressedTrie) option" where
  "read_lines s t =
     (case getline s of
        None \<Rightarrow> Some (Inr t)
      | Some (buf, rest) \<Rightarrow>
          (case parse_line buf of
             None \<Rightarrow> Some (Inl (IncorrectLine buf))
           | Some line \<Rightarrow>
               if lv_path line = [] \<or> hd (lv_path line) \<noteq> 0 then Some (Inl (MissingRoot buf))
               else (case Append (tl (lv_path line)) (lv_value line) t of
                       None \<Rightarrow> None
                     | Some t \<Rightarrow> read_lines rest t)))"
  by pat_completeness auto
termination
proof (relation "measure (length \<circ> fst)")
  fix s :: string and t t' :: CompressedTrie and buf rest x line
  assume a: "getline s = Some x" "(buf, rest) = x"
  have "length (dropWhile (\<lambda>c. c \<noteq> CHR 0x0A) s) \<le> length s" by (rule length_dropWhile_le)
  then have "length rest < length s" using a by (cases s) (auto simp: getline_def split: if_splits)
  then show "((rest, t'), (s, t)) \<in> measure (length \<circ> fst)" by simp
qed simp

declare read_lines.simps [simp del]

definition flame_process :: "(QueueItem list \<Rightarrow> QueueItem) \<Rightarrow> nat \<Rightarrow> bool \<Rightarrow> string \<Rightarrow> outcome option" where
  "flame_process pick cnt stats input =
     do { r \<leftarrow> read_lines input CompressedTrie_new;
          case r of
            Inl e \<Rightarrow> Some e
          | Inr t \<Rightarrow>
              if stats then do { out \<leftarrow> Stats t; Some (Printed out) }
              else do { res \<leftarrow> GetTop pick cnt t; Some (Printed (print_table res)) } }"

text \<open>The arguments are those after the name of the program.\<close>

definition flame_main :: "(QueueItem list \<Rightarrow> QueueItem) \<Rightarrow> string list \<Rightarrow> string \<Rightarrow> outcome option" where
  "flame_main pick args input =
     (case args of
        [] \<Rightarrow> flame_process pick 1000 False input
      | [arg] \<Rightarrow>
          if arg = ''stats'' then flame_process pick 1000 True input
          else (case parse_number_all False 0 (2 ^ 64 - 1) arg of
                  None \<Rightarrow> Some Usage
                | Some cnt \<Rightarrow> flame_process pick (nat cnt) False input)
      | _ \<Rightarrow> Some Usage)"

section \<open>Numbers\<close>

lemma parse_number_nat:
  assumes "stops rest" "lo \<le> int n" "int n \<le> hi"
  shows "parse_number isSigned lo hi (show_nat n @ rest) = Some (rest, int n)"
  using from_chars_nat [OF assms] by (simp add: parse_number_def)

lemma parse_number_int:
  assumes "stops rest" "lo \<le> i" "i \<le> hi"
  shows "parse_number True lo hi (show_int i @ rest) = Some (rest, i)"
proof (cases "i < 0")
  case True
  then show ?thesis using assms by (simp add: show_int_def parse_number_def from_chars_def Let_def span_show)
next
  case False
  then show ?thesis using parse_number_nat [of rest lo "nat i" hi True] assms by (simp add: show_int_def)
qed

section \<open>Lines\<close>

text \<open>The format that the tool reads: the value, a tab, and the path in brackets.\<close>

fun join_path :: "u32 list \<Rightarrow> string" where
  "join_path [] = []"
| "join_path [x] = show_nat (unat x)"
| "join_path (x # y # ys) = show_nat (unat x) @ CHR '','' # join_path (y # ys)"

definition print_line :: "u64 \<Rightarrow> u32 list \<Rightarrow> string" where
  "print_line v path = show_int (sint v) @ CHR 0x09 # CHR ''['' # join_path path @ [CHR '']'']"

lemma parse_uint32_show:
  fixes x :: u32
  assumes "stops rest"
  shows "parse_uint32 (show_nat (unat x) @ rest) = Some (rest, int (unat x))"
proof (rule parse_number_nat [OF assms])
  have "unat x < 2 ^ 32" using unsigned_less [of x] by simp
  then have "int (unat x) < int (2 ^ 32)" by (simp only: of_nat_less_iff)
  then show "int (unat x) \<le> 2 ^ 32 - 1" by simp
qed (rule of_nat_0_le_iff)

lemma parse_int64_show:
  fixes v :: u64
  assumes "stops rest"
  shows "parse_int64 (show_int (sint v) @ rest) = Some (rest, sint v)"
  using sint_lt [of v] sint_ge [of v] by (intro parse_number_int [OF assms]) simp_all

lemma parse_path_element:
  fixes x :: u32
  assumes "c = CHR '','' \<or> c = CHR '']''"
  shows "parse_path (show_nat (unat x) @ c # rest) acc = parse_path rest (acc @ [x])"
proof -
  have "stops (c # rest)" using assms by (auto simp: stops_def)
  then show ?thesis
    using assms hd_show_nat_not [of "CHR '']''" "unat x" "c # rest"] parse_uint32_show [of "c # rest" x]
    by (subst parse_path.simps) simp
qed

lemma parse_path_join: "p \<noteq> [] \<Longrightarrow> parse_path (join_path p @ CHR '']'' # rest) acc = parse_path rest (acc @ p)"
  by (induction p arbitrary: acc rule: join_path.induct) (simp_all add: parse_path_element)

lemma parse_line_print:
  "parse_line (print_line v p @ rest) =
     map_option (\<lambda>path. \<lparr>lv_value = v, lv_path = path\<rparr>) (if p = [] then Some [] else parse_path rest p)"
proof -
  have st: "stops (CHR 0x09 # CHR ''['' # join_path p @ CHR '']'' # rest)" by (simp add: stops_def)
  have nil: "parse_path (CHR '']'' # rest) [] = Some []" by (simp add: parse_path.simps)
  have line: "print_line v p @ rest = show_int (sint v) @ CHR 0x09 # CHR ''['' # join_path p @ CHR '']'' # rest"
    by (simp add: print_line_def)
  have "parse_line (print_line v p @ rest) =
      map_option (\<lambda>path. \<lparr>lv_value = v, lv_path = path\<rparr>) (parse_path (join_path p @ CHR '']'' # rest) [])"
    unfolding parse_line_def line parse_int64_show [OF st] by (simp add: map_option_case split: option.split)
  then show ?thesis using parse_path_join [of p rest "[]"] nil by (cases "p = []") simp_all
qed

lemma print_line_no_newline: "CHR 0x0A \<notin> set (print_line v p)"
proof -
  have n: "CHR 0x0A \<notin> set (show_nat n)" for n using show_nat_digits [of n] by (metis not_digits(6))
  have "CHR 0x0A \<notin> set (join_path p)" by (induction p rule: join_path.induct) (simp_all add: n)
  then show ?thesis by (simp add: print_line_def show_int_def n)
qed

lemma getline_line: "CHR 0x0A \<notin> set l \<Longrightarrow> getline (l @ CHR 0x0A # rest) = Some (l, rest)"
  by (simp add: getline_def takeWhile_append dropWhile_append)

definition input_of :: "path_log \<Rightarrow> string" where
  "input_of log = concat (map (\<lambda>(p, v). print_line v (0 # p) @ [CHR 0x0A]) log)"

lemma read_lines_log:
  "append_all log t = Some t' \<Longrightarrow> read_lines (input_of log @ rest) t = read_lines rest t'"
proof (induction log arbitrary: t)
  case (Cons e log)
  obtain p v where e: "e = (p, v)" by (cases e)
  obtain t1 where t1: "Append p v t = Some t1" "append_all log t1 = Some t'"
    using Cons.prems by (auto simp: e bind_eq_Some_conv)
  have "parse_line (print_line v (0 # p)) = Some \<lparr>lv_value = v, lv_path = 0 # p\<rparr>"
    using parse_line_print [of v "0 # p" "[]"] by (simp add: parse_path.simps)
  then have "read_lines (input_of (e # log) @ rest) t = read_lines (input_of log @ rest) t1"
    using getline_line [OF print_line_no_newline [of v "0 # p"], of "input_of log @ rest"] t1(1)
    by (subst read_lines.simps) (simp add: input_of_def e)
  then show ?case using Cons.IH [OF t1(2)] by simp
qed (simp add: input_of_def)

section \<open>Properties\<close>

text \<open>
  C31. Reading a line. A line with a value, a tab and a path in brackets is read back exactly, for every
  64-bit value and every path; and text that follows the closing bracket of a path with elements is read
  as further elements of the path.
\<close>

theorem parse_line_roundtrip:
  "parse_line (print_line v p) = Some \<lparr>lv_value = v, lv_path = p\<rparr> \<and>
   parse_line (print_line v (x # p) @ join_path (y # q) @ [CHR '']'']) = Some \<lparr>lv_value = v, lv_path = x # p @ y # q\<rparr>"
  using parse_line_print [of v p "[]"] parse_line_print [of v "x # p" "join_path (y # q) @ [CHR '']'']"]
    parse_path_join [of "y # q" "[]" "x # p"]
  by (auto simp: parse_path.simps [of "[]"])

text \<open>
  C19. The whole tool: for fewer than \<open>2 ^ 32\<close> path elements, given the lines of a log (each path after
  the root element 0) and a 64-bit count as argument, it ends and prints the table of the listing of the
  log, one numbered row per path.
\<close>

theorem flame_main_prints:
  assumes "log_size log + 1 < 2 ^ 32" "pick_ok pick" "cnt < 2 ^ 64"
  shows "\<exists>words. flame_main pick [show_nat cnt] (input_of log) = Some (Printed (print_table (map (line_of log) words))) \<and>
    listing log cnt words"
proof -
  obtain t where t: "append_all log CompressedTrie_new = Some t"
    using append_all_represents [OF new_represents, of log] assms(1) by (auto simp: CompressedTrie_new_def)
  obtain words where w: "GetTop pick cnt t = Some (map (line_of log) words)" "listing log cnt words"
    using GetTop_listing [OF assms(1,2) t] by blast
  have "show_nat cnt \<noteq> ''stats''" using show_nat_digits [of cnt] by (auto simp: is_digit_def)
  moreover have "parse_number_all False 0 (2 ^ 64 - 1) (show_nat cnt) = Some (int cnt)"
    using parse_number_nat [of "[]" 0 cnt "2 ^ 64 - 1" False] assms(3) by (simp add: parse_number_all_def stops_def)
  moreover have "read_lines (input_of log) CompressedTrie_new = Some (Inr t)"
    using read_lines_log [OF t, of "[]"] by (simp add: read_lines.simps [of "[]"] getline_def)
  ultimately have "flame_main pick [show_nat cnt] (input_of log) = Some (Printed (print_table (map (line_of log) words)))"
    using w(1) by (simp add: flame_main_def flame_process_def)
  then show ?thesis using w(2) by blast
qed

theorem flame_main_prints_witness:
  "\<exists>words. flame_main first_least [show_nat 2] (input_of [([1, 2], 5), ([1, 3], 6)]) =
      Some (Printed (print_table (map (line_of [([1, 2], 5), ([1, 3], 6)]) words))) \<and>
    listing [([1, 2], 5), ([1, 3], 6)] 2 words"
  using flame_main_prints [of "[([1, 2], 5), ([1, 3], 6)]" first_least 2] first_least_ok by (simp add: log_size_def)

text \<open>
  C32. Bad input: the first line that cannot be read, or whose path is empty or does not start with the root
  element, ends the tool with a message that quotes the line; nothing of the lines around it is printed,
  whatever the count, with or without statistics. A blank line is such a line.
\<close>

theorem flame_gives_up:
  assumes "log_size log + 1 < 2 ^ 32" "CHR 0x0A \<notin> set bad"
  shows "(parse_line bad = None \<longrightarrow>
      flame_process pick cnt stats (input_of log @ bad @ CHR 0x0A # rest) = Some (IncorrectLine bad)) \<and>
    (parse_line bad = Some l \<and> (lv_path l = [] \<or> hd (lv_path l) \<noteq> 0) \<longrightarrow>
      flame_process pick cnt stats (input_of log @ bad @ CHR 0x0A # rest) = Some (MissingRoot bad)) \<and>
    flame_process pick cnt stats (input_of log @ CHR 0x0A # rest) = Some (MissingRoot [])"
proof -
  obtain t where t: "append_all log CompressedTrie_new = Some t"
    using append_all_represents [OF new_represents, of log] assms(1) by (auto simp: CompressedTrie_new_def)
  have "read_lines ([] @ CHR 0x0A # rest) t = Some (Inl (MissingRoot []))"
    using getline_line [of "[]" rest] by (subst read_lines.simps) (simp add: parse_line_def)
  then show ?thesis
    using read_lines_log [OF t] getline_line [OF assms(2), of rest]
    by (auto simp: flame_process_def read_lines.simps [of "bad @ CHR 0x0A # rest"])
qed

theorem flame_gives_up_witness:
  "flame_process first_least 3 False (input_of [([1], 5)] @ ''bad!'' @ CHR 0x0A # ''1'') = Some (IncorrectLine ''bad!'')"
  using flame_gives_up [of "[([1], 5)]" "''bad!''" first_least 3 False "''1''"]
  by (simp add: log_size_def parse_line_def parse_number_def from_chars_def is_digit_def)

end
