(* ===== verification/Config_Parse.thy ===== *)
theory Config_Parse
  imports Text_Numbers
begin

text \<open>
  The configuration (\<open>src/source/memhawk/src/impl/config/\<close>): values, variables, and the parser that the
  sources instantiate for every configuration struct.

  A struct is the list of its variables, in the order in which the sources list them for reflection. A
  variable has a name, says whether it is required, holds a value or a nested struct, and remembers
  whether it was set. Errors that the sources pass to a callback are collected in a list, in order.
\<close>

section \<open>The model\<close>

datatype cvalue =
    VBool bool
  | VSize u64
  | VLevel u8
  | VString string
  | VOptString "string option"

datatype cvar =
    CVar (cv_name: string) (cv_required: bool) (cv_set: bool) cvalue
  | CStruct (cv_name: string) (cv_required: bool) (cv_set: bool) "cvar list"

datatype ParseErrorType = FieldNotFound | ValueNotParsed | ValueNotFound | RequiredFieldMissing

record ParseError =
  pe_type :: ParseErrorType
  pe_key :: string
  pe_field :: string
  pe_value :: string

text \<open>\<open>ParseValue\<close>: the new value, or \<open>None\<close> when the function returns \<open>false\<close> and leaves the value.\<close>

definition parse_integral :: "bool \<Rightarrow> int \<Rightarrow> int \<Rightarrow> string \<Rightarrow> int option" where
  "parse_integral isSigned lo hi s =
     (case from_chars isSigned lo hi s of (ptr, ec, v) \<Rightarrow> if ec = NoError then Some v else None)"

fun ParseValue :: "string \<Rightarrow> cvalue \<Rightarrow> cvalue option" where
  "ParseValue s (VSize n) = map_option (VSize \<circ> word_of_int) (parse_integral False 0 (2 ^ 64 - 1) s)"
| "ParseValue s (VLevel n) = map_option (VLevel \<circ> word_of_int) (parse_integral False 0 255 s)"
| "ParseValue s (VString t) = Some (VString s)"
| "ParseValue s (VOptString t) = Some (VOptString (Some s))"
| "ParseValue s (VBool b) =
     (if s = ''true'' then Some (VBool True)
      else if s = ''false'' then Some (VBool False)
      else map_option (\<lambda>v. VBool (0 < v)) (parse_integral True (- (2 ^ 31)) (2 ^ 31 - 1) s))"

text \<open>The members of a struct with the name of the field; the flags \<open>fieldFound\<close> and \<open>valueParsed\<close>.\<close>

fun field_loop :: "string \<Rightarrow> string \<Rightarrow> cvar list \<Rightarrow> cvar list \<times> bool \<times> bool" where
  "field_loop fieldKey s [] = ([], False, False)"
| "field_loop fieldKey s (member # rest) =
     (let (rest', found, parsed) = field_loop fieldKey s rest
      in if cv_name member = fieldKey
         then case member of
                CStruct _ _ _ _ \<Rightarrow> (member # rest', True, parsed)
              | CVar n r isSet v \<Rightarrow>
                  (case ParseValue s v of
                     None \<Rightarrow> (member # rest', True, parsed)
                   | Some v' \<Rightarrow> (CVar n r True v' # rest', True, True))
         else (member # rest', found, parsed))"

definition ParseStructField :: "string \<Rightarrow> nat \<Rightarrow> string \<Rightarrow> cvar list \<Rightarrow> cvar list \<times> bool \<times> ParseError list" where
  "ParseStructField keyView parsedSize valueView obj =
     (let fieldKey = drop parsedSize keyView;
          (obj', fieldFound, valueParsed) = field_loop fieldKey valueView obj
      in if \<not> fieldFound
         then (obj', False, [\<lparr>pe_type = FieldNotFound, pe_key = keyView, pe_field = fieldKey, pe_value = valueView\<rparr>])
         else if \<not> valueParsed
         then (obj', False, [\<lparr>pe_type = ValueNotParsed, pe_key = keyView, pe_field = fieldKey, pe_value = valueView\<rparr>])
         else (obj', True, []))"

text \<open>\<open>find\<close> of \<open>std::string_view\<close>: the first position from \<open>pos\<close> on with the character.\<close>

definition find_from :: "char \<Rightarrow> nat \<Rightarrow> string \<Rightarrow> nat option" where
  "find_from c pos s =
     (let n = length (takeWhile (\<lambda>d. d \<noteq> c) (drop pos s))
      in if pos + n < length s then Some (pos + n) else None)"

text \<open>\<open>ParseStructNested\<close>, and its loop over the members.\<close>

function (sequential)
  ParseStructNested :: "string \<Rightarrow> nat \<Rightarrow> string \<Rightarrow> cvar list \<Rightarrow> cvar list \<times> bool \<times> ParseError list" and
  nested_loop :: "string \<Rightarrow> string \<Rightarrow> nat \<Rightarrow> string \<Rightarrow> cvar list \<Rightarrow> cvar list \<times> bool \<times> bool \<times> ParseError list" where
  "ParseStructNested keyView parsedSize valueView obj =
     (case find_from CHR ''.'' parsedSize keyView of
        None \<Rightarrow> ParseStructField keyView parsedSize valueView obj
      | Some splitPos \<Rightarrow>
          (let structKey = take (splitPos - parsedSize) (drop parsedSize keyView);
               (obj', fieldFound, valueParsed, errs) = nested_loop structKey keyView (splitPos + 1) valueView obj
           in if \<not> fieldFound
              then (obj', False, errs @ [\<lparr>pe_type = FieldNotFound, pe_key = keyView, pe_field = structKey, pe_value = valueView\<rparr>])
              else (obj', valueParsed, errs)))"
| "nested_loop structKey keyView parsedSize valueView [] = ([], False, False, [])"
| "nested_loop structKey keyView parsedSize valueView (CStruct n r isSet fs # rest) =
     (if n = structKey
      then let (fs', isParsed, errs) = ParseStructNested keyView parsedSize valueView fs;
               (rest', found, parsed, errs') = nested_loop structKey keyView parsedSize valueView rest
           in (CStruct n r (isSet \<or> isParsed) fs' # rest', True, isParsed \<or> parsed, errs @ errs')
      else let (rest', found, parsed, errs') = nested_loop structKey keyView parsedSize valueView rest
           in (CStruct n r isSet fs # rest', found, parsed, errs'))"
| "nested_loop structKey keyView parsedSize valueView (CVar n r isSet v # rest) =
     (let (rest', found, parsed, errs') = nested_loop structKey keyView parsedSize valueView rest
      in (CVar n r isSet v # rest', n = structKey \<or> found, parsed, errs'))"
  by pat_completeness auto
termination
  by (relation "measure (case_sum (\<lambda>(_, _, _, fs). 2 * size_list size fs + 1) (\<lambda>(_, _, _, _, fs). 2 * size_list size fs))") auto

declare ParseStructNested.simps [simp del]

text \<open>\<open>ValidateStruct\<close>: the errors it reports; the struct is valid when there are none.\<close>

fun full_path :: "string \<Rightarrow> string \<Rightarrow> string" where
  "full_path keyPath n = (if keyPath = [] then n else keyPath @ ''.'' @ n)"

fun ValidateStruct :: "cvar list \<Rightarrow> string \<Rightarrow> ParseError list" where
  "ValidateStruct [] keyPath = []"
| "ValidateStruct (CStruct n r isSet fs # rest) keyPath = ValidateStruct fs (full_path keyPath n) @ ValidateStruct rest keyPath"
| "ValidateStruct (CVar n r isSet v # rest) keyPath =
     (if isSet \<or> \<not> r then [] else [\<lparr>pe_type = RequiredFieldMissing, pe_key = full_path keyPath n, pe_field = n, pe_value = []\<rparr>]) @
     ValidateStruct rest keyPath"

text \<open>The loop over the options; \<open>split\<close> is the splitting of the text at the delimiter.\<close>

fun parse_elems :: "string list \<Rightarrow> cvar list \<Rightarrow> cvar list \<times> bool \<times> ParseError list" where
  "parse_elems [] obj = (obj, True, [])"
| "parse_elems (elemView # rest) obj =
     (case find_from CHR ''='' 0 elemView of
        None \<Rightarrow>
          (let (obj', valid, errs) = parse_elems rest obj
           in (obj', False, \<lparr>pe_type = ValueNotFound, pe_key = elemView, pe_field = elemView, pe_value = []\<rparr> # errs))
      | Some separatorPos \<Rightarrow>
          (let (obj1, ok, errs1) = ParseStructNested (take separatorPos elemView) 0 (drop (separatorPos + 1) elemView) obj;
               (obj', valid, errs) = parse_elems rest obj1
           in (obj', ok \<and> valid, errs1 @ errs)))"

definition ParseStruct :: "(string \<Rightarrow> string list) \<Rightarrow> string \<Rightarrow> cvar list \<Rightarrow> cvar list \<times> bool \<times> ParseError list" where
  "ParseStruct split input obj =
     (let (obj', valid, errs) = parse_elems (split input) obj;
          missing = ValidateStruct obj' []
      in (obj', valid \<and> missing = [], errs @ missing))"

text \<open>\<open>DescribeStruct\<close>: the full key and the value of every variable.\<close>

fun DescribeStruct :: "cvar list \<Rightarrow> string \<Rightarrow> (string \<times> cvalue) list" where
  "DescribeStruct [] keyPath = []"
| "DescribeStruct (CStruct n r isSet fs # rest) keyPath = DescribeStruct fs (full_path keyPath n) @ DescribeStruct rest keyPath"
| "DescribeStruct (CVar n r isSet v # rest) keyPath = (full_path keyPath n, v) # DescribeStruct rest keyPath"

section \<open>Types\<close>

text \<open>What the C++ type of a configuration says: names, nesting, and the kinds of the values.\<close>

fun kind_of :: "cvalue \<Rightarrow> cvalue" where
  "kind_of (VBool b) = VBool False"
| "kind_of (VSize n) = VSize 0"
| "kind_of (VLevel n) = VLevel 0"
| "kind_of (VString s) = VString []"
| "kind_of (VOptString s) = VOptString None"

fun skeleton :: "cvar \<Rightarrow> cvar" where
  "skeleton (CVar n r isSet v) = CVar n r False (kind_of v)"
| "skeleton (CStruct n r isSet fs) = CStruct n r False (map skeleton fs)"

lemma ParseValue_kind: "ParseValue s v = Some v' \<Longrightarrow> kind_of v' = kind_of v"
  by (cases v) (auto split: if_splits)

lemma field_loop_skeleton: "map skeleton (fst (field_loop k s fs)) = map skeleton fs"
  by (induction k s fs rule: field_loop.induct)
    (auto simp: Let_def split: prod.split cvar.split option.split dest: ParseValue_kind)

lemma ParseStructField_skeleton: "map skeleton (fst (ParseStructField key off s fs)) = map skeleton fs"
  using field_loop_skeleton [of "drop off key" s fs] by (auto simp: ParseStructField_def Let_def split: prod.split)

lemma nested_skeleton:
  "map skeleton (fst (ParseStructNested key off s fs)) = map skeleton fs"
  "map skeleton (fst (nested_loop k key off s fs)) = map skeleton fs"
proof (induction key off s fs and k key off s fs rule: ParseStructNested_nested_loop.induct)
  case (1 key off s fs)
  show ?case
  proof (cases "find_from CHR ''.'' off key")
    case None
    then show ?thesis by (subst ParseStructNested.simps) (simp add: ParseStructField_skeleton)
  next
    case (Some i)
    from 1 [OF Some refl] show ?thesis
      using Some by (subst ParseStructNested.simps) (auto simp: Let_def split_beta)
  qed
qed (auto simp: Let_def split: prod.splits)

lemma parse_elems_skeleton: "map skeleton (fst (parse_elems es fs)) = map skeleton fs"
proof (induction es fs rule: parse_elems.induct)
  case (2 e es fs)
  show ?case
  proof (cases "find_from CHR ''='' 0 e")
    case (Some i)
    obtain fs1 ok errs where p: "ParseStructNested (take i e) 0 (drop (i + 1) e) fs = (fs1, ok, errs)" by (metis prod_cases3)
    then have "map skeleton fs1 = map skeleton fs" using nested_skeleton(1) [of "take i e" 0 "drop (i + 1) e" fs] by simp
    then show ?thesis using 2(2) [OF Some p [symmetric]] Some p by (simp add: split_beta)
  qed (use 2 in \<open>simp add: split_beta\<close>)
qed simp

section \<open>Paths\<close>

text \<open>The variable that a path of names leads to, and a struct in which it is set.\<close>

fun var_at :: "string list \<Rightarrow> cvar list \<Rightarrow> cvalue option" where
  "var_at p [] = None"
| "var_at [] (f # fs) = None"
| "var_at (n # p) (CVar m r isSet v # fs) = (if m = n then (if p = [] then Some v else None) else var_at (n # p) fs)"
| "var_at (n # p) (CStruct m r isSet gs # fs) = (if m = n then var_at p gs else var_at (n # p) fs)"

fun put_at :: "string list \<Rightarrow> cvalue \<Rightarrow> cvar list \<Rightarrow> cvar list" where
  "put_at p v [] = []"
| "put_at [] v (f # fs) = f # fs"
| "put_at (n # p) v (CVar m r isSet w # fs) = (if m = n then CVar m r True v # fs else CVar m r isSet w # put_at (n # p) v fs)"
| "put_at (n # p) v (CStruct m r isSet gs # fs) =
     (if m = n then CStruct m r True (put_at p v gs) # fs else CStruct m r isSet gs # put_at (n # p) v fs)"

text \<open>Names of a struct are distinct and hold none of the delimiters.\<close>

definition plain_name :: "string \<Rightarrow> bool" where
  "plain_name n \<longleftrightarrow> n \<noteq> [] \<and> CHR ''.'' \<notin> set n \<and> CHR ''='' \<notin> set n \<and> CHR '':'' \<notin> set n"

fun names_ok :: "cvar list \<Rightarrow> bool" where
  "names_ok [] = True"
| "names_ok (CVar n r isSet v # fs) = (plain_name n \<and> n \<notin> cv_name ` set fs \<and> names_ok fs)"
| "names_ok (CStruct n r isSet gs # fs) = (plain_name n \<and> n \<notin> cv_name ` set fs \<and> names_ok gs \<and> names_ok fs)"

lemma var_at_absent: "n \<notin> cv_name ` set fs \<Longrightarrow> var_at (n # p) fs = None"
  by (induction "n # p" fs rule: var_at.induct) auto

lemma cv_name_put: "map cv_name (put_at p v fs) = map cv_name fs"
  by (induction p v fs rule: put_at.induct) auto

lemma names_put: "cv_name ` set (put_at p v fs) = cv_name ` set fs"
  using cv_name_put [of p v fs] by (metis list.set_map)

lemma names_ok_put: "names_ok fs \<Longrightarrow> names_ok (put_at p v fs)"
  by (induction p v fs rule: put_at.induct) (auto simp: names_put)

lemma var_at_put:
  assumes "var_at p fs = Some w"
  shows "var_at q (put_at p v fs) = (if q = p then Some v else var_at q fs)"
  using assms
proof (induction p v fs arbitrary: q rule: put_at.induct)
  case (3 n p v m r isSet w' fs)
  then show ?case by (cases q) (auto split: if_splits)
next
  case (4 n p v m r isSet gs fs)
  then show ?case by (cases q) (auto split: if_splits)
qed simp_all

lemma var_at_names:
  assumes "names_ok fs" "var_at p fs = Some v"
  shows "p \<noteq> []" "\<And>n. n \<in> set p \<Longrightarrow> plain_name n"
proof -
  have "p \<noteq> [] \<and> (\<forall>n \<in> set p. plain_name n)" using assms by (induction p fs rule: var_at.induct) (auto split: if_splits)
  then show "p \<noteq> []" "\<And>n. n \<in> set p \<Longrightarrow> plain_name n" by blast+
qed

section \<open>Setting one variable\<close>

lemma find_from_None: "c \<notin> set n \<Longrightarrow> find_from c (length pre) (pre @ n) = None"
proof -
  assume "c \<notin> set n"
  then have "takeWhile (\<lambda>d. d \<noteq> c) n = n" by (auto simp: takeWhile_eq_all_conv)
  then show ?thesis by (simp add: find_from_def Let_def del: takeWhile_eq_all_conv)
qed

lemma find_from_Some: "c \<notin> set n \<Longrightarrow> find_from c (length pre) (pre @ n @ c # rest) = Some (length pre + length n)"
proof -
  assume "c \<notin> set n"
  then have "takeWhile (\<lambda>d. d \<noteq> c) (n @ c # rest) = n" by (subst takeWhile_append2) auto
  then show ?thesis by (simp add: find_from_def)
qed

lemma find_from_split:
  assumes "find_from c off s = Some i" "off \<le> length s"
  shows "drop off s = take (i - off) (drop off s) @ c # drop (Suc i) s" "off \<le> i" "i < length s"
proof -
  let ?t = "takeWhile (\<lambda>d. d \<noteq> c) (drop off s)"
  have i: "i = off + length ?t" "i < length s" using assms(1) by (auto simp: find_from_def Let_def split: if_splits)
  show "off \<le> i" "i < length s" using i by simp_all
  have "dropWhile (\<lambda>d. d \<noteq> c) (drop off s) = drop (length ?t) (drop off s)" by (rule dropWhile_eq_drop)
  also have "\<dots> = drop i s" by (simp add: i(1) add.commute)
  finally have d: "dropWhile (\<lambda>d. d \<noteq> c) (drop off s) = drop i s" .
  have ne: "drop i s \<noteq> []" using i(2) by simp
  then have "hd (drop i s) = c" using hd_dropWhile [of "\<lambda>d. d \<noteq> c" "drop off s"] unfolding d by simp
  then have "drop i s = c # drop (Suc i) s" using i(2) by (metis Cons_nth_drop_Suc hd_drop_conv_nth)
  moreover have "drop off s = ?t @ drop i s" using takeWhile_dropWhile_id [of "\<lambda>d. d \<noteq> c" "drop off s"] unfolding d by simp
  moreover have "take (i - off) (drop off s) = ?t" unfolding i(1) by (simp add: takeWhile_eq_take [symmetric])
  ultimately show "drop off s = take (i - off) (drop off s) @ c # drop (Suc i) s" by simp
qed

lemma field_absent: "n \<notin> cv_name ` set fs \<Longrightarrow> field_loop n s fs = (fs, False, False)"
  by (induction fs) (auto simp: Let_def)

lemma field_sets:
  assumes "names_ok fs" "var_at [n] fs = Some v" "ParseValue s v = Some v'"
  shows "field_loop n s fs = (put_at [n] v' fs, True, True)"
  using assms
proof (induction fs rule: names_ok.induct)
  case (2 m r isSet w fs)
  then show ?case by (cases "m = n") (simp_all add: field_absent)
next
  case (3 m r isSet gs fs)
  then show ?case by (cases "m = n") (auto dest: var_at.elims)
qed simp

lemma nested_absent: "n \<notin> cv_name ` set fs \<Longrightarrow> nested_loop n key off s fs = (fs, False, False, [])"
proof (induction fs)
  case (Cons f fs)
  then show ?case by (cases f) auto
qed simp

lemma nested_sets:
  assumes "names_ok fs" "var_at (n # p) fs = Some v" "p \<noteq> []"
    and "\<And>gs. names_ok gs \<Longrightarrow> var_at p gs = Some v \<Longrightarrow> ParseStructNested key off s gs = (put_at p v' gs, True, [])"
  shows "nested_loop n key off s fs = (put_at (n # p) v' fs, True, True, [])"
  using assms(1,2)
proof (induction fs rule: names_ok.induct)
  case (2 m r isSet w fs)
  then show ?case using assms(3) by (cases "m = n") simp_all
next
  case (3 m r isSet gs fs)
  then show ?case by (cases "m = n") (simp_all add: nested_absent assms(4))
qed simp

lemma ParseStructNested_sets:
  assumes "names_ok fs" "var_at p fs = Some v" "ParseValue s v = Some v'"
  shows "ParseStructNested (pre @ join_by CHR ''.'' p) (length pre) s fs = (put_at p v' fs, True, [])"
  using assms(1,2)
proof (induction "CHR ''.''" p arbitrary: pre fs rule: join_by.induct)
  case 1
  then show ?case using var_at_names(1) by blast
next
  case (2 n)
  have "CHR ''.'' \<notin> set n" using var_at_names(2) [OF 2] by (simp add: plain_name_def)
  then show ?case
    using field_sets [OF 2 assms(3)] by (subst ParseStructNested.simps) (simp add: find_from_None ParseStructField_def)
next
  case (3 n m ns)
  define key where "key = pre @ join_by CHR ''.'' (n # m # ns)"
  define off where "off = length pre + length n + 1"
  have n: "CHR ''.'' \<notin> set n" using var_at_names(2) [OF 3(2,3)] by (simp add: plain_name_def)
  have key: "key = (pre @ n @ ''.'') @ join_by CHR ''.'' (m # ns)" "key = pre @ n @ CHR ''.'' # join_by CHR ''.'' (m # ns)"
    "off = length (pre @ n @ ''.'')" by (simp_all add: key_def off_def)
  have sub: "ParseStructNested key off s gs = (put_at (m # ns) v' gs, True, [])"
    if "names_ok gs" "var_at (m # ns) gs = Some v" for gs
    using 3(1) [OF that, of "pre @ n @ ''.''"] unfolding key(1,3) .
  have hit: "nested_loop n key off s fs = (put_at (n # m # ns) v' fs, True, True, [])"
    by (rule nested_sets [OF 3(2,3) list.simps(3)]) (rule sub)
  have find: "find_from CHR ''.'' (length pre) key = Some (length pre + length n)" unfolding key(2) by (rule find_from_Some [OF n])
  have name: "take (length pre + length n - length pre) (drop (length pre) key) = n" unfolding key(2) by simp
  show ?case
    unfolding key_def [symmetric] ParseStructNested.simps [of key "length pre" s fs] find option.case name
      off_def [symmetric] hit Let_def by simp
qed

section \<open>What is accepted\<close>

lemma field_parsed:
  assumes "names_ok fs" "field_loop n s fs = (fs', found, True)"
  shows "\<exists>v v'. var_at [n] fs = Some v \<and> ParseValue s v = Some v'"
  using assms
proof (induction fs arbitrary: fs' found rule: names_ok.induct)
  case (2 m r isSet w fs)
  then show ?case
    by (cases "m = n"; cases "ParseValue s w") (auto simp: field_absent Let_def split: prod.splits)
next
  case (3 m r isSet gs fs)
  then show ?case by (cases "m = n") (auto simp: field_absent Let_def split: prod.splits)
qed simp

lemma nested_parsed:
  "ParseStructNested key off s fs = (fs', True, errs) \<Longrightarrow> names_ok fs \<Longrightarrow> off \<le> length key \<Longrightarrow>
     \<exists>p v v'. drop off key = join_by CHR ''.'' p \<and> var_at p fs = Some v \<and> ParseValue s v = Some v'"
  "nested_loop k key off s fs = (fs', found, True, errs) \<Longrightarrow> names_ok fs \<Longrightarrow> off \<le> length key \<Longrightarrow>
     \<exists>p v v'. p \<noteq> [] \<and> drop off key = join_by CHR ''.'' p \<and> var_at (k # p) fs = Some v \<and> ParseValue s v = Some v'"
proof (induction key off s fs and k key off s fs arbitrary: fs' errs and fs' found errs
    rule: ParseStructNested_nested_loop.induct)
  case (1 key off s fs)
  show ?case
  proof (cases "find_from CHR ''.'' off key")
    case None
    then obtain found where "field_loop (drop off key) s fs = (fs', found, True)"
      using 1(2) by (subst (asm) ParseStructNested.simps) (auto simp: ParseStructField_def Let_def split: if_splits prod.splits)
    from field_parsed [OF 1(3) this] show ?thesis by (intro exI [of _ "[drop off key]"]) simp
  next
    case (Some i)
    let ?k = "take (i - off) (drop off key)"
    note sp = find_from_split [OF Some 1(4)]
    obtain found where "nested_loop ?k key (i + 1) s fs = (fs', found, True, errs)"
      using 1(2) Some by (subst (asm) ParseStructNested.simps) (auto simp: Let_def split: if_splits prod.splits)
    from 1(1) [OF Some refl this 1(3)] sp(3) obtain p v v'
      where p: "p \<noteq> []" "drop (i + 1) key = join_by CHR ''.'' p" "var_at (?k # p) fs = Some v" "ParseValue s v = Some v'" by auto
    then have "drop off key = join_by CHR ''.'' (?k # p)" using sp(1) by (cases p) simp_all
    then show ?thesis using p by blast
  qed
next
  case (3 k key off s n r isSet gs rest)
  have ok: "names_ok gs" "names_ok rest" "n \<notin> cv_name ` set rest" using 3(5) by simp_all
  show ?case
  proof (cases "n = k")
    case True
    obtain gs' isParsed es where g: "ParseStructNested key off s gs = (gs', isParsed, es)" by (metis prod_cases3)
    have "isParsed" using 3(4) True ok(3) g by (auto simp: nested_absent)
    then have "ParseStructNested key off s gs = (gs', True, es)" using g by simp
    from 3(1) [OF True this ok(1) 3(6)] obtain p v v'
      where p: "drop off key = join_by CHR ''.'' p" "var_at p gs = Some v" "ParseValue s v = Some v'" by blast
    have "p \<noteq> []" using var_at_names(1) [OF ok(1) p(2)] .
    then show ?thesis using True p by (intro exI [of _ p]) simp
  next
    case False
    obtain rest' found' es where g: "nested_loop k key off s rest = (rest', found', True, es)"
      using 3(4) False by (auto split: prod.splits)
    from 3(3) [OF False g ok(2) 3(6)] show ?thesis using False by auto
  qed
next
  case (4 k key off s n r isSet v rest)
  have ok: "names_ok rest" "n \<notin> cv_name ` set rest" using 4(3) by simp_all
  obtain rest' found' es where g: "nested_loop k key off s rest = (rest', found', True, es)"
    using 4(2) by (auto split: prod.splits)
  then have "n \<noteq> k" using ok(2) by (auto simp: nested_absent)
  then show ?case using 4(1) [OF g ok(1) 4(4)] by auto
qed simp

section \<open>Texts of options\<close>

definition split_ok :: "(string \<Rightarrow> string list) \<Rightarrow> bool" where
  "split_ok split \<longleftrightarrow> (\<forall>s. join_by CHR '':'' (split s) = s \<and> (\<forall>x \<in> set (split s). CHR '':'' \<notin> set x))"

lemma split_join:
  assumes "split_ok split" "xs \<noteq> []" "\<forall>x \<in> set xs. CHR '':'' \<notin> set x \<and> x \<noteq> []"
  shows "split (join_by CHR '':'' xs) = xs"
proof -
  have "join_by CHR '':'' xs \<noteq> []" using assms(2,3) by (cases xs rule: remdups_adj.cases) auto
  then have "split (join_by CHR '':'' xs) \<noteq> []" using assms(1) unfolding split_ok_def by (metis join_by.simps(1))
  then show ?thesis
    using join_by_inject [of "CHR '':''" "split (join_by CHR '':'' xs)" xs] assms unfolding split_ok_def by blast
qed

lemma split_at_ok: "split_ok (split_at CHR '':'')"
  using split_at_facts by (simp add: split_ok_def)

definition assignment :: "string list \<times> string \<Rightarrow> string" where
  "assignment a = join_by CHR ''.'' (fst a) @ CHR ''='' # snd a"

lemma join_by_plain: "\<forall>n \<in> set p. plain_name n \<Longrightarrow> CHR ''='' \<notin> set (join_by CHR ''.'' p) \<and> CHR '':'' \<notin> set (join_by CHR ''.'' p)"
  by (induction "CHR ''.''" p rule: join_by.induct) (auto simp: plain_name_def)

lemma ParseValue_kind_cong: "kind_of v = kind_of w \<Longrightarrow> ParseValue s v = ParseValue s w"
  by (cases v; cases w) auto

text \<open>Parsing a list of assignments: the last one of each variable counts.\<close>

lemma parse_assignments:
  assumes "names_ok fs" "\<forall>a \<in> set as. \<exists>v. var_at (fst a) fs = Some v \<and> ParseValue (snd a) v \<noteq> None"
  shows "\<exists>fs'. parse_elems (map assignment as) fs = (fs', True, []) \<and>
    (\<forall>q v. var_at q fs = Some v \<longrightarrow> var_at q fs' = (case map_of (rev as) q of None \<Rightarrow> Some v | Some s \<Rightarrow> ParseValue s v))"
  using assms
proof (induction as arbitrary: fs)
  case (Cons a as)
  obtain p s where a: "a = (p, s)" by (cases a)
  obtain v v1 where v: "var_at p fs = Some v" "ParseValue s v = Some v1" using Cons.prems(2) by (auto simp: a)
  let ?fs = "put_at p v1 fs"
  have k: "kind_of v1 = kind_of v" using ParseValue_kind [OF v(2)] .
  have plain: "CHR ''='' \<notin> set (join_by CHR ''.'' p)" using join_by_plain var_at_names(2) [OF Cons.prems(1) v(1)] by blast
  have step: "parse_elems (assignment a # es) fs = (let (o', ok, errs) = parse_elems es ?fs in (o', ok, errs))" for es
    using find_from_Some [OF plain, of "[]" s] ParseStructNested_sets [OF Cons.prems(1) v, of "[]"]
    by (simp add: assignment_def a split: prod.split)
  have at: "var_at q ?fs = (if q = p then Some v1 else var_at q fs)" for q using var_at_put [OF v(1)] by simp
  have "\<forall>b \<in> set as. \<exists>w. var_at (fst b) ?fs = Some w \<and> ParseValue (snd b) w \<noteq> None"
  proof
    fix b assume "b \<in> set as"
    then obtain w where w: "var_at (fst b) fs = Some w" "ParseValue (snd b) w \<noteq> None" using Cons.prems(2) by auto
    show "\<exists>w. var_at (fst b) ?fs = Some w \<and> ParseValue (snd b) w \<noteq> None"
      using w v(1) ParseValue_kind_cong [OF k, of "snd b"] unfolding at by (cases "fst b = p") auto
  qed
  from Cons.IH [OF names_ok_put [OF Cons.prems(1)] this] obtain fs' where fs': "parse_elems (map assignment as) ?fs = (fs', True, [])"
    "\<And>q v. var_at q ?fs = Some v \<Longrightarrow> var_at q fs' = (case map_of (rev as) q of None \<Rightarrow> Some v | Some s \<Rightarrow> ParseValue s v)" by blast
  have "var_at q fs' = (case map_of (rev (a # as)) q of None \<Rightarrow> Some w | Some s \<Rightarrow> ParseValue s w)" if w: "var_at q fs = Some w" for q w
  proof (cases "q = p")
    case True
    then have "var_at q fs' = (case map_of (rev as) q of None \<Rightarrow> Some v1 | Some s \<Rightarrow> ParseValue s v1)"
      using fs'(2) [of q v1] unfolding at by simp
    then show ?thesis using True w v ParseValue_kind_cong [OF k] by (auto simp: a map_add_def split: option.split)
  next
    case False
    then show ?thesis using fs'(2) [of q w] w unfolding at by (auto simp: a map_add_def split: option.split)
  qed
  then show ?case using fs'(1) step by (intro exI [of _ fs']) simp
qed simp

lemma cv_name_skeleton [simp]: "cv_name (skeleton f) = cv_name f"
  by (cases f) simp_all

lemma names_ok_skeleton: "names_ok (map skeleton fs) = names_ok fs"
  by (induction fs rule: names_ok.induct) (auto simp: image_image)

lemma var_at_skeleton: "var_at p (map skeleton fs) = map_option kind_of (var_at p fs)"
  by (induction p fs rule: var_at.induct) auto

lemma kind_of_idem [simp]: "kind_of (kind_of v) = kind_of v"
  by (cases v) simp_all

lemma parse_elems_accepts:
  assumes "names_ok fs0" "map skeleton fs = map skeleton fs0" "parse_elems es fs = (fs', True, errs)" "e \<in> set es"
  shows "\<exists>p s v. e = assignment (p, s) \<and> var_at p fs0 = Some v \<and> ParseValue s v \<noteq> None"
  using assms(2-4)
proof (induction es arbitrary: fs errs)
  case (Cons e' es)
  obtain i where i: "find_from CHR ''='' 0 e' = Some i"
    using Cons.prems(2) by (cases "find_from CHR ''='' 0 e'") (auto split: prod.splits)
  obtain fs1 ok errs1 where p: "ParseStructNested (take i e') 0 (drop (i + 1) e') fs = (fs1, ok, errs1)" by (metis prod_cases3)
  obtain errs2 where q: "parse_elems es fs1 = (fs', True, errs2)" "ok"
    using Cons.prems(2) i p by (auto split: prod.splits)
  show ?case
  proof (cases "e = e'")
    case True
    have "names_ok fs" using names_ok_skeleton [of fs] names_ok_skeleton [of fs0] Cons.prems(1) assms(1) by simp
    moreover have "ParseStructNested (take i e') 0 (drop (i + 1) e') fs = (fs1, True, errs1)" using p q(2) by simp
    ultimately obtain pth v v' where n: "take i e' = join_by CHR ''.'' pth" "var_at pth fs = Some v" "ParseValue (drop (i + 1) e') v = Some v'"
      using nested_parsed(1) [of "take i e'" 0] by fastforce
    have "map_option kind_of (var_at pth fs0) = Some (kind_of v)"
      using var_at_skeleton [of pth fs] var_at_skeleton [of pth fs0] Cons.prems(1) n(2) by simp
    then obtain w where w: "var_at pth fs0 = Some w" "kind_of w = kind_of v" by auto
    moreover have "e = assignment (pth, drop (i + 1) e')"
      using find_from_split [OF i] True n(1) by (simp add: assignment_def)
    moreover have "ParseValue (drop (i + 1) e') w \<noteq> None" using n(3) ParseValue_kind_cong [OF w(2)] by simp
    ultimately show ?thesis by blast
  next
    case False
    have "map skeleton fs1 = map skeleton fs0" using nested_skeleton(1) [of "take i e'" 0 "drop (i + 1) e'" fs] p Cons.prems(1) by simp
    from Cons.IH [OF this q(1)] show ?thesis using False Cons.prems(3) by simp
  qed
qed simp

end
