(* ===== verification/Config.thy ===== *)
theory Config
  imports Config_Parse
begin

text \<open>
  The configuration of the profiler (\<open>src/source/memhawk/src/impl/config.h\<close>, \<open>config.cpp\<close>): its structs with
  their defaults, and \<open>ParseConfig\<close>, which reads the environment variable. The process exits on errors
  and after help; that is a value of the result.
\<close>

section \<open>The model\<close>

definition MinUnwindDepth :: u64 where
  "MinUnwindDepth = 3"

definition MaxUnwindDepth_cfg :: u64 where
  "MaxUnwindDepth_cfg = 64"

definition MinPostponedSize :: u64 where
  "MinPostponedSize = 64"

abbreviation opt :: "string \<Rightarrow> cvalue \<Rightarrow> cvar" where
  "opt name v \<equiv> CVar name False False v"

abbreviation opts :: "string \<Rightarrow> cvar list \<Rightarrow> cvar" where
  "opts name fs \<equiv> CStruct name False False fs"

definition StacktraceTrackerConfig :: "cvar list" where
  "StacktraceTrackerConfig = [opt ''dump'' (VBool False), opt ''filename'' (VOptString None)]"

definition TextWriterIndexConfig :: "cvar list" where
  "TextWriterIndexConfig = [opt ''enabled'' (VBool True), opt ''by_size_count'' (VSize 10), opt ''by_total_count'' (VSize 10)]"

definition DefaultTextWriterInternalConfig :: "cvar list" where
  "DefaultTextWriterInternalConfig =
     [opt ''enabled'' (VBool False), opt ''by_size_count'' (VSize 10), opt ''by_total_count'' (VSize 10)]"

definition TextWriterConfig :: "cvar list" where
  "TextWriterConfig =
     [opt ''enabled'' (VBool False), opt ''filename'' (VOptString None), opts ''ext'' TextWriterIndexConfig,
      opts ''int'' DefaultTextWriterInternalConfig]"

definition ProtobufWriterConfig :: "cvar list" where
  "ProtobufWriterConfig = [opt ''enabled'' (VBool True), opt ''filename'' (VOptString None)]"

definition HeaptrackWriterConfig :: "cvar list" where
  "HeaptrackWriterConfig = [opt ''enabled'' (VBool False), opt ''filename'' (VOptString None)]"

definition WritersConfig :: "cvar list" where
  "WritersConfig =
     [opts ''text_writer'' TextWriterConfig, opts ''proto_writer'' ProtobufWriterConfig,
      opts ''heaptrack_writer'' HeaptrackWriterConfig]"

definition MemHawkConfig :: "cvar list" where
  "MemHawkConfig =
     [opt ''tracking_worker'' (VBool True), opt ''max_postponed'' (VSize 512), opt ''dumping_period'' (VSize 1000),
      opt ''lru_size'' (VSize 256), opts ''int_tracker'' StacktraceTrackerConfig, opts ''ext_tracker'' StacktraceTrackerConfig,
      opts ''writers'' WritersConfig, opt ''collapse_depth'' (VSize 8)]"

definition LoggingConfig :: "cvar list" where
  "LoggingConfig = [opt ''main_log'' (VBool True), opt ''log_level'' (VLevel 2), opt ''log_dir'' (VString ''./'')]"

definition UnwindConfig :: "cvar list" where
  "UnwindConfig = [opt ''absl'' (VBool False), opt ''track_depth'' (VSize 32)]"

definition MainConfig :: "cvar list" where
  "MainConfig =
     [opt ''progname_regex'' (VString []), opts ''memhawk'' MemHawkConfig, opts ''logging'' LoggingConfig,
      opts ''unwind'' UnwindConfig, opt ''help'' (VBool False)]"

lemmas config_defs = MainConfig_def MemHawkConfig_def LoggingConfig_def UnwindConfig_def WritersConfig_def TextWriterConfig_def
  TextWriterIndexConfig_def DefaultTextWriterInternalConfig_def ProtobufWriterConfig_def HeaptrackWriterConfig_def
  StacktraceTrackerConfig_def

text \<open>Reading a number or a flag of the configuration, and overwriting a number; \<open>mark\<close> sets the flag of the variable.\<close>

definition size_at :: "string list \<Rightarrow> cvar list \<Rightarrow> u64" where
  "size_at p cfg = (case var_at p cfg of Some (VSize n) \<Rightarrow> n | _ \<Rightarrow> 0)"

definition flag_at :: "string list \<Rightarrow> cvar list \<Rightarrow> bool" where
  "flag_at p cfg = (case var_at p cfg of Some (VBool b) \<Rightarrow> b | _ \<Rightarrow> False)"

fun store_at :: "bool \<Rightarrow> string list \<Rightarrow> cvalue \<Rightarrow> cvar list \<Rightarrow> cvar list" where
  "store_at mark p v [] = []"
| "store_at mark [] v (f # fs) = f # fs"
| "store_at mark (n # p) v (CVar m r isSet w # fs) =
     (if m = n then CVar m r (isSet \<or> mark) v # fs else CVar m r isSet w # store_at mark (n # p) v fs)"
| "store_at mark (n # p) v (CStruct m r isSet gs # fs) =
     (if m = n then CStruct m r isSet (store_at mark p v gs) # fs else CStruct m r isSet gs # store_at mark (n # p) v fs)"

abbreviation track_depth :: "string list" where
  "track_depth \<equiv> [''unwind'', ''track_depth'']"

abbreviation max_postponed :: "string list" where
  "max_postponed \<equiv> [''memhawk'', ''max_postponed'']"

datatype cfg_message = DepthAbove u64 | DepthBelow u64 | PostponedBelow u64

definition ValidateConfig :: "cvar list \<Rightarrow> cvar list \<times> bool \<times> cfg_message list" where
  "ValidateConfig cfg =
     (let (cfg, valid, out) =
            (if size_at track_depth cfg > MaxUnwindDepth_cfg
             then (store_at True track_depth (VSize MaxUnwindDepth_cfg) cfg, False, [DepthAbove MaxUnwindDepth_cfg])
             else (cfg, True, []));
          (cfg, valid, out) =
            (if size_at track_depth cfg < MinUnwindDepth
             then (store_at True track_depth (VSize MinUnwindDepth) cfg, False, out @ [DepthBelow MinUnwindDepth])
             else (cfg, valid, out))
      in if size_at max_postponed cfg < MinPostponedSize
         then (store_at False max_postponed (VSize MinPostponedSize) cfg, False, out @ [PostponedBelow MinPostponedSize])
         else (cfg, valid, out))"

datatype config_result =
    Returned "cvar list"
  | ExitError "ParseError list"
  | ExitInvalid "cfg_message list"
  | ExitHelp "(string \<times> cvalue) list"

definition ParseConfig :: "(string \<Rightarrow> string list) \<Rightarrow> string option \<Rightarrow> config_result" where
  "ParseConfig split env =
     (case env of
        None \<Rightarrow> Returned MainConfig
      | Some str \<Rightarrow>
          (let (cfg, ok, errs) = ParseStruct split str MainConfig
           in if \<not> ok then ExitError errs
              else let (cfg, valid, out) = ValidateConfig cfg
                   in if \<not> valid then ExitInvalid out
                      else if flag_at [''help''] cfg then ExitHelp (DescribeStruct MainConfig [])
                      else Returned cfg))"

section \<open>The defaults\<close>

lemma MainConfig_names: "names_ok MainConfig"
  by (simp add: config_defs plain_name_def)

fun none_required :: "cvar list \<Rightarrow> bool" where
  "none_required [] = True"
| "none_required (CVar n r isSet v # fs) = (\<not> r \<and> none_required fs)"
| "none_required (CStruct n r isSet gs # fs) = (none_required gs \<and> none_required fs)"

lemma none_required_valid: "none_required fs \<Longrightarrow> ValidateStruct fs kp = []"
  by (induction fs kp rule: ValidateStruct.induct) auto

lemma none_required_skeleton: "none_required (map skeleton fs) = none_required fs"
  by (induction fs rule: none_required.induct) auto

lemma ParseStruct_valid:
  assumes "none_required fs" "parse_elems (split str) fs = (fs', valid, errs)"
  shows "ParseStruct split str fs = (fs', valid, errs)"
proof -
  have "map skeleton fs' = map skeleton fs" using parse_elems_skeleton [of "split str" fs] assms(2) by simp
  then have "none_required fs'" using none_required_skeleton [of fs] none_required_skeleton [of fs'] assms(1) by simp
  then show ?thesis using assms(2) by (simp add: ParseStruct_def none_required_valid)
qed

lemma MainConfig_optional: "none_required MainConfig"
  by (simp add: config_defs)

section \<open>Options\<close>

lemma options_parse:
  assumes "split_ok split" "as \<noteq> []"
    and "\<forall>a \<in> set as. CHR '':'' \<notin> set (snd a) \<and> (\<exists>v. var_at (fst a) MainConfig = Some v \<and> ParseValue (snd a) v \<noteq> None)"
  shows "\<exists>cfg. ParseStruct split (join_by CHR '':'' (map assignment as)) MainConfig = (cfg, True, []) \<and>
    (\<forall>q v. var_at q MainConfig = Some v \<longrightarrow>
      var_at q cfg = (case map_of (rev as) q of None \<Rightarrow> Some v | Some s \<Rightarrow> ParseValue s v))"
proof -
  have "CHR '':'' \<notin> set x \<and> x \<noteq> []" if x: "x \<in> set (map assignment as)" for x
  proof -
    obtain a where a: "a \<in> set as" "x = assignment a" using x by auto
    then obtain v where "var_at (fst a) MainConfig = Some v" using assms(3) by blast
    from var_at_names(2) [OF MainConfig_names this] have "CHR '':'' \<notin> set (join_by CHR ''.'' (fst a))" using join_by_plain by blast
    then show ?thesis using a assms(3) by (simp add: assignment_def)
  qed
  then have split: "split (join_by CHR '':'' (map assignment as)) = map assignment as"
    using assms(1,2) by (intro split_join) simp_all
  obtain cfg where cfg: "parse_elems (map assignment as) MainConfig = (cfg, True, [])"
    "\<forall>q v. var_at q MainConfig = Some v \<longrightarrow>
      var_at q cfg = (case map_of (rev as) q of None \<Rightarrow> Some v | Some s \<Rightarrow> ParseValue s v)"
    using parse_assignments [OF MainConfig_names, of as] assms(3) by blast
  have "parse_elems (split (join_by CHR '':'' (map assignment as))) MainConfig = (cfg, True, [])" using cfg(1) split by simp
  from ParseStruct_valid [of MainConfig split, OF MainConfig_optional this] show ?thesis using cfg(2) by blast
qed

section \<open>Properties\<close>

text \<open>
  C33. Options take effect. For any list of assignments of readable values to variables of the
  configuration, written as \<open>key=value\<close> with dots in the keys and colons between the options, parsing
  succeeds without any error; every variable then has the value of its last assignment, and those that
  are not assigned have their defaults.
\<close>

theorem options_take_effect:
  assumes "split_ok split" "as \<noteq> []"
    and "\<forall>a \<in> set as. CHR '':'' \<notin> set (snd a) \<and> (\<exists>v. var_at (fst a) MainConfig = Some v \<and> ParseValue (snd a) v \<noteq> None)"
  shows "\<exists>cfg. ParseStruct split (join_by CHR '':'' (map assignment as)) MainConfig = (cfg, True, []) \<and>
    (\<forall>q v. var_at q MainConfig = Some v \<longrightarrow>
      var_at q cfg = (case map_of (rev as) q of None \<Rightarrow> Some v | Some s \<Rightarrow> ParseValue s v))"
  using options_parse [OF assms] .

theorem options_take_effect_witness:
  "\<exists>cfg. ParseStruct (split_at CHR '':'') (join_by CHR '':'' (map assignment
        [([''logging'', ''log_dir''], ''/tmp''), ([''unwind'', ''track_depth''], ''16''), ([''unwind'', ''track_depth''], ''8'')])) MainConfig =
      (cfg, True, []) \<and>
    var_at [''unwind'', ''track_depth''] cfg = Some (VSize 8) \<and> var_at [''logging'', ''log_dir''] cfg = Some (VString ''/tmp'') \<and>
    var_at [''memhawk'', ''lru_size''] cfg = Some (VSize 256)"
proof -
  let ?as = "[([''logging'', ''log_dir''], ''/tmp''), ([''unwind'', ''track_depth''], ''16''), ([''unwind'', ''track_depth''], ''8'')]"
  have n: "parse_integral False 0 (2 ^ 64 - 1) ''16'' = Some 16" "parse_integral False 0 (2 ^ 64 - 1) ''8'' = Some 8"
    by (simp_all add: parse_integral_def from_chars_def is_digit_def digits_value_def)
  have v: "var_at [''logging'', ''log_dir''] MainConfig = Some (VString ''./'')" "var_at [''unwind'', ''track_depth''] MainConfig = Some (VSize 32)"
    "var_at [''memhawk'', ''lru_size''] MainConfig = Some (VSize 256)" by (simp_all add: config_defs)
  have "\<forall>a \<in> set ?as. CHR '':'' \<notin> set (snd a) \<and> (\<exists>v. var_at (fst a) MainConfig = Some v \<and> ParseValue (snd a) v \<noteq> None)"
    using n v by simp
  from options_take_effect [OF split_at_ok _ this] obtain cfg where
    "ParseStruct (split_at CHR '':'') (join_by CHR '':'' (map assignment ?as)) MainConfig = (cfg, True, [])"
    "\<And>q v. var_at q MainConfig = Some v \<Longrightarrow>
      var_at q cfg = (case map_of (rev ?as) q of None \<Rightarrow> Some v | Some s \<Rightarrow> ParseValue s v)" by auto
  then show ?thesis using v n by (intro exI [of _ cfg]) simp
qed

lemma ParseConfig_returned:
  assumes "ParseConfig split (Some str) = Returned cfg"
  shows "ParseStruct split str MainConfig = (cfg, True, snd (snd (ParseStruct split str MainConfig)))"
    "MinUnwindDepth \<le> size_at track_depth cfg" "size_at track_depth cfg \<le> MaxUnwindDepth_cfg"
    "MinPostponedSize \<le> size_at max_postponed cfg" "\<not> flag_at [''help''] cfg"
proof -
  obtain c ok errs where p: "ParseStruct split str MainConfig = (c, ok, errs)" by (metis prod_cases3)
  obtain c' valid out where v: "ValidateConfig c = (c', valid, out)" by (metis prod_cases3)
  have r: "ok" "valid" "c' = cfg" "\<not> flag_at [''help''] cfg"
    using assms p v by (auto simp: ParseConfig_def split: if_splits)
  have c: "c' = c" "\<not> size_at track_depth c > MaxUnwindDepth_cfg" "\<not> size_at track_depth c < MinUnwindDepth" "\<not> size_at max_postponed c < MinPostponedSize"
    using v r(2) by (auto simp: ValidateConfig_def Let_def split: if_splits)
  show "ParseStruct split str MainConfig = (cfg, True, snd (snd (ParseStruct split str MainConfig)))" using p r c by simp
  show "MinUnwindDepth \<le> size_at track_depth cfg" "size_at track_depth cfg \<le> MaxUnwindDepth_cfg"
    "MinPostponedSize \<le> size_at max_postponed cfg" "\<not> flag_at [''help''] cfg" using r c by simp_all
qed

text \<open>
  C34. What is accepted. If the profiler starts with the options of the environment variable, then every
  option was an assignment of a readable value to a variable of the configuration (nothing is ignored
  silently), the configuration has the unwind depth between 3 and 64 and room for at least 64 postponed
  operations, and help was not asked for.
\<close>

theorem ParseConfig_accepts:
  assumes "ParseConfig split (Some str) = Returned cfg"
  shows "(\<forall>e \<in> set (split str). \<exists>p s v. e = assignment (p, s) \<and> var_at p MainConfig = Some v \<and> ParseValue s v \<noteq> None) \<and>
    3 \<le> unat (size_at track_depth cfg) \<and> unat (size_at track_depth cfg) \<le> 64 \<and> 64 \<le> unat (size_at max_postponed cfg) \<and>
    \<not> flag_at [''help''] cfg"
proof -
  note R = ParseConfig_returned [OF assms]
  obtain c valid errs where p: "parse_elems (split str) MainConfig = (c, valid, errs)" by (metis prod_cases3)
  have "valid" using ParseStruct_valid [of MainConfig split str, OF MainConfig_optional p] R(1) by simp
  then have p': "parse_elems (split str) MainConfig = (c, True, errs)" using p by simp
  have "\<exists>p s v. e = assignment (p, s) \<and> var_at p MainConfig = Some v \<and> ParseValue s v \<noteq> None" if "e \<in> set (split str)" for e
    using parse_elems_accepts [OF MainConfig_names refl p' that] .
  moreover have "3 \<le> unat (size_at track_depth cfg)" "unat (size_at track_depth cfg) \<le> 64" "64 \<le> unat (size_at max_postponed cfg)"
    using R(2-4) by (simp_all add: word_le_nat_alt MinUnwindDepth_def MaxUnwindDepth_cfg_def MinPostponedSize_def)
  ultimately show ?thesis using R(5) by blast
qed

theorem ParseConfig_accepts_witness:
  "\<exists>cfg. ParseConfig (split_at CHR '':'') (Some ''unwind.track_depth=8'') = Returned cfg \<and>
    unat (size_at track_depth cfg) \<le> 64 \<and> 64 \<le> unat (size_at max_postponed cfg)"
proof -
  have n: "parse_integral False 0 (2 ^ 64 - 1) ''8'' = Some 8"
    by (simp add: parse_integral_def from_chars_def is_digit_def digits_value_def)
  have v: "var_at [''unwind'', ''track_depth''] MainConfig = Some (VSize 32)" by (simp add: config_defs)
  obtain cfg where c: "parse_elems [''unwind.track_depth=8''] MainConfig = (cfg, True, [])"
    "\<And>q v. var_at q MainConfig = Some v \<Longrightarrow>
      var_at q cfg = (case map_of [([''unwind'', ''track_depth''], ''8'')] q of None \<Rightarrow> Some v | Some s \<Rightarrow> ParseValue s v)"
    using parse_assignments [OF MainConfig_names, of "[([''unwind'', ''track_depth''], ''8'')]"] v n by (auto simp: assignment_def)
  have at: "size_at track_depth cfg = 8" "size_at max_postponed cfg = 512" "flag_at [''help''] cfg = False"
    using c(2) [OF v] c(2) [of max_postponed "VSize 512"] c(2) [of "[''help'']" "VBool False"] n
    by (simp_all add: size_at_def flag_at_def config_defs)
  have "split_at CHR '':'' ''unwind.track_depth=8'' = [''unwind.track_depth=8'']" by simp
  then have "ParseStruct (split_at CHR '':'') ''unwind.track_depth=8'' MainConfig = (cfg, True, [])"
    using ParseStruct_valid [OF MainConfig_optional, of "split_at CHR '':''" "''unwind.track_depth=8''"] c(1) by simp
  then have "ParseConfig (split_at CHR '':'') (Some ''unwind.track_depth=8'') = Returned cfg"
    using at by (simp add: ParseConfig_def ValidateConfig_def MaxUnwindDepth_cfg_def MinUnwindDepth_def MinPostponedSize_def)
  then show ?thesis using ParseConfig_accepts [of "split_at CHR '':''" "''unwind.track_depth=8''" cfg] by blast
qed

end
