(* ===== verification/Logging.thy ===== *)
theory Logging
  imports Config
begin

text \<open>
  The log of the profiler (\<open>src/source/memhawk/src/impl/logging.cpp\<close>, \<open>logging.h\<close>, \<open>logging_level.h\<close>) and the
  names of the files it writes.

  Of the system the model has what the sources use: files with their contents, and descriptors that stand
  for a file and a position in it. \<open>refuses\<close> says for which names \<open>open\<close> fails; writing to a descriptor that
  is not open has no effect, as the sources ignore the result. \<open>fsync\<close> does not change what a later read
  finds and is left out. The texts are the ones after formatting.
\<close>

section \<open>Files and descriptors\<close>

record system =
  sy_files :: "(string \<times> string) list"
  sy_fds :: "(nat \<times> (string \<times> nat)) list"

definition file_content :: "system \<Rightarrow> string \<Rightarrow> string" where
  "file_content y name = (case map_of (sy_files y) name of None \<Rightarrow> [] | Some s \<Rightarrow> s)"

definition overwrite :: "nat \<Rightarrow> string \<Rightarrow> string \<Rightarrow> string" where
  "overwrite pos s old = take pos old @ s @ drop (pos + length s) old"

text \<open>The lowest number that is not in use.\<close>

definition free_fd :: "system \<Rightarrow> nat" where
  "free_fd y = hd (filter (\<lambda>n. n \<notin> fst ` set (sy_fds y)) [0 ..< Suc (length (sy_fds y))])"

text \<open>\<open>open\<close> with \<open>O_WRONLY | O_CREAT\<close>: an existing file is kept as it is, the position is its start.\<close>

definition sys_open :: "(string \<Rightarrow> bool) \<Rightarrow> string \<Rightarrow> system \<Rightarrow> system \<times> int" where
  "sys_open refuses name y =
     (if refuses name then (y, - 1)
      else (y\<lparr>sy_files := map_insert name [] (sy_files y), sy_fds := (free_fd y, (name, 0)) # sy_fds y\<rparr>, int (free_fd y)))"

definition sys_write :: "int \<Rightarrow> string \<Rightarrow> system \<Rightarrow> system" where
  "sys_write fd s y =
     (case (if fd < 0 then None else map_of (sy_fds y) (nat fd)) of
        None \<Rightarrow> y
      | Some (name, pos) \<Rightarrow>
          y\<lparr>sy_files := map_modify name (overwrite pos s) (sy_files y),
            sy_fds := map_modify (nat fd) (\<lambda>_. (name, pos + length s)) (sy_fds y)\<rparr>)"

definition sys_close :: "int \<Rightarrow> system \<Rightarrow> system" where
  "sys_close fd y = y\<lparr>sy_fds := filter (\<lambda>e. int (fst e) \<noteq> fd) (sy_fds y)\<rparr>"

text \<open>
  A \<open>std::ofstream\<close> that is opened for writing: the file is created or emptied and gets a descriptor; when \<open>open\<close>
  fails there is none, and the sources do not look. What is written through a stream is kept by its writer.
\<close>

definition ofstream_open :: "(string \<Rightarrow> bool) \<Rightarrow> string \<Rightarrow> system \<Rightarrow> system" where
  "ofstream_open refuses name y =
     (if refuses name then y
      else y\<lparr>sy_files := map_modify name (\<lambda>_. []) (map_insert name [] (sy_files y)), sy_fds := (free_fd y, (name, 0)) # sy_fds y\<rparr>)"

section \<open>The model\<close>

datatype LogLevel = Trace | Debug | Info | Warning | Error | Off

fun level_value :: "LogLevel \<Rightarrow> u8" where
  "level_value Trace = 0"
| "level_value Debug = 1"
| "level_value Info = 2"
| "level_value Warning = 3"
| "level_value Error = 4"
| "level_value Off = 5"

text \<open>The name of a level, for the options and for the lines of the log.\<close>

fun DescribeLevel :: "u8 \<Rightarrow> string" where
  "DescribeLevel l =
     (if l = 0 then ''Trace'' else if l = 1 then ''Debug'' else if l = 2 then ''Info'' else if l = 3 then ''Warning''
      else if l = 4 then ''Error'' else if l = 5 then ''Off'' else ''Unknown'')"

definition string_at :: "string list \<Rightarrow> cvar list \<Rightarrow> string" where
  "string_at p cfg = (case var_at p cfg of Some (VString s) \<Rightarrow> s | _ \<Rightarrow> [])"

definition level_at :: "string list \<Rightarrow> cvar list \<Rightarrow> u8" where
  "level_at p cfg = (case var_at p cfg of Some (VLevel l) \<Rightarrow> l | _ \<Rightarrow> 0)"

abbreviation STDERR_FILENO :: int where
  "STDERR_FILENO \<equiv> 2"

record log_state =
  gl_logFile :: int
  gl_loggingConfig :: "cvar list"
  gl_loggingLevel :: u8
  lg_system :: system

definition log_start :: "system \<Rightarrow> log_state" where
  "log_start y = \<lparr>gl_logFile = STDERR_FILENO, gl_loggingConfig = LoggingConfig, gl_loggingLevel = level_value Info, lg_system = y\<rparr>"

text \<open>What the names are made of besides the configuration: the name of the program and the number of the process.\<close>

record identity =
  program_invocation_short_name :: string
  getpid :: nat

definition GetProcessLogName :: "identity \<Rightarrow> string \<Rightarrow> string \<Rightarrow> log_state \<Rightarrow> string" where
  "GetProcessLogName I sfx fileext g =
     string_at [''log_dir''] (gl_loggingConfig g) @ ''/memhawk_'' @ program_invocation_short_name I @ ''_'' @ show_nat (getpid I) @ ''_'' @
     sfx @ ''.'' @ fileext"

definition LogPrint :: "string \<Rightarrow> log_state \<Rightarrow> log_state" where
  "LogPrint s g = g\<lparr>lg_system := sys_write (gl_logFile g) s (lg_system g)\<rparr>"

text \<open>\<open>LogInit\<close>: \<open>Inl\<close> when the process exits, with the state it leaves. \<open>reason\<close> is the text of the error of \<open>open\<close>.\<close>

definition LogInit ::
  "(string \<Rightarrow> bool) \<Rightarrow> string \<Rightarrow> identity \<Rightarrow> cvar list \<Rightarrow> log_state \<Rightarrow> log_state + log_state" where
  "LogInit refuses reason I cfg g =
     (let g = g\<lparr>gl_loggingConfig := cfg\<rparr>;
          g = g\<lparr>gl_loggingLevel := level_at [''log_level''] (gl_loggingConfig g)\<rparr>
      in if flag_at [''main_log''] (gl_loggingConfig g)
         then let filename = GetProcessLogName I ''main_log'' ''log'' g;
                  (y, fd) = sys_open refuses filename (lg_system g);
                  g = g\<lparr>lg_system := y, gl_logFile := fd\<rparr>
              in if gl_logFile g < 0
                 then let g = g\<lparr>gl_logFile := STDERR_FILENO\<rparr>
                      in Inl (LogPrint (''Failed to initialise logging: '' @ filename @ '', error: '' @ reason @ [CHR 0x0A]) g)
                 else Inr g
         else Inr (g\<lparr>gl_logFile := STDERR_FILENO\<rparr>))"

definition LogDeinit :: "log_state \<Rightarrow> log_state" where
  "LogDeinit g =
     (let g = (if flag_at [''main_log''] (gl_loggingConfig g) then g\<lparr>lg_system := sys_close (gl_logFile g) (lg_system g)\<rparr> else g)
      in g\<lparr>gl_logFile := STDERR_FILENO\<rparr>)"

text \<open>A line of the log: its level, the name of the function that logs, and the message.\<close>

record log_line =
  ll_level :: LogLevel
  ll_func :: string
  ll_message :: string

definition line_text :: "log_line \<Rightarrow> string" where
  "line_text l = ''['' @ DescribeLevel (level_value (ll_level l)) @ '']:'' @ ll_func l @ '' :: '' @ ll_message l @ [CHR 0x0A]"

definition LogEx :: "log_line \<Rightarrow> log_state \<Rightarrow> log_state" where
  "LogEx l g = (if level_value (ll_level l) \<ge> gl_loggingLevel g then LogPrint (line_text l) g else g)"

section \<open>Writing to a descriptor\<close>

lemma free_fd_fresh: "free_fd y \<notin> fst ` set (sy_fds y)"
proof -
  let ?used = "fst ` set (sy_fds y)" and ?ns = "[0 ..< Suc (length (sy_fds y))]"
  have "card ?used \<le> length (sy_fds y)" by (metis card_image_le card_length finite_set le_trans)
  then have "card ?used < card (set ?ns)" by simp
  then have "\<not> set ?ns \<subseteq> ?used" using card_mono [of ?used "set ?ns"] by auto
  then have "filter (\<lambda>n. n \<notin> ?used) ?ns \<noteq> []" by (auto simp: filter_empty_conv simp del: upt_Suc)
  then have "free_fd y \<in> set (filter (\<lambda>n. n \<notin> ?used) ?ns)" unfolding free_fd_def by (rule hd_in_set)
  then show ?thesis by (simp del: upt_Suc)
qed

lemma overwrite_next: "overwrite (length t) s (t @ drop (length t) old) = (t @ s) @ drop (length (t @ s)) old"
  by (simp add: overwrite_def add.commute)

lemma content_map_insert: "file_content (y\<lparr>sy_files := map_insert n [] (sy_files y), sy_fds := d\<rparr>) = file_content y"
  by (intro ext) (auto simp: file_content_def map_of_map_insert split: option.split)

text \<open>
  The state of a log that goes to the file \<open>name\<close>: the descriptor \<open>fd\<close> stands behind the text \<open>t\<close> that was
  written, which has replaced the beginning of what the file held; everything else is as in \<open>y\<close>.
\<close>

definition log_at :: "system \<Rightarrow> nat \<Rightarrow> string \<Rightarrow> string \<Rightarrow> system \<Rightarrow> bool" where
  "log_at y fd name t z \<longleftrightarrow>
     sy_fds z = (fd, (name, length t)) # sy_fds y \<and> fd \<notin> fst ` set (sy_fds y) \<and> map_of (sy_files z) name \<noteq> None \<and>
     file_content z name = t @ drop (length t) (file_content y name) \<and> (\<forall>n. n \<noteq> name \<longrightarrow> file_content z n = file_content y n)"

lemma log_at_open:
  assumes "\<not> refuses name"
  shows "log_at y (free_fd y) name [] (fst (sys_open refuses name y))"
  using assms by (auto simp: log_at_def sys_open_def free_fd_fresh content_map_insert map_of_map_insert)

lemma map_modify_absent: "k \<notin> fst ` set m \<Longrightarrow> map_modify k f m = m"
  by (induction m) (auto simp: map_modify_def)

lemma log_at_write:
  assumes "log_at y fd name t z"
  shows "log_at y fd name (t @ s) (sys_write (int fd) s z)"
proof -
  let ?files = "map_modify name (overwrite (length t) s) (sy_files z)"
  have z: "sy_fds z = (fd, (name, length t)) # sy_fds y" "fd \<notin> fst ` set (sy_fds y)" "file_content z name = t @ drop (length t) (file_content y name)"
    using assms by (simp_all add: log_at_def)
  obtain old where old: "map_of (sy_files z) name = Some old" using assms by (auto simp: log_at_def)
  then have "overwrite (length t) s old = (t @ s) @ drop (length (t @ s)) (file_content y name)"
    using z(3) overwrite_next [of t s "file_content y name"] by (simp add: file_content_def)
  moreover have "sys_write (int fd) s z = z\<lparr>sy_files := ?files, sy_fds := (fd, (name, length (t @ s))) # sy_fds y\<rparr>"
    using z(1) map_modify_absent [OF z(2), of "\<lambda>_. (name, length t + length s)"] by (simp add: sys_write_def map_modify_def)
  ultimately show ?thesis
    using assms old by (auto simp: log_at_def file_content_def map_of_map_modify)
qed

lemma log_at_close: "log_at y fd name t z \<Longrightarrow> sy_fds (sys_close (int fd) z) = sy_fds y"
  by (force simp: log_at_def sys_close_def filter_id_conv)

lemma content_close [simp]: "file_content (sys_close fd z) = file_content z"
  by (intro ext) (simp add: file_content_def sys_close_def)

lemma LogPrint_sel [simp]:
  "gl_logFile (LogPrint s g) = gl_logFile g" "gl_loggingConfig (LogPrint s g) = gl_loggingConfig g" "gl_loggingLevel (LogPrint s g) = gl_loggingLevel g"
  by (simp_all add: LogPrint_def)

definition logged :: "u8 \<Rightarrow> log_line list \<Rightarrow> string" where
  "logged level ls = concat (map line_text (filter (\<lambda>l. level_value (ll_level l) \<ge> level) ls))"

lemma LogEx_sel [simp]:
  "gl_logFile (LogEx l g) = gl_logFile g" "gl_loggingConfig (LogEx l g) = gl_loggingConfig g" "gl_loggingLevel (LogEx l g) = gl_loggingLevel g"
  by (simp_all add: LogEx_def)

lemma fold_LogEx:
  assumes "gl_logFile g = int fd" "log_at y fd name t (lg_system g)"
  shows "log_at y fd name (t @ logged (gl_loggingLevel g) ls) (lg_system (fold LogEx ls g)) \<and> gl_logFile (fold LogEx ls g) = int fd \<and>
    gl_loggingConfig (fold LogEx ls g) = gl_loggingConfig g"
  using assms
proof (induction ls arbitrary: g t)
  case Nil
  then show ?case by (simp add: logged_def)
next
  case (Cons l ls)
  let ?s = "if level_value (ll_level l) \<ge> gl_loggingLevel g then line_text l else []"
  have "log_at y fd name (t @ ?s) (lg_system (LogEx l g))"
    using log_at_write [OF Cons.prems(2), of "line_text l"] Cons.prems by (simp add: LogEx_def LogPrint_def)
  from Cons.IH [OF _ this] Cons.prems(1)
  have "log_at y fd name ((t @ ?s) @ logged (gl_loggingLevel g) ls) (lg_system (fold LogEx ls (LogEx l g))) \<and>
      gl_logFile (fold LogEx ls (LogEx l g)) = int fd \<and> gl_loggingConfig (fold LogEx ls (LogEx l g)) = gl_loggingConfig g" by simp
  moreover have "logged (gl_loggingLevel g) (l # ls) = ?s @ logged (gl_loggingLevel g) ls" by (simp add: logged_def)
  ultimately show ?case by simp
qed

lemma LogInit_file:
  assumes "LogInit refuses reason I cfg g0 = Inr g" "flag_at [''main_log''] cfg"
  shows "\<exists>fd. gl_logFile g = int fd \<and> log_at (lg_system g0) fd (GetProcessLogName I ''main_log'' ''log'' g) [] (lg_system g)"
    "gl_loggingConfig g = cfg" "gl_loggingLevel g = level_at [''log_level''] cfg"
proof -
  let ?g = "g0\<lparr>gl_loggingConfig := cfg, gl_loggingLevel := level_at [''log_level''] cfg\<rparr>"
  let ?n = "GetProcessLogName I ''main_log'' ''log'' ?g"
  have r: "\<not> refuses ?n" "g = ?g\<lparr>lg_system := fst (sys_open refuses ?n (lg_system g0)), gl_logFile := int (free_fd (lg_system g0))\<rparr>"
    using assms by (auto simp: LogInit_def Let_def sys_open_def split: if_splits)
  then have "?n = GetProcessLogName I ''main_log'' ''log'' g" by (simp add: GetProcessLogName_def)
  then show "\<exists>fd. gl_logFile g = int fd \<and> log_at (lg_system g0) fd (GetProcessLogName I ''main_log'' ''log'' g) [] (lg_system g)"
    using log_at_open [of refuses ?n, OF r(1), of "lg_system g0"] r(2) by (intro exI [of _ "free_fd (lg_system g0)"]) simp
  show "gl_loggingConfig g = cfg" "gl_loggingLevel g = level_at [''log_level''] cfg" using r(2) by simp_all
qed

section \<open>The names of the files\<close>

text \<open>The files of one process: the suffixes and extensions with which the sources ask for a name.\<close>

definition process_outputs :: "(string \<times> string) list" where
  "process_outputs =
     [(''main_log'', ''log''), (''protobuf'', ''binpb''), (''heaptrack'', ''txt''), (''summary'', ''log''), (''stacktraces'', ''log''),
      (''external_stacktraces'', ''log''), (''inner_stacktraces'', ''log'')]"

lemma rev_show_nat: obtains c cs where "rev (show_nat n) = c # cs" "is_digit c"
proof -
  obtain c cs where r: "rev (show_nat n) = c # cs" by (cases "rev (show_nat n)") simp_all
  then have "c \<in> set (show_nat n)" using set_rev [of "show_nat n"] by simp
  then show thesis using that r show_nat_digits by blast
qed

lemma output_tail_unique:
  assumes "(s, e) \<in> set process_outputs" "(s', e') \<in> set process_outputs" "is_digit c" "is_digit c'"
    and "rev (''_'' @ s @ ''.'' @ e) @ c # r = rev (''_'' @ s' @ ''.'' @ e') @ c' # r'"
  shows "s = s' \<and> e = e'"
proof -
  have "c \<noteq> CHR ''r''" "c \<noteq> CHR ''l''" "c' \<noteq> CHR ''r''" "c' \<noteq> CHR ''l''" using assms(3,4) by (auto simp: is_digit_def)
  then show ?thesis using assms(1,2,5) unfolding process_outputs_def set_simps insert_iff empty_iff prod.inject by (elim disjE conjE) simp_all
qed

lemma name_tail_unique:
  assumes "x @ ''_'' @ show_nat m @ ''_'' @ s @ ''.'' @ e = x' @ ''_'' @ show_nat n @ ''_'' @ s' @ ''.'' @ e'"
    and "(s, e) \<in> set process_outputs" "(s', e') \<in> set process_outputs"
  shows "x @ ''_'' @ show_nat m = x' @ ''_'' @ show_nat n \<and> s = s' \<and> e = e'"
proof -
  obtain a as where a: "rev (show_nat m) = a # as" "is_digit a" by (rule rev_show_nat)
  obtain b bs where b: "rev (show_nat n) = b # bs" "is_digit b" by (rule rev_show_nat)
  have "rev (''_'' @ s @ ''.'' @ e) @ rev (show_nat m) @ ''_'' @ rev x = rev (''_'' @ s' @ ''.'' @ e') @ rev (show_nat n) @ ''_'' @ rev x'"
    using arg_cong [OF assms(1), of rev] by simp
  then have "rev (''_'' @ s @ ''.'' @ e) @ a # as @ ''_'' @ rev x = rev (''_'' @ s' @ ''.'' @ e') @ b # bs @ ''_'' @ rev x'" using a(1) b(1) by simp
  from output_tail_unique [OF assms(2,3) a(2) b(2) this] have "s = s' \<and> e = e'" .
  then show ?thesis using assms(1) by simp
qed

lemma split_last:
  assumes "x @ c # d = x' @ c # d'" "c \<notin> set d" "c \<notin> set d'"
  shows "x = x' \<and> d = d'"
proof -
  have span: "takeWhile (\<lambda>u. u \<noteq> c) (l @ c # r) = l" if "c \<notin> set l" for l r using that by (subst takeWhile_append2) auto
  have "rev d @ c # rev x = rev d' @ c # rev x'" using arg_cong [OF assms(1), of rev] by simp
  then have "rev d = rev d'" using span [of "rev d" "rev x"] span [of "rev d'" "rev x'"] assms(2,3) by simp
  then show ?thesis using assms(1) by simp
qed

lemma show_nat_inject: "show_nat m = show_nat n \<Longrightarrow> m = n"
  by (metis digits_value_show)

section \<open>Properties\<close>

text \<open>
  C36. The main log. When logging has started with a file, then after any lines have been logged and logging
  has ended, the file holds the texts of exactly the lines with the configured level or above, in order;
  they have replaced as many characters of what the file held before. No other file has changed, and the
  descriptor is given back.
\<close>

theorem log_file_lines:
  assumes "LogInit refuses reason I cfg g0 = Inr g" "flag_at [''main_log''] cfg"
  shows "file_content (lg_system (LogDeinit (fold LogEx ls g))) n =
      (if n = GetProcessLogName I ''main_log'' ''log'' g
       then logged (level_at [''log_level''] cfg) ls @ drop (length (logged (level_at [''log_level''] cfg) ls)) (file_content (lg_system g0) n)
       else file_content (lg_system g0) n) \<and>
    sy_fds (lg_system (LogDeinit (fold LogEx ls g))) = sy_fds (lg_system g0)"
proof -
  note init = LogInit_file [OF assms]
  obtain fd where "gl_logFile g = int fd" "log_at (lg_system g0) fd (GetProcessLogName I ''main_log'' ''log'' g) [] (lg_system g)"
    using init(1) by blast
  from fold_LogEx [OF this, of ls]
  have z: "log_at (lg_system g0) fd (GetProcessLogName I ''main_log'' ''log'' g) (logged (level_at [''log_level''] cfg) ls) (lg_system (fold LogEx ls g))"
    "lg_system (LogDeinit (fold LogEx ls g)) = sys_close (int fd) (lg_system (fold LogEx ls g))"
    using init(2,3) assms(2) by (simp_all add: LogDeinit_def)
  then show ?thesis using log_at_close [OF z(1)] by (simp add: log_at_def)
qed

text \<open>A process with its three standard descriptors, and two lines of which one is below the level.\<close>

definition demo_identity :: identity where
  "demo_identity = \<lparr>program_invocation_short_name = ''prog'', getpid = 7\<rparr>"

definition demo_system :: system where
  "demo_system = \<lparr>sy_files = [(''tty'', [])], sy_fds = [(0, (''tty'', 0)), (1, (''tty'', 0)), (2, (''tty'', 0))]\<rparr>"

definition demo_lines :: "log_line list" where
  "demo_lines = [\<lparr>ll_level = Debug, ll_func = ''f'', ll_message = ''a''\<rparr>, \<lparr>ll_level = Info, ll_func = ''f'', ll_message = ''b''\<rparr>]"

lemma demo_config: "flag_at [''main_log''] LoggingConfig" "level_at [''log_level''] LoggingConfig = 2" "string_at [''log_dir''] LoggingConfig = ''./''"
  by (simp_all add: LoggingConfig_def flag_at_def level_at_def string_at_def)

lemma show_seven: "show_nat 7 = ''7''"
  by code_simp

lemma demo_LogInit:
  obtains g where "LogInit (\<lambda>_. False) [] demo_identity LoggingConfig (log_start demo_system) = Inr g"
    "GetProcessLogName demo_identity ''main_log'' ''log'' g = ''.//memhawk_prog_7_main_log.log''"
  using that
  by (simp add: LogInit_def Let_def sys_open_def demo_config GetProcessLogName_def demo_identity_def show_seven)

theorem log_file_lines_witness:
  "\<exists>g. LogInit (\<lambda>_. False) [] demo_identity LoggingConfig (log_start demo_system) = Inr g \<and>
     file_content (lg_system (LogDeinit (fold LogEx demo_lines g))) ''.//memhawk_prog_7_main_log.log'' = ''[Info]:f :: b'' @ [CHR 0x0A] \<and>
     file_content (lg_system (LogDeinit (fold LogEx demo_lines g))) ''tty'' = []"
proof -
  obtain g where g: "LogInit (\<lambda>_. False) [] demo_identity LoggingConfig (log_start demo_system) = Inr g"
    "GetProcessLogName demo_identity ''main_log'' ''log'' g = ''.//memhawk_prog_7_main_log.log''" by (rule demo_LogInit)
  have t: "logged 2 demo_lines = ''[Info]:f :: b'' @ [CHR 0x0A]" by (simp add: logged_def demo_lines_def line_text_def word_le_nat_alt)
  have y: "lg_system (log_start demo_system) = demo_system" "file_content demo_system n = []" for n
    by (simp_all add: log_start_def demo_system_def file_content_def)
  note f = log_file_lines [OF g(1) demo_config(1), of demo_lines, unfolded demo_config(2) t g(2) y]
  show ?thesis using g(1) f [of "''.//memhawk_prog_7_main_log.log''"] f [of "''tty''"] by simp
qed

text \<open>
  Files of their own. The names of two files agree only when they are the same output of the same
  program in the same process: with one log directory, no two outputs of a process and no two processes
  with different numbers write to the same file, whatever the programs are called.
\<close>

theorem process_files_distinct:
  assumes "(s, e) \<in> set process_outputs" "(s', e') \<in> set process_outputs"
    and "GetProcessLogName I s e g = GetProcessLogName J s' e' g"
  shows "program_invocation_short_name I = program_invocation_short_name J \<and> getpid I = getpid J \<and> s = s' \<and> e = e'"
proof -
  let ?p = "program_invocation_short_name"
  have "?p I @ ''_'' @ show_nat (getpid I) @ ''_'' @ s @ ''.'' @ e = ?p J @ ''_'' @ show_nat (getpid J) @ ''_'' @ s' @ ''.'' @ e'"
    using assms(3) by (simp add: GetProcessLogName_def)
  note tail = name_tail_unique [OF this assms(1,2)]
  have "CHR ''_'' \<notin> set (show_nat n)" for n using show_nat_digits [of n] by (auto simp: is_digit_def)
  then have "?p I = ?p J \<and> show_nat (getpid I) = show_nat (getpid J)" using tail split_last [of "?p I" "CHR ''_''" "show_nat (getpid I)" "?p J" "show_nat (getpid J)"] by simp
  then show ?thesis using tail show_nat_inject by blast
qed

theorem process_files_distinct_witness:
  "GetProcessLogName demo_identity ''main_log'' ''log'' (log_start demo_system) \<noteq>
     GetProcessLogName (demo_identity\<lparr>getpid := 8\<rparr>) ''main_log'' ''log'' (log_start demo_system) \<and>
   getpid demo_identity = 7 \<and> (''main_log'', ''log'') \<in> set process_outputs"
  using process_files_distinct [of "''main_log''" "''log''" "''main_log''" "''log''" demo_identity "log_start demo_system" "demo_identity\<lparr>getpid := 8\<rparr>"]
  by (auto simp: demo_identity_def process_outputs_def)

end
