(* ===== verification/Writer_Interface.thy ===== *)
theory Writer_Interface
  imports Mem_Hawk
begin

text \<open>
  The interface \<open>IWriterStrategy\<close> (\<open>src/source/memhawk/src/impl/writers/i_writer.h\<close>), through which the
  tracking worker hands its snapshots to the writers. A writer keeps \<open>books\<close>: per identifier the sum of
  what it was told. After a flush its output shows the books to a reader (\<open>view\<close>). The worker's calls are
  those that the model of MemHawk records; each comes with the surroundings \<open>'x\<close> that a flush consults
  (the clock, the finder, the loaded modules).
\<close>

fun run_calls ::
  "((u32 \<times> AllocSummary) list \<Rightarrow> AllocSummary \<Rightarrow> 's \<Rightarrow> 's) \<Rightarrow> ('s \<Rightarrow> 's) \<Rightarrow> ('x \<Rightarrow> 's \<Rightarrow> 's option) \<Rightarrow>
   (writer_call \<times> 'x) list \<Rightarrow> 's \<Rightarrow> 's option" where
  "run_calls account update flush [] s = Some s"
| "run_calls account update flush ((c, x) # cs) s =
     do { s \<leftarrow> (case c of AccountSnapshot m t \<Rightarrow> Some (account m t s) | UpdateModules \<Rightarrow> Some (update s) | FlushData \<Rightarrow> flush x s);
          run_calls account update flush cs s }"

text \<open>That a condition holds at every flush of a run.\<close>

fun flushes_ok ::
  "((u32 \<times> AllocSummary) list \<Rightarrow> AllocSummary \<Rightarrow> 's \<Rightarrow> 's) \<Rightarrow> ('s \<Rightarrow> 's) \<Rightarrow> ('x \<Rightarrow> 's \<Rightarrow> 's option) \<Rightarrow>
   ('x \<Rightarrow> 's \<Rightarrow> bool) \<Rightarrow> (writer_call \<times> 'x) list \<Rightarrow> 's \<Rightarrow> bool" where
  "flushes_ok account update flush room [] s = True"
| "flushes_ok account update flush room ((c, x) # cs) s =
     (case c of
        AccountSnapshot m t \<Rightarrow> flushes_ok account update flush room cs (account m t s)
      | UpdateModules \<Rightarrow> flushes_ok account update flush room cs (update s)
      | FlushData \<Rightarrow> room x s \<and> (case flush x s of None \<Rightarrow> True | Some s \<Rightarrow> flushes_ok account update flush room cs s))"

definition snapshots_distinct :: "writer_call list \<Rightarrow> bool" where
  "snapshots_distinct cs \<longleftrightarrow> (\<forall>c \<in> set cs. distinct (map fst (call_summaries c)))"

fun call_total :: "writer_call \<Rightarrow> AllocSummary" where
  "call_total (AccountSnapshot m t) = t"
| "call_total _ = 0"

text \<open>What a call adds to the sum of an identifier, or (\<open>None\<close>) to the total.\<close>

definition call_part :: "writer_call \<Rightarrow> u32 option \<Rightarrow> AllocSummary" where
  "call_part c k = (case k of None \<Rightarrow> call_total c | Some i \<Rightarrow> summary_at (call_summaries c) i)"

definition calls_sum :: "writer_call list \<Rightarrow> u32 option \<Rightarrow> AllocSummary" where
  "calls_sum cs k = sum_list (map (\<lambda>c. call_part c k) cs)"

lemma call_part_other [simp]: "call_part UpdateModules k = 0" "call_part FlushData k = 0"
  by (simp_all add: call_part_def summary_at_def split: option.split)

lemma keys_insert_set: "fst ` set (map_insert k v m) = insert k (fst ` set m)"
  by (force simp: map_insert_def map_of_eq_None_iff split: option.split dest: map_of_SomeD)

lemma keys_modify_set: "fst ` set (map_modify k f m) = fst ` set m"
  using keys_map_modify [of k f m] by (metis list.set_map)

text \<open>What a flush consults: the loaded modules, the clocks, the memory usage and the stack trace finder.\<close>

record dl_phdr =
  ph_load :: bool
  ph_vaddr :: u64
  ph_memsz :: u64

record dl_info =
  dl_name :: string
  dl_addr :: u64
  dl_phdrs :: "dl_phdr list"

record surroundings =
  sx_now :: u64
  sx_elapsed :: u64
  sx_maxrss :: u64
  sx_modules :: "dl_info list"
  sx_progname :: string
  sx_finder :: "u32 \<Rightarrow> Stacktrace option"

lemma snapshots_distinct_Cons [simp]:
  "snapshots_distinct (c # cs) \<longleftrightarrow> distinct (map fst (call_summaries c)) \<and> snapshots_distinct cs"
  by (simp add: snapshots_distinct_def)

locale writer =
  fixes account :: "(u32 \<times> AllocSummary) list \<Rightarrow> AllocSummary \<Rightarrow> 's \<Rightarrow> 's"
    and update :: "'s \<Rightarrow> 's"
    and flush :: "'x \<Rightarrow> 's \<Rightarrow> 's option"
    and invar :: "'s \<Rightarrow> bool"
    and books :: "'s \<Rightarrow> 'k \<Rightarrow> 'v :: comm_monoid_add"
    and part :: "writer_call \<Rightarrow> 'k \<Rightarrow> 'v"
    and view :: "'s \<Rightarrow> 'k \<Rightarrow> 'w"
    and show_books :: "'k \<Rightarrow> 'v \<Rightarrow> 'w"
    and room :: "'x \<Rightarrow> 's \<Rightarrow> bool"
  assumes part_zero: "part UpdateModules k = 0" "part FlushData k = 0"
    and account_invar: "invar s \<Longrightarrow> distinct (map fst m) \<Longrightarrow> invar (account m t s)"
    and account_books: "invar s \<Longrightarrow> distinct (map fst m) \<Longrightarrow> books (account m t s) k = books s k + part (AccountSnapshot m t) k"
    and update_keeps: "invar s \<Longrightarrow> invar (update s)" "books (update s) k = books s k"
    and flush_shows: "invar s \<Longrightarrow> room x s \<Longrightarrow>
      \<exists>s'. flush x s = Some s' \<and> invar s' \<and> (\<forall>k. books s' k = books s k \<and> view s' k = show_books k (books s k))"
begin

lemma run_shows:
  assumes "invar s" "snapshots_distinct (map fst cs)" "flushes_ok account update flush room cs s"
  shows "\<exists>s'. run_calls account update flush cs s = Some s' \<and> invar s' \<and>
    (\<forall>k. books s' k = books s k + (\<Sum>c \<leftarrow> map fst cs. part c k)) \<and>
    (cs \<noteq> [] \<and> fst (last cs) = FlushData \<longrightarrow> (\<forall>k. view s' k = show_books k (books s' k)))"
  using assms
proof (induction cs arbitrary: s)
  case (Cons cx cs)
  obtain c x where cx: "cx = (c, x)" by (cases cx)
  have step: "\<exists>s1. (case c of AccountSnapshot m t \<Rightarrow> Some (account m t s) | UpdateModules \<Rightarrow> Some (update s) | FlushData \<Rightarrow> flush x s) = Some s1 \<and>
      invar s1 \<and> (\<forall>k. books s1 k = books s k + part c k) \<and>
      flushes_ok account update flush room cs s1 \<and> (c = FlushData \<longrightarrow> (\<forall>k. view s1 k = show_books k (books s1 k)))"
  proof (cases c)
    case (AccountSnapshot m t)
    then show ?thesis using Cons.prems account_invar account_books by (simp add: cx)
  next
    case UpdateModules
    then show ?thesis using Cons.prems update_keeps by (simp add: cx part_zero)
  next
    case FlushData
    then have "room x s" using Cons.prems(3) by (simp add: cx)
    from flush_shows [OF Cons.prems(1) this] show ?thesis
      using FlushData Cons.prems by (auto simp: cx part_zero)
  qed
  then obtain s1 where s1: "(case c of AccountSnapshot m t \<Rightarrow> Some (account m t s) | UpdateModules \<Rightarrow> Some (update s) | FlushData \<Rightarrow> flush x s) = Some s1"
    "invar s1" "\<And>k. books s1 k = books s k + part c k"
    "flushes_ok account update flush room cs s1" "c = FlushData \<Longrightarrow> \<forall>k. view s1 k = show_books k (books s1 k)" by blast
  have "snapshots_distinct (map fst cs)" using Cons.prems(2) by simp
  from Cons.IH [OF s1(2) this s1(4)] obtain s' where s': "run_calls account update flush cs s1 = Some s'" "invar s'"
    "\<forall>k. books s' k = books s1 k + (\<Sum>c \<leftarrow> map fst cs. part c k)"
    "cs \<noteq> [] \<and> fst (last cs) = FlushData \<longrightarrow> (\<forall>k. view s' k = show_books k (books s' k))" by blast
  then show ?case
    using s1(1,3,5) by (intro exI [of _ s']) (cases "cs = []"; simp add: cx ac_simps)
qed simp

end

section \<open>The calls of the worker\<close>

text \<open>Only a round of the worker calls the writers, and the snapshots it hands out are maps.\<close>

lemma calls_frame:
  "writer_calls (set_tracker mh r tt) = writer_calls mh" "writer_calls (postpone opn info mh) = writer_calls mh"
  "writer_calls (ProcessPostponed mh) = writer_calls mh"
  by (simp_all add: set_tracker_def postpone_def Let_def ProcessPostponed_track split: tracker_ref.split)

lemma own_tracker_calls: "own_tracker t mh = Some (mh', r, tt) \<Longrightarrow> writer_calls mh' = writer_calls mh"
  by (auto simp: own_tracker_def RegisterThread_def Let_def bind_eq_Some_conv split: if_splits)

lemma ops_calls:
  "mh_TrackAlloc e t lvl ext info trace mh = Some (mh', info') \<Longrightarrow> writer_calls mh' = writer_calls mh"
  "mh_TrackRealloc e t lvl ext prev info trace mh = Some (mh', info') \<Longrightarrow> writer_calls mh' = writer_calls mh"
  "mh_TrackDealloc t lvl ext info mh = Some mh' \<Longrightarrow> writer_calls mh' = writer_calls mh"
  "ThreadExit t mh = Some mh' \<Longrightarrow> writer_calls mh' = writer_calls mh"
  by (auto simp: mh_TrackAlloc_def mh_TrackRealloc_def mh_TrackDealloc_def ThreadExit_def ReclaimTracker_def set_gtl_def Let_def
      PostponeAlloc_def PostponeDealloc_def calls_frame bind_eq_Some_conv dest!: own_tracker_calls split: if_splits option.splits)

lemma round_calls:
  assumes "books_ok mh" "snapshots_distinct (writer_calls mh)"
  shows "snapshots_distinct (writer_calls (TrackingWorker_round mh))"
    "last (writer_calls (TrackingWorker_round mh)) = FlushData" "writer_calls (TrackingWorker_round mh) \<noteq> []"
  using assms
  by (auto simp: TrackingWorker_round_def WorkerPrintData_def WorkerUpdateData_def Let_def Account_eq account_all_eq
      snapshots_distinct_def snapshot_call_def books_ok_def accounts_ok_def all_trackers_def client_trackers_def)

lemma mh_run_calls:
  assumes "mh_run e (MemHawk_new lru depth maxPostponed) ids log mh" "0 < unat lru" "unat depth < 2 ^ 32 - 1"
  shows "snapshots_distinct (writer_calls mh)"
  using assms(1)
proof (induction rule: mh_run.induct)
  case (worker ids log mh)
  have "mh_ok e mh" using mh_run_books(1) [OF worker.hyps assms(2,3)] .
  then show ?case using round_calls(1) worker.IH by (simp add: mh_ok_def)
qed (simp_all add: ops_calls InvalidateModulesCache_def MemHawk_new_def snapshots_distinct_def)

end
