(* ===== verification/Text_Writer.thy ===== *)
theory Text_Writer
  imports Writer_Interface
begin

text \<open>
  The text writer (\<open>src/source/memhawk/src/impl/writers/text_writer.cpp\<close>, \<open>text_writer.h\<close>). The summary file is
  the list of the reports, one per flush, with the data of each line; the file of stack traces is the list
  of its entries. How a summary is laid out as text (with floating point numbers and a formatting library)
  is not modelled.

  An index of the sources is a Boost container; here it is an association list, and the order in which one
  of its ordered views shows the entries is an argument \<open>ordered\<close>: documented is that the keys do not
  increase, not how equal keys are ordered.
\<close>

section \<open>The model\<close>

type_synonym rows = "(u32 \<times> AllocSummary) list"

record TextWriterIndex =
  ic_enabled :: bool
  ic_bySizeCount :: u64
  ic_byTotalCount :: u64

record TextWriterSettings =
  twc_external :: TextWriterIndex
  twc_internal :: TextWriterIndex

record index_dump =
  dp_bySize :: rows
  dp_byCount :: rows

record text_report =
  rp_time :: u64
  rp_external :: AllocSummary
  rp_internal :: AllocSummary
  rp_traces :: nat
  rp_updated :: u64
  rp_externalIndex :: "index_dump option"
  rp_internalIndex :: "index_dump option"

record TextWriter =
  tw_summaryFile :: "text_report list"
  tw_stacktracesFile :: "(u32 \<times> ptr list) list"
  tw_writtenStacktraces :: "u32 list"
  tw_updatedTraces :: u64
  tw_total :: AllocSummary
  tw_externalIndex :: rows
  tw_externalSummary :: AllocSummary
  tw_internalIndex :: rows
  tw_internalSummary :: AllocSummary

definition TextWriter_new :: TextWriter where
  "TextWriter_new =
     \<lparr>tw_summaryFile = [], tw_stacktracesFile = [], tw_writtenStacktraces = [], tw_updatedTraces = 0, tw_total = 0,
      tw_externalIndex = [], tw_externalSummary = 0, tw_internalIndex = [], tw_internalSummary = 0\<rparr>"

definition tw_UpdateModules :: "TextWriter \<Rightarrow> TextWriter" where
  "tw_UpdateModules w = w"

definition AccountSummary :: "u32 \<Rightarrow> AllocSummary \<Rightarrow> rows \<times> AllocSummary \<Rightarrow> rows \<times> AllocSummary" where
  "AccountSummary traceId summary it =
     (let (index, tot) = it
      in (map_modify traceId (\<lambda>s. summary_add s summary) (map_insert traceId 0 index), summary_add tot summary))"

fun tw_account_loop :: "rows \<Rightarrow> TextWriter \<Rightarrow> TextWriter" where
  "tw_account_loop [] w = w"
| "tw_account_loop ((traceId, summary) # rest) w =
     tw_account_loop rest
       (if IsFixedTrackerId traceId
        then let (index, tot) = AccountSummary traceId summary (tw_internalIndex w, tw_internalSummary w)
             in w\<lparr>tw_internalIndex := index, tw_internalSummary := tot\<rparr>
        else let (index, tot) = AccountSummary traceId summary (tw_externalIndex w, tw_externalSummary w)
             in w\<lparr>tw_externalIndex := index, tw_externalSummary := tot\<rparr>)"

definition tw_AccountSnapshot :: "rows \<Rightarrow> AllocSummary \<Rightarrow> TextWriter \<Rightarrow> TextWriter" where
  "tw_AccountSnapshot summaries tot w =
     tw_account_loop summaries
       (w\<lparr>tw_updatedTraces := tw_updatedTraces w + of_nat (length summaries), tw_total := summary_add (tw_total w) tot\<rparr>)"

text \<open>
  The loops of \<open>DumpIndex\<close>: the rows that are written, the traces that have been listed, and among them those
  that were not listed before. The list by size leaves out the traces without live blocks.
\<close>

fun dump_rows :: "bool \<Rightarrow> rows \<Rightarrow> u32 list \<times> u32 list \<Rightarrow> rows \<times> u32 list \<times> u32 list" where
  "dump_rows skip [] (written, new) = ([], written, new)"
| "dump_rows skip ((i, s) # rest) (written, new) =
     (if skip \<and> sm_active s = 0 then dump_rows skip rest (written, new)
      else
        (let (out, wn) =
           dump_rows skip rest (if i \<in> set written then (written, new) else (List.insert i written, List.insert i new))
         in ((i, s) # out, wn)))"

definition size_key :: "AllocSummary \<Rightarrow> int" where
  "size_key s = sint (sm_size s)"

definition count_key :: "AllocSummary \<Rightarrow> int" where
  "count_key s = uint (sm_totalCount s)"

definition DumpIndex ::
  "((AllocSummary \<Rightarrow> int) \<Rightarrow> rows \<Rightarrow> rows) \<Rightarrow> rows \<Rightarrow> TextWriterIndex \<Rightarrow> u32 list \<times> u32 list \<Rightarrow> index_dump option \<times> u32 list \<times> u32 list" where
  "DumpIndex ordered index cfg wn =
     (if \<not> ic_enabled cfg then (None, wn)
      else
        (let bySize = take (min (unat (ic_bySizeCount cfg)) (length index)) (ordered size_key index);
             byCount = take (min (unat (ic_byTotalCount cfg)) (length index)) (ordered count_key index);
             (rows1, wn) = dump_rows True bySize wn;
             (rows2, wn) = dump_rows False byCount wn
         in (Some \<lparr>dp_bySize = rows1, dp_byCount = rows2\<rparr>, wn)))"

definition new_traces :: "(u32 \<Rightarrow> Stacktrace option) \<Rightarrow> u32 list \<Rightarrow> (u32 \<times> ptr list) list" where
  "new_traces finder new = List.map_filter (\<lambda>i. map_option (\<lambda>trace. (i, GetTrace trace)) (finder i)) new"

definition tw_FlushData ::
  "((AllocSummary \<Rightarrow> int) \<Rightarrow> rows \<Rightarrow> rows) \<Rightarrow> TextWriterSettings \<Rightarrow> surroundings \<Rightarrow> TextWriter \<Rightarrow> TextWriter" where
  "tw_FlushData ordered cfg x w =
     (let (ext, wn) = DumpIndex ordered (tw_externalIndex w) (twc_external cfg) (tw_writtenStacktraces w, []);
          (int, written, new) = DumpIndex ordered (tw_internalIndex w) (twc_internal cfg) wn;
          rep = \<lparr>rp_time = sx_now x, rp_external = tw_externalSummary w, rp_internal = tw_internalSummary w,
                 rp_traces = length (tw_externalIndex w) + length (tw_internalIndex w), rp_updated = tw_updatedTraces w,
                 rp_externalIndex = ext, rp_internalIndex = int\<rparr>
      in w\<lparr>tw_summaryFile := tw_summaryFile w @ [rep], tw_writtenStacktraces := written,
           tw_stacktracesFile := tw_stacktracesFile w @ new_traces (sx_finder x) new, tw_updatedTraces := 0\<rparr>)"

section \<open>The books\<close>

text \<open>The index and the sum of one of the two heaps, that of the application or that of the profiler (\<open>True\<close>).\<close>

definition tw_index :: "bool \<Rightarrow> TextWriter \<Rightarrow> rows" where
  "tw_index b w = (if b then tw_internalIndex w else tw_externalIndex w)"

definition tw_books :: "TextWriter \<Rightarrow> bool \<times> u32 option \<Rightarrow> AllocSummary" where
  "tw_books w k =
     (case snd k of
        None \<Rightarrow> if fst k then tw_internalSummary w else tw_externalSummary w
      | Some i \<Rightarrow> summary_at (tw_index (fst k) w) i)"

definition tw_part :: "writer_call \<Rightarrow> bool \<times> u32 option \<Rightarrow> AllocSummary" where
  "tw_part c k =
     (case snd k of
        None \<Rightarrow> summaries_total (filter (\<lambda>e. IsFixedTrackerId (fst e) = fst k) (call_summaries c))
      | Some i \<Rightarrow> if IsFixedTrackerId i = fst k then summary_at (call_summaries c) i else 0)"

definition tw_view :: "TextWriter \<Rightarrow> bool \<times> u32 option \<Rightarrow> AllocSummary option" where
  "tw_view w k =
     (if snd k = None \<and> tw_summaryFile w \<noteq> []
      then Some (if fst k then rp_internal (last (tw_summaryFile w)) else rp_external (last (tw_summaryFile w)))
      else None)"

definition tw_show :: "bool \<times> u32 option \<Rightarrow> AllocSummary \<Rightarrow> AllocSummary option" where
  "tw_show k s = (if snd k = None then Some s else None)"

lemma tw_index_update [simp]: "tw_index b (w\<lparr>tw_updatedTraces := n, tw_total := t\<rparr>) = tw_index b w"
  by (simp add: tw_index_def)

lemma account_loop_books:
  assumes "distinct (map fst m)" "distinct (map fst (tw_index b w))"
  shows "distinct (map fst (tw_index b (tw_account_loop m w))) \<and>
    tw_books (tw_account_loop m w) (b, k) = tw_books w (b, k) + tw_part (AccountSnapshot m t) (b, k) \<and>
    fst ` set (tw_index b (tw_account_loop m w)) = fst ` set (tw_index b w) \<union> {i \<in> fst ` set m. IsFixedTrackerId i = b} \<and>
    tw_writtenStacktraces (tw_account_loop m w) = tw_writtenStacktraces w \<and>
    tw_stacktracesFile (tw_account_loop m w) = tw_stacktracesFile w"
  using assms
proof (induction m arbitrary: w)
  case Nil
  then show ?case by (simp add: tw_part_def summary_at_def summaries_total_def split: option.split)
next
  case (Cons e m)
  obtain i s where e: "e = (i, s)" by (cases e)
  define w1 where "w1 =
       (if IsFixedTrackerId i
        then let (index, tot) = AccountSummary i s (tw_internalIndex w, tw_internalSummary w)
             in w\<lparr>tw_internalIndex := index, tw_internalSummary := tot\<rparr>
        else let (index, tot) = AccountSummary i s (tw_externalIndex w, tw_externalSummary w)
             in w\<lparr>tw_externalIndex := index, tw_externalSummary := tot\<rparr>)"
  have step: "tw_account_loop (e # m) w = tw_account_loop m w1" by (simp add: e w1_def)
  have ix: "tw_index b w1 = (if IsFixedTrackerId i = b then map_modify i (\<lambda>t. t + s) (map_insert i 0 (tw_index b w)) else tw_index b w)"
    by (auto simp: w1_def AccountSummary_def tw_index_def Let_def)
  have keys: "fst ` set (tw_index b w1) = fst ` set (tw_index b w) \<union> (if IsFixedTrackerId i = b then {i} else {})"
    by (simp add: ix keys_modify_set keys_insert_set)
  have "distinct (map fst (tw_index b w1))" using Cons.prems(2) by (simp add: ix distinct_map_insert)
  with Cons have IH: "distinct (map fst (tw_index b (tw_account_loop m w1)))"
    "tw_books (tw_account_loop m w1) (b, k) = tw_books w1 (b, k) + tw_part (AccountSnapshot m t) (b, k)"
    "fst ` set (tw_index b (tw_account_loop m w1)) = fst ` set (tw_index b w1) \<union> {i \<in> fst ` set m. IsFixedTrackerId i = b}"
    "tw_writtenStacktraces (tw_account_loop m w1) = tw_writtenStacktraces w1" "tw_stacktracesFile (tw_account_loop m w1) = tw_stacktracesFile w1"
    by simp_all
  have none: "map_of m i = None" using Cons.prems(1) by (simp add: e map_of_eq_None_iff)
  have "tw_books w1 (b, k) + tw_part (AccountSnapshot m t) (b, k) = tw_books w (b, k) + tw_part (AccountSnapshot (e # m) t) (b, k)"
  proof (cases k)
    case None
    then show ?thesis
      by (auto simp: tw_books_def tw_part_def w1_def AccountSummary_def e summaries_total_def Let_def ac_simps)
  next
    case (Some j)
    have "summary_at (tw_index b w1) j = summary_at (tw_index b w) j + (if IsFixedTrackerId i = b \<and> j = i then s else 0)"
      by (simp add: ix summary_at_modify)
    moreover have "summary_at (e # m) j = (if j = i then s else summary_at m j)" by (simp add: e summary_at_def)
    moreover have "summary_at m i = 0" using none by (simp add: summary_at_def)
    ultimately show ?thesis using Some by (auto simp: tw_books_def tw_part_def)
  qed
  moreover have "tw_writtenStacktraces w1 = tw_writtenStacktraces w" "tw_stacktracesFile w1 = tw_stacktracesFile w"
    by (simp_all add: w1_def AccountSummary_def Let_def)
  moreover have "fst ` set (tw_index b w1) \<union> {i \<in> fst ` set m. IsFixedTrackerId i = b} =
      fst ` set (tw_index b w) \<union> {i \<in> fst ` set (e # m). IsFixedTrackerId i = b}" by (auto simp: keys e)
  ultimately show ?case unfolding step using IH by simp
qed

section \<open>Listing\<close>

lemma dump_rows_facts:
  assumes "dump_rows skip rows (w, n) = (out, w', n')"
  shows "out = filter (\<lambda>r. \<not> (skip \<and> sm_active (snd r) = 0)) rows \<and> set w' = set w \<union> fst ` set out \<and>
    set n' = set n \<union> (set w' - set w) \<and> (distinct n \<longrightarrow> distinct n')"
  using assms
proof (induction skip rows "(w, n)" arbitrary: w n out rule: dump_rows.induct)
  case (2 skip i s rest w n)
  show ?case
  proof (cases "skip \<and> sm_active s = 0")
    case True
    then have "dump_rows skip rest (w, n) = (out, w', n')" using "2.prems" by simp
    from "2.hyps"(1) [OF True this] show ?thesis using True by simp
  next
    case False
    define w1 where "w1 = (if i \<in> set w then w else List.insert i w)"
    define n1 where "n1 = (if i \<in> set w then n else List.insert i n)"
    have p: "(if i \<in> set w then (w, n) else (List.insert i w, List.insert i n)) = (w1, n1)" by (simp add: w1_def n1_def)
    obtain out1 wn where r: "dump_rows skip rest (w1, n1) = (out1, wn)" by (cases "dump_rows skip rest (w1, n1)")
    then have o1: "dump_rows skip rest (w1, n1) = (out1, w', n')" "out = (i, s) # out1"
      using "2.prems" False unfolding dump_rows.simps p by auto
    from "2.hyps"(2) [OF False p o1(1)] show ?thesis using False o1(2) by (auto simp: w1_def n1_def split: if_splits)
  qed
qed simp

text \<open>The entries that an ordered view shows first.\<close>

definition ordered_ok :: "((AllocSummary \<Rightarrow> int) \<Rightarrow> rows \<Rightarrow> rows) \<Rightarrow> bool" where
  "ordered_ok ordered \<longleftrightarrow>
     (\<forall>key m. mset (ordered key m) = mset m \<and> sorted_wrt (\<lambda>a b. key (snd b) \<le> key (snd a)) (ordered key m))"

definition top_rows :: "(AllocSummary \<Rightarrow> int) \<Rightarrow> nat \<Rightarrow> (u32 \<Rightarrow> AllocSummary) \<Rightarrow> u32 set \<Rightarrow> rows \<Rightarrow> bool" where
  "top_rows key n sums ids listed \<longleftrightarrow>
     distinct (map fst listed) \<and> length listed = min n (card ids) \<and> (\<forall>r \<in> set listed. fst r \<in> ids \<and> snd r = sums (fst r)) \<and>
     sorted_wrt (\<lambda>a b. key (snd b) \<le> key (snd a)) listed \<and>
     (\<forall>j \<in> ids - fst ` set listed. \<forall>r \<in> set listed. key (sums j) \<le> key (snd r))"

lemma take_top_rows:
  assumes "ordered_ok ordered" "distinct (map fst m)"
  shows "top_rows key n (summary_at m) (fst ` set m) (take (min n (length m)) (ordered key m))"
proof -
  let ?o = "ordered key m" let ?t = "take (min n (length m)) ?o" let ?d = "drop (min n (length m)) ?o"
  have o: "mset ?o = mset m" "sorted_wrt (\<lambda>a b. key (snd b) \<le> key (snd a)) ?o" using assms(1) by (simp_all add: ordered_ok_def)
  have set: "set ?o = set m" using mset_eq_setD [OF o(1)] .
  have len: "length ?o = length m" using mset_eq_length [OF o(1)] .
  have d: "distinct (map fst ?o)"
    using assms(2) arg_cong [OF o(1), of "image_mset fst"] by (metis mset_eq_imp_distinct_iff mset_map)
  have val: "snd r = summary_at m (fst r)" if "r \<in> set ?o" for r
  proof -
    have "(fst r, snd r) \<in> set m" using that set by simp
    from map_of_is_SomeI [OF assms(2) this] show ?thesis by (simp add: summary_at_def)
  qed
  have s: "sorted_wrt (\<lambda>a b. key (snd b) \<le> key (snd a)) (?t @ ?d)" using o(2) by simp
  show ?thesis
    unfolding top_rows_def
  proof (intro conjI ballI)
    show "distinct (map fst ?t)" using d by (simp flip: take_map)
    show "length ?t = min n (card (fst ` set m))" using distinct_card [OF assms(2)] len by simp
    show "sorted_wrt (\<lambda>a b. key (snd b) \<le> key (snd a)) ?t" using s unfolding sorted_wrt_append by blast
    show "fst r \<in> fst ` set m" "snd r = summary_at m (fst r)" if "r \<in> set ?t" for r
      using in_set_takeD [OF that] set val by auto
    show "key (summary_at m j) \<le> key (snd r)" if j: "j \<in> fst ` set m - fst ` set ?t" and r: "r \<in> set ?t" for j r
    proof -
      obtain e where e: "e \<in> set ?o" "fst e = j" using j set by auto
      have "e \<in> set (?t @ ?d)" using e(1) unfolding append_take_drop_id .
      then have "e \<in> set ?t \<or> e \<in> set ?d" unfolding set_append by blast
      then have "e \<in> set ?d" using e(2) j by blast
      then have "key (snd e) \<le> key (snd r)" using s r unfolding sorted_wrt_append by blast
      then show ?thesis using val [OF e(1)] e(2) by simp
    qed
  qed
qed

text \<open>What \<open>DumpIndex\<close> writes for an index, and that all listed traces are noted.\<close>

definition dump_of :: "((AllocSummary \<Rightarrow> int) \<Rightarrow> rows \<Rightarrow> rows) \<Rightarrow> rows \<Rightarrow> TextWriterIndex \<Rightarrow> index_dump option" where
  "dump_of ordered index cfg =
     (if ic_enabled cfg
      then Some \<lparr>dp_bySize = filter (\<lambda>r. sm_active (snd r) \<noteq> 0) (take (min (unat (ic_bySizeCount cfg)) (length index)) (ordered size_key index)),
                 dp_byCount = take (min (unat (ic_byTotalCount cfg)) (length index)) (ordered count_key index)\<rparr>
      else None)"

definition listed :: "index_dump option \<Rightarrow> u32 set" where
  "listed d = (case d of None \<Rightarrow> {} | Some dp \<Rightarrow> fst ` set (dp_bySize dp @ dp_byCount dp))"

lemma DumpIndex_facts:
  assumes "DumpIndex ordered index cfg (w, n) = (d, w', n')"
  shows "d = dump_of ordered index cfg \<and> set w' = set w \<union> listed d \<and> set n' = set n \<union> (set w' - set w) \<and> (distinct n \<longrightarrow> distinct n')"
proof (cases "ic_enabled cfg")
  case False
  then show ?thesis using assms by (auto simp: DumpIndex_def dump_of_def listed_def)
next
  case True
  obtain r1 w1 n1 where d1: "dump_rows True (take (min (unat (ic_bySizeCount cfg)) (length index)) (ordered size_key index)) (w, n) = (r1, w1, n1)"
    by (metis prod_cases3)
  obtain r2 w2 n2 where d2: "dump_rows False (take (min (unat (ic_byTotalCount cfg)) (length index)) (ordered count_key index)) (w1, n1) = (r2, w2, n2)"
    by (metis prod_cases3)
  have eq: "d = Some \<lparr>dp_bySize = r1, dp_byCount = r2\<rparr>" "w' = w2" "n' = n2"
    using assms True d1 d2 by (simp_all add: DumpIndex_def Let_def)
  note f1 = dump_rows_facts [OF d1] and f2 = dump_rows_facts [OF d2]
  have "r2 = take (min (unat (ic_byTotalCount cfg)) (length index)) (ordered count_key index)" using f2 by simp
  moreover have "r1 = filter (\<lambda>r. sm_active (snd r) \<noteq> 0) (take (min (unat (ic_bySizeCount cfg)) (length index)) (ordered size_key index))"
    using f1 by simp
  ultimately have "d = dump_of ordered index cfg" using True by (simp add: eq dump_of_def)
  moreover have "set w' = set w \<union> listed d" using f1 f2 by (auto simp: eq listed_def)
  moreover have "set n' = set n \<union> (set w' - set w)" using f1 f2 by (auto simp: eq)
  ultimately show ?thesis using f1 f2 by (simp add: eq)
qed

lemma flush_facts:
  "\<exists>new. distinct new \<and> set new = set (tw_writtenStacktraces (tw_FlushData ordered cfg x w)) - set (tw_writtenStacktraces w) \<and>
    set (tw_writtenStacktraces w) \<subseteq> set (tw_writtenStacktraces (tw_FlushData ordered cfg x w)) \<and>
    tw_stacktracesFile (tw_FlushData ordered cfg x w) = tw_stacktracesFile w @ new_traces (sx_finder x) new \<and>
    tw_index b (tw_FlushData ordered cfg x w) = tw_index b w \<and> tw_books (tw_FlushData ordered cfg x w) k = tw_books w k \<and>
    tw_view (tw_FlushData ordered cfg x w) k = tw_show k (tw_books w k) \<and> tw_summaryFile (tw_FlushData ordered cfg x w) \<noteq> [] \<and>
    rp_externalIndex (last (tw_summaryFile (tw_FlushData ordered cfg x w))) = dump_of ordered (tw_externalIndex w) (twc_external cfg) \<and>
    rp_internalIndex (last (tw_summaryFile (tw_FlushData ordered cfg x w))) = dump_of ordered (tw_internalIndex w) (twc_internal cfg) \<and>
    listed (dump_of ordered (tw_externalIndex w) (twc_external cfg)) \<union> listed (dump_of ordered (tw_internalIndex w) (twc_internal cfg))
      \<subseteq> set (tw_writtenStacktraces (tw_FlushData ordered cfg x w))"
proof -
  obtain d1 w1 n1 where d1: "DumpIndex ordered (tw_externalIndex w) (twc_external cfg) (tw_writtenStacktraces w, []) = (d1, w1, n1)"
    by (metis prod_cases3)
  obtain d2 w2 n2 where d2: "DumpIndex ordered (tw_internalIndex w) (twc_internal cfg) (w1, n1) = (d2, w2, n2)" by (metis prod_cases3)
  note f1 = DumpIndex_facts [OF d1] and f2 = DumpIndex_facts [OF d2]
  let ?rep = "\<lparr>rp_time = sx_now x, rp_external = tw_externalSummary w, rp_internal = tw_internalSummary w,
     rp_traces = length (tw_externalIndex w) + length (tw_internalIndex w), rp_updated = tw_updatedTraces w,
     rp_externalIndex = d1, rp_internalIndex = d2\<rparr>"
  have fl: "tw_FlushData ordered cfg x w = w\<lparr>tw_summaryFile := tw_summaryFile w @ [?rep], tw_writtenStacktraces := w2,
           tw_stacktracesFile := tw_stacktracesFile w @ new_traces (sx_finder x) n2, tw_updatedTraces := 0\<rparr>"
    by (simp add: tw_FlushData_def d1 d2)
  have n: "distinct n2" "set n2 = set w2 - set (tw_writtenStacktraces w)" "set (tw_writtenStacktraces w) \<subseteq> set w2"
    "listed d1 \<union> listed d2 \<subseteq> set w2" using f1 f2 by auto
  then show ?thesis
    using f1 f2 unfolding fl
    by (intro exI [of _ n2]) (simp add: tw_index_def tw_books_def tw_view_def tw_show_def split: option.split)
qed

lemma flush_keeps:
  "tw_index b (tw_FlushData ordered cfg x w) = tw_index b w" "tw_books (tw_FlushData ordered cfg x w) k = tw_books w k"
  "tw_view (tw_FlushData ordered cfg x w) k = tw_show k (tw_books w k)" "tw_summaryFile (tw_FlushData ordered cfg x w) \<noteq> []"
  "rp_externalIndex (last (tw_summaryFile (tw_FlushData ordered cfg x w))) = dump_of ordered (tw_externalIndex w) (twc_external cfg)"
  "rp_internalIndex (last (tw_summaryFile (tw_FlushData ordered cfg x w))) = dump_of ordered (tw_internalIndex w) (twc_internal cfg)"
  "listed (dump_of ordered (tw_externalIndex w) (twc_external cfg)) \<union> listed (dump_of ordered (tw_internalIndex w) (twc_internal cfg))
    \<subseteq> set (tw_writtenStacktraces (tw_FlushData ordered cfg x w))"
  using flush_facts [of ordered cfg x w b k] by blast+

section \<open>The writer\<close>

text \<open>The indices are maps; a listed trace that the finder knows has one entry in the file of stack traces.\<close>

definition traces_ok :: "(u32 \<Rightarrow> ptr list option) \<Rightarrow> TextWriter \<Rightarrow> bool" where
  "traces_ok fin w \<longleftrightarrow>
     distinct (map fst (tw_stacktracesFile w)) \<and>
     (\<forall>i fr. (i, fr) \<in> set (tw_stacktracesFile w) \<longleftrightarrow> i \<in> set (tw_writtenStacktraces w) \<and> fin i = Some fr)"

definition tw_inv :: "(u32 \<Rightarrow> ptr list option) \<Rightarrow> TextWriter \<Rightarrow> bool" where
  "tw_inv fin w \<longleftrightarrow> (\<forall>b. distinct (map fst (tw_index b w))) \<and> traces_ok fin w"

definition tw_room :: "(u32 \<Rightarrow> ptr list option) \<Rightarrow> surroundings \<Rightarrow> TextWriter \<Rightarrow> bool" where
  "tw_room fin x w \<longleftrightarrow> (\<forall>i. i \<notin> set (tw_writtenStacktraces w) \<longrightarrow> map_option GetTrace (sx_finder x i) = fin i)"

lemma new_traces_member: "(i, fr) \<in> set (new_traces finder new) \<longleftrightarrow> i \<in> set new \<and> map_option GetTrace (finder i) = Some fr"
  by (induction new) (auto simp: new_traces_def map_filter_simps split: option.split)

lemma new_traces_distinct: "distinct new \<Longrightarrow> distinct (map fst (new_traces finder new))"
proof (induction new)
  case (Cons i new)
  have "i \<notin> fst ` set (new_traces finder new)" using Cons.prems new_traces_member [of _ _ finder new] by force
  then show ?case using Cons by (auto simp: new_traces_def map_filter_simps split: option.split)
qed (simp add: new_traces_def map_filter_simps)

lemma flush_traces_ok:
  assumes "traces_ok fin w" "tw_room fin x w"
  shows "traces_ok fin (tw_FlushData ordered cfg x w)"
proof -
  let ?w = "tw_FlushData ordered cfg x w"
  obtain new where new: "distinct new" "set new = set (tw_writtenStacktraces ?w) - set (tw_writtenStacktraces w)"
    "set (tw_writtenStacktraces w) \<subseteq> set (tw_writtenStacktraces ?w)"
    "tw_stacktracesFile ?w = tw_stacktracesFile w @ new_traces (sx_finder x) new" using flush_facts [of ordered cfg x w] by blast
  have old: "distinct (map fst (tw_stacktracesFile w))"
    "\<And>i fr. (i, fr) \<in> set (tw_stacktracesFile w) \<longleftrightarrow> i \<in> set (tw_writtenStacktraces w) \<and> fin i = Some fr"
    using assms(1) by (simp_all add: traces_ok_def)
  have mem: "(i, fr) \<in> set (new_traces (sx_finder x) new) \<longleftrightarrow> i \<in> set new \<and> fin i = Some fr" for i fr
    using assms(2) new(2) by (auto simp: new_traces_member tw_room_def)
  have "fst ` set (tw_stacktracesFile w) \<subseteq> set (tw_writtenStacktraces w)" using old(2) by auto
  moreover have "fst ` set (new_traces (sx_finder x) new) \<subseteq> set new" using mem by auto
  ultimately have "fst ` set (tw_stacktracesFile w) \<inter> fst ` set (new_traces (sx_finder x) new) = {}" using new(2) by blast
  then have "distinct (map fst (tw_stacktracesFile ?w))" using old(1) new_traces_distinct [OF new(1)] by (simp add: new(4))
  then show ?thesis using old(2) mem new(2,3) unfolding traces_ok_def new(4) by auto
qed

interpretation text_writer: writer tw_AccountSnapshot tw_UpdateModules "\<lambda>x w. Some (tw_FlushData ordered cfg x w)"
  "tw_inv fin" tw_books tw_part tw_view tw_show "tw_room fin"
  for ordered cfg fin
proof unfold_locales
  fix k show "tw_part UpdateModules k = 0" "tw_part FlushData k = 0"
    by (simp_all add: tw_part_def summary_at_def summaries_total_def split: option.split)
next
  fix w and m :: rows and t assume i: "tw_inv fin w" and d: "distinct (map fst m)"
  let ?w = "w\<lparr>tw_updatedTraces := tw_updatedTraces w + of_nat (length m), tw_total := summary_add (tw_total w) t\<rparr>"
  have "tw_inv fin ?w" using i by (simp add: tw_inv_def traces_ok_def)
  then show "tw_inv fin (tw_AccountSnapshot m t w)"
    using account_loop_books [OF d, of _ ?w _ t] by (auto simp: tw_inv_def traces_ok_def tw_AccountSnapshot_def)
next
  fix w and m :: rows and t and k :: "bool \<times> u32 option" assume i: "tw_inv fin w" and d: "distinct (map fst m)"
  let ?w = "w\<lparr>tw_updatedTraces := tw_updatedTraces w + of_nat (length m), tw_total := summary_add (tw_total w) t\<rparr>"
  have "distinct (map fst (tw_index (fst k) ?w))" using i by (simp add: tw_inv_def)
  from account_loop_books [OF d this, of "snd k" t] have "tw_books (tw_account_loop m ?w) k = tw_books ?w k + tw_part (AccountSnapshot m t) k" by simp
  then show "tw_books (tw_AccountSnapshot m t w) k = tw_books w k + tw_part (AccountSnapshot m t) k"
    by (simp add: tw_AccountSnapshot_def tw_books_def tw_index_def split: option.split)
next
  fix w assume "tw_inv fin w" then show "tw_inv fin (tw_UpdateModules w)" by (simp add: tw_UpdateModules_def)
next
  fix w k show "tw_books (tw_UpdateModules w) k = tw_books w k" by (simp add: tw_UpdateModules_def)
next
  fix w x assume "tw_inv fin w" "tw_room fin x w"
  then show "\<exists>w'. Some (tw_FlushData ordered cfg x w) = Some w' \<and> tw_inv fin w' \<and>
      (\<forall>k. tw_books w' k = tw_books w k \<and> tw_view w' k = tw_show k (tw_books w k))"
    using flush_traces_ok [of fin w x ordered cfg] by (simp add: tw_inv_def flush_keeps)
qed

abbreviation text_run ::
  "((AllocSummary \<Rightarrow> int) \<Rightarrow> rows \<Rightarrow> rows) \<Rightarrow> TextWriterSettings \<Rightarrow> (writer_call \<times> surroundings) list \<Rightarrow> TextWriter \<Rightarrow> TextWriter option" where
  "text_run ordered cfg \<equiv> run_calls tw_AccountSnapshot tw_UpdateModules (\<lambda>x w. Some (tw_FlushData ordered cfg x w))"

abbreviation text_flushes_ok ::
  "((AllocSummary \<Rightarrow> int) \<Rightarrow> rows \<Rightarrow> rows) \<Rightarrow> TextWriterSettings \<Rightarrow> (u32 \<Rightarrow> ptr list option) \<Rightarrow> (writer_call \<times> surroundings) list \<Rightarrow> TextWriter \<Rightarrow> bool" where
  "text_flushes_ok ordered cfg fin \<equiv> flushes_ok tw_AccountSnapshot tw_UpdateModules (\<lambda>x w. Some (tw_FlushData ordered cfg x w)) (tw_room fin)"

section \<open>The reports\<close>

text \<open>The identifiers of a heap that the worker has reported, and the sum of the reports of a heap.\<close>

definition heap_ids :: "bool \<Rightarrow> writer_call list \<Rightarrow> u32 set" where
  "heap_ids b cs = {i. IsFixedTrackerId i = b \<and> (\<exists>c \<in> set cs. i \<in> fst ` set (call_summaries c))}"

definition heap_sum :: "bool \<Rightarrow> writer_call list \<Rightarrow> AllocSummary" where
  "heap_sum b cs = (\<Sum>c \<leftarrow> cs. summaries_total (filter (\<lambda>e. IsFixedTrackerId (fst e) = b) (call_summaries c)))"

lemma heap_ids_Cons: "heap_ids b (c # cs) = {i \<in> fst ` set (call_summaries c). IsFixedTrackerId i = b} \<union> heap_ids b cs"
  by (auto simp: heap_ids_def)

lemma text_run_index:
  assumes "text_run ordered cfg cs w = Some w'" "snapshots_distinct (map fst cs)" "distinct (map fst (tw_index b w))"
  shows "fst ` set (tw_index b w') = fst ` set (tw_index b w) \<union> heap_ids b (map fst cs) \<and>
    (cs \<noteq> [] \<and> fst (last cs) = FlushData \<longrightarrow> (\<exists>v x. w' = tw_FlushData ordered cfg x v))"
  using assms
proof (induction cs arbitrary: w)
  case (Cons cx cs)
  obtain c x where cx: "cx = (c, x)" by (cases cx)
  define w1 where "w1 = (case c of AccountSnapshot m t \<Rightarrow> tw_AccountSnapshot m t w | UpdateModules \<Rightarrow> w | FlushData \<Rightarrow> tw_FlushData ordered cfg x w)"
  have run: "text_run ordered cfg cs w1 = Some w'"
    using Cons.prems(1) by (cases c) (simp_all add: cx w1_def tw_UpdateModules_def [of w])
  have one: "distinct (map fst (tw_index b w1)) \<and> fst ` set (tw_index b w1) = fst ` set (tw_index b w) \<union> heap_ids b [c]"
  proof (cases c)
    case (AccountSnapshot m t)
    let ?w = "w\<lparr>tw_updatedTraces := tw_updatedTraces w + of_nat (length m), tw_total := summary_add (tw_total w) t\<rparr>"
    have "distinct (map fst m)" "distinct (map fst (tw_index b ?w))" using Cons.prems(2,3) AccountSnapshot by (simp_all add: cx)
    from account_loop_books [OF this] show ?thesis
      using AccountSnapshot by (simp add: w1_def tw_AccountSnapshot_def heap_ids_Cons) (simp add: heap_ids_def tw_index_def)
  next
    case UpdateModules
    then show ?thesis using Cons.prems(3) by (simp add: w1_def heap_ids_def)
  next
    case FlushData
    then show ?thesis using Cons.prems(3) by (simp add: w1_def heap_ids_def flush_keeps(1))
  qed
  have "snapshots_distinct (map fst cs)" using Cons.prems(2) by simp
  from Cons.IH [OF run this conjunct1 [OF one]] have IH: "fst ` set (tw_index b w') = fst ` set (tw_index b w1) \<union> heap_ids b (map fst cs)"
    "cs \<noteq> [] \<and> fst (last cs) = FlushData \<longrightarrow> (\<exists>v x. w' = tw_FlushData ordered cfg x v)" by blast+
  have "\<exists>v x. w' = tw_FlushData ordered cfg x v" if "fst (last (cx # cs)) = FlushData"
  proof (cases "cs = []")
    case True
    then show ?thesis using run that by (auto simp: cx w1_def)
  qed (use IH(2) that in simp)
  then show ?case using IH(1) one heap_ids_Cons [of b c "map fst cs"] heap_ids_Cons [of b c "[]"]
    by (auto simp: cx heap_ids_def)
qed (simp add: heap_ids_def)

section \<open>Properties\<close>

definition heap_settings :: "bool \<Rightarrow> TextWriterSettings \<Rightarrow> TextWriterIndex" where
  "heap_settings b cfg = (if b then twc_internal cfg else twc_external cfg)"

definition report_index :: "bool \<Rightarrow> text_report \<Rightarrow> index_dump option" where
  "report_index b rp = (if b then rp_internalIndex rp else rp_externalIndex rp)"

definition report_heap :: "bool \<Rightarrow> text_report \<Rightarrow> AllocSummary" where
  "report_heap b rp = (if b then rp_internal rp else rp_external rp)"

lemma tw_parts_sum:
  "(\<Sum>c \<leftarrow> cs. tw_part c (b, None)) = heap_sum b cs"
  "IsFixedTrackerId i = b \<Longrightarrow> (\<Sum>c \<leftarrow> cs. tw_part c (b, Some i)) = calls_sum cs (Some i)"
  by (induction cs) (simp_all add: heap_sum_def tw_part_def calls_sum_def call_part_def)

lemma entry_once:
  assumes "distinct (map fst es)" "(i, v) \<in> set es"
  shows "filter (\<lambda>e. fst e = i) es = [(i, v)]"
  using assms by (induction es) (auto simp: filter_empty_conv rev_image_eqI)

lemma text_new_inv: "tw_inv fin TextWriter_new" "tw_books TextWriter_new k = 0" "tw_index b TextWriter_new = []"
  by (auto simp: tw_inv_def traces_ok_def tw_index_def TextWriter_new_def tw_books_def summary_at_def split: option.split)

lemma top_rows_cong: "(\<And>i. i \<in> ids \<Longrightarrow> f i = g i) \<Longrightarrow> top_rows key n f ids l \<longleftrightarrow> top_rows key n g ids l"
  by (auto simp: top_rows_def)

text \<open>What a list of a report says, when the index holds the sums of the identifiers of its heap.\<close>

definition index_shown ::
  "TextWriterIndex \<Rightarrow> (u32 \<Rightarrow> AllocSummary) \<Rightarrow> u32 set \<Rightarrow> (u32 \<Rightarrow> ptr list option) \<Rightarrow> (u32 \<times> ptr list) list \<Rightarrow> index_dump \<Rightarrow> bool" where
  "index_shown cfg sums ids fin traces dp \<longleftrightarrow>
     (\<exists>l. top_rows size_key (unat (ic_bySizeCount cfg)) sums ids l \<and> dp_bySize dp = filter (\<lambda>r. sm_active (snd r) \<noteq> 0) l) \<and>
     top_rows count_key (unat (ic_byTotalCount cfg)) sums ids (dp_byCount dp) \<and>
     (\<forall>i fr. i \<in> fst ` set (dp_bySize dp @ dp_byCount dp) \<and> fin i = Some fr \<longrightarrow> filter (\<lambda>e. fst e = i) traces = [(i, fr)])"

lemma dump_shown:
  assumes "ordered_ok ordered" "distinct (map fst index)" "\<And>i. i \<in> fst ` set index \<Longrightarrow> summary_at index i = sums i"
    and "dump_of ordered index cfg = Some dp" "listed (Some dp) \<subseteq> set (tw_writtenStacktraces w)" "traces_ok fin w"
  shows "index_shown cfg sums (fst ` set index) fin (tw_stacktracesFile w) dp"
proof -
  have top: "top_rows key n sums (fst ` set index) (take (min n (length index)) (ordered key index))" for key n
    using take_top_rows [OF assms(1,2), of key n] by (subst (asm) top_rows_cong [OF assms(3)]) auto
  have dp: "dp_bySize dp = filter (\<lambda>r. sm_active (snd r) \<noteq> 0) (take (min (unat (ic_bySizeCount cfg)) (length index)) (ordered size_key index))"
    "dp_byCount dp = take (min (unat (ic_byTotalCount cfg)) (length index)) (ordered count_key index)"
    using assms(4) by (auto simp: dump_of_def split: if_splits)
  have once: "filter (\<lambda>e. fst e = i) (tw_stacktracesFile w) = [(i, fr)]"
    if "i \<in> fst ` set (dp_bySize dp @ dp_byCount dp)" "fin i = Some fr" for i fr
  proof -
    have "i \<in> set (tw_writtenStacktraces w)" using assms(5) that(1) by (auto simp: listed_def)
    then show ?thesis using assms(6) that(2) by (intro entry_once) (simp_all add: traces_ok_def)
  qed
  show ?thesis
    unfolding index_shown_def
  proof (intro conjI allI impI)
    show "\<exists>l. top_rows size_key (unat (ic_bySizeCount cfg)) sums (fst ` set index) l \<and> dp_bySize dp = filter (\<lambda>r. sm_active (snd r) \<noteq> 0) l"
      using top dp(1) by blast
    show "top_rows count_key (unat (ic_byTotalCount cfg)) sums (fst ` set index) (dp_byCount dp)" unfolding dp(2) by (rule top)
  qed (simp add: once)
qed

text \<open>
  C25. The text reports. Feed the text writer with any calls of the worker that end with a flush, where the
  snapshots are maps and the finder knows a trace as \<open>fin\<close> says when it is first listed. Then the last
  report shows for the application and for the profiler the sum of everything reported for its heap. It has the
  two lists of a heap exactly when they are enabled. The list by size holds, of the configured number of traces of the heap with the largest sums, in
  descending order and with their sums, those that have live blocks; the list by count holds the
  configured number of traces with the most allocations. Every trace that is listed has exactly one entry
  with its frames in the file of stack traces, if the finder knew it.
\<close>

theorem text_reports:
  assumes "ordered_ok ordered" "snapshots_distinct (map fst cs)" "text_flushes_ok ordered cfg fin cs TextWriter_new"
    and "cs \<noteq> []" "fst (last cs) = FlushData"
  shows "\<exists>w rp. text_run ordered cfg cs TextWriter_new = Some w \<and> tw_summaryFile w \<noteq> [] \<and> rp = last (tw_summaryFile w) \<and>
    (\<forall>b. report_heap b rp = heap_sum b (map fst cs)) \<and>
    (\<forall>b. case report_index b rp of
        None \<Rightarrow> \<not> ic_enabled (heap_settings b cfg)
      | Some dp \<Rightarrow> ic_enabled (heap_settings b cfg) \<and>
          index_shown (heap_settings b cfg) (\<lambda>i. calls_sum (map fst cs) (Some i)) (heap_ids b (map fst cs)) fin (tw_stacktracesFile w) dp)"
proof -
  from text_writer.run_shows [OF text_new_inv(1) assms(2,3)] obtain w where w: "text_run ordered cfg cs TextWriter_new = Some w" "tw_inv fin w"
    "\<And>k. tw_books w k = (\<Sum>c \<leftarrow> map fst cs. tw_part c k)" "\<And>k. tw_view w k = tw_show k (tw_books w k)"
    using assms(4,5) by (auto simp: text_new_inv(2))
  have "distinct (map fst (tw_index b TextWriter_new))" for b by (simp add: text_new_inv(3))
  note ix = text_run_index [OF w(1) assms(2) this]
  have keys: "fst ` set (tw_index b w) = heap_ids b (map fst cs)" for b using ix [of b] by (simp add: text_new_inv(3))
  obtain v x where fl: "w = tw_FlushData ordered cfg x v" using ix [of True] assms(4,5) by blast
  let ?rp = "last (tw_summaryFile w)"
  have ne: "tw_summaryFile w \<noteq> []" unfolding fl by (rule flush_keeps(4))
  have "tw_books w (b, None) = heap_sum b (map fst cs)" for b unfolding w(3) by (rule tw_parts_sum(1))
  then have heap: "report_heap b ?rp = heap_sum b (map fst cs)" for b
    using w(4) [of "(b, None)"] ne by (simp add: tw_view_def tw_show_def report_heap_def split: if_splits)
  have vi: "tw_index b v = tw_index b w" for b unfolding fl flush_keeps(1) ..
  have dump: "report_index b ?rp = dump_of ordered (tw_index b w) (heap_settings b cfg)" for b
    unfolding vi [symmetric] unfolding fl report_index_def heap_settings_def tw_index_def by (simp add: flush_keeps)
  have noted: "listed (dump_of ordered (tw_index b w) (heap_settings b cfg)) \<subseteq> set (tw_writtenStacktraces w)" for b
    using flush_keeps(7) [of ordered v cfg x] unfolding vi [symmetric] unfolding fl heap_settings_def tw_index_def by simp
  have sums: "summary_at (tw_index b w) i = calls_sum (map fst cs) (Some i)" if "i \<in> fst ` set (tw_index b w)" for b i
  proof -
    have "IsFixedTrackerId i = b" using that unfolding keys by (simp add: heap_ids_def)
    from tw_parts_sum(2) [OF this, of "map fst cs"] have "tw_books w (b, Some i) = calls_sum (map fst cs) (Some i)" unfolding w(3) .
    then show ?thesis by (simp add: tw_books_def)
  qed
  have on: "report_index b ?rp = None \<longleftrightarrow> \<not> ic_enabled (heap_settings b cfg)" for b by (simp add: dump dump_of_def)
  have "index_shown (heap_settings b cfg) (\<lambda>i. calls_sum (map fst cs) (Some i)) (heap_ids b (map fst cs)) fin (tw_stacktracesFile w) dp"
    if dp: "report_index b ?rp = Some dp" for b dp
  proof -
    have d: "dump_of ordered (tw_index b w) (heap_settings b cfg) = Some dp" using dp dump by simp
    have "distinct (map fst (tw_index b w))" "traces_ok fin w" using w(2) by (simp_all add: tw_inv_def)
    from dump_shown [OF assms(1) this(1) sums d _ this(2)] noted [of b] show ?thesis unfolding d keys by blast
  qed
  then have "\<forall>b. case report_index b ?rp of
        None \<Rightarrow> \<not> ic_enabled (heap_settings b cfg)
      | Some dp \<Rightarrow> ic_enabled (heap_settings b cfg) \<and>
          index_shown (heap_settings b cfg) (\<lambda>i. calls_sum (map fst cs) (Some i)) (heap_ids b (map fst cs)) fin (tw_stacktracesFile w) dp"
    using on by (metis (no_types, lifting) option.case_eq_if option.collapse)
  then show ?thesis using w(1) ne heap by blast
qed

text \<open>An order of the entries, and a run that lists the larger of two traces.\<close>

definition sort_rows :: "(AllocSummary \<Rightarrow> int) \<Rightarrow> rows \<Rightarrow> rows" where
  "sort_rows key m = sort_key (\<lambda>r. - key (snd r)) m"

lemma sort_rows_ok: "ordered_ok sort_rows"
proof -
  have "sorted_wrt (\<lambda>a b. key (snd b) \<le> key (snd a)) (sort_rows key m)" for key m
    using sorted_sort_key [of "\<lambda>r. - key (snd r)" m] by (simp add: sort_rows_def sorted_map)
  then show ?thesis by (simp add: ordered_ok_def sort_rows_def)
qed

definition demo_text_settings :: TextWriterSettings where
  "demo_text_settings =
     \<lparr>twc_external = \<lparr>ic_enabled = True, ic_bySizeCount = 1, ic_byTotalCount = 1\<rparr>,
      twc_internal = \<lparr>ic_enabled = False, ic_bySizeCount = 1, ic_byTotalCount = 1\<rparr>\<rparr>"

definition demo_text_calls :: "(writer_call \<times> surroundings) list" where
  "demo_text_calls = map (\<lambda>c. (c,
     \<lparr>sx_now = 1, sx_elapsed = 1, sx_maxrss = 1, sx_modules = [], sx_progname = ''p'',
      sx_finder = (\<lambda>i. if i = 5 then Some demo_trace else None)\<rparr>))
     [AccountSnapshot [(5, AllocSummary 8 16 1 1 8), (6, AllocSummary 4 16 1 1 4)] (AllocSummary 12 32 2 2 12), FlushData]"

lemma top_one:
  assumes "top_rows key 1 sums {a, b} l" "a \<noteq> b" "key (sums b) < key (sums a)"
  shows "l = [(a, sums a)]"
proof -
  have "length l = 1" using assms(1,2) by (simp add: top_rows_def)
  then obtain r where l: "l = [r]" by (auto simp: length_Suc_conv)
  then have "fst r \<in> {a, b}" "snd r = sums (fst r)" "\<forall>j \<in> {a, b} - {fst r}. key (sums j) \<le> key (snd r)"
    using assms(1) by (auto simp: top_rows_def)
  then have "fst r = a" using assms(2,3) by (metis DiffI empty_iff insert_iff linorder_not_le)
  then show ?thesis using l \<open>snd r = sums (fst r)\<close> by (cases r) simp
qed

lemma demo_text_sums:
  "heap_ids False (map fst demo_text_calls) = {5, 6}"
  "calls_sum (map fst demo_text_calls) (Some 5) = AllocSummary 8 16 1 1 8" "calls_sum (map fst demo_text_calls) (Some 6) = AllocSummary 4 16 1 1 4"
  "heap_sum False (map fst demo_text_calls) = AllocSummary 12 32 2 2 12" "heap_sum True (map fst demo_text_calls) = 0"
proof -
  have "\<not> IsFixedTrackerId 5" "\<not> IsFixedTrackerId 6" by (simp_all add: IsFixedTrackerId_def FixedTrackerIdFlag_def)
  then show "heap_ids False (map fst demo_text_calls) = {5, 6}" "heap_sum False (map fst demo_text_calls) = AllocSummary 12 32 2 2 12"
    "heap_sum True (map fst demo_text_calls) = 0"
    by (auto simp: heap_ids_def demo_text_calls_def heap_sum_def summaries_total_def intro!: AllocSummary.expand)
  show "calls_sum (map fst demo_text_calls) (Some 5) = AllocSummary 8 16 1 1 8" "calls_sum (map fst demo_text_calls) (Some 6) = AllocSummary 4 16 1 1 4"
    by (simp_all add: calls_sum_def call_part_def demo_text_calls_def summary_at_def)
qed

theorem text_reports_witness:
  "\<exists>w rp dp. text_run sort_rows demo_text_settings demo_text_calls TextWriter_new = Some w \<and> rp = last (tw_summaryFile w) \<and>
    report_heap False rp = AllocSummary 12 32 2 2 12 \<and> report_heap True rp = 0 \<and> report_index True rp = None \<and>
    report_index False rp = Some dp \<and> dp_bySize dp = [(5, AllocSummary 8 16 1 1 8)] \<and>
    filter (\<lambda>e. fst e = 5) (tw_stacktracesFile w) = [(5, [5, 4, 3, 2, 1])]"
proof -
  let ?fin = "\<lambda>i :: u32. if i = 5 then Some (GetTrace demo_trace) else None" and ?ext = "twc_external demo_text_settings"
  let ?sums = "\<lambda>i. calls_sum (map fst demo_text_calls) (Some i)"
  have fl: "text_flushes_ok sort_rows demo_text_settings ?fin demo_text_calls TextWriter_new"
    by (auto simp: demo_text_calls_def tw_room_def)
  have "snapshots_distinct (map fst demo_text_calls)" "demo_text_calls \<noteq> []" "fst (last demo_text_calls) = FlushData"
    by (simp_all add: demo_text_calls_def snapshots_distinct_def)
  from text_reports [OF sort_rows_ok this(1) fl this(2,3)] obtain w rp where
    w: "text_run sort_rows demo_text_settings demo_text_calls TextWriter_new = Some w" "rp = last (tw_summaryFile w)"
    "\<forall>b. report_heap b rp = heap_sum b (map fst demo_text_calls)"
    and ix: "\<And>b. case report_index b rp of None \<Rightarrow> \<not> ic_enabled (heap_settings b demo_text_settings)
      | Some dp \<Rightarrow> ic_enabled (heap_settings b demo_text_settings) \<and>
          index_shown (heap_settings b demo_text_settings) ?sums (heap_ids b (map fst demo_text_calls)) ?fin (tw_stacktracesFile w) dp"
    by (elim exE conjE) (rule that, assumption+, erule allE, assumption)
  have off: "report_index True rp = None" using ix [of True] by (simp add: heap_settings_def demo_text_settings_def split: option.splits)
  obtain dp where dp: "report_index False rp = Some dp" "index_shown ?ext ?sums {5, 6} ?fin (tw_stacktracesFile w) dp"
    using ix [of False] demo_text_sums(1) by (auto simp: heap_settings_def demo_text_settings_def split: option.splits)
  then obtain l where l: "top_rows size_key 1 ?sums {5, 6} l" "dp_bySize dp = filter (\<lambda>r. sm_active (snd r) \<noteq> 0) l"
    by (auto simp: index_shown_def demo_text_settings_def)
  from top_one [OF l(1)] have size: "dp_bySize dp = [(5, AllocSummary 8 16 1 1 8)]" using l(2) by (simp add: demo_text_sums size_key_def)
  then have "filter (\<lambda>e. fst e = 5) (tw_stacktracesFile w) = [(5, [5, 4, 3, 2, 1])]"
    using dp(2) by (simp add: index_shown_def)
  then show ?thesis using w off dp(1) size by (intro exI [of _ w] exI [of _ rp] exI [of _ dp]) (simp add: demo_text_sums)
qed

end
