(* ===== verification/Proto_Writer.thy ===== *)
theory Proto_Writer
  imports Writer_Interface
begin

text \<open>
  The protobuf writer (\<open>src/source/memhawk/src/impl/writers/proto_writer.cpp\<close>, \<open>proto_writer.h\<close>).

  A message is a value with the fields of the protocol (\<open>snapshot.proto\<close>); its serialisation and the
  compression are functions of libraries and so arguments (\<open>codec\<close>). The output is the list of bytes of
  the file. The maps of the writer are association lists, its sets distinct lists.
\<close>

section \<open>The model\<close>

record ElfInfo =
  elf_filename :: string
  elf_addr :: u64
  elf_segments :: "(u64 \<times> u64) list"

record ProcessInfo =
  pi_shortName :: string
  pi_fullPath :: string
  pi_pid :: u32
  pi_startTimestamp :: u64

record Snapshot =
  sn_timestamp :: u64
  sn_changed :: "(u32 \<times> AllocSummary) list"
  sn_ptrIds :: "(u32 \<times> u64) list"
  sn_stacktraces :: "(u32 \<times> u32 list) list"
  sn_loadedSo :: "ElfInfo list"
  sn_total :: AllocSummary

datatype message = MsgProcess ProcessInfo | MsgSnapshot Snapshot

record codec =
  co_serialize :: "message \<Rightarrow> u8 list"
  co_compress :: "u8 list \<Rightarrow> u8 list"

record ProtobufWriter =
  pw_out :: "u8 list"
  pw_total :: AllocSummary
  pw_localSummaries :: "(u32 \<times> AllocSummary) list"
  pw_changedSummaries :: "u32 list"
  pw_writtenTraces :: "u32 list"
  pw_ptrMap :: "(u64 \<times> u32) list"
  pw_updateModules :: bool

definition iterate_dl_header :: "string \<Rightarrow> dl_info \<Rightarrow> ElfInfo" where
  "iterate_dl_header progname info =
     \<lparr>elf_filename = (if dl_name info = [] then progname else dl_name info), elf_addr = dl_addr info,
      elf_segments = map (\<lambda>ph. (ph_vaddr ph, ph_memsz ph)) (dl_phdrs info)\<rparr>"

definition pw_UpdateModules :: "ProtobufWriter \<Rightarrow> ProtobufWriter" where
  "pw_UpdateModules w = w\<lparr>pw_updateModules := True\<rparr>"

definition WriteUint64BigEndian :: "u64 \<Rightarrow> u8 list" where
  "WriteUint64BigEndian v = map (\<lambda>k. ucast (drop_bit (8 * k) v)) (rev [0..<8])"

definition payload :: "codec \<Rightarrow> message \<Rightarrow> u8 list" where
  "payload C m = co_compress C (co_serialize C m)"

definition WriteMessage :: "codec \<Rightarrow> message \<Rightarrow> ProtobufWriter \<Rightarrow> ProtobufWriter" where
  "WriteMessage C m w =
     w\<lparr>pw_out := pw_out w @ WriteUint64BigEndian (of_nat (length (payload C m))) @ payload C m\<rparr>"

fun pw_account_loop :: "(u32 \<times> AllocSummary) list \<Rightarrow> ProtobufWriter \<Rightarrow> ProtobufWriter" where
  "pw_account_loop [] w = w"
| "pw_account_loop ((traceId, summary) # rest) w =
     (let w = w\<lparr>pw_changedSummaries := List.insert traceId (pw_changedSummaries w)\<rparr>
      in pw_account_loop rest
           (case map_of (pw_localSummaries w) traceId of
              None \<Rightarrow> w\<lparr>pw_localSummaries := map_insert traceId summary (pw_localSummaries w)\<rparr>
            | Some _ \<Rightarrow> w\<lparr>pw_localSummaries := map_modify traceId (\<lambda>s. summary_add s summary) (pw_localSummaries w)\<rparr>))"

definition pw_AccountSnapshot :: "(u32 \<times> AllocSummary) list \<Rightarrow> AllocSummary \<Rightarrow> ProtobufWriter \<Rightarrow> ProtobufWriter" where
  "pw_AccountSnapshot summaries tot w =
     pw_account_loop summaries (w\<lparr>pw_total := summary_add (pw_total w) tot\<rparr>)"

text \<open>The loop over the frames of a trace: the pointer map, the new pointers of the snapshot, the identifiers.\<close>

fun ptr_loop ::
  "ptr list \<Rightarrow> (u64 \<times> u32) list \<Rightarrow> (u32 \<times> u64) list \<Rightarrow> u32 list \<Rightarrow> (u64 \<times> u32) list \<times> (u32 \<times> u64) list \<times> u32 list" where
  "ptr_loop [] ptrMap ptrIds ids = (ptrMap, ptrIds, ids)"
| "ptr_loop (p # ps) ptrMap ptrIds ids =
     (let ptrValue = p - 1
      in case map_of ptrMap ptrValue of
           Some i \<Rightarrow> ptr_loop ps ptrMap ptrIds (ids @ [i])
         | None \<Rightarrow>
             (let i = of_nat (length ptrMap)
              in ptr_loop ps (map_insert ptrValue i ptrMap) (ptrIds @ [(i, ptrValue)]) (ids @ [i])))"

definition AddStacktrace :: "(u32 \<Rightarrow> Stacktrace option) \<Rightarrow> u32 \<Rightarrow> ProtobufWriter \<times> Snapshot \<Rightarrow> ProtobufWriter \<times> Snapshot" where
  "AddStacktrace finder traceId ws =
     (case finder traceId of
        None \<Rightarrow> ws
      | Some trace \<Rightarrow>
          (let (w, sn) = ws;
               (ptrMap, ptrIds, ids) = ptr_loop (GetTrace trace) (pw_ptrMap w) (sn_ptrIds sn) []
           in (w\<lparr>pw_ptrMap := ptrMap\<rparr>,
               sn\<lparr>sn_ptrIds := ptrIds, sn_stacktraces := sn_stacktraces sn @ [(traceId, ids)]\<rparr>)))"

definition FillChangedSummary :: "u32 \<Rightarrow> ProtobufWriter \<times> Snapshot \<Rightarrow> ProtobufWriter \<times> Snapshot" where
  "FillChangedSummary traceId ws =
     (let (w, sn) = ws;
          w = w\<lparr>pw_localSummaries := map_insert traceId 0 (pw_localSummaries w)\<rparr>
      in (w, sn\<lparr>sn_changed := sn_changed sn @ [(traceId, the (map_of (pw_localSummaries w) traceId))]\<rparr>))"

fun pw_flush_loop :: "(u32 \<Rightarrow> Stacktrace option) \<Rightarrow> u32 list \<Rightarrow> ProtobufWriter \<times> Snapshot \<Rightarrow> ProtobufWriter \<times> Snapshot" where
  "pw_flush_loop finder [] ws = ws"
| "pw_flush_loop finder (traceId # rest) ws =
     (let ws = (if traceId \<in> set (pw_writtenTraces (fst ws)) then ws
                else let (w, sn) = AddStacktrace finder traceId ws
                     in (w\<lparr>pw_writtenTraces := List.insert traceId (pw_writtenTraces w)\<rparr>, sn))
      in pw_flush_loop finder rest (FillChangedSummary traceId ws))"

definition flush_start :: "surroundings \<Rightarrow> ProtobufWriter \<Rightarrow> ProtobufWriter \<times> Snapshot" where
  "flush_start x w =
     (w\<lparr>pw_updateModules := False\<rparr>,
      \<lparr>sn_timestamp = sx_now x, sn_changed = [], sn_ptrIds = [], sn_stacktraces = [],
       sn_loadedSo = (if pw_updateModules w then map (iterate_dl_header (sx_progname x)) (sx_modules x) else []),
       sn_total = pw_total w\<rparr>)"

definition pw_FlushData :: "codec \<Rightarrow> surroundings \<Rightarrow> ProtobufWriter \<Rightarrow> ProtobufWriter" where
  "pw_FlushData C x w =
     (let (w, snapshot) = pw_flush_loop (sx_finder x) (pw_changedSummaries w) (flush_start x w);
          w = WriteMessage C (MsgSnapshot snapshot) w
      in w\<lparr>pw_changedSummaries := []\<rparr>)"

definition WriteProcessInfo :: "codec \<Rightarrow> ProcessInfo \<Rightarrow> ProtobufWriter \<Rightarrow> ProtobufWriter" where
  "WriteProcessInfo C info w = WriteMessage C (MsgProcess info) w"

definition ProtobufWriter_empty :: ProtobufWriter where
  "ProtobufWriter_empty =
     \<lparr>pw_out = [], pw_total = 0, pw_localSummaries = [], pw_changedSummaries = [], pw_writtenTraces = [],
      pw_ptrMap = [], pw_updateModules = True\<rparr>"

definition ProtobufWriter_new :: "codec \<Rightarrow> ProcessInfo \<Rightarrow> surroundings \<Rightarrow> ProtobufWriter" where
  "ProtobufWriter_new C info x =
     pw_FlushData C x (pw_AccountSnapshot [(0, 0)] 0 (WriteProcessInfo C info ProtobufWriter_empty))"

section \<open>Reading the file\<close>

text \<open>
  What a reader does with the file: it cuts it into frames, decodes the messages, and keeps the addresses
  of the pointer identifiers, the traces, the last summary of each identifier and the last total.
\<close>

record decoder =
  de_decompress :: "u8 list \<Rightarrow> u8 list option"
  de_parse :: "u8 list \<Rightarrow> message option"

definition codec_ok :: "codec \<Rightarrow> decoder \<Rightarrow> bool" where
  "codec_ok C D \<longleftrightarrow> (\<forall>b. de_decompress D (co_compress C b) = Some b) \<and> (\<forall>m. de_parse D (co_serialize C m) = Some m)"

definition be_value :: "u8 list \<Rightarrow> nat" where
  "be_value bs = foldl (\<lambda>n b. 256 * n + unat b) 0 bs"

function read_frames :: "u8 list \<Rightarrow> u8 list list option" where
  "read_frames bs =
     (if bs = [] then Some []
      else if length bs < 8 then None
      else let n = be_value (take 8 bs); rest = drop 8 bs
           in if length rest < n then None
              else do { fs \<leftarrow> read_frames (drop n rest); Some (take n rest # fs) })"
  by pat_completeness auto
termination
  by (relation "measure length") auto

declare read_frames.simps [simp del]

record Reader =
  rr_ptrs :: "u32 \<rightharpoonup> u64"
  rr_traces :: "u32 \<rightharpoonup> u32 list"
  rr_actual :: "u32 \<rightharpoonup> AllocSummary"
  rr_total :: AllocSummary

definition Reader_new :: Reader where
  "Reader_new = \<lparr>rr_ptrs = Map.empty, rr_traces = Map.empty, rr_actual = Map.empty, rr_total = 0\<rparr>"

fun apply_message :: "Reader \<Rightarrow> message \<Rightarrow> Reader" where
  "apply_message r (MsgProcess info) = r"
| "apply_message r (MsgSnapshot sn) =
     r\<lparr>rr_ptrs := rr_ptrs r ++ map_of (sn_ptrIds sn), rr_traces := rr_traces r ++ map_of (sn_stacktraces sn),
       rr_actual := rr_actual r ++ map_of (sn_changed sn), rr_total := sn_total sn\<rparr>"

definition read_file :: "decoder \<Rightarrow> u8 list \<Rightarrow> Reader option" where
  "read_file D bs =
     do { fs \<leftarrow> read_frames bs;
          ms \<leftarrow> those (map (\<lambda>f. do { b \<leftarrow> de_decompress D f; de_parse D b }) fs);
          Some (foldl apply_message Reader_new ms) }"

definition shown_summary :: "Reader \<Rightarrow> u32 option \<Rightarrow> AllocSummary" where
  "shown_summary r k =
     (case k of None \<Rightarrow> rr_total r | Some i \<Rightarrow> (case rr_actual r i of None \<Rightarrow> 0 | Some s \<Rightarrow> s))"

definition shown_trace :: "Reader \<Rightarrow> u32 \<Rightarrow> u64 list option" where
  "shown_trace r i = do { ids \<leftarrow> rr_traces r i; those (map (rr_ptrs r) ids) }"

section \<open>Frames\<close>

lemma be_value_write [simp]: "be_value (WriteUint64BigEndian v) = unat v"
proof -
  have b: "unat (ucast (drop_bit k v) :: u8) = unat v div 2 ^ k mod 256" for k
    by (simp add: unsigned_ucast_eq unat_drop_bit_eq take_bit_eq_mod, simp add: drop_bit_eq_div)
  define n where "n = unat v"
  have "n < 2 ^ 64" unfolding n_def using unsigned_less [of v] by simp
  then have top: "n div 72057594037927936 mod 256 = n div 72057594037927936" by simp
  have step: "n div d = 256 * (n div (d * 256)) + n div d mod 256" for d
    using mult_div_mod_eq [of 256 "n div d"] by (simp add: div_mult2_eq)
  have "be_value (WriteUint64BigEndian v) =
      72057594037927936 * (n div 72057594037927936) + 281474976710656 * (n div 281474976710656 mod 256) +
      1099511627776 * (n div 1099511627776 mod 256) + 4294967296 * (n div 4294967296 mod 256) +
      16777216 * (n div 16777216 mod 256) + 65536 * (n div 65536 mod 256) + 256 * (n div 256 mod 256) + n mod 256"
    using b [of 0] by (simp add: be_value_def WriteUint64BigEndian_def b upt_rec n_def [symmetric] top)
  also have "\<dots> = n"
  proof -
    have split: "a * (256 * q + r) = (a * 256) * q + a * r" for a q r :: nat by (simp add: algebra_simps)
    have "n = 256 * (n div 256) + n mod 256" by simp
    also have "256 * (n div 256) = 65536 * (n div 65536) + 256 * (n div 256 mod 256)"
      using step [of 256] split [of 256 "n div 65536" "n div 256 mod 256"] by simp
    also have "65536 * (n div 65536) = 16777216 * (n div 16777216) + 65536 * (n div 65536 mod 256)"
      using step [of 65536] split [of 65536 "n div 16777216" "n div 65536 mod 256"] by simp
    also have "16777216 * (n div 16777216) = 4294967296 * (n div 4294967296) + 16777216 * (n div 16777216 mod 256)"
      using step [of 16777216] split [of 16777216 "n div 4294967296" "n div 16777216 mod 256"] by simp
    also have "4294967296 * (n div 4294967296) = 1099511627776 * (n div 1099511627776) + 4294967296 * (n div 4294967296 mod 256)"
      using step [of 4294967296] split [of 4294967296 "n div 1099511627776" "n div 4294967296 mod 256"] by simp
    also have "1099511627776 * (n div 1099511627776) = 281474976710656 * (n div 281474976710656) + 1099511627776 * (n div 1099511627776 mod 256)"
      using step [of 1099511627776] split [of 1099511627776 "n div 281474976710656" "n div 1099511627776 mod 256"] by simp
    also have "281474976710656 * (n div 281474976710656) = 72057594037927936 * (n div 72057594037927936) + 281474976710656 * (n div 281474976710656 mod 256)"
      using step [of 281474976710656] split [of 281474976710656 "n div 72057594037927936" "n div 281474976710656 mod 256"] by simp
    finally show ?thesis by (simp only: ac_simps)
  qed
  finally show ?thesis by (simp add: n_def)
qed

lemma length_write [simp]: "length (WriteUint64BigEndian v) = 8"
  by (simp add: WriteUint64BigEndian_def)

definition frame :: "codec \<Rightarrow> message \<Rightarrow> u8 list" where
  "frame C m = WriteUint64BigEndian (of_nat (length (payload C m))) @ payload C m"

lemma read_frames_frame:
  assumes "length (payload C m) < 2 ^ 64"
  shows "read_frames (frame C m @ bs) = map_option (Cons (payload C m)) (read_frames bs)"
proof -
  have n: "unat (of_nat (length (payload C m)) :: u64) = length (payload C m)" using assms by (simp add: unat_of_nat)
  have "frame C m @ bs \<noteq> []" using length_write by (metis append_is_Nil_conv frame_def length_0_conv zero_neq_numeral)
  then show ?thesis
    by (subst read_frames.simps) (simp add: frame_def n Let_def map_option_case split: option.split)
qed

lemma read_frames_concat:
  assumes "\<And>m. m \<in> set ms \<Longrightarrow> length (payload C m) < 2 ^ 64"
  shows "read_frames (concat (map (frame C) ms)) = Some (map (payload C) ms)"
  using assms by (induction ms) (simp_all add: read_frames_frame read_frames.simps [of "[]"])

lemma read_file_concat:
  assumes "codec_ok C D" "\<And>m. m \<in> set ms \<Longrightarrow> length (payload C m) < 2 ^ 64"
  shows "read_file D (concat (map (frame C) ms)) = Some (foldl apply_message Reader_new ms)"
proof -
  have "(\<lambda>f. do { b \<leftarrow> de_decompress D f; de_parse D b }) (payload C m) = Some m" for m
    using assms(1) by (simp add: codec_ok_def payload_def)
  then have "those (map (\<lambda>f. do { b \<leftarrow> de_decompress D f; de_parse D b }) (map (payload C) ms)) = Some ms"
    by (induction ms) simp_all
  then show ?thesis by (simp add: read_file_def read_frames_concat [OF assms(2)])
qed

section \<open>What the reader knows\<close>

text \<open>
  The pointer map against the reader's pointers; and the writer against the reader, where \<open>todo\<close> are the
  identifiers whose summaries the reader has not seen yet and \<open>fin\<close> gives the frames of an identifier.
\<close>

definition pointers_ok :: "(u64 \<times> u32) list \<Rightarrow> (u32 \<rightharpoonup> u64) \<Rightarrow> bool" where
  "pointers_ok ptrMap ptrs \<longleftrightarrow> length ptrMap \<le> 2 ^ 32 \<and>
     (\<forall>p i. map_of ptrMap p = Some i \<longrightarrow> ptrs i = Some p \<and> unat i < length ptrMap) \<and>
     (\<forall>i. ptrs i \<noteq> None \<longrightarrow> unat i < length ptrMap)"

definition frames_shown :: "(u32 \<Rightarrow> ptr list option) \<Rightarrow> u32 \<Rightarrow> u64 list option" where
  "frames_shown fin i = map_option (map (\<lambda>p. p - 1)) (fin i)"

definition trace_known :: "(u32 \<Rightarrow> ptr list option) \<Rightarrow> Reader \<Rightarrow> u32 \<Rightarrow> bool" where
  "trace_known fin r i \<longleftrightarrow> (fin i = None \<longrightarrow> rr_traces r i = None) \<and> shown_trace r i = frames_shown fin i"

lemma trace_known_None: "fin i = None \<Longrightarrow> trace_known fin r i \<longleftrightarrow> rr_traces r i = None"
  by (auto simp: trace_known_def shown_trace_def frames_shown_def)

definition tables_ok :: "(u32 \<Rightarrow> ptr list option) \<Rightarrow> u32 list \<Rightarrow> ProtobufWriter \<Rightarrow> Reader \<Rightarrow> bool" where
  "tables_ok fin todo w r \<longleftrightarrow>
     distinct todo \<and> pointers_ok (pw_ptrMap w) (rr_ptrs r) \<and>
     (\<forall>i. i \<notin> set todo \<longrightarrow> shown_summary r (Some i) = summary_at (pw_localSummaries w) i) \<and>
     (\<forall>i \<in> set (pw_writtenTraces w). trace_known fin r i) \<and>
     (\<forall>i. rr_traces r i \<noteq> None \<longrightarrow> i \<in> set (pw_writtenTraces w)) \<and>
     (\<forall>i. i \<notin> set todo \<and> map_of (pw_localSummaries w) i \<noteq> None \<longrightarrow> i \<in> set (pw_writtenTraces w))"

lemma tables_okD:
  assumes "tables_ok fin todo w r"
  shows "distinct todo" "pointers_ok (pw_ptrMap w) (rr_ptrs r)"
    "i \<notin> set todo \<Longrightarrow> shown_summary r (Some i) = summary_at (pw_localSummaries w) i"
    "i \<in> set (pw_writtenTraces w) \<Longrightarrow> trace_known fin r i"
    "rr_traces r i = Some ids \<Longrightarrow> i \<in> set (pw_writtenTraces w)"
    "i \<notin> set todo \<Longrightarrow> map_of (pw_localSummaries w) i = Some s \<Longrightarrow> i \<in> set (pw_writtenTraces w)"
  using assms by (simp_all add: tables_ok_def)

lemma those_map_mono:
  assumes "those (map f xs) = Some ys" "\<And>x y. f x = Some y \<Longrightarrow> g x = Some y"
  shows "those (map g xs) = Some ys"
  using assms(1)
proof (induction xs arbitrary: ys)
  case (Cons x xs)
  then show ?case using assms(2) by (auto split: option.splits)
qed simp

lemma those_snoc: "those (xs @ [Some y]) = map_option (\<lambda>ys. ys @ [y]) (those xs)"
  by (induction xs) (auto split: option.split simp: option.map_comp comp_def)

text \<open>A new pointer identifier.\<close>

lemma pointers_ok_new:
  assumes "pointers_ok pm ptrs" "map_of pm v = None" "Suc (length pm) \<le> 2 ^ 32"
  shows "pointers_ok (map_insert v (of_nat (length pm)) pm) (ptrs(of_nat (length pm) \<mapsto> v))" "ptrs (of_nat (length pm)) = None"
proof -
  have u: "unat (of_nat (length pm) :: u32) = length pm" using assms(3) by (simp add: unat_of_nat)
  then show n: "ptrs (of_nat (length pm)) = None" using assms(1) unfolding pointers_ok_def by (metis less_irrefl)
  have old: "ptrs i = Some p \<and> unat i < length pm" if "map_of pm p = Some i" for p i
    using assms(1) that unfolding pointers_ok_def by blast
  have dom: "unat i < length pm" if "ptrs i \<noteq> None" for i using assms(1) that unfolding pointers_ok_def by blast
  have "(ptrs(of_nat (length pm) \<mapsto> v)) i = Some p \<and> unat i < Suc (length pm)"
    if "map_of (map_insert v (of_nat (length pm)) pm) p = Some i" for p i
    using that old [of p i] n u assms(2) by (auto simp: map_of_map_insert split: if_splits)
  moreover have "unat i < Suc (length pm)" if "(ptrs(of_nat (length pm) \<mapsto> v)) i \<noteq> None" for i
    using that dom [of i] u by (auto split: if_splits)
  ultimately show "pointers_ok (map_insert v (of_nat (length pm)) pm) (ptrs(of_nat (length pm) \<mapsto> v))"
    using assms(3) unfolding pointers_ok_def length_map_insert [OF assms(2)] by blast
qed

lemma ptr_loop_length: "length pm \<le> length (fst (ptr_loop ps pm new ids))"
proof (induction ps arbitrary: pm new ids)
  case (Cons p ps)
  show ?case
  proof (cases "map_of pm (p - 1)")
    case None
    then show ?thesis using Cons.IH [of "map_insert (p - 1) (of_nat (length pm)) pm"] length_map_insert [OF None]
      by (simp add: Let_def) (metis Suc_leD)
  next
    case (Some i)
    then show ?thesis using Cons.IH by (simp add: Let_def)
  qed
qed simp

lemma ptr_loop_spec:
  assumes "pointers_ok pm (R ++ map_of new)" "those (map (R ++ map_of new) ids) = Some vs"
    and "ptr_loop ps pm new ids = (pm', new', ids')" "length pm' \<le> 2 ^ 32"
  shows "pointers_ok pm' (R ++ map_of new') \<and> those (map (R ++ map_of new') ids') = Some (vs @ map (\<lambda>p. p - 1) ps) \<and>
    (\<forall>i p. (R ++ map_of new) i = Some p \<longrightarrow> (R ++ map_of new') i = Some p)"
  using assms(1-3)
proof (induction ps arbitrary: pm new ids vs)
  case (Cons p ps)
  let ?v = "p - 1" and ?R = "R ++ map_of new"
  show ?case
  proof (cases "map_of pm ?v")
    case (Some i)
    then have "?R i = Some ?v" using Cons.prems(1) unfolding pointers_ok_def by blast
    then have "those (map ?R (ids @ [i])) = Some (vs @ [?v])" using Cons.prems(2) by (simp add: those_snoc)
    from Cons.IH [OF Cons.prems(1) this] Cons.prems(3) Some show ?thesis by (simp add: Let_def)
  next
    case None
    let ?i = "of_nat (length pm) :: u32" and ?pm = "map_insert ?v (of_nat (length pm)) pm"
    have loop: "ptr_loop ps ?pm (new @ [(?i, ?v)]) (ids @ [?i]) = (pm', new', ids')"
      using Cons.prems(3) None by (simp add: Let_def)
    have "Suc (length pm) \<le> 2 ^ 32"
      using ptr_loop_length [of ?pm ps "new @ [(?i, ?v)]" "ids @ [?i]"] loop length_map_insert [OF None] assms(4) by simp
    note new = pointers_ok_new [OF Cons.prems(1) None this]
    have "map_of new ?i = None" "R ?i = None" using new(2) by (auto simp: map_add_None)
    then have eq: "R ++ map_of (new @ [(?i, ?v)]) = ?R(?i \<mapsto> ?v)"
      by (intro ext) (auto simp: map_add_def split: option.split)
    have "those (map (?R(?i \<mapsto> ?v)) ids) = Some vs"
      by (rule those_map_mono [OF Cons.prems(2)]) (use new(2) in auto)
    then have "those (map (?R(?i \<mapsto> ?v)) (ids @ [?i])) = Some (vs @ [?v])" by (simp add: those_snoc)
    note IH = Cons.IH [OF new(1) [folded eq] this [folded eq] loop, unfolded eq]
    have "(?R(?i \<mapsto> ?v)) i = Some q" if "?R i = Some q" for i q using that new(2) by auto
    then have "?R i = Some q \<Longrightarrow> (R ++ map_of new') i = Some q" for i q using IH [THEN conjunct2, THEN conjunct2] by simp
    moreover have "(vs @ [?v]) @ map (\<lambda>p. p - 1) ps = vs @ map (\<lambda>p. p - 1) (p # ps)" by simp
    ultimately show ?thesis using IH by metis
  qed
qed simp

lemma shown_trace_mono:
  assumes "shown_trace r i = Some vs" "rr_traces r' i = rr_traces r i" "\<And>j p. rr_ptrs r j = Some p \<Longrightarrow> rr_ptrs r' j = Some p"
  shows "shown_trace r' i = Some vs"
  using assms those_map_mono [of "rr_ptrs r" _ vs "rr_ptrs r'"] by (auto simp: shown_trace_def bind_eq_Some_conv)

text \<open>A trace that is new to the reader.\<close>

lemma trace_known_mono:
  assumes "trace_known fin r j" "rr_traces r1 j = rr_traces r j" "\<And>k p. rr_ptrs r k = Some p \<Longrightarrow> rr_ptrs r1 k = Some p"
  shows "trace_known fin r1 j"
proof (cases "fin j")
  case (Some fs)
  then have "shown_trace r j = Some (map (\<lambda>p. p - 1) fs)" using assms(1) by (simp add: trace_known_def frames_shown_def)
  from shown_trace_mono [OF this assms(2)] assms(3) show ?thesis using Some by (simp add: trace_known_def frames_shown_def)
next
  case None
  then show ?thesis using assms(1,2) unfolding trace_known_None [of fin j, OF None] by simp
qed

lemma AddStacktrace_tables:
  assumes "tables_ok fin (i # todo) w (apply_message r (MsgSnapshot sn))" "i \<notin> set (pw_writtenTraces w)"
    and "map_option GetTrace (finder i) = fin i" "AddStacktrace finder i (w, sn) = (w1, sn1)" "length (pw_ptrMap w1) \<le> 2 ^ 32"
  shows "tables_ok fin (i # todo) (w1\<lparr>pw_writtenTraces := List.insert i (pw_writtenTraces w1)\<rparr>) (apply_message r (MsgSnapshot sn1)) \<and>
    pw_out w1 = pw_out w \<and> pw_localSummaries w1 = pw_localSummaries w \<and> pw_total w1 = pw_total w \<and>
    sn_total sn1 = sn_total sn"
proof (cases "finder i")
  case None
  let ?r = "apply_message r (MsgSnapshot sn)"
  have eq: "w1 = w" "sn1 = sn" using assms(4) None by (simp_all add: AddStacktrace_def)
  have "rr_traces ?r i = None" using tables_okD(5) [OF assms(1), of i] assms(2) by (cases "rr_traces ?r i") simp_all
  moreover have "fin i = None" using assms(3) None by simp
  ultimately have "trace_known fin ?r i" using trace_known_None by blast
  then show ?thesis using assms(1) unfolding eq tables_ok_def by simp
next
  case (Some trace)
  let ?r = "apply_message r (MsgSnapshot sn)" and ?r1 = "apply_message r (MsgSnapshot sn1)"
  obtain pm new ids where loop: "ptr_loop (GetTrace trace) (pw_ptrMap w) (sn_ptrIds sn) [] = (pm, new, ids)"
    by (metis prod_cases3)
  have eq: "w1 = w\<lparr>pw_ptrMap := pm\<rparr>" "sn1 = sn\<lparr>sn_ptrIds := new, sn_stacktraces := sn_stacktraces sn @ [(i, ids)]\<rparr>"
    using assms(4) Some loop by (simp_all add: AddStacktrace_def)
  have ok: "pointers_ok (pw_ptrMap w) (rr_ptrs r ++ map_of (sn_ptrIds sn))" using tables_okD(2) [OF assms(1)] by simp
  have "length pm \<le> 2 ^ 32" using assms(5) by (simp add: eq)
  from ptr_loop_spec [OF ok _ loop this, of "[]"]
  have pl: "pointers_ok pm (rr_ptrs r ++ map_of new)"
    "those (map (rr_ptrs r ++ map_of new) ids) = Some (map (\<lambda>p. p - 1) (GetTrace trace))"
    "\<And>j p. (rr_ptrs r ++ map_of (sn_ptrIds sn)) j = Some p \<Longrightarrow> (rr_ptrs r ++ map_of new) j = Some p" by simp_all
  have fresh: "rr_traces ?r i = None" using tables_okD(5) [OF assms(1), of i] assms(2) by (cases "rr_traces ?r i") simp_all
  have tr: "rr_traces ?r1 = (rr_traces ?r)(i \<mapsto> ids)"
    using fresh by (intro ext) (auto simp: eq map_add_def split: option.splits)
  have old: "trace_known fin ?r1 j" if j: "j \<in> set (pw_writtenTraces w)" for j
  proof (rule trace_known_mono [OF tables_okD(4) [OF assms(1) j]])
    show "rr_traces ?r1 j = rr_traces ?r j" using j assms(2) tr by auto
    show "rr_ptrs ?r1 k = Some p" if "rr_ptrs ?r k = Some p" for k p using pl(3) that by (simp add: eq)
  qed
  have new: "trace_known fin ?r1 i"
    using pl(2) tr Some by (simp add: trace_known_def shown_trace_def frames_shown_def eq flip: assms(3))
  have sums: "shown_summary ?r1 k = shown_summary ?r k" for k by (simp add: shown_summary_def eq split: option.split)
  have ptrs: "rr_ptrs ?r1 = rr_ptrs r ++ map_of new" by (simp add: eq)
  let ?w = "w1\<lparr>pw_writtenTraces := List.insert i (pw_writtenTraces w1)\<rparr>"
  have w: "pw_writtenTraces w1 = pw_writtenTraces w" "pw_ptrMap w1 = pm" "pw_localSummaries w1 = pw_localSummaries w"
    by (simp_all add: eq)
  have "tables_ok fin (i # todo) ?w ?r1"
    unfolding tables_ok_def
  proof (intro conjI)
    show "distinct (i # todo)" using tables_okD(1) [OF assms(1)] .
    show "pointers_ok (pw_ptrMap ?w) (rr_ptrs ?r1)" using pl(1) by (simp only: ptrs) (simp add: w)
    show "\<forall>j. j \<notin> set (i # todo) \<longrightarrow> shown_summary ?r1 (Some j) = summary_at (pw_localSummaries ?w) j"
      using tables_okD(3) [OF assms(1)] sums by (simp add: w)
    show "\<forall>j \<in> set (pw_writtenTraces ?w). trace_known fin ?r1 j" using old new by (simp add: w)
    show "\<forall>j. rr_traces ?r1 j \<noteq> None \<longrightarrow> j \<in> set (pw_writtenTraces ?w)"
      using tables_okD(5) [OF assms(1)] unfolding tr by (auto simp: w simp del: apply_message.simps)
    show "\<forall>j. j \<notin> set (i # todo) \<and> map_of (pw_localSummaries ?w) j \<noteq> None \<longrightarrow> j \<in> set (pw_writtenTraces ?w)"
      using tables_okD(6) [OF assms(1)] by (auto simp: w)
  qed
  then show ?thesis by (simp add: eq)
qed

text \<open>Writing the summary of an identifier.\<close>

lemma summary_at_insert_0: "summary_at (map_insert k 0 m) i = summary_at m i"
  by (auto simp: summary_at_def map_of_map_insert split: option.split)

lemma FillChangedSummary_tables:
  assumes "tables_ok fin (i # todo) w (apply_message r (MsgSnapshot sn))" "i \<in> set (pw_writtenTraces w)"
    and "fst ` set (sn_changed sn) \<inter> set (i # todo) = {}" "FillChangedSummary i (w, sn) = (w1, sn1)"
  shows "tables_ok fin todo w1 (apply_message r (MsgSnapshot sn1))"
    "fst ` set (sn_changed sn1) \<inter> set todo = {}" "pw_out w1 = pw_out w" "sn_total sn1 = sn_total sn"
    "pw_writtenTraces w1 = pw_writtenTraces w" "pw_ptrMap w1 = pw_ptrMap w" "pw_total w1 = pw_total w"
    "summary_at (pw_localSummaries w1) j = summary_at (pw_localSummaries w) j"
proof -
  let ?s = "the (map_of (pw_localSummaries w1) i)"
  have eq: "w1 = w\<lparr>pw_localSummaries := map_insert i 0 (pw_localSummaries w)\<rparr>"
    "sn1 = sn\<lparr>sn_changed := sn_changed sn @ [(i, ?s)]\<rparr>" using assms(4) by (auto simp: FillChangedSummary_def)
  have loc: "pw_localSummaries w1 = map_insert i 0 (pw_localSummaries w)" by (simp add: eq(1))
  have d: "distinct (i # todo)" using tables_okD(1) [OF assms(1)] .
  show "fst ` set (sn_changed sn1) \<inter> set todo = {}" using assms(3) d by (subst eq(2)) auto
  show "pw_out w1 = pw_out w" "pw_writtenTraces w1 = pw_writtenTraces w" "pw_ptrMap w1 = pw_ptrMap w" "pw_total w1 = pw_total w"
    by (simp_all add: eq(1))
  show tot: "sn_total sn1 = sn_total sn" by (subst eq(2)) simp
  show "summary_at (pw_localSummaries w1) j = summary_at (pw_localSummaries w) j" for j by (simp add: loc summary_at_insert_0)
  let ?r = "apply_message r (MsgSnapshot sn)" and ?r1 = "apply_message r (MsgSnapshot sn1)"
  have r1: "rr_ptrs ?r1 = rr_ptrs ?r" "rr_traces ?r1 = rr_traces ?r" by (subst eq(2), simp)+
  have "map_of (sn_changed sn) i = None" using assms(3) by (auto simp: map_of_eq_None_iff)
  then have act: "rr_actual ?r1 = (rr_actual ?r)(i \<mapsto> ?s)"
    by (subst eq(2), intro ext) (auto simp: map_add_def split: option.splits)
  have "map_of (pw_localSummaries w1) i \<noteq> None" by (simp add: loc map_of_map_insert)
  then have s: "?s = summary_at (pw_localSummaries w1) i" by (auto simp: summary_at_def)
  have kn: "trace_known fin ?r1 j = trace_known fin ?r j" for j by (simp only: trace_known_def shown_trace_def r1)
  show "tables_ok fin todo w1 ?r1"
    unfolding tables_ok_def
  proof (intro conjI allI impI)
    show "distinct todo" using d by simp
    show "pointers_ok (pw_ptrMap w1) (rr_ptrs ?r1)" using tables_okD(2) [OF assms(1)] by (simp only: r1) (simp add: eq(1))
    show "\<forall>j \<in> set (pw_writtenTraces w1). trace_known fin ?r1 j"
      using tables_okD(4) [OF assms(1)] by (simp only: kn) (simp add: eq(1))
    show "shown_summary ?r1 (Some j) = summary_at (pw_localSummaries w1) j" if "j \<notin> set todo" for j
    proof (cases "j = i")
      case True
      then show ?thesis by (simp only: shown_summary_def act s) simp
    next
      case False
      then have "shown_summary ?r1 (Some j) = shown_summary ?r (Some j)" by (simp only: shown_summary_def act) simp
      then show ?thesis using tables_okD(3) [OF assms(1), of j] False that by (simp add: loc summary_at_insert_0)
    qed
    show "j \<in> set (pw_writtenTraces w1)" if "rr_traces ?r1 j \<noteq> None" for j
    proof -
      obtain ids where "rr_traces ?r j = Some ids" using \<open>rr_traces ?r1 j \<noteq> None\<close> unfolding r1 by blast
      from tables_okD(5) [OF assms(1) this] show ?thesis by (simp add: eq(1))
    qed
    show "j \<in> set (pw_writtenTraces w1)" if "j \<notin> set todo \<and> map_of (pw_localSummaries w1) j \<noteq> None" for j
      using tables_okD(6) [OF assms(1), of j] that assms(2)
      by (cases "j = i") (auto simp: eq(1) map_of_map_insert split: if_splits)
  qed
qed

lemma pw_flush_loop_ptrs: "length (pw_ptrMap (fst ws)) \<le> length (pw_ptrMap (fst (pw_flush_loop finder todo ws)))"
proof (induction todo arbitrary: ws)
  case (Cons i todo)
  obtain w sn where ws: "ws = (w, sn)" by (cases ws)
  have add: "length (pw_ptrMap w) \<le> length (pw_ptrMap (fst (AddStacktrace finder i (w, sn))))"
  proof (cases "finder i")
    case (Some trace)
    then show ?thesis
      using ptr_loop_length [of "pw_ptrMap w" "GetTrace trace" "sn_ptrIds sn" "[]"] by (auto simp: AddStacktrace_def split: prod.split)
  qed (simp add: AddStacktrace_def)
  have fill: "pw_ptrMap (fst (FillChangedSummary i v)) = pw_ptrMap (fst v)" for v
    by (cases v) (simp add: FillChangedSummary_def Let_def)
  show ?case
  proof (cases "i \<in> set (pw_writtenTraces w)")
    case True
    then show ?thesis using Cons.IH [of "FillChangedSummary i ws"] fill by (simp add: ws)
  next
    case False
    obtain w0 sn0 where a: "AddStacktrace finder i (w, sn) = (w0, sn0)" by fastforce
    show ?thesis
      using add False a Cons.IH [of "FillChangedSummary i (w0\<lparr>pw_writtenTraces := List.insert i (pw_writtenTraces w0)\<rparr>, sn0)", unfolded fill]
      by (simp add: ws)
  qed
qed simp

lemma pw_flush_loop_tables:
  assumes "tables_ok fin todo w (apply_message r (MsgSnapshot sn))" "fst ` set (sn_changed sn) \<inter> set todo = {}"
    and "\<forall>i \<in> set todo - set (pw_writtenTraces w). map_option GetTrace (finder i) = fin i"
    and "pw_flush_loop finder todo (w, sn) = (w', sn')" "length (pw_ptrMap w') \<le> 2 ^ 32"
  shows "tables_ok fin [] w' (apply_message r (MsgSnapshot sn')) \<and> pw_out w' = pw_out w \<and> sn_total sn' = sn_total sn \<and>
    pw_total w' = pw_total w \<and> (\<forall>j. summary_at (pw_localSummaries w') j = summary_at (pw_localSummaries w) j)"
  using assms(1-4)
proof (induction todo arbitrary: w sn)
  case (Cons i todo)
  define v where "v = (if i \<in> set (pw_writtenTraces w) then (w, sn)
      else let (w, sn) = AddStacktrace finder i (w, sn) in (w\<lparr>pw_writtenTraces := List.insert i (pw_writtenTraces w)\<rparr>, sn))"
  obtain w1 sn1 where v1: "v = (w1, sn1)" by (cases v)
  obtain w2 sn2 where v2: "FillChangedSummary i (w1, sn1) = (w2, sn2)" by fastforce
  have loop: "pw_flush_loop finder todo (w2, sn2) = (w', sn')"
    using Cons.prems(4) by (simp add: v1 v2 flip: v_def)
  have ptrs: "length (pw_ptrMap w2) \<le> 2 ^ 32"
    using pw_flush_loop_ptrs [of "(w2, sn2)" finder todo] loop assms(5) by simp
  have fill: "pw_ptrMap w2 = pw_ptrMap w1" using v2 by (auto simp: FillChangedSummary_def)
  have one: "tables_ok fin (i # todo) w1 (apply_message r (MsgSnapshot sn1)) \<and> i \<in> set (pw_writtenTraces w1) \<and>
      set (pw_writtenTraces w) \<subseteq> set (pw_writtenTraces w1) \<and> sn_changed sn1 = sn_changed sn \<and> pw_out w1 = pw_out w \<and> sn_total sn1 = sn_total sn \<and>
      pw_total w1 = pw_total w \<and> pw_localSummaries w1 = pw_localSummaries w"
  proof (cases "i \<in> set (pw_writtenTraces w)")
    case True
    then show ?thesis using Cons.prems(1) v1 by (auto simp: v_def)
  next
    case False
    obtain w0 sn0 where a: "AddStacktrace finder i (w, sn) = (w0, sn0)" by fastforce
    then have eq: "w1 = w0\<lparr>pw_writtenTraces := List.insert i (pw_writtenTraces w0)\<rparr>" "sn1 = sn0" using v1 False by (auto simp: v_def)
    have "map_option GetTrace (finder i) = fin i" using Cons.prems(3) False by simp
    moreover have "length (pw_ptrMap w0) \<le> 2 ^ 32" using ptrs fill by (simp add: eq)
    moreover have "pw_writtenTraces w0 = pw_writtenTraces w" "sn_changed sn0 = sn_changed sn"
      using a by (auto simp: AddStacktrace_def split: option.splits prod.splits)
    ultimately show ?thesis using AddStacktrace_tables [OF Cons.prems(1) False _ a] eq by auto
  qed
  have "fst ` set (sn_changed sn1) \<inter> set (i # todo) = {}" using one Cons.prems(2) by simp
  note F = FillChangedSummary_tables [OF one [THEN conjunct1] one [THEN conjunct2, THEN conjunct1] this v2]
  have "\<forall>j \<in> set todo - set (pw_writtenTraces w2). map_option GetTrace (finder j) = fin j"
    using Cons.prems(3) one unfolding F(5) by auto
  from Cons.IH [OF F(1,2) this loop] show ?case using F(3,4,7,8) one by (simp del: apply_message.simps)
qed simp

section \<open>The writer\<close>

text \<open>The file holds messages, and the tables agree with what a reader of them knows.\<close>

definition proto_inv :: "codec \<Rightarrow> (u32 \<Rightarrow> ptr list option) \<Rightarrow> ProtobufWriter \<Rightarrow> bool" where
  "proto_inv C fin w \<longleftrightarrow>
     (\<exists>ms. pw_out w = concat (map (frame C) ms) \<and> (\<forall>m \<in> set ms. length (payload C m) < 2 ^ 64) \<and>
       tables_ok fin (pw_changedSummaries w) w (foldl apply_message Reader_new ms))"

definition proto_books :: "ProtobufWriter \<Rightarrow> u32 option \<Rightarrow> AllocSummary" where
  "proto_books w k = (case k of None \<Rightarrow> pw_total w | Some i \<Rightarrow> summary_at (pw_localSummaries w) i)"

definition proto_view :: "decoder \<Rightarrow> ProtobufWriter \<Rightarrow> u32 option \<Rightarrow> AllocSummary" where
  "proto_view D w k = (case read_file D (pw_out w) of None \<Rightarrow> 0 | Some r \<Rightarrow> shown_summary r k)"

text \<open>
  What a flush relies on: the finder knows the traces as \<open>fin\<close> says, the pointer identifiers fit in 32 bits
  and the file stays below \<open>2 ^ 64\<close> bytes.
\<close>

definition proto_room :: "codec \<Rightarrow> (u32 \<Rightarrow> ptr list option) \<Rightarrow> surroundings \<Rightarrow> ProtobufWriter \<Rightarrow> bool" where
  "proto_room C fin x w \<longleftrightarrow>
     (\<forall>i \<in> set (pw_changedSummaries w) - set (pw_writtenTraces w). map_option GetTrace (sx_finder x i) = fin i) \<and>
     length (pw_ptrMap (pw_FlushData C x w)) \<le> 2 ^ 32 \<and> length (pw_out (pw_FlushData C x w)) < 2 ^ 64"

lemma tables_account:
  assumes "tables_ok fin (pw_changedSummaries w) w r" "distinct (map fst m)"
  shows "tables_ok fin (pw_changedSummaries (pw_account_loop m w)) (pw_account_loop m w) r \<and>
    pw_out (pw_account_loop m w) = pw_out w \<and> pw_total (pw_account_loop m w) = pw_total w \<and>
    (\<forall>i. summary_at (pw_localSummaries (pw_account_loop m w)) i = summary_at (pw_localSummaries w) i + summary_at m i)"
  using assms
proof (induction m arbitrary: w)
  case (Cons e m)
  obtain i s where e: "e = (i, s)" by (cases e)
  define w0 where "w0 = w\<lparr>pw_changedSummaries := List.insert i (pw_changedSummaries w)\<rparr>"
  define l where "l = (case map_of (pw_localSummaries w) i of
      None \<Rightarrow> map_insert i s (pw_localSummaries w) | Some _ \<Rightarrow> map_modify i (\<lambda>t. summary_add t s) (pw_localSummaries w))"
  have step: "pw_account_loop (e # m) w = pw_account_loop m (w0\<lparr>pw_localSummaries := l\<rparr>)"
    by (simp add: e w0_def l_def split: option.split)
  have l: "summary_at l j = summary_at (pw_localSummaries w) j + (if j = i then s else 0)"
    "map_of l j \<noteq> None \<longleftrightarrow> map_of (pw_localSummaries w) j \<noteq> None \<or> j = i" for j
    by (auto simp: l_def summary_at_def map_of_map_insert map_of_map_modify split: option.splits)
  have "tables_ok fin (pw_changedSummaries (w0\<lparr>pw_localSummaries := l\<rparr>)) (w0\<lparr>pw_localSummaries := l\<rparr>) r"
    using Cons.prems(1) l by (auto simp: tables_ok_def w0_def)
  moreover have "distinct (map fst m)" using Cons.prems(2) by simp
  ultimately have IH: "tables_ok fin (pw_changedSummaries (pw_account_loop (e # m) w)) (pw_account_loop (e # m) w) r"
    "pw_out (pw_account_loop (e # m) w) = pw_out w" "pw_total (pw_account_loop (e # m) w) = pw_total w"
    "\<And>j. summary_at (pw_localSummaries (pw_account_loop (e # m) w)) j = summary_at l j + summary_at m j"
    using Cons.IH [of "w0\<lparr>pw_localSummaries := l\<rparr>"] unfolding step by (simp_all add: w0_def)
  have "map_of m i = None" using Cons.prems(2) by (simp add: e map_of_eq_None_iff)
  then have "summary_at l j + summary_at m j = summary_at (pw_localSummaries w) j + summary_at (e # m) j" for j
    unfolding l(1) by (simp add: e summary_at_def)
  then show ?case using IH by simp
qed (simp add: summary_at_def)

lemma account_inv:
  assumes "proto_inv C fin w" "distinct (map fst m)"
  shows "proto_inv C fin (pw_AccountSnapshot m t w)"
    "proto_books (pw_AccountSnapshot m t w) k = proto_books w k + call_part (AccountSnapshot m t) k"
proof -
  let ?w = "w\<lparr>pw_total := summary_add (pw_total w) t\<rparr>"
  obtain ms where ms: "pw_out w = concat (map (frame C) ms)" "\<forall>m \<in> set ms. length (payload C m) < 2 ^ 64"
    "tables_ok fin (pw_changedSummaries w) w (foldl apply_message Reader_new ms)" using assms(1) unfolding proto_inv_def by blast
  have "tables_ok fin (pw_changedSummaries ?w) ?w (foldl apply_message Reader_new ms)" using ms(3) by (simp add: tables_ok_def)
  note A = tables_account [OF this assms(2)]
  show "proto_inv C fin (pw_AccountSnapshot m t w)" using A ms unfolding proto_inv_def pw_AccountSnapshot_def by auto
  show "proto_books (pw_AccountSnapshot m t w) k = proto_books w k + call_part (AccountSnapshot m t) k"
    using A by (simp add: proto_books_def pw_AccountSnapshot_def call_part_def split: option.split)
qed

lemma flush_inv:
  assumes "codec_ok C D" "proto_inv C fin w" "proto_room C fin x w"
  shows "proto_inv C fin (pw_FlushData C x w)" "proto_books (pw_FlushData C x w) k = proto_books w k"
    "proto_view D (pw_FlushData C x w) k = proto_books w k" "pw_changedSummaries (pw_FlushData C x w) = []"
proof -
  obtain ms where ms: "pw_out w = concat (map (frame C) ms)" "\<forall>m \<in> set ms. length (payload C m) < 2 ^ 64"
    "tables_ok fin (pw_changedSummaries w) w (foldl apply_message Reader_new ms)" using assms(2) unfolding proto_inv_def by blast
  let ?r = "foldl apply_message Reader_new ms"
  obtain w0 sn0 where start: "flush_start x w = (w0, sn0)" by fastforce
  obtain w1 sn1 where loop: "pw_flush_loop (sx_finder x) (pw_changedSummaries w) (w0, sn0) = (w1, sn1)" by fastforce
  let ?w = "pw_FlushData C x w" and ?m = "MsgSnapshot sn1"
  have w: "?w = (WriteMessage C ?m w1)\<lparr>pw_changedSummaries := []\<rparr>" using start loop by (simp add: pw_FlushData_def)
  have s0: "w0 = w\<lparr>pw_updateModules := False\<rparr>" "sn_changed sn0 = []" "sn_ptrIds sn0 = []" "sn_stacktraces sn0 = []" "sn_total sn0 = pw_total w"
    using start by (auto simp: flush_start_def)
  have "tables_ok fin (pw_changedSummaries w) w0 (apply_message ?r (MsgSnapshot sn0))"
    using ms(3) s0 by (simp add: tables_ok_def trace_known_def shown_trace_def shown_summary_def)
  moreover have "\<forall>i \<in> set (pw_changedSummaries w) - set (pw_writtenTraces w0). map_option GetTrace (sx_finder x i) = fin i"
    using assms(3) s0 by (simp add: proto_room_def)
  moreover have "length (pw_ptrMap w1) \<le> 2 ^ 32" using assms(3) by (simp add: proto_room_def w WriteMessage_def)
  ultimately have T: "tables_ok fin [] w1 (apply_message ?r ?m)" "pw_out w1 = pw_out w" "sn_total sn1 = pw_total w"
    "pw_total w1 = pw_total w" "\<And>j. summary_at (pw_localSummaries w1) j = summary_at (pw_localSummaries w) j"
    using pw_flush_loop_tables [OF _ _ _ loop, of fin ?r] s0 by (simp_all del: apply_message.simps)
  have out: "pw_out ?w = concat (map (frame C) (ms @ [?m]))" using T(2) ms(1) by (simp add: w WriteMessage_def frame_def)
  have "length (payload C ?m) \<le> length (pw_out ?w)" unfolding out by (simp add: frame_def)
  then have short: "\<forall>m \<in> set (ms @ [?m]). length (payload C m) < 2 ^ 64" using ms(2) assms(3) by (auto simp: proto_room_def)
  show "pw_changedSummaries ?w = []" by (simp add: w)
  have tab: "tables_ok fin (pw_changedSummaries ?w) ?w (foldl apply_message Reader_new (ms @ [?m]))"
    using T(1) by (simp add: w tables_ok_def WriteMessage_def del: apply_message.simps)
  then show "proto_inv C fin ?w" using out short unfolding proto_inv_def by blast
  show books: "proto_books ?w k = proto_books w k"
    using T(4,5) by (simp add: proto_books_def w WriteMessage_def split: option.split)
  have "read_file D (pw_out ?w) = Some (apply_message ?r ?m)"
    using read_file_concat [OF assms(1) short [rule_format]] unfolding out by (simp only: foldl_append foldl.simps)
  then have "proto_view D ?w k = shown_summary (apply_message ?r ?m) k" by (simp add: proto_view_def)
  also have "\<dots> = proto_books w k"
  proof (cases k)
    case None
    then show ?thesis using T(3) by (simp add: shown_summary_def proto_books_def)
  next
    case (Some i)
    then show ?thesis using tables_okD(3) [OF T(1), of i] T(5) by (simp add: proto_books_def)
  qed
  finally show "proto_view D ?w k = proto_books w k" .
qed

end
