(* ===== verification/Byte_Codec.thy ===== *)
theory Byte_Codec
  imports Proto_Writer
begin

text \<open>
  A concrete serialisation of the messages of the protobuf writer, to show that the assumptions about the
  serialisation and compression libraries can hold together: fields one after the other, lists with a
  byte before each element and a zero at the end, no compression. A decoder returns the value and the
  bytes that are left.
\<close>

type_synonym 'a dec = "u8 list \<Rightarrow> ('a \<times> u8 list) option"

definition inverts :: "('a \<Rightarrow> u8 list) \<Rightarrow> 'a dec \<Rightarrow> bool" where
  "inverts e d \<longleftrightarrow> (\<forall>x rest. d (e x @ rest) = Some (x, rest))"

lemma invertsD [simp]: "inverts e d \<Longrightarrow> d (e x @ rest) = Some (x, rest)"
  by (simp add: inverts_def)

definition enc_u64 :: "u64 \<Rightarrow> u8 list" where
  "enc_u64 v = WriteUint64BigEndian v"

definition dec_u64 :: "u64 dec" where
  "dec_u64 bs = Some (of_nat (be_value (take 8 bs)), drop 8 bs)"

definition enc_u32 :: "u32 \<Rightarrow> u8 list" where
  "enc_u32 v = enc_u64 (ucast v)"

definition dec_u32 :: "u32 dec" where
  "dec_u32 bs = map_option (apfst ucast) (dec_u64 bs)"

definition enc_char :: "char \<Rightarrow> u8 list" where
  "enc_char c = [of_char c]"

fun dec_char :: "char dec" where
  "dec_char [] = None"
| "dec_char (b # bs) = Some (char_of (unat b), bs)"

definition enc_pair :: "('a \<Rightarrow> u8 list) \<Rightarrow> ('b \<Rightarrow> u8 list) \<Rightarrow> 'a \<times> 'b \<Rightarrow> u8 list" where
  "enc_pair e f p = e (fst p) @ f (snd p)"

definition dec_pair :: "'a dec \<Rightarrow> 'b dec \<Rightarrow> ('a \<times> 'b) dec" where
  "dec_pair d g bs = do { (x, bs) \<leftarrow> d bs; (y, bs) \<leftarrow> g bs; Some ((x, y), bs) }"

fun enc_list :: "('a \<Rightarrow> u8 list) \<Rightarrow> 'a list \<Rightarrow> u8 list" where
  "enc_list e [] = [0]"
| "enc_list e (x # xs) = 1 # e x @ enc_list e xs"

primrec dec_items :: "'a dec \<Rightarrow> nat \<Rightarrow> 'a list dec" where
  "dec_items d 0 bs = None"
| "dec_items d (Suc n) bs =
     (case bs of
        [] \<Rightarrow> None
      | b # bs \<Rightarrow>
          if b = 0 then Some ([], bs)
          else do { (x, bs) \<leftarrow> d bs; (xs, bs) \<leftarrow> dec_items d n bs; Some (x # xs, bs) })"

definition dec_list :: "'a dec \<Rightarrow> 'a list dec" where
  "dec_list d bs = dec_items d (length bs) bs"

lemma inverts_u64: "inverts enc_u64 dec_u64"
  by (simp add: inverts_def enc_u64_def dec_u64_def)

lemma inverts_u32: "inverts enc_u32 dec_u32"
proof -
  have "ucast (ucast v :: u64) = v" for v :: u32 by (rule bit_eqI) (simp add: bit_simps)
  then show ?thesis using inverts_u64 by (simp add: inverts_def enc_u32_def dec_u32_def)
qed

lemma inverts_char: "inverts enc_char dec_char"
proof -
  have "unat (of_char c :: u8) = of_char c" for c :: char
    by (cases c) (simp add: of_char_def horner_sum_simps unat_word_ariths split: if_splits bool.splits)
  then show ?thesis by (simp add: inverts_def enc_char_def)
qed

lemma inverts_pair: "inverts e d \<Longrightarrow> inverts f g \<Longrightarrow> inverts (enc_pair e f) (dec_pair d g)"
  by (simp add: inverts_def enc_pair_def dec_pair_def)

lemma inverts_list:
  assumes "inverts e d"
  shows "inverts (enc_list e) (dec_list d)"
proof -
  have "dec_items d n (enc_list e xs @ rest) = Some (xs, rest)" if "length xs < n" for n xs rest
    using that
  proof (induction xs arbitrary: n)
    case Nil
    then show ?case by (cases n) simp_all
  next
    case (Cons x xs)
    then obtain m where "n = Suc m" "length xs < m" by (cases n) auto
    then show ?case using Cons.IH assms by simp
  qed
  moreover have "length xs < length (enc_list e xs)" for xs by (induction xs) auto
  ultimately show ?thesis by (simp add: inverts_def dec_list_def trans_less_add1)
qed

lemma inverts_map:
  assumes "inverts e d" "\<And>x. g (f x) = x"
  shows "inverts (\<lambda>x. e (f x)) (\<lambda>bs. map_option (apfst g) (d bs))"
  using assms by (simp add: inverts_def)

section \<open>Messages\<close>

definition enc_summary :: "AllocSummary \<Rightarrow> u8 list" where
  "enc_summary s =
     enc_pair enc_u64 (enc_pair enc_u64 (enc_pair enc_u64 (enc_pair enc_u64 enc_u64)))
       (sm_size s, sm_overhead s, sm_active s, sm_totalCount s, sm_totalBytes s)"

definition dec_summary :: "AllocSummary dec" where
  "dec_summary bs = map_option (apfst (\<lambda>(a, b, c, d, e). AllocSummary a b c d e))
     (dec_pair dec_u64 (dec_pair dec_u64 (dec_pair dec_u64 (dec_pair dec_u64 dec_u64))) bs)"

lemmas inverts_intros = inverts_u64 inverts_u32 inverts_char inverts_pair inverts_list

lemma inverts_summary: "inverts enc_summary dec_summary"
  unfolding enc_summary_def dec_summary_def by (rule inverts_map) (intro inverts_intros, simp)

definition enc_elf :: "ElfInfo \<Rightarrow> u8 list" where
  "enc_elf i = enc_pair (enc_list enc_char) (enc_pair enc_u64 (enc_list (enc_pair enc_u64 enc_u64)))
     (elf_filename i, elf_addr i, elf_segments i)"

definition dec_elf :: "ElfInfo dec" where
  "dec_elf bs = map_option (apfst (\<lambda>(a, b, c). \<lparr>elf_filename = a, elf_addr = b, elf_segments = c\<rparr>))
     (dec_pair (dec_list dec_char) (dec_pair dec_u64 (dec_list (dec_pair dec_u64 dec_u64))) bs)"

lemma inverts_elf: "inverts enc_elf dec_elf"
  unfolding enc_elf_def dec_elf_def by (rule inverts_map) (intro inverts_intros, simp)

definition enc_process :: "ProcessInfo \<Rightarrow> u8 list" where
  "enc_process p = enc_pair (enc_list enc_char) (enc_pair (enc_list enc_char) (enc_pair enc_u32 enc_u64))
     (pi_shortName p, pi_fullPath p, pi_pid p, pi_startTimestamp p)"

definition dec_process :: "ProcessInfo dec" where
  "dec_process bs = map_option
     (apfst (\<lambda>(a, b, c, d). \<lparr>pi_shortName = a, pi_fullPath = b, pi_pid = c, pi_startTimestamp = d\<rparr>))
     (dec_pair (dec_list dec_char) (dec_pair (dec_list dec_char) (dec_pair dec_u32 dec_u64)) bs)"

lemma inverts_process: "inverts enc_process dec_process"
  unfolding enc_process_def dec_process_def by (rule inverts_map) (intro inverts_intros, simp)

definition enc_snapshot :: "Snapshot \<Rightarrow> u8 list" where
  "enc_snapshot s =
     enc_pair enc_u64 (enc_pair (enc_list (enc_pair enc_u32 enc_summary)) (enc_pair (enc_list (enc_pair enc_u32 enc_u64))
       (enc_pair (enc_list (enc_pair enc_u32 (enc_list enc_u32))) (enc_pair (enc_list enc_elf) enc_summary))))
       (sn_timestamp s, sn_changed s, sn_ptrIds s, sn_stacktraces s, sn_loadedSo s, sn_total s)"

definition dec_snapshot :: "Snapshot dec" where
  "dec_snapshot bs = map_option
     (apfst (\<lambda>(a, b, c, d, e, f). \<lparr>sn_timestamp = a, sn_changed = b, sn_ptrIds = c, sn_stacktraces = d, sn_loadedSo = e, sn_total = f\<rparr>))
     (dec_pair dec_u64 (dec_pair (dec_list (dec_pair dec_u32 dec_summary)) (dec_pair (dec_list (dec_pair dec_u32 dec_u64))
       (dec_pair (dec_list (dec_pair dec_u32 (dec_list dec_u32))) (dec_pair (dec_list dec_elf) dec_summary)))) bs)"

lemma inverts_snapshot: "inverts enc_snapshot dec_snapshot"
  unfolding enc_snapshot_def dec_snapshot_def by (rule inverts_map) (intro inverts_intros inverts_summary inverts_elf, simp)

fun enc_message :: "message \<Rightarrow> u8 list" where
  "enc_message (MsgProcess p) = 0 # enc_process p"
| "enc_message (MsgSnapshot s) = 1 # enc_snapshot s"

fun dec_message :: "u8 list \<Rightarrow> message option" where
  "dec_message [] = None"
| "dec_message (b # bs) =
     (if b = 0 then map_option (MsgProcess \<circ> fst) (dec_process bs) else map_option (MsgSnapshot \<circ> fst) (dec_snapshot bs))"

definition plain_codec :: codec where
  "plain_codec = \<lparr>co_serialize = enc_message, co_compress = (\<lambda>b. b)\<rparr>"

definition plain_decoder :: decoder where
  "plain_decoder = \<lparr>de_decompress = Some, de_parse = dec_message\<rparr>"

lemma plain_codec_ok: "codec_ok plain_codec plain_decoder"
proof -
  have "dec_message (enc_message m) = Some m" for m
    using invertsD [OF inverts_process, of _ "[]"] invertsD [OF inverts_snapshot, of _ "[]"] by (cases m) simp_all
  then show ?thesis by (simp add: codec_ok_def plain_codec_def plain_decoder_def)
qed

end
