(* ===== verification/Proto_File.thy ===== *)
theory Proto_File
  imports Byte_Codec
begin

text \<open>
  The protobuf file as a whole: the writer fulfils the interface of the writers, and whoever reads its
  file after a flush knows the sums of everything it was told and the stack traces they belong to.
\<close>

section \<open>The interface\<close>

interpretation proto: writer pw_AccountSnapshot pw_UpdateModules "\<lambda>x w. Some (pw_FlushData C x w)"
  "\<lambda>w. codec_ok C D \<and> proto_inv C fin w" proto_books call_part "proto_view D" "\<lambda>_ s. s" "proto_room C fin"
  for C D fin
proof unfold_locales
  fix k show "call_part UpdateModules k = 0" by simp
next
  fix k show "call_part FlushData k = 0" by simp
next
  fix w and m :: "(u32 \<times> AllocSummary) list" and t assume "codec_ok C D \<and> proto_inv C fin w" "distinct (map fst m)"
  then show "codec_ok C D \<and> proto_inv C fin (pw_AccountSnapshot m t w)" using account_inv(1) by blast
next
  fix w and m :: "(u32 \<times> AllocSummary) list" and t k assume "codec_ok C D \<and> proto_inv C fin w" "distinct (map fst m)"
  then show "proto_books (pw_AccountSnapshot m t w) k = proto_books w k + call_part (AccountSnapshot m t) k"
    using account_inv(2) by blast
next
  fix w assume "codec_ok C D \<and> proto_inv C fin w"
  then show "codec_ok C D \<and> proto_inv C fin (pw_UpdateModules w)"
    by (simp add: proto_inv_def pw_UpdateModules_def tables_ok_def)
next
  fix w k show "proto_books (pw_UpdateModules w) k = proto_books w k"
    by (simp add: proto_books_def pw_UpdateModules_def split: option.split)
next
  fix w x assume "codec_ok C D \<and> proto_inv C fin w" "proto_room C fin x w"
  then show "\<exists>w'. Some (pw_FlushData C x w) = Some w' \<and> (codec_ok C D \<and> proto_inv C fin w') \<and>
      (\<forall>k. proto_books w' k = proto_books w k \<and> proto_view D w' k = proto_books w k)"
    using flush_inv by blast
qed

abbreviation proto_run :: "codec \<Rightarrow> (writer_call \<times> surroundings) list \<Rightarrow> ProtobufWriter \<Rightarrow> ProtobufWriter option" where
  "proto_run C \<equiv> run_calls pw_AccountSnapshot pw_UpdateModules (\<lambda>x w. Some (pw_FlushData C x w))"

abbreviation proto_flushes_ok :: "codec \<Rightarrow> (u32 \<Rightarrow> ptr list option) \<Rightarrow> (writer_call \<times> surroundings) list \<Rightarrow> ProtobufWriter \<Rightarrow> bool" where
  "proto_flushes_ok C fin \<equiv> flushes_ok pw_AccountSnapshot pw_UpdateModules (\<lambda>x w. Some (pw_FlushData C x w)) (proto_room C fin)"

section \<open>Identifiers that were reported\<close>

lemma account_loop_keys:
  "fst ` set (pw_localSummaries (pw_account_loop m w)) = fst ` set (pw_localSummaries w) \<union> fst ` set m"
proof (induction m w rule: pw_account_loop.induct)
  case (2 i s rest w)
  show ?case
  proof (cases "map_of (pw_localSummaries w) i")
    case None
    then show ?thesis using 2 by (simp add: keys_insert_set Let_def)
  next
    case (Some a)
    then have "i \<in> fst ` set (pw_localSummaries w)" by (force dest: map_of_SomeD)
    then show ?thesis using 2 Some by (auto simp: keys_modify_set Let_def)
  qed
qed simp

lemma flush_keys: "fst ` set (pw_localSummaries w) \<subseteq> fst ` set (pw_localSummaries (pw_FlushData C x w))"
proof -
  have add: "pw_localSummaries (fst (AddStacktrace finder i ws)) = pw_localSummaries (fst ws)" for finder i ws
    by (cases ws) (auto simp: AddStacktrace_def split: option.split prod.split)
  have fill: "fst ` set (pw_localSummaries (fst ws)) \<subseteq> fst ` set (pw_localSummaries (fst (FillChangedSummary i ws)))" for i ws
    by (cases ws) (auto simp: FillChangedSummary_def map_insert_def split: option.split)
  have "fst ` set (pw_localSummaries (fst ws)) \<subseteq> fst ` set (pw_localSummaries (fst (pw_flush_loop finder todo ws)))" for finder todo ws
  proof (induction todo arbitrary: ws)
    case (Cons i todo)
    define v where "v = (if i \<in> set (pw_writtenTraces (fst ws)) then ws
      else let (w, sn) = AddStacktrace finder i ws in (w\<lparr>pw_writtenTraces := List.insert i (pw_writtenTraces w)\<rparr>, sn))"
    have "pw_localSummaries (fst v) = pw_localSummaries (fst ws)"
      using add [of finder i ws] by (simp add: v_def split_beta)
    moreover have "pw_flush_loop finder (i # todo) ws = pw_flush_loop finder todo (FillChangedSummary i v)"
      by (simp add: v_def Let_def)
    ultimately show ?case using fill [of v i] Cons.IH [of "FillChangedSummary i v"] by auto
  qed simp
  from this [of "flush_start x w"] show ?thesis
    by (simp add: pw_FlushData_def flush_start_def WriteMessage_def split_beta Let_def)
qed

lemma run_keys:
  assumes "proto_run C cs w = Some w'"
  shows "fst ` set (pw_localSummaries w) \<union> (\<Union>c \<in> set (map fst cs). fst ` set (call_summaries c)) \<subseteq> fst ` set (pw_localSummaries w')"
  using assms
proof (induction cs arbitrary: w)
  case (Cons cx cs)
  obtain c x where cx: "cx = (c, x)" by (cases cx)
  have acc: "fst ` set (pw_localSummaries (pw_AccountSnapshot m t w)) = fst ` set (pw_localSummaries w) \<union> fst ` set m" for m t
    by (simp add: pw_AccountSnapshot_def account_loop_keys)
  show ?case
  proof (cases c)
    case (AccountSnapshot m t)
    then show ?thesis using Cons.IH [of "pw_AccountSnapshot m t w"] Cons.prems acc [of m t] by (auto simp: cx)
  next
    case UpdateModules
    then show ?thesis using Cons.IH [of "pw_UpdateModules w"] Cons.prems by (simp add: cx pw_UpdateModules_def)
  next
    case FlushData
    then show ?thesis using Cons.IH [of "pw_FlushData C x w"] Cons.prems flush_keys [of w C x] by (auto simp: cx)
  qed
qed simp

section \<open>The file\<close>

lemma start_inv:
  assumes "length (payload C (MsgProcess info)) < 2 ^ 64"
  shows "proto_inv C fin (WriteProcessInfo C info ProtobufWriter_empty)"
    "proto_books (WriteProcessInfo C info ProtobufWriter_empty) k = 0"
proof -
  show "proto_inv C fin (WriteProcessInfo C info ProtobufWriter_empty)"
    unfolding proto_inv_def
    by (rule exI [of _ "[MsgProcess info]"])
      (use assms in \<open>simp add: WriteProcessInfo_def WriteMessage_def ProtobufWriter_empty_def frame_def tables_ok_def
        pointers_ok_def Reader_new_def shown_summary_def summary_at_def\<close>)
  show "proto_books (WriteProcessInfo C info ProtobufWriter_empty) k = 0"
    by (simp add: proto_books_def WriteProcessInfo_def WriteMessage_def ProtobufWriter_empty_def summary_at_def split: option.split)
qed

lemma new_inv:
  assumes "codec_ok C D" "length (payload C (MsgProcess info)) < 2 ^ 64"
    and "proto_room C fin x (pw_AccountSnapshot [(0, 0)] 0 (WriteProcessInfo C info ProtobufWriter_empty))"
  shows "proto_inv C fin (ProtobufWriter_new C info x)" "proto_books (ProtobufWriter_new C info x) k = 0"
proof -
  have d: "distinct (map fst [(0 :: u32, 0 :: AllocSummary)])" by simp
  note A = account_inv [OF start_inv(1) [OF assms(2), of fin] d, of 0]
  note F = flush_inv [OF assms(1) A(1) assms(3)]
  show "proto_inv C fin (ProtobufWriter_new C info x)" using F(1) by (simp add: ProtobufWriter_new_def)
  have "call_part (AccountSnapshot [(0, 0)] 0) k = 0" by (simp add: call_part_def summary_at_def split: option.split)
  then show "proto_books (ProtobufWriter_new C info x) k = 0"
    using F(2) [of k] A(2) [of k] start_inv(2) [OF assms(2), of k] by (simp add: ProtobufWriter_new_def)
qed

lemma run_last_flush:
  assumes "proto_run C cs w = Some w'" "cs \<noteq> []" "fst (last cs) = FlushData"
  shows "\<exists>v x. w' = pw_FlushData C x v"
  using assms
proof (induction cs arbitrary: w)
  case (Cons cx cs)
  obtain c x where cx: "cx = (c, x)" by (cases cx)
  show ?case
  proof (cases "cs = []")
    case True
    then show ?thesis using Cons.prems by (auto simp: cx)
  next
    case False
    then show ?thesis using Cons by (auto simp: cx bind_eq_Some_conv)
  qed
qed simp

lemma flush_clears: "pw_changedSummaries (pw_FlushData C x w) = []"
  by (simp add: pw_FlushData_def split_beta Let_def)

lemma proto_run_file:
  assumes "codec_ok C D" "length (payload C (MsgProcess info)) < 2 ^ 64"
    and "proto_room C fin x (pw_AccountSnapshot [(0, 0)] 0 (WriteProcessInfo C info ProtobufWriter_empty))"
    and "snapshots_distinct (map fst cs)" "proto_flushes_ok C fin cs (ProtobufWriter_new C info x)"
    and "cs \<noteq> []" "fst (last cs) = FlushData"
  shows "\<exists>w r. proto_run C cs (ProtobufWriter_new C info x) = Some w \<and> read_file D (pw_out w) = Some r \<and>
    (\<forall>k. shown_summary r k = calls_sum (map fst cs) k) \<and>
    (\<forall>c \<in> set (map fst cs). \<forall>i \<in> fst ` set (call_summaries c). shown_trace r i = frames_shown fin i)"
proof -
  let ?w0 = "ProtobufWriter_new C info x"
  have "codec_ok C D \<and> proto_inv C fin ?w0" using assms(1) new_inv(1) [OF assms(1-3)] by blast
  from proto.run_shows [OF this assms(4,5)] obtain w where w: "proto_run C cs ?w0 = Some w" "proto_inv C fin w"
    "\<And>k. proto_books w k = proto_books ?w0 k + calls_sum (map fst cs) k" "\<And>k. proto_view D w k = proto_books w k"
    using assms(6,7) unfolding calls_sum_def by blast
  obtain ms where ms: "pw_out w = concat (map (frame C) ms)" "\<forall>m \<in> set ms. length (payload C m) < 2 ^ 64"
    "tables_ok fin (pw_changedSummaries w) w (foldl apply_message Reader_new ms)" using w(2) unfolding proto_inv_def by blast
  let ?r = "foldl apply_message Reader_new ms"
  have r: "read_file D (pw_out w) = Some ?r" using read_file_concat [OF assms(1) ms(2) [rule_format]] ms(1) by simp
  have sums: "shown_summary ?r k = calls_sum (map fst cs) k" for k
    using w(3,4) [of k] new_inv(2) [OF assms(1-3), of k] r by (simp add: proto_view_def)
  have none: "pw_changedSummaries w = []" using run_last_flush [OF w(1) assms(6,7)] flush_clears by metis
  have "shown_trace ?r i = frames_shown fin i" if "c \<in> set (map fst cs)" "i \<in> fst ` set (call_summaries c)" for c i
  proof -
    have "i \<in> fst ` set (pw_localSummaries w)" using run_keys [OF w(1)] that by blast
    then have "map_of (pw_localSummaries w) i \<noteq> None" by (simp add: map_of_eq_None_iff)
    then have "i \<in> set (pw_writtenTraces w)" using tables_okD(6) [OF ms(3), of i] none by auto
    from tables_okD(4) [OF ms(3) this] show ?thesis by (simp add: trace_known_def)
  qed
  then show ?thesis using w(1) r sums by blast
qed

section \<open>Properties\<close>

text \<open>
  C16. The protobuf file. Feed the writer, from its construction on, with any calls of the worker that end
  with a flush, where the snapshots are maps, the finder knows the traces as \<open>fin\<close> says when they are
  written, and pointer identifiers and file sizes stay in 32 and 64 bits. Then the file can be read:
  cutting it into frames, decompressing and parsing succeeds, the summary that a reader has for every
  identifier is the sum of all that was reported for it, the total is the sum of the reported totals, and
  for every reported identifier the reader resolves the frames of its stack trace (return addresses minus
  one), if the finder knew it.
\<close>

theorem proto_file_complete:
  assumes "codec_ok C D" "length (payload C (MsgProcess info)) < 2 ^ 64"
    and "proto_room C fin x (pw_AccountSnapshot [(0, 0)] 0 (WriteProcessInfo C info ProtobufWriter_empty))"
    and "snapshots_distinct (map fst cs)" "proto_flushes_ok C fin cs (ProtobufWriter_new C info x)"
    and "cs \<noteq> []" "fst (last cs) = FlushData"
  shows "\<exists>w r. proto_run C cs (ProtobufWriter_new C info x) = Some w \<and> read_file D (pw_out w) = Some r \<and>
    (\<forall>k. shown_summary r k = calls_sum (map fst cs) k) \<and>
    (\<forall>c \<in> set (map fst cs). \<forall>i \<in> fst ` set (call_summaries c). shown_trace r i = frames_shown fin i)"
  using proto_run_file [OF assms] .

definition demo_finder :: "u32 \<Rightarrow> Stacktrace option" where
  "demo_finder i = (if i = 5 then Some demo_trace else None)"

definition demo_fin :: "u32 \<Rightarrow> ptr list option" where
  "demo_fin i = map_option GetTrace (demo_finder i)"

definition demo_surroundings :: surroundings where
  "demo_surroundings =
     \<lparr>sx_now = 1, sx_elapsed = 1, sx_maxrss = 1, sx_modules = [], sx_progname = ''p'', sx_finder = demo_finder\<rparr>"

definition demo_info :: ProcessInfo where
  "demo_info = \<lparr>pi_shortName = ''p'', pi_fullPath = ''p'', pi_pid = 1, pi_startTimestamp = 1\<rparr>"

definition demo_calls :: "(writer_call \<times> surroundings) list" where
  "demo_calls =
     [(AccountSnapshot [(5, AllocSummary 8 16 1 1 8)] (AllocSummary 8 16 1 1 8), demo_surroundings), (UpdateModules, demo_surroundings),
      (FlushData, demo_surroundings)]"

lemma enc_lengths [simp]:
  "length (enc_u64 v) = 8" "length (enc_u32 u) = 8" "length (enc_char c) = 1" "length (enc_summary s) = 40"
  "length (enc_pair e f p) = length (e (fst p)) + length (f (snd p))"
  by (simp_all add: enc_u64_def enc_u32_def enc_char_def enc_summary_def enc_pair_def)

lemmas demo_defs = demo_surroundings_def demo_info_def demo_fin_def demo_finder_def pw_AccountSnapshot_def WriteProcessInfo_def
  WriteMessage_def ProtobufWriter_empty_def pw_FlushData_def flush_start_def FillChangedSummary_def AddStacktrace_def payload_def
  plain_codec_def enc_process_def enc_snapshot_def map_insert_def pw_UpdateModules_def

lemma demo_start:
  "length (payload plain_codec (MsgProcess demo_info)) < 2 ^ 64"
  "proto_room plain_codec demo_fin demo_surroundings (pw_AccountSnapshot [(0, 0)] 0 (WriteProcessInfo plain_codec demo_info ProtobufWriter_empty))"
  by (simp_all add: proto_room_def demo_defs)

lemma demo_new:
  "\<exists>out. ProtobufWriter_new plain_codec demo_info demo_surroundings =
     \<lparr>pw_out = out, pw_total = 0, pw_localSummaries = [(0, 0)], pw_changedSummaries = [], pw_writtenTraces = [0],
      pw_ptrMap = [], pw_updateModules = False\<rparr> \<and> length out < 1000"
  by (simp add: ProtobufWriter_new_def demo_defs)

lemma demo_flushes: "proto_flushes_ok plain_codec demo_fin demo_calls (ProtobufWriter_new plain_codec demo_info demo_surroundings)"
proof -
  obtain out where out: "ProtobufWriter_new plain_codec demo_info demo_surroundings =
     \<lparr>pw_out = out, pw_total = 0, pw_localSummaries = [(0, 0)], pw_changedSummaries = [], pw_writtenTraces = [0],
      pw_ptrMap = [], pw_updateModules = False\<rparr>" "length out < 1000" using demo_new by blast
  show ?thesis unfolding out using out(2)
    by (simp add: demo_calls_def proto_room_def demo_defs)
qed

theorem proto_file_complete_witness:
  "\<exists>w r. proto_run plain_codec demo_calls (ProtobufWriter_new plain_codec demo_info demo_surroundings) = Some w \<and>
    read_file plain_decoder (pw_out w) = Some r \<and> shown_summary r (Some 5) = AllocSummary 8 16 1 1 8 \<and>
    shown_trace r 5 = Some [4, 3, 2, 1, 0]"
proof -
  obtain w r where w: "proto_run plain_codec demo_calls (ProtobufWriter_new plain_codec demo_info demo_surroundings) = Some w"
    "read_file plain_decoder (pw_out w) = Some r" "\<forall>k. shown_summary r k = calls_sum (map fst demo_calls) k"
    "\<forall>c \<in> set (map fst demo_calls). \<forall>i \<in> fst ` set (call_summaries c). shown_trace r i = frames_shown demo_fin i"
    using proto_file_complete [OF plain_codec_ok demo_start _ demo_flushes] by (auto simp: demo_calls_def snapshots_distinct_def)
  have "calls_sum (map fst demo_calls) (Some 5) = AllocSummary 8 16 1 1 8"
    by (simp add: calls_sum_def demo_calls_def call_part_def summary_at_def)
  moreover have "frames_shown demo_fin 5 = Some [4, 3, 2, 1, 0]" by (simp add: frames_shown_def demo_fin_def demo_finder_def)
  moreover have "shown_trace r 5 = frames_shown demo_fin 5" using w(4) by (simp add: demo_calls_def)
  ultimately show ?thesis using w(1-3) by (intro exI [of _ w] exI [of _ r]) simp
qed

end
