(* ===== verification/Hex_Lines.thy ===== *)
theory Hex_Lines
  imports Text_Numbers
begin

text \<open>
  The hexadecimal output of the heaptrack writer (\<open>src/source/memhawk/src/impl/writers/heaptrack_writer.cpp\<close>,
  \<open>WriteHexValue\<close> and \<open>WriteHexLine\<close>). A number is rendered in a buffer of 16 characters, last digit first;
  an access outside the buffer or outside the table of digits is \<open>None\<close>.
\<close>

section \<open>The model\<close>

definition hexChars :: string where
  "hexChars = ''0123456789abcdef''"

function hex_loop :: "string \<Rightarrow> nat \<Rightarrow> int \<Rightarrow> (string \<times> nat \<times> int) option" where
  "hex_loop buf data value =
     (if 15 < value
      then do { c \<leftarrow> rd hexChars (nat (value mod 16));
                buf \<leftarrow> wr buf data c;
                hex_loop buf (data + 1) (value div 16) }
      else Some (buf, data, value))"
  by pat_completeness auto
termination
  by (relation "measure (\<lambda>(_, _, v). nat v)") auto

declare hex_loop.simps [simp del]

definition WriteHexValue :: "int \<Rightarrow> string option" where
  "WriteHexValue value =
     do { (buf, data, value) \<leftarrow> hex_loop (replicate 16 CHR 0x00) 0 value;
          c \<leftarrow> (if value < 0 then None else rd hexChars (nat value));
          buf \<leftarrow> wr buf data c;
          let data = data + 1;
          let buf = rev (take data buf) @ drop data buf;
          buf \<leftarrow> wr buf data CHR 0x00;
          Some (takeWhile (\<lambda>c. c \<noteq> CHR 0x00) buf) }"

text \<open>The arguments of \<open>WriteHexLine\<close>: texts are written as they are, numbers in hexadecimal.\<close>

datatype hex_arg = Txt string | Num int

fun hex_arg_text :: "hex_arg \<Rightarrow> string option" where
  "hex_arg_text (Txt s) = Some s"
| "hex_arg_text (Num v) = WriteHexValue v"

fun WriteHexLine :: "hex_arg list \<Rightarrow> string option" where
  "WriteHexLine [] = None"
| "WriteHexLine [a] = hex_arg_text a"
| "WriteHexLine (a # b # args) =
     do { s \<leftarrow> hex_arg_text a; r \<leftarrow> WriteHexLine (b # args); Some (s @ '' '' @ r) }"

section \<open>Hexadecimal numbers\<close>

fun hex_digits :: "nat \<Rightarrow> string" where
  "hex_digits n = (if n < 16 then [hexChars ! n] else hex_digits (n div 16) @ [hexChars ! (n mod 16)])"

declare hex_digits.simps [simp del]

definition hex_digit :: "char \<Rightarrow> nat" where
  "hex_digit c = (if is_digit c then of_char c - 48 else of_char c - 87)"

definition hex_value :: "string \<Rightarrow> nat" where
  "hex_value s = foldl (\<lambda>n c. 16 * n + hex_digit c) 0 s"

lemma length_hexChars [simp]: "length hexChars = 16"
  by (simp add: hexChars_def)

lemma below_16: "n < 16 \<Longrightarrow> n \<in> set [0..<16]"
  by simp

lemma hex_char:
  assumes "n < 16"
  shows "hex_digit (hexChars ! n) = n" "hexChars ! n \<noteq> CHR '' ''" "hexChars ! n \<noteq> CHR 0x0A" "hexChars ! n \<noteq> CHR 0x00"
proof -
  have "\<forall>n \<in> set [0..<16]. hex_digit (hexChars ! n) = n \<and> hexChars ! n \<noteq> CHR '' '' \<and> hexChars ! n \<noteq> CHR 0x0A \<and> hexChars ! n \<noteq> CHR 0x00"
    by (simp add: hexChars_def hex_digit_def is_digit_def upt_rec)
  then show "hex_digit (hexChars ! n) = n" "hexChars ! n \<noteq> CHR '' ''" "hexChars ! n \<noteq> CHR 0x0A" "hexChars ! n \<noteq> CHR 0x00"
    using below_16 [OF assms] by blast+
qed

lemma hex_digits_nonempty [simp]: "hex_digits n \<noteq> []"
  by (subst hex_digits.simps) simp

lemma hex_digits_plain: "CHR '' '' \<notin> set (hex_digits n)" "CHR 0x0A \<notin> set (hex_digits n)" "CHR 0x00 \<notin> set (hex_digits n)"
proof -
  have "CHR '' '' \<notin> set (hex_digits n) \<and> CHR 0x0A \<notin> set (hex_digits n) \<and> CHR 0x00 \<notin> set (hex_digits n)"
  proof (induction n rule: hex_digits.induct)
    case (1 n)
    then show ?case
      using hex_char [of n] hex_char [of "n mod 16"] by (subst (1 2 3) hex_digits.simps) (auto simp: eq_commute)
  qed
  then show "CHR '' '' \<notin> set (hex_digits n)" "CHR 0x0A \<notin> set (hex_digits n)" "CHR 0x00 \<notin> set (hex_digits n)" by blast+
qed

lemma hex_value_digits [simp]: "hex_value (hex_digits n) = n"
proof (induction n rule: hex_digits.induct)
  case (1 n)
  then show ?case
    by (subst hex_digits.simps) (auto simp: hex_value_def hex_char)
qed

lemma hex_digits_length: "length (hex_digits n) \<le> Suc k \<longleftrightarrow> n < 16 ^ Suc k"
proof (induction k arbitrary: n)
  case 0
  then show ?case by (subst hex_digits.simps) (simp add: Suc_le_eq)
next
  case (Suc k)
  show ?case
  proof (cases "n < 16")
    case True
    have "(16 :: nat) ^ 1 \<le> 16 ^ Suc (Suc k)" by (rule power_increasing) simp_all
    then have "n < 16 ^ Suc (Suc k)" using True by (simp only: power_one_right)
    then show ?thesis using True by (simp add: hex_digits.simps [of n])
  next
    case False
    then have "length (hex_digits n) = Suc (length (hex_digits (n div 16)))" by (simp add: hex_digits.simps [of n])
    then show ?thesis using Suc [of "n div 16"] by (simp add: div_less_iff_less_mult ac_simps)
  qed
qed

section \<open>The buffer\<close>

text \<open>The digits but the first, last one first, are in the buffer when the loop ends.\<close>

lemma hex_loop_runs:
  assumes "length ds + length (hex_digits v) \<le> 16"
  shows "hex_loop (ds @ replicate (16 - length ds) z) (length ds) (int v) =
    Some ((ds @ rev (tl (hex_digits v))) @ replicate (17 - length ds - length (hex_digits v)) z,
      length ds + length (hex_digits v) - 1, int (hex_value [hd (hex_digits v)]))"
  using assms
proof (induction v arbitrary: ds rule: hex_digits.induct)
  case (1 v)
  show ?case
  proof (cases "v < 16")
    case True
    then show ?thesis by (simp add: hex_digits.simps [of v] hex_loop.simps hex_value_def hex_char)
  next
    case False
    let ?c = "hexChars ! (v mod 16)"
    have d: "hex_digits v = hex_digits (v div 16) @ [?c]" using False by (simp add: hex_digits.simps [of v])
    have len: "length ds + length (hex_digits (v div 16)) < 16" using "1.prems" d by simp
    moreover have "0 < length (hex_digits (v div 16))" by simp
    ultimately have l: "length ds < 15" by linarith
    then have r: "replicate (16 - length ds) z = z # replicate (16 - length (ds @ [?c])) z"
      by (simp add: Suc_diff_Suc flip: replicate_Suc)
    have "hex_loop (ds @ replicate (16 - length ds) z) (length ds) (int v) =
        hex_loop ((ds @ [?c]) @ replicate (16 - length (ds @ [?c])) z) (length (ds @ [?c])) (int (v div 16))"
      unfolding r using False l
      by (subst hex_loop.simps) (simp add: access_simps zdiv_int nat_mod_distrib list_update_append)
    also have "\<dots> = Some (((ds @ [?c]) @ rev (tl (hex_digits (v div 16)))) @ replicate (17 - length (ds @ [?c]) - length (hex_digits (v div 16))) z,
      length (ds @ [?c]) + length (hex_digits (v div 16)) - 1, int (hex_value [hd (hex_digits (v div 16))]))"
      using False len by (intro "1.IH") simp_all
    finally show ?thesis by (simp add: d)
  qed
qed

lemma hex_loop_index:
  assumes "hex_loop buf data (int v) = Some (buf', data', v')"
  shows "length buf' = length buf \<and> Suc data' = data + length (hex_digits v)"
  using assms
proof (induction v arbitrary: buf data rule: hex_digits.induct)
  case (1 v)
  show ?case
  proof (cases "v < 16")
    case True
    then show ?thesis using "1.prems" by (simp add: hex_loop.simps hex_digits.simps [of v])
  next
    case False
    then obtain c where "hex_loop (buf[data := c]) (data + 1) (int (v div 16)) = Some (buf', data', v')"
      using "1.prems" by (subst (asm) hex_loop.simps) (auto simp: bind_eq_Some_conv wr_eq_Some_iff zdiv_int)
    from "1.IH" [OF False this] show ?thesis using False by (simp add: hex_digits.simps [of v])
  qed
qed

lemma WriteHexValue_short:
  assumes "length (hex_digits v) \<le> 15"
  shows "WriteHexValue (int v) = Some (hex_digits v)"
proof -
  let ?h = "hex_digits v" and ?z = "CHR 0x00"
  obtain h t where ht: "?h = h # t" by (cases ?h) simp_all
  obtain k where k: "k < 16" "h = hexChars ! k"
  proof -
    have "\<exists>k < 16. hd (hex_digits v) = hexChars ! k"
      by (induction v rule: hex_digits.induct) (subst hex_digits.simps, auto simp: hd_append)
    then show thesis using that ht by auto
  qed
  have hv: "hex_value [h] = k" using k by (simp add: hex_value_def hex_char)
  have len: "length t < 15" using assms ht by simp
  have loop: "hex_loop (replicate 16 ?z) 0 (int v) = Some (rev t @ replicate (16 - length t) ?z, length t, int k)"
    using hex_loop_runs [of "[]" v ?z] assms ht hv by simp
  have r: "replicate (16 - length t) ?z = ?z # ?z # replicate (14 - length t) ?z"
    using len by (simp add: Suc_diff_Suc flip: replicate_Suc)
  have nz: "?z \<notin> set ?h" by (rule hex_digits_plain)
  then have tw: "takeWhile (\<lambda>c. c \<noteq> ?z) ((h # t) @ ?z # u) = h # t" for u unfolding ht [symmetric] by (subst takeWhile_append2) auto
  show ?thesis
    using loop k tw len
    by (simp add: WriteHexValue_def r access_simps list_update_append ht Let_def)
qed

lemma WriteHexValue_iff:
  "WriteHexValue v = (if 0 \<le> v \<and> v < 2 ^ 60 then Some (hex_digits (nat v)) else None)"
proof (cases "0 \<le> v")
  case False
  then show ?thesis by (simp add: WriteHexValue_def hex_loop.simps)
next
  case True
  then obtain n where v: "v = int n" using nonneg_int_cases by blast
  have len: "length (hex_digits n) \<le> 15 \<longleftrightarrow> n < 2 ^ 60" using hex_digits_length [of n 14] by simp
  show ?thesis
  proof (cases "n < 2 ^ 60")
    case True
    then show ?thesis using WriteHexValue_short [of n] len by (simp add: v)
  next
    case False
    have "WriteHexValue (int n) = None"
    proof (rule ccontr)
      assume "WriteHexValue (int n) \<noteq> None"
      then obtain buf data v' where l: "hex_loop (replicate 16 CHR 0x00) 0 (int n) = Some (buf, data, v')" "Suc data < length buf"
        by (auto simp: WriteHexValue_def bind_eq_Some_conv wr_eq_Some_iff Let_def)
      then show False using hex_loop_index [OF l(1)] len False by simp
    qed
    then show ?thesis using False by (simp add: v)
  qed
qed

end
