(* ===== verification/Heaptrack_Writer.thy ===== *)
theory Heaptrack_Writer
  imports Writer_Interface Hex_Lines
begin

text \<open>
  The heaptrack writer (\<open>src/source/memhawk/src/impl/writers/heaptrack_writer.cpp\<close>, \<open>heaptrack_writer.h\<close>).

  The output is the text of the file. The writer keeps its own prefix tree of stack traces; a new node of
  the tree is a line of the file. The size of a stack trace is reported by taking its last report back and
  writing a new one under the same pointer, the identifier of the trace. What cannot be written in the
  buffer of a number is \<open>None\<close>. The maps are association lists, the set of changed identifiers a distinct list.
\<close>

section \<open>The model\<close>

record TraceSummary =
  ts_current :: u64
  ts_prev :: u64

record HeaptrackWriter =
  hw_out :: string
  hw_summaries :: "(u32 \<times> TraceSummary) list"
  hw_changedSummaries :: "u32 list"
  hw_writtenTraces :: "(u32 \<times> u32) list"
  hw_updateModules :: bool
  hw_tree :: StacktraceTree

abbreviation newline :: char where
  "newline \<equiv> CHR 0x0A"

text \<open>A line of the file: the values and the end of the line.\<close>

definition put_line :: "hex_arg list \<Rightarrow> string \<Rightarrow> string option" where
  "put_line args out = do { s \<leftarrow> WriteHexLine args; Some (out @ s @ [newline]) }"

fun hw_segments :: "dl_phdr list \<Rightarrow> string \<Rightarrow> string option" where
  "hw_segments [] out = Some out"
| "hw_segments (phdr # phdrs) out =
     (if ph_load phdr
      then do { s \<leftarrow> WriteHexLine [Txt [], Num (uint (ph_vaddr phdr)), Num (uint (ph_memsz phdr))];
                hw_segments phdrs (out @ s) }
      else hw_segments phdrs out)"

definition hw_iterate_dl_header :: "dl_info \<Rightarrow> string \<Rightarrow> string option" where
  "hw_iterate_dl_header info out =
     (let fileName = (if dl_name info = [] then ''x'' else dl_name info)
      in do { s \<leftarrow> WriteHexLine [Txt ''m'', Num (int (length fileName)), Txt fileName, Num (uint (dl_addr info))];
              out \<leftarrow> hw_segments (dl_phdrs info) (out @ s);
              Some (out @ [newline]) })"

fun hw_iterate_phdr :: "dl_info list \<Rightarrow> string \<Rightarrow> string option" where
  "hw_iterate_phdr [] out = Some out"
| "hw_iterate_phdr (info # infos) out = do { out \<leftarrow> hw_iterate_dl_header info out; hw_iterate_phdr infos out }"

definition hw_UpdateModules :: "HeaptrackWriter \<Rightarrow> HeaptrackWriter" where
  "hw_UpdateModules w = w\<lparr>hw_updateModules := True\<rparr>"

fun hw_account_loop :: "(u32 \<times> AllocSummary) list \<Rightarrow> HeaptrackWriter \<Rightarrow> HeaptrackWriter" where
  "hw_account_loop [] w = w"
| "hw_account_loop ((traceId, summary) # rest) w =
     (let w = w\<lparr>hw_changedSummaries := List.insert traceId (hw_changedSummaries w)\<rparr>
      in hw_account_loop rest
           (case map_of (hw_summaries w) traceId of
              None \<Rightarrow> w\<lparr>hw_summaries := map_insert traceId \<lparr>ts_current = sm_size summary, ts_prev = 0\<rparr> (hw_summaries w)\<rparr>
            | Some _ \<Rightarrow> w\<lparr>hw_summaries := map_modify traceId (\<lambda>s. s\<lparr>ts_current := ts_current s + sm_size summary\<rparr>) (hw_summaries w)\<rparr>))"

definition hw_AccountSnapshot :: "(u32 \<times> AllocSummary) list \<Rightarrow> AllocSummary \<Rightarrow> HeaptrackWriter \<Rightarrow> HeaptrackWriter" where
  "hw_AccountSnapshot summaries _ w = hw_account_loop summaries w"

definition WriteTimestamp :: "surroundings \<Rightarrow> string \<Rightarrow> string option" where
  "WriteTimestamp x = put_line [Txt ''c'', Num (uint (sx_elapsed x))]"

definition WriteRSS :: "surroundings \<Rightarrow> string \<Rightarrow> string option" where
  "WriteRSS x = put_line [Txt ''R'', Num (sint (sx_maxrss x))]"

definition WriteAllocation :: "u32 \<Rightarrow> u64 \<Rightarrow> u32 \<Rightarrow> string \<Rightarrow> string option" where
  "WriteAllocation traceId sz index = put_line [Txt ''+'', Num (sint sz), Num (uint index), Num (uint traceId)]"

definition WriteDeallocation :: "u32 \<Rightarrow> string \<Rightarrow> string option" where
  "WriteDeallocation traceId = put_line [Txt ''-'', Num (uint traceId)]"

text \<open>The callback for a new node of the tree.\<close>

definition hw_onNewNode :: "string option \<Rightarrow> ptr \<Rightarrow> u32 \<Rightarrow> u32 \<Rightarrow> string option" where
  "hw_onNewNode res ip ptrId index =
     do { out \<leftarrow> res; put_line [Txt ''t'', Num (uint (ip - 1)), Num (uint index)] out }"

text \<open>The node of a trace, written on first use; \<open>Some None\<close> when the finder does not know the trace.\<close>

definition hw_trace :: "(u32 \<Rightarrow> Stacktrace option) \<Rightarrow> u32 \<Rightarrow> HeaptrackWriter \<Rightarrow> (HeaptrackWriter \<times> u32) option option" where
  "hw_trace finder traceId w =
     (case map_of (hw_writtenTraces w) traceId of
        Some index \<Rightarrow> Some (Some (w, index))
      | None \<Rightarrow>
          (case finder traceId of
             None \<Rightarrow> Some None
           | Some stacktrace \<Rightarrow>
               (let (res, tree, index) = tree_index hw_onNewNode (Some (hw_out w)) (hw_tree w) stacktrace
                in do { out \<leftarrow> res;
                        Some (Some (w\<lparr>hw_out := out, hw_tree := tree,
                          hw_writtenTraces := map_insert traceId index (hw_writtenTraces w)\<rparr>, index)) })))"

definition hw_summary :: "u32 \<Rightarrow> u32 \<Rightarrow> HeaptrackWriter \<Rightarrow> HeaptrackWriter option" where
  "hw_summary traceId index w =
     (let summaries = map_insert traceId \<lparr>ts_current = 0, ts_prev = 0\<rparr> (hw_summaries w);
          summary = the (map_of summaries traceId)
      in do { out \<leftarrow> (if ts_prev summary \<noteq> 0 then WriteDeallocation traceId (hw_out w) else Some (hw_out w));
              out \<leftarrow> (if 0 < sint (ts_current summary) then WriteAllocation traceId (ts_current summary) index out else Some out);
              Some (w\<lparr>hw_out := out, hw_summaries := map_modify traceId (\<lambda>s. s\<lparr>ts_prev := ts_current s\<rparr>) summaries\<rparr>) })"

fun hw_flush_loop :: "(u32 \<Rightarrow> Stacktrace option) \<Rightarrow> u32 list \<Rightarrow> HeaptrackWriter \<Rightarrow> HeaptrackWriter option" where
  "hw_flush_loop finder [] w = Some w"
| "hw_flush_loop finder (traceId # todo) w =
     do { found \<leftarrow> hw_trace finder traceId w;
          (case found of
             None \<Rightarrow> hw_flush_loop finder todo w
           | Some (w, index) \<Rightarrow> do { w \<leftarrow> hw_summary traceId index w; hw_flush_loop finder todo w }) }"

definition hw_FlushData :: "surroundings \<Rightarrow> HeaptrackWriter \<Rightarrow> HeaptrackWriter option" where
  "hw_FlushData x w =
     do { out \<leftarrow> WriteTimestamp x (hw_out w);
          out \<leftarrow> WriteRSS x out;
          out \<leftarrow> (if hw_updateModules w then hw_iterate_phdr (sx_modules x) (out @ ''m 1 -'' @ [newline]) else Some out);
          w \<leftarrow> hw_flush_loop (sx_finder x) (hw_changedSummaries w) (w\<lparr>hw_out := out, hw_updateModules := False\<rparr>);
          Some (w\<lparr>hw_changedSummaries := []\<rparr>) }"

subsection \<open>Construction\<close>

text \<open>What the constructor asks the system for; \<open>hp_exe\<close> is \<open>None\<close> when \<open>readlink\<close> fails.\<close>

record hw_process =
  hp_exe :: "string option"
  hp_cmdline :: string
  hp_pageSize :: u64
  hp_physPages :: u64

definition WriteVersion :: "string \<Rightarrow> string option" where
  "WriteVersion = put_line [Txt ''v'', Num 0x10550, Num 3]"

definition WriteExe :: "hw_process \<Rightarrow> string \<Rightarrow> string option" where
  "WriteExe pr out =
     (case hp_exe pr of
        None \<Rightarrow> Some out
      | Some link \<Rightarrow>
          (let buf = take 1023 link
           in if 0 < length buf \<and> length buf < 1023
              then put_line [Txt ''x'', Num (int (length buf)), Txt (takeWhile (\<lambda>c. c \<noteq> CHR 0x00) buf)] out
              else Some out))"

text \<open>The zero-terminated strings of the command line, one after the other.\<close>

function cmdline_loop :: "string \<Rightarrow> string" where
  "cmdline_loop buf =
     (if buf = [] then []
      else takeWhile (\<lambda>c. c \<noteq> CHR 0x00) buf @ cmdline_loop (tl (dropWhile (\<lambda>c. c \<noteq> CHR 0x00) buf)))"
  by pat_completeness auto
termination
proof (relation "measure length")
  fix buf :: string assume "buf \<noteq> []"
  then have "0 < length buf" by simp
  moreover have "length (dropWhile (\<lambda>c. c \<noteq> CHR 0x00) buf) \<le> length buf" by (rule length_dropWhile_le)
  ultimately have "length (tl (dropWhile (\<lambda>c. c \<noteq> CHR 0x00) buf)) < length buf" unfolding length_tl by linarith
  then show "(tl (dropWhile (\<lambda>c. c \<noteq> CHR 0x00) buf), buf) \<in> measure length" by simp
qed simp

declare cmdline_loop.simps [simp del]

definition WriteCommandLine :: "hw_process \<Rightarrow> string \<Rightarrow> string" where
  "WriteCommandLine pr out = out @ ''X '' @ cmdline_loop (take 4096 (hp_cmdline pr)) @ [newline]"

definition WriteSystemInfo :: "hw_process \<Rightarrow> string \<Rightarrow> string option" where
  "WriteSystemInfo pr = put_line [Txt ''I'', Num (uint (hp_pageSize pr)), Num (uint (hp_physPages pr))]"

definition HeaptrackWriter_new :: "hw_process \<Rightarrow> HeaptrackWriter option" where
  "HeaptrackWriter_new pr =
     do { out \<leftarrow> WriteVersion [];
          out \<leftarrow> WriteExe pr out;
          out \<leftarrow> WriteSystemInfo pr (WriteCommandLine pr out);
          Some \<lparr>hw_out = out, hw_summaries = [], hw_changedSummaries = [], hw_writtenTraces = [],
            hw_updateModules = True, hw_tree = StacktraceTree_new\<rparr> }"

section \<open>Reading the file\<close>

text \<open>
  A reader of the format keeps the nodes of the tree of traces (address and parent, numbered from one) and
  the live allocations (per pointer the size and the node). Other lines do not concern memory.
\<close>

record hreader =
  hr_nodes :: "(nat \<times> nat) list"
  hr_live :: "nat \<Rightarrow> (nat \<times> nat) option"

definition hreader_new :: hreader where
  "hreader_new = \<lparr>hr_nodes = [], hr_live = (\<lambda>_. None)\<rparr>"

definition apply_line :: "hreader \<Rightarrow> string \<Rightarrow> hreader" where
  "apply_line r line =
     (case split_at CHR '' '' line of
        [c, p] \<Rightarrow> if c = ''-'' then r\<lparr>hr_live := (hr_live r)(hex_value p := None)\<rparr> else r
      | [c, ip, parent] \<Rightarrow> if c = ''t'' then r\<lparr>hr_nodes := hr_nodes r @ [(hex_value ip, hex_value parent)]\<rparr> else r
      | [c, sz, index, p] \<Rightarrow>
          if c = ''+'' then r\<lparr>hr_live := (hr_live r)(hex_value p \<mapsto> (hex_value sz, hex_value index))\<rparr> else r
      | _ \<Rightarrow> r)"

definition read_heaptrack :: "string \<Rightarrow> hreader" where
  "read_heaptrack out = foldl apply_line hreader_new (split_at newline out)"

function frames_of :: "(nat \<times> nat) list \<Rightarrow> nat \<Rightarrow> nat list" where
  "frames_of ns i =
     (if 0 < i \<and> i \<le> length ns \<and> snd (ns ! (i - 1)) < i
      then fst (ns ! (i - 1)) # frames_of ns (snd (ns ! (i - 1)))
      else [])"
  by pat_completeness auto
termination
  by (relation "measure snd") auto

declare frames_of.simps [simp del]

definition hr_shown :: "hreader \<Rightarrow> u32 \<Rightarrow> (nat \<times> nat list) option" where
  "hr_shown r i = map_option (\<lambda>(sz, n). (sz, frames_of (hr_nodes r) n)) (hr_live r (unat i))"

text \<open>What the file should show for a trace with the given frames and sum of sizes.\<close>

definition hr_expected :: "(u32 \<Rightarrow> ptr list option) \<Rightarrow> u32 \<Rightarrow> u64 \<Rightarrow> (nat \<times> nat list) option" where
  "hr_expected fin i sz =
     (case fin i of
        None \<Rightarrow> None
      | Some frames \<Rightarrow>
          if 0 < sint sz then Some (nat (sint sz), map (\<lambda>p. unat p - 1) (nonnull frames)) else None)"

section \<open>Lines\<close>

lemma split_at_head: "c \<notin> set x \<Longrightarrow> split_at c (x @ c # rest) = x # split_at c rest"
  by (induction x) (auto split: list.split simp: split_at_facts)

definition unlines :: "string list \<Rightarrow> string" where
  "unlines ls = concat (map (\<lambda>l. l @ [newline]) ls)"

definition reads :: "string \<Rightarrow> hreader \<Rightarrow> bool" where
  "reads out r \<longleftrightarrow> (\<exists>ls. out = unlines ls \<and> (\<forall>l \<in> set ls. newline \<notin> set l) \<and> foldl apply_line hreader_new ls = r)"

lemma split_unlines: "\<forall>l \<in> set ls. newline \<notin> set l \<Longrightarrow> split_at newline (unlines ls) = ls @ [[]]"
  by (induction ls) (simp_all add: unlines_def split_at_head)

lemma reads_read: "reads out r \<Longrightarrow> read_heaptrack out = r"
  by (auto simp: reads_def read_heaptrack_def split_unlines apply_line_def)

lemma reads_line: "reads out r \<Longrightarrow> newline \<notin> set l \<Longrightarrow> reads (out @ l @ [newline]) (apply_line r l)"
  unfolding reads_def by (elim exE, rule_tac x = "ls @ [l]" in exI) (auto simp: unlines_def)

text \<open>A line that starts with the letter of another kind of line.\<close>

lemma apply_line_other:
  assumes "CHR '' '' \<notin> set c" "c \<notin> {''t'', ''+'', ''-''}"
  shows "apply_line r (c @ CHR '' '' # rest) = r"
  using assms by (auto simp: apply_line_def split_at_head split: list.split)

lemma hex_arg_num [simp]: "0 \<le> v \<Longrightarrow> v < 2 ^ 60 \<Longrightarrow> hex_arg_text (Num v) = Some (hex_digits (nat v))"
  by (simp add: WriteHexValue_iff)

lemma split_hex:
  "split_at CHR '' '' (hex_digits n @ CHR '' '' # rest) = hex_digits n # split_at CHR '' '' rest"
  "split_at CHR '' '' (hex_digits n) = [hex_digits n]"
  using split_at_head [OF hex_digits_plain(1)] split_at_join [of "[hex_digits n]" "CHR '' ''"] hex_digits_plain(1) by simp_all

lemma letter_line:
  assumes "0 \<le> v" "v < 2 ^ 60" "CHR '' '' \<notin> set c" "newline \<notin> set c" "c \<notin> {''t'', ''+'', ''-''}" "reads out r"
  shows "\<exists>out'. put_line [Txt c, Num v] out = Some out' \<and> reads out' r"
proof -
  have "newline \<notin> set (c @ CHR '' '' # hex_digits (nat v))" using assms(4) hex_digits_plain(2) by simp
  from reads_line [OF assms(6) this] show ?thesis
    using assms(1,2) by (simp add: put_line_def apply_line_other [OF assms(3,5)] del: hex_arg_text.simps(2))
qed

lemma trace_line:
  assumes "0 \<le> a" "a < 2 ^ 60" "0 \<le> b" "b < 2 ^ 60" "reads out r"
  shows "\<exists>out'. put_line [Txt ''t'', Num a, Num b] out = Some out' \<and> reads out' (r\<lparr>hr_nodes := hr_nodes r @ [(nat a, nat b)]\<rparr>)"
proof -
  let ?l = "CHR ''t'' # CHR '' '' # hex_digits (nat a) @ CHR '' '' # hex_digits (nat b)"
  have "apply_line r ?l = r\<lparr>hr_nodes := hr_nodes r @ [(nat a, nat b)]\<rparr>" by (simp add: apply_line_def split_hex)
  moreover have "newline \<notin> set ?l" using hex_digits_plain(2) by simp
  ultimately show ?thesis
    using reads_line [OF assms(5), of ?l] assms(1-4) by (simp add: put_line_def del: hex_arg_text.simps(2))
qed

lemma alloc_line:
  assumes "0 \<le> a" "a < 2 ^ 60" "0 \<le> b" "b < 2 ^ 60" "0 \<le> c" "c < 2 ^ 60" "reads out r"
  shows "\<exists>out'. put_line [Txt ''+'', Num a, Num b, Num c] out = Some out' \<and>
    reads out' (r\<lparr>hr_live := (hr_live r)(nat c \<mapsto> (nat a, nat b))\<rparr>)"
proof -
  let ?l = "CHR ''+'' # CHR '' '' # hex_digits (nat a) @ CHR '' '' # hex_digits (nat b) @ CHR '' '' # hex_digits (nat c)"
  have "apply_line r ?l = r\<lparr>hr_live := (hr_live r)(nat c \<mapsto> (nat a, nat b))\<rparr>" by (simp add: apply_line_def split_hex)
  moreover have "newline \<notin> set ?l" using hex_digits_plain(2) by simp
  ultimately show ?thesis
    using reads_line [OF assms(7), of ?l] assms(1-6) by (simp add: put_line_def del: hex_arg_text.simps(2))
qed

lemma dealloc_line:
  assumes "0 \<le> a" "a < 2 ^ 60" "reads out r"
  shows "\<exists>out'. put_line [Txt ''-'', Num a] out = Some out' \<and> reads out' (r\<lparr>hr_live := (hr_live r)(nat a := None)\<rparr>)"
proof -
  let ?l = "CHR ''-'' # CHR '' '' # hex_digits (nat a)"
  have "apply_line r ?l = r\<lparr>hr_live := (hr_live r)(nat a := None)\<rparr>" by (simp add: apply_line_def split_hex)
  moreover have "newline \<notin> set ?l" using hex_digits_plain(2) by simp
  ultimately show ?thesis
    using reads_line [OF assms(3), of ?l] assms(1,2) by (simp add: put_line_def del: hex_arg_text.simps(2))
qed

lemma u32_hex: "0 \<le> uint (u :: u32)" "uint (u :: u32) < 2 ^ 60"
  using uint_bounded [of u] by simp_all

end
