(* ===== verification/Heaptrack_File.thy ===== *)
theory Heaptrack_File
  imports Heaptrack_Writer
begin

text \<open>
  The heaptrack file: the writer fulfils the interface of the writers, and whoever reads its file after a
  flush finds for every stack trace the sum of the reported sizes and the frames.
\<close>

section \<open>The tree of traces\<close>

text \<open>
  The callback of \<open>index\<close> is called once for every node that the tree did not have, in the order of the
  nodes, with the address and the parent of the node.
\<close>

definition node_address :: "StacktraceTree \<Rightarrow> TraceNode \<Rightarrow> ptr" where
  "node_address t nd = the (map_of (m_revPtrMap t) (tn_id nd))"

lemma index_loop_log:
  assumes "tree_ok ns t" "unat n < length ns" "length ns + length ps \<le> 2 ^ 32" "index_loop push_node ns t n ps = (ns', t', n')"
  shows "index_loop f a t n ps = (foldl (\<lambda>a nd. f a (node_address t' nd) (tn_id nd) (tn_parent nd)) a (drop (length ns) ns'), t', n') \<and>
    (\<forall>nd \<in> set (drop (length ns) ns'). node_address t' nd \<in> set ps \<and> node_address t' nd \<noteq> 0)"
  using assms
proof (induction ps arbitrary: ns t n a)
  case (Cons p ps)
  show ?case
  proof (cases "p = 0")
    case True
    then show ?thesis using Cons by fastforce
  next
    case False
    obtain t1 i where i: "GetPtrId t p = (t1, i)" by fastforce
    have len: "length ns < 2 ^ 32" using Cons.prems by simp
    note g = GetPtrId_spec [OF Cons.prems(1) len i, of n]
    show ?thesis
    proof (cases "map_of (m_edges t1) (n, i)")
      case (Some m)
      then have "t1 = t" using g by auto
      then have m: "unat m < length ns" using edge_child [OF Cons.prems(1), of n i m p] Some g by auto
      have "index_loop push_node ns t m ps = (ns', t', n')" using Cons.prems(4) False i Some \<open>t1 = t\<close> by simp
      from Cons.IH [OF Cons.prems(1) m _ this, of a] show ?thesis
        using Cons.prems(3) False i Some \<open>t1 = t\<close> by auto
    next
      case None
      define c where "c = m_nodesCounter t1"
      define t2 where "t2 = t1\<lparr>m_edges := map_insert (n, i) c (m_edges t1), m_nodesCounter := c + 1\<rparr>"
      note w = new_node_ok [OF Cons.prems(1) len Cons.prems(2) False i None c_def t2_def]
      let ?ns = "push_node ns p i n"
      have l: "length ?ns = Suc (length ns)" by (simp add: push_node_def)
      have step: "index_loop f a t n (p # ps) = index_loop f (f a p i n) t2 c ps"
        using False None i by (simp add: c_def t2_def Let_def)
      have step': "index_loop push_node ns t n (p # ps) = index_loop push_node ?ns t2 c ps"
        using False None i by (simp add: c_def t2_def Let_def)
      have c: "unat c < length ?ns" "length ?ns + length ps \<le> 2 ^ 32" "tree_ok ?ns t2" using w l Cons.prems(3) by simp_all
      have run: "index_loop push_node ?ns t2 c ps = (ns', t', n')" using Cons.prems(4) step' by simp
      have post: "prefix ?ns ns'" "ptrs_extend t2 t'" using index_loop_spec [OF c(3,1,2)] run by (simp_all add: walk_post_def)
      have "map_of (m_revPtrMap t2) i = Some p" using g by (simp add: t2_def)
      then have addr: "map_of (m_revPtrMap t') i = Some p" using post(2) by (simp add: ptrs_extend_def)
      obtain ms where ms: "ns' = ?ns @ ms" using post(1) by (auto simp: prefix_def)
      have "drop (length ns) ns' = \<lparr>tn_id = i, tn_parent = n\<rparr> # drop (length ?ns) ns'" by (simp add: ms l) (simp add: push_node_def)
      then show ?thesis
        unfolding step using Cons.IH [OF c(3,1,2) run, of "f a p i n"] addr False by (simp add: node_address_def)
    qed
  qed
qed simp

text \<open>The nodes that a reader of the file knows are those of the tree.\<close>

definition read_node :: "StacktraceTree \<Rightarrow> TraceNode \<Rightarrow> nat \<times> nat" where
  "read_node t nd = (unat (node_address t nd - 1), unat (tn_parent nd))"

definition nodes_match :: "TraceNode list \<Rightarrow> StacktraceTree \<Rightarrow> (nat \<times> nat) list \<Rightarrow> bool" where
  "nodes_match ns t rn \<longleftrightarrow> rn = map (read_node t) (tl ns)"

lemma frames_of_node:
  assumes "tree_ok ns t" "nodes_match ns t rn" "i < length ns"
  shows "frames_of rn i = map (\<lambda>p. unat p - 1) (node_path ns t i)"
  using assms(3)
proof (induction i rule: less_induct)
  case (less i)
  show ?case
  proof (cases "0 < i")
    case True
    obtain p where p: "map_of (m_revPtrMap t) (tn_id (ns ! i)) = Some p" "p \<noteq> 0" "unat (tn_parent (ns ! i)) < i"
      "node_path ns t i = p # node_path ns t (unat (tn_parent (ns ! i)))" by (rule node_path_node [OF assms(1) True less.prems])
    have rn: "length rn = length ns - 1" "rn ! (i - 1) = (unat (p - 1), unat (tn_parent (ns ! i)))"
      using assms(2) True less.prems p(1) by (simp_all add: nodes_match_def read_node_def node_address_def nth_tl)
    have "unat (p - 1) = unat p - 1" using p(2) by (simp add: unat_minus_one)
    then show ?thesis
      using True less.prems p(3,4) rn less.IH [OF p(3)] by (simp add: frames_of.simps [of rn i])
  qed (simp add: frames_of.simps)
qed

lemma nodes_match_extend:
  assumes "tree_ok ns t" "nodes_match ns t rn" "ptrs_extend t t'"
  shows "nodes_match (ns @ ms) t' (rn @ map (read_node t') ms)"
proof -
  have ne: "ns \<noteq> []" using assms(1) by (simp add: tree_ok_def)
  have "read_node t nd = read_node t' nd" if "nd \<in> set (tl ns)" for nd
  proof -
    obtain k where "k < length (tl ns)" "nd = tl ns ! k" using \<open>nd \<in> set (tl ns)\<close> unfolding in_set_conv_nth by blast
    then have k: "Suc k < length ns" "nd = ns ! Suc k" by (simp_all add: nth_tl)
    obtain p where "map_of (m_revPtrMap t) (tn_id (ns ! Suc k)) = Some p"
      using node_path_node [OF assms(1) zero_less_Suc k(1)] by blast
    then show ?thesis using assms(3) k(2) by (simp add: ptrs_extend_def read_node_def node_address_def)
  qed
  then show ?thesis using assms(2) ne by (simp add: nodes_match_def)
qed

lemma unat_hex: "unat (u :: u64) < 2 ^ 60 \<Longrightarrow> uint u < 2 ^ 60"
proof -
  assume "unat u < 2 ^ 60"
  then have "int (unat u) < int (2 ^ 60)" by (simp only: of_nat_less_iff)
  then show ?thesis by simp
qed

lemma new_nodes_lines:
  assumes "reads out r" "\<forall>nd \<in> set nds. unat (node_address t nd - 1) < 2 ^ 60"
  shows "\<exists>out'. foldl (\<lambda>a nd. hw_onNewNode a (node_address t nd) (tn_id nd) (tn_parent nd)) (Some out) nds = Some out' \<and>
    reads out' (r\<lparr>hr_nodes := hr_nodes r @ map (read_node t) nds\<rparr>)"
  using assms
proof (induction nds arbitrary: out r)
  case (Cons nd nds)
  let ?r = "r\<lparr>hr_nodes := hr_nodes r @ [(unat (node_address t nd - 1), unat (tn_parent nd))]\<rparr>"
  have "uint (node_address t nd - 1) < 2 ^ 60"
    using Cons.prems(2) by (intro unat_hex) simp
  from trace_line [OF _ this u32_hex Cons.prems(1), of "tn_parent nd"] obtain out' where
    o: "put_line [Txt ''t'', Num (uint (node_address t nd - 1)), Num (uint (tn_parent nd))] out = Some out'" "reads out' ?r"
    by (auto simp: unsigned_of_nat)
  from Cons.IH [OF o(2)] Cons.prems(2) show ?case by (simp add: o(1) hw_onNewNode_def read_node_def)
qed simp

section \<open>The invariant\<close>

definition hw_sum :: "HeaptrackWriter \<Rightarrow> u32 \<Rightarrow> TraceSummary" where
  "hw_sum w i = (case map_of (hw_summaries w) i of None \<Rightarrow> \<lparr>ts_current = 0, ts_prev = 0\<rparr> | Some s \<Rightarrow> s)"

definition trace_at :: "(u32 \<Rightarrow> ptr list option) \<Rightarrow> TraceNode list \<Rightarrow> StacktraceTree \<Rightarrow> u32 \<Rightarrow> u32 \<Rightarrow> bool" where
  "trace_at fin ns t i n \<longleftrightarrow> unat n < length ns \<and> (\<exists>fr. fin i = Some fr \<and> node_path ns t (unat n) = nonnull fr)"

definition live_entry :: "u32 option \<Rightarrow> u64 \<Rightarrow> (nat \<times> nat) option" where
  "live_entry node b =
     (case node of None \<Rightarrow> None | Some n \<Rightarrow> if 0 < sint b then Some (nat (sint b), unat n) else None)"

text \<open>
  The file can be read, its nodes are those of the tree, written traces have their frames; what is live in
  the file was written and is remembered in \<open>prev\<close>; and identifiers that are not left to be flushed are up
  to date in the file.
\<close>

definition hw_ok :: "(u32 \<Rightarrow> ptr list option) \<Rightarrow> u32 list \<Rightarrow> HeaptrackWriter \<Rightarrow> hreader \<Rightarrow> TraceNode list \<Rightarrow> bool" where
  "hw_ok fin todo w r ns \<longleftrightarrow>
     reads (hw_out w) r \<and> tree_ok ns (hw_tree w) \<and> nodes_match ns (hw_tree w) (hr_nodes r) \<and> distinct todo \<and>
     (\<forall>i n. map_of (hw_writtenTraces w) i = Some n \<longrightarrow> trace_at fin ns (hw_tree w) i n) \<and>
     (\<forall>i. hr_live r (unat i) \<noteq> None \<longrightarrow> map_of (hw_writtenTraces w) i \<noteq> None \<and> ts_prev (hw_sum w i) \<noteq> 0) \<and>
     (\<forall>i. i \<notin> set todo \<longrightarrow>
        hr_live r (unat i) = live_entry (map_of (hw_writtenTraces w) i) (ts_current (hw_sum w i)) \<and>
        (ts_current (hw_sum w i) \<noteq> 0 \<and> fin i \<noteq> None \<longrightarrow> map_of (hw_writtenTraces w) i \<noteq> None))"

lemma hw_okD:
  assumes "hw_ok fin todo w r ns"
  shows "reads (hw_out w) r" "tree_ok ns (hw_tree w)" "nodes_match ns (hw_tree w) (hr_nodes r)" "distinct todo"
    "map_of (hw_writtenTraces w) i = Some n \<Longrightarrow> trace_at fin ns (hw_tree w) i n"
    "map_of (hw_writtenTraces w) i = None \<Longrightarrow> hr_live r (unat i) = None"
    "ts_prev (hw_sum w i) = 0 \<Longrightarrow> hr_live r (unat i) = None"
    "i \<notin> set todo \<Longrightarrow> hr_live r (unat i) = live_entry (map_of (hw_writtenTraces w) i) (ts_current (hw_sum w i))"
    "i \<notin> set todo \<Longrightarrow> ts_current (hw_sum w i) \<noteq> 0 \<Longrightarrow> fin i \<noteq> None \<Longrightarrow> map_of (hw_writtenTraces w) i \<noteq> None"
  using assms unfolding hw_ok_def by blast+

lemma hw_ok_length: "hw_ok fin todo w r ns \<Longrightarrow> length ns = Suc (length (hr_nodes r))"
  using hw_okD(2,3) [of fin todo w r ns] by (cases ns) (auto simp: nodes_match_def tree_ok_def)

lemma hw_ok_shown:
  assumes "hw_ok fin todo w r ns" "i \<notin> set todo"
  shows "hr_shown r i = hr_expected fin i (ts_current (hw_sum w i))"
proof (cases "map_of (hw_writtenTraces w) i")
  case None
  then have "fin i = None \<or> ts_current (hw_sum w i) = 0" using hw_okD(9) [OF assms] by blast
  then have "hr_expected fin i (ts_current (hw_sum w i)) = None" by (auto simp: hr_expected_def split: option.split)
  then show ?thesis using hw_okD(6) [OF assms(1) None] by (simp add: hr_shown_def)
next
  case (Some n)
  obtain fr where fr: "unat n < length ns" "fin i = Some fr" "node_path ns (hw_tree w) (unat n) = nonnull fr"
    using hw_okD(5) [OF assms(1) Some] by (auto simp: trace_at_def)
  have "frames_of (hr_nodes r) (unat n) = map (\<lambda>p. unat p - 1) (nonnull fr)"
    using frames_of_node [OF hw_okD(2,3) [OF assms(1)] fr(1)] fr(3) by simp
  then show ?thesis
    using hw_okD(8) [OF assms] Some fr(2) by (simp add: hr_shown_def hr_expected_def live_entry_def)
qed

section \<open>Flushing one trace\<close>

definition frames_len :: "(u32 \<Rightarrow> ptr list option) \<Rightarrow> u32 \<Rightarrow> nat" where
  "frames_len fin i = (case fin i of None \<Rightarrow> 0 | Some fr \<Rightarrow> length fr)"

text \<open>The finder knows the trace as \<open>fin\<close> says, and its addresses can be written.\<close>

definition finder_fits :: "(u32 \<Rightarrow> ptr list option) \<Rightarrow> (u32 \<Rightarrow> Stacktrace option) \<Rightarrow> u32 \<Rightarrow> bool" where
  "finder_fits fin finder i \<longleftrightarrow>
     map_option GetTrace (finder i) = fin i \<and> (\<forall>fr. fin i = Some fr \<longrightarrow> (\<forall>p \<in> set fr. unat p \<le> 2 ^ 60))"

lemma hw_trace_known:
  "map_of (hw_writtenTraces w) i = Some n \<Longrightarrow> hw_trace finder i w = Some (Some (w, n))"
  by (simp add: hw_trace_def)

lemma hw_trace_unknown:
  "map_of (hw_writtenTraces w) i = None \<Longrightarrow> finder i = None \<Longrightarrow> hw_trace finder i w = Some None"
  by (simp add: hw_trace_def)

text \<open>The invariant when the trace \<open>fs\<close> of an identifier is written for the first time, with the nodes \<open>ms\<close> it needs.\<close>

lemma hw_ok_extend:
  assumes ok: "hw_ok fin todo w r ns" and new: "map_of (hw_writtenTraces w) i = None" "i \<in> set todo" "fin i = Some fs"
    and post: "tree_ok (ns @ ms) t'" "ptrs_extend (hw_tree w) t'" "unat n < length (ns @ ms)" "node_path (ns @ ms) t' (unat n) = nonnull fs"
    and out: "reads out (r\<lparr>hr_nodes := hr_nodes r @ map (read_node t') ms\<rparr>)"
  shows "hw_ok fin todo (w\<lparr>hw_out := out, hw_tree := t', hw_writtenTraces := map_insert i n (hw_writtenTraces w)\<rparr>)
    (r\<lparr>hr_nodes := hr_nodes r @ map (read_node t') ms\<rparr>) (ns @ ms)" (is "hw_ok _ _ ?w ?r _")
  unfolding hw_ok_def
proof (intro conjI allI impI)
  note T = hw_okD(2) [OF ok]
  show "reads (hw_out ?w) ?r" using out by simp
  show "tree_ok (ns @ ms) (hw_tree ?w)" using post(1) by simp
  show "nodes_match (ns @ ms) (hw_tree ?w) (hr_nodes ?r)" using nodes_match_extend [OF T hw_okD(3) [OF ok] post(2)] by simp
  show "distinct todo" using hw_okD(4) [OF ok] .
  fix j
  show "trace_at fin (ns @ ms) (hw_tree ?w) j m" if "map_of (hw_writtenTraces ?w) j = Some m" for m
  proof (cases "j = i")
    case True
    then show ?thesis using that new post(3,4) by (simp add: trace_at_def map_of_map_insert)
  next
    case False
    then have "trace_at fin ns (hw_tree w) j m" using that hw_okD(5) [OF ok] by (simp add: map_of_map_insert)
    then show ?thesis using node_path_extend [OF T post(2), of "unat m" ms] by (auto simp: trace_at_def)
  qed
  show "map_of (hw_writtenTraces ?w) j \<noteq> None" if "hr_live ?r (unat j) \<noteq> None"
    using that hw_okD(6) [OF ok, of j] by (cases "map_of (hw_writtenTraces w) j") (simp_all add: map_of_map_insert)
  show "ts_prev (hw_sum ?w j) \<noteq> 0" if "hr_live ?r (unat j) \<noteq> None"
    using that hw_okD(7) [OF ok, of j] by (auto simp: hw_sum_def)
  show "hr_live ?r (unat j) = live_entry (map_of (hw_writtenTraces ?w) j) (ts_current (hw_sum ?w j))" if "j \<notin> set todo"
    using that new(2) hw_okD(8) [OF ok that] by (auto simp: map_of_map_insert hw_sum_def)
  show "map_of (hw_writtenTraces ?w) j \<noteq> None" if "j \<notin> set todo" "ts_current (hw_sum ?w j) \<noteq> 0 \<and> fin j \<noteq> None"
    using that new(2) hw_okD(9) [OF ok that(1)] by (auto simp: map_of_map_insert hw_sum_def)
qed

lemma hw_trace_new:
  assumes ok: "hw_ok fin todo w r ns" and new: "map_of (hw_writtenTraces w) i = None" and st: "finder i = Some st" "i \<in> set todo"
    and fits: "finder_fits fin finder i" and room: "length ns + frames_len fin i \<le> 2 ^ 32"
  shows "\<exists>w' n r' ns'. hw_trace finder i w = Some (Some (w', n)) \<and> hw_ok fin todo w' r' ns' \<and>
    hw_writtenTraces w' = map_insert i n (hw_writtenTraces w) \<and> hw_summaries w' = hw_summaries w \<and>
    hw_changedSummaries w' = hw_changedSummaries w \<and> length ns' \<le> length ns + frames_len fin i"
proof -
  have fin: "fin i = Some (GetTrace st)" using fits st by (simp add: finder_fits_def)
  let ?ps = "rev (GetTrace st)"
  obtain ns' t' n where run: "index_loop push_node ns (hw_tree w) 0 ?ps = (ns', t', n)" by (metis prod_cases3)
  note T = hw_okD(2) [OF ok]
  have z: "unat (0 :: u32) < length ns" using T by (simp add: tree_ok_def)
  have len: "length ns + length ?ps \<le> 2 ^ 32" using room fin by (simp add: frames_len_def)
  have post: "tree_ok ns' t'" "prefix ns ns'" "ptrs_extend (hw_tree w) t'" "length ns' \<le> length ns + length ?ps" "unat n < length ns'"
    "node_path ns' t' (unat n) = nonnull (GetTrace st)"
    using index_loop_spec [OF T z len] run by (simp_all add: walk_post_def nonnull_def rev_filter)
  obtain ms where ms: "ns' = ns @ ms" using post(2) by (auto simp: prefix_def)
  note log = index_loop_log [OF T z len run, of hw_onNewNode "Some (hw_out w)"]
  have addr: "\<forall>nd \<in> set ms. unat (node_address t' nd - 1) < 2 ^ 60"
  proof
    fix nd assume "nd \<in> set ms"
    then have a: "node_address t' nd \<in> set (GetTrace st)" "node_address t' nd \<noteq> 0" using log by (simp_all add: ms)
    then have "unat (node_address t' nd) \<le> 2 ^ 60" "0 < unat (node_address t' nd)"
      using fits fin by (auto simp: finder_fits_def unat_gt_0)
    then show "unat (node_address t' nd - 1) < 2 ^ 60" using a(2) unfolding unat_minus_one [OF a(2)] by linarith
  qed
  obtain out where out: "foldl (\<lambda>a nd. hw_onNewNode a (node_address t' nd) (tn_id nd) (tn_parent nd)) (Some (hw_out w)) ms = Some out"
    "reads out (r\<lparr>hr_nodes := hr_nodes r @ map (read_node t') ms\<rparr>)" using new_nodes_lines [OF hw_okD(1) [OF ok] addr] by blast
  let ?w = "w\<lparr>hw_out := out, hw_tree := t', hw_writtenTraces := map_insert i n (hw_writtenTraces w)\<rparr>"
  let ?r = "r\<lparr>hr_nodes := hr_nodes r @ map (read_node t') ms\<rparr>"
  have "tree_index hw_onNewNode (Some (hw_out w)) (hw_tree w) st = (Some out, t', n)"
    using log out(1) by (simp add: tree_index_def ms)
  then have "hw_trace finder i w = Some (Some (?w, n))" using new st by (simp add: hw_trace_def)
  moreover have "hw_ok fin todo ?w ?r ns'"
    unfolding ms by (rule hw_ok_extend [OF ok new st(2) fin post(1,3,5,6) [unfolded ms] out(2)])
  moreover have "length ns' \<le> length ns + frames_len fin i" using post(4) fin by (simp add: frames_len_def)
  ultimately show ?thesis by (intro exI [of _ ?w] exI [of _ n] exI [of _ ?r] exI [of _ ns']) simp
qed

lemma hw_summary_lines:
  assumes "reads out r" "sint cur < 2 ^ 60" "prev = 0 \<longrightarrow> hr_live r (unat i) = None"
  shows "\<exists>out' r'. do { out \<leftarrow> (if prev \<noteq> 0 then WriteDeallocation i out else Some out);
      (if 0 < sint cur then WriteAllocation i cur n out else Some out) } = Some out' \<and> reads out' r' \<and> hr_nodes r' = hr_nodes r \<and>
    hr_live r' = (hr_live r)(unat i := live_entry (Some n) cur)"
proof -
  obtain out1 r1 where o1: "(if prev \<noteq> 0 then WriteDeallocation i out else Some out) = Some out1" "reads out1 r1"
    "hr_nodes r1 = hr_nodes r" "hr_live r1 = (hr_live r)(unat i := None)"
  proof (cases "prev = 0")
    case True
    then have "hr_live r = (hr_live r)(unat i := None)" using assms(3) by (simp add: fun_upd_idem)
    then show thesis using that True assms(1) by simp
  next
    case False
    from dealloc_line [OF u32_hex assms(1), of i] obtain out1 where
      "WriteDeallocation i out = Some out1" "reads out1 (r\<lparr>hr_live := (hr_live r)(unat i := None)\<rparr>)"
      by (auto simp: WriteDeallocation_def)
    with False show thesis by (intro that [of out1 "r\<lparr>hr_live := (hr_live r)(unat i := None)\<rparr>"]) simp_all
  qed
  show ?thesis
  proof (cases "0 < sint cur")
    case True
    from alloc_line [OF _ assms(2) u32_hex u32_hex o1(2), of n i] True obtain out2 where
      "WriteAllocation i cur n out1 = Some out2" "reads out2 (r1\<lparr>hr_live := (hr_live r1)(unat i \<mapsto> (nat (sint cur), unat n))\<rparr>)"
      by (auto simp: WriteAllocation_def)
    with True o1 show ?thesis
      by (intro exI [of _ out2] exI [of _ "r1\<lparr>hr_live := (hr_live r1)(unat i \<mapsto> (nat (sint cur), unat n))\<rparr>"])
        (simp add: live_entry_def)
  next
    case False
    with o1 show ?thesis by (intro exI [of _ out1] exI [of _ r1]) (simp add: live_entry_def)
  qed
qed

lemma hw_summary_ok:
  assumes ok: "hw_ok fin (i # todo) w r ns" and n: "map_of (hw_writtenTraces w) i = Some n"
    and fit: "sint (ts_current (hw_sum w i)) < 2 ^ 60"
  shows "\<exists>w' r'. hw_summary i n w = Some w' \<and> hw_ok fin todo w' r' ns \<and> hw_writtenTraces w' = hw_writtenTraces w \<and>
    (\<forall>j. ts_current (hw_sum w' j) = ts_current (hw_sum w j))"
proof -
  let ?s = "map_insert i \<lparr>ts_current = 0, ts_prev = 0\<rparr> (hw_summaries w)"
  have s: "the (map_of ?s i) = hw_sum w i" by (auto simp: hw_sum_def map_of_map_insert split: option.split)
  have "ts_prev (hw_sum w i) = 0 \<longrightarrow> hr_live r (unat i) = None" using hw_okD(7) [OF ok] by blast
  from hw_summary_lines [OF hw_okD(1) [OF ok] fit this, of n] obtain out r' where
    o: "do { out \<leftarrow> (if ts_prev (hw_sum w i) \<noteq> 0 then WriteDeallocation i (hw_out w) else Some (hw_out w));
      (if 0 < sint (ts_current (hw_sum w i)) then WriteAllocation i (ts_current (hw_sum w i)) n out else Some out) } = Some out"
    "reads out r'" "hr_nodes r' = hr_nodes r" "hr_live r' = (hr_live r)(unat i := live_entry (Some n) (ts_current (hw_sum w i)))" by blast
  let ?w = "w\<lparr>hw_out := out, hw_summaries := map_modify i (\<lambda>s. s\<lparr>ts_prev := ts_current s\<rparr>) ?s\<rparr>"
  have w: "hw_summary i n w = Some ?w"
    using o(1) by (auto simp: hw_summary_def Let_def s bind_eq_Some_conv)
  have sums: "hw_sum ?w j = (if j = i then (hw_sum w i)\<lparr>ts_prev := ts_current (hw_sum w i)\<rparr> else hw_sum w j)" for j
    by (auto simp: hw_sum_def map_of_map_modify map_of_map_insert split: option.split)
  have d: "distinct todo" "i \<notin> set todo" using hw_okD(4) [OF ok] by simp_all
  have "hw_ok fin todo ?w r' ns"
    unfolding hw_ok_def
  proof (intro conjI allI impI)
    show "reads (hw_out ?w) r'" using o(2) by simp
    show "tree_ok ns (hw_tree ?w)" "nodes_match ns (hw_tree ?w) (hr_nodes r')" using hw_okD(2,3) [OF ok] o(3) by simp_all
    show "distinct todo" by (rule d)
    fix j
    show "trace_at fin ns (hw_tree ?w) j m" if "map_of (hw_writtenTraces ?w) j = Some m" for m
      using that hw_okD(5) [OF ok] by simp
    show "map_of (hw_writtenTraces ?w) j \<noteq> None" if "hr_live r' (unat j) \<noteq> None"
      using that hw_okD(6) [OF ok, of j] n
      by (cases "j = i"; cases "map_of (hw_writtenTraces w) j") (simp_all add: o(4) flip: word_unat_eq_iff)
    show "ts_prev (hw_sum ?w j) \<noteq> 0" if "hr_live r' (unat j) \<noteq> None"
      using that hw_okD(7) [OF ok, of j]
      by (cases "j = i") (auto simp: o(4) sums live_entry_def split: if_splits simp flip: word_unat_eq_iff)
    show "hr_live r' (unat j) = live_entry (map_of (hw_writtenTraces ?w) j) (ts_current (hw_sum ?w j))" if "j \<notin> set todo"
      using that n hw_okD(8) [OF ok, of j] by (cases "j = i") (simp_all add: o(4) sums flip: word_unat_eq_iff)
    show "map_of (hw_writtenTraces ?w) j \<noteq> None" if "j \<notin> set todo" "ts_current (hw_sum ?w j) \<noteq> 0 \<and> fin j \<noteq> None"
      using that n hw_okD(9) [OF ok, of j] by (cases "j = i") (simp_all add: sums)
  qed
  then show ?thesis using w sums by (intro exI [of _ ?w] exI [of _ r']) simp
qed

lemma hw_skip_ok:
  assumes "hw_ok fin (i # todo) w r ns" "map_of (hw_writtenTraces w) i = None" "fin i = None"
  shows "hw_ok fin todo w r ns"
  unfolding hw_ok_def
proof (intro conjI allI impI)
  note D = hw_okD [OF assms(1)]
  show "reads (hw_out w) r" "tree_ok ns (hw_tree w)" "nodes_match ns (hw_tree w) (hr_nodes r)" using D(1-3) by simp_all
  show "distinct todo" using D(4) by simp
  fix j
  show "trace_at fin ns (hw_tree w) j m" if "map_of (hw_writtenTraces w) j = Some m" for m using D(5) that .
  show "map_of (hw_writtenTraces w) j \<noteq> None" "ts_prev (hw_sum w j) \<noteq> 0" if "hr_live r (unat j) \<noteq> None"
    using D(6,7) [of j] that by blast+
  show "hr_live r (unat j) = live_entry (map_of (hw_writtenTraces w) j) (ts_current (hw_sum w j))" if "j \<notin> set todo"
    using D(8) [of j] D(6) [of j] that assms(2) by (cases "j = i") (simp_all add: live_entry_def)
  show "map_of (hw_writtenTraces w) j \<noteq> None" if "j \<notin> set todo" "ts_current (hw_sum w j) \<noteq> 0 \<and> fin j \<noteq> None"
    using D(9) [of j] that assms(3) by (cases "j = i") simp_all
qed

lemma hw_flush_loop_ok:
  assumes "hw_ok fin todo w r ns" "\<forall>i \<in> set todo. map_of (hw_writtenTraces w) i = None \<longrightarrow> finder_fits fin finder i"
    and "\<forall>i \<in> set todo. sint (ts_current (hw_sum w i)) < 2 ^ 60" "length ns + (\<Sum>i \<leftarrow> todo. frames_len fin i) \<le> 2 ^ 32"
  shows "\<exists>w' r' ns'. hw_flush_loop finder todo w = Some w' \<and> hw_ok fin [] w' r' ns' \<and>
    (\<forall>j. ts_current (hw_sum w' j) = ts_current (hw_sum w j))"
  using assms
proof (induction todo arbitrary: w r ns)
  case Nil
  then show ?case by auto
next
  case (Cons i todo)
  show ?case
  proof (cases "map_of (hw_writtenTraces w) i = None \<and> finder i = None")
    case True
    then have "fin i = None" using Cons.prems(2) by (simp add: finder_fits_def)
    from hw_skip_ok [OF Cons.prems(1) conjunct1 [OF True] this] have ok: "hw_ok fin todo w r ns" .
    have "length ns + (\<Sum>i \<leftarrow> todo. frames_len fin i) \<le> 2 ^ 32" using Cons.prems(4) by simp
    from Cons.IH [OF ok _ _ this] Cons.prems(2,3) True show ?thesis by (simp add: hw_trace_unknown)
  next
    case False
    obtain w1 n r1 ns1 where w1: "hw_trace finder i w = Some (Some (w1, n))" "hw_ok fin (i # todo) w1 r1 ns1"
      "map_of (hw_writtenTraces w1) i = Some n" "hw_summaries w1 = hw_summaries w" "length ns1 \<le> length ns + frames_len fin i"
      "\<And>j. map_of (hw_writtenTraces w1) j = None \<Longrightarrow> map_of (hw_writtenTraces w) j = None"
    proof (cases "map_of (hw_writtenTraces w) i")
      case (Some n)
      then show thesis using that [of w n r ns] Cons.prems(1) hw_trace_known by simp
    next
      case None
      obtain st where st: "finder i = Some st" using False None by (cases "finder i") simp_all
      have fits: "finder_fits fin finder i" "length ns + frames_len fin i \<le> 2 ^ 32" using Cons.prems(2,4) None by simp_all
      obtain w' n r' ns' where "hw_trace finder i w = Some (Some (w', n))" "hw_ok fin (i # todo) w' r' ns'"
        "hw_writtenTraces w' = map_insert i n (hw_writtenTraces w)" "hw_summaries w' = hw_summaries w" "length ns' \<le> length ns + frames_len fin i"
        using hw_trace_new [OF Cons.prems(1) None st _ fits] by auto
      then show thesis
        using None by (intro that [of w' n r' ns']) (simp_all add: map_of_map_insert split: if_splits)
    qed
    have same: "hw_sum w1 j = hw_sum w j" for j by (simp add: hw_sum_def w1(4))
    have "sint (ts_current (hw_sum w1 i)) < 2 ^ 60" using Cons.prems(3) same by simp
    from hw_summary_ok [OF w1(2,3) this] obtain w2 r2 where w2: "hw_summary i n w1 = Some w2" "hw_ok fin todo w2 r2 ns1"
      "hw_writtenTraces w2 = hw_writtenTraces w1" "\<And>j. ts_current (hw_sum w2 j) = ts_current (hw_sum w1 j)" by blast
    have c: "\<forall>j \<in> set todo. map_of (hw_writtenTraces w2) j = None \<longrightarrow> finder_fits fin finder j"
      using Cons.prems(2) w1(6) w2(3) by auto
    have "\<forall>j \<in> set todo. sint (ts_current (hw_sum w2 j)) < 2 ^ 60" "length ns1 + (\<Sum>i \<leftarrow> todo. frames_len fin i) \<le> 2 ^ 32"
      using Cons.prems(3,4) w2(4) same w1(5) by simp_all
    from Cons.IH [OF w2(2) c this] show ?thesis using w1(1) w2(1,4) same by simp
  qed
qed

section \<open>Modules\<close>

definition module_fits :: "dl_info \<Rightarrow> bool" where
  "module_fits m \<longleftrightarrow> newline \<notin> set (dl_name m) \<and> length (dl_name m) < 2 ^ 60 \<and> unat (dl_addr m) < 2 ^ 60 \<and>
     (\<forall>ph \<in> set (dl_phdrs m). unat (ph_vaddr ph) < 2 ^ 60 \<and> unat (ph_memsz ph) < 2 ^ 60)"

lemma hex_num_plain:
  assumes "0 \<le> v" "v < 2 ^ 60"
  obtains s where "hex_arg_text (Num v) = Some s" "newline \<notin> set s"
  using assms that [of "hex_digits (nat v)"] hex_digits_plain(2) [of "nat v"] by (simp add: WriteHexValue_iff)

lemma u64_num_plain:
  assumes "unat (u :: u64) < 2 ^ 60"
  obtains s where "hex_arg_text (Num (uint u)) = Some s" "newline \<notin> set s"
  by (rule hex_num_plain [OF _ unat_hex [OF assms]]) simp_all

lemma hw_segments_line:
  assumes "\<forall>ph \<in> set phs. unat (ph_vaddr ph) < 2 ^ 60 \<and> unat (ph_memsz ph) < 2 ^ 60"
  shows "\<exists>t. hw_segments phs out = Some (out @ t) \<and> newline \<notin> set t"
  using assms
proof (induction phs arbitrary: out)
  case (Cons ph phs)
  obtain a where a: "hex_arg_text (Num (uint (ph_vaddr ph))) = Some a" "newline \<notin> set a"
    by (rule u64_num_plain [of "ph_vaddr ph"]) (use Cons.prems in simp)
  obtain b where b: "hex_arg_text (Num (uint (ph_memsz ph))) = Some b" "newline \<notin> set b"
    by (rule u64_num_plain [of "ph_memsz ph"]) (use Cons.prems in simp)
  let ?s = "CHR '' '' # a @ CHR '' '' # b"
  have "\<forall>ph \<in> set phs. unat (ph_vaddr ph) < 2 ^ 60 \<and> unat (ph_memsz ph) < 2 ^ 60" using Cons.prems by simp
  from Cons.IH [OF this, of "if ph_load ph then out @ ?s else out"] obtain t where
    t: "hw_segments phs (if ph_load ph then out @ ?s else out) = Some ((if ph_load ph then out @ ?s else out) @ t)" "newline \<notin> set t" by blast
  show ?case
    using t a b by (cases "ph_load ph") (simp_all del: hex_arg_text.simps(2))
qed simp

lemma hw_module_line:
  assumes "module_fits m" "reads out r"
  shows "\<exists>out'. hw_iterate_dl_header m out = Some out' \<and> reads out' r"
proof -
  let ?f = "if dl_name m = [] then ''x'' else dl_name m"
  have f: "newline \<notin> set ?f" "int (length ?f) < 2 ^ 60" using assms(1) by (auto simp: module_fits_def)
  obtain l where l: "hex_arg_text (Num (int (length ?f))) = Some l" "newline \<notin> set l" using hex_num_plain [OF _ f(2)] by auto
  obtain a where a: "hex_arg_text (Num (uint (dl_addr m))) = Some a" "newline \<notin> set a"
    by (rule u64_num_plain [of "dl_addr m"]) (use assms(1) in \<open>simp add: module_fits_def\<close>)
  let ?s = "CHR ''m'' # CHR '' '' # l @ CHR '' '' # ?f @ CHR '' '' # a"
  obtain t where t: "hw_segments (dl_phdrs m) (out @ ?s) = Some ((out @ ?s) @ t)" "newline \<notin> set t"
    using assms(1) hw_segments_line [of "dl_phdrs m" "out @ ?s"] unfolding module_fits_def by blast
  have "apply_line r (?s @ t) = r" using apply_line_other [of "''m''" r "l @ CHR '' '' # ?f @ CHR '' '' # a @ t"] by simp
  moreover have "newline \<notin> set (?s @ t)" using f(1) l(2) a(2) t(2) by simp
  ultimately have "reads (out @ (?s @ t) @ [newline]) r" using reads_line [OF assms(2), of "?s @ t"] by simp
  moreover have "WriteHexLine [Txt ''m'', Num (int (length ?f)), Txt ?f, Num (uint (dl_addr m))] = Some ?s"
    using l(1) a(1) by (simp del: hex_arg_text.simps(2))
  ultimately show ?thesis using t(1) unfolding hw_iterate_dl_header_def Let_def by simp
qed

lemma hw_modules_lines:
  "\<forall>m \<in> set ms. module_fits m \<Longrightarrow> reads out r \<Longrightarrow> \<exists>out'. hw_iterate_phdr ms out = Some out' \<and> reads out' r"
proof (induction ms arbitrary: out)
  case (Cons m ms)
  obtain out1 where "hw_iterate_dl_header m out = Some out1" "reads out1 r" using hw_module_line Cons.prems by fastforce
  then show ?case using Cons by simp
qed simp

section \<open>The writer\<close>

definition hw_inv :: "(u32 \<Rightarrow> ptr list option) \<Rightarrow> HeaptrackWriter \<Rightarrow> bool" where
  "hw_inv fin w \<longleftrightarrow> (\<exists>r ns. hw_ok fin (hw_changedSummaries w) w r ns)"

definition hw_books :: "HeaptrackWriter \<Rightarrow> u32 \<Rightarrow> u64" where
  "hw_books w i = ts_current (hw_sum w i)"

definition hw_part :: "writer_call \<Rightarrow> u32 \<Rightarrow> u64" where
  "hw_part c i = sm_size (call_part c (Some i))"

definition hw_view :: "HeaptrackWriter \<Rightarrow> u32 \<Rightarrow> (nat \<times> nat list) option" where
  "hw_view w i = hr_shown (read_heaptrack (hw_out w)) i"

text \<open>
  What a flush relies on: numbers below \<open>2 ^ 60\<close>, module names without line breaks, a finder that knows the
  new traces as \<open>fin\<close> says, and node numbers that fit in 32 bits.
\<close>

definition hw_room :: "(u32 \<Rightarrow> ptr list option) \<Rightarrow> surroundings \<Rightarrow> HeaptrackWriter \<Rightarrow> bool" where
  "hw_room fin x w \<longleftrightarrow>
     unat (sx_elapsed x) < 2 ^ 60 \<and> unat (sx_maxrss x) < 2 ^ 60 \<and> (\<forall>m \<in> set (sx_modules x). module_fits m) \<and>
     (\<forall>i \<in> set (hw_changedSummaries w). (map_of (hw_writtenTraces w) i = None \<longrightarrow> finder_fits fin (sx_finder x) i) \<and>
        sint (hw_books w i) < 2 ^ 60) \<and>
     length (hr_nodes (read_heaptrack (hw_out w))) + (\<Sum>i \<leftarrow> hw_changedSummaries w. frames_len fin i) < 2 ^ 32"

lemma sint_small: "unat (u :: u64) < 2 ^ 60 \<Longrightarrow> sint u = uint u"
proof -
  assume "unat u < 2 ^ 60"
  from unat_hex [OF this] have "uint u < 2 ^ 63" by simp
  moreover have "- (2 ^ 63) \<le> uint u" by (rule order_trans [of _ 0]) simp_all
  ultimately have "- (2 ^ 63) \<le> uint u" "uint u < 2 ^ 63" by blast+
  then have "signed_take_bit 63 (uint u) = uint u" unfolding signed_take_bit_int_eq_self_iff by blast
  then show ?thesis by (simp add: sint_uint)
qed

lemma hw_ok_out: "hw_ok fin todo w r ns \<Longrightarrow> reads out r \<Longrightarrow> hw_ok fin todo (w\<lparr>hw_out := out, hw_updateModules := u\<rparr>) r ns"
  by (simp add: hw_ok_def hw_sum_def)

lemma hw_flush_inv:
  assumes "hw_inv fin w" "hw_room fin x w"
  shows "\<exists>w'. hw_FlushData x w = Some w' \<and> hw_inv fin w' \<and> (\<forall>i. hw_books w' i = hw_books w i \<and> hw_view w' i = hr_expected fin i (hw_books w i))"
proof -
  obtain r ns where ok: "hw_ok fin (hw_changedSummaries w) w r ns" using assms(1) by (auto simp: hw_inv_def)
  note R = assms(2) [unfolded hw_room_def]
  obtain o1 where o1: "WriteTimestamp x (hw_out w) = Some o1" "reads o1 r"
    using letter_line [OF _ unat_hex _ _ _ hw_okD(1) [OF ok], of "sx_elapsed x" "''c''"] R by (auto simp: WriteTimestamp_def)
  obtain o2 where o2: "WriteRSS x o1 = Some o2" "reads o2 r"
    using letter_line [OF _ unat_hex _ _ _ o1(2), of "sx_maxrss x" "''R''"] R by (auto simp: WriteRSS_def sint_small)
  have "apply_line r ''m 1 -'' = r" using apply_line_other [of "''m''" r "''1 -''"] by simp
  then have o3: "reads (o2 @ ''m 1 -'' @ [newline]) r" using reads_line [OF o2(2), of "''m 1 -''"] by simp
  have "\<exists>o4. hw_iterate_phdr (sx_modules x) (o2 @ ''m 1 -'' @ [newline]) = Some o4 \<and> reads o4 r"
    by (rule hw_modules_lines [OF _ o3]) (use R in blast)
  then obtain o4 where o4: "(if hw_updateModules w then hw_iterate_phdr (sx_modules x) (o2 @ ''m 1 -'' @ [newline]) else Some o2) = Some o4" "reads o4 r"
    using o2(2) by (cases "hw_updateModules w") (simp only: if_True, blast, simp)
  let ?w = "w\<lparr>hw_out := o4, hw_updateModules := False\<rparr>"
  have sum: "hw_sum ?w i = hw_sum w i" for i by (simp add: hw_sum_def)
  have "hw_ok fin (hw_changedSummaries w) ?w r ns" by (rule hw_ok_out [OF ok o4(2)])
  moreover have "length ns + (\<Sum>i \<leftarrow> hw_changedSummaries w. frames_len fin i) \<le> 2 ^ 32"
    using R hw_ok_length [OF ok] reads_read [OF hw_okD(1) [OF ok]] by simp
  moreover have "\<forall>i \<in> set (hw_changedSummaries w). sint (ts_current (hw_sum ?w i)) < 2 ^ 60"
    using R unfolding sum hw_books_def by blast
  moreover have "\<forall>i \<in> set (hw_changedSummaries w). map_of (hw_writtenTraces ?w) i = None \<longrightarrow> finder_fits fin (sx_finder x) i"
    using R by simp
  ultimately obtain w1 r1 ns1 where w1: "hw_flush_loop (sx_finder x) (hw_changedSummaries w) ?w = Some w1" "hw_ok fin [] w1 r1 ns1"
    "\<forall>j. ts_current (hw_sum w1 j) = ts_current (hw_sum ?w j)"
    using hw_flush_loop_ok [of fin "hw_changedSummaries w" ?w r ns "sx_finder x"] by blast
  let ?w' = "w1\<lparr>hw_changedSummaries := []\<rparr>"
  have ok': "hw_ok fin [] ?w' r1 ns1" using w1(2) by (simp add: hw_ok_def hw_sum_def)
  have b: "hw_books ?w' i = hw_books w i" for i using w1(3) sum by (simp add: hw_books_def hw_sum_def)
  have "hw_view ?w' i = hr_expected fin i (hw_books w i)" for i
    using hw_ok_shown [OF ok', of i] reads_read [OF hw_okD(1) [OF ok']] b [of i] by (simp add: hw_view_def hw_books_def)
  moreover have "hw_FlushData x w = Some ?w'" using o1(1) o2(1) o4(1) w1(1) by (simp add: hw_FlushData_def)
  moreover have "hw_inv fin ?w'" using ok' by (auto simp: hw_inv_def)
  ultimately show ?thesis using b by blast
qed

lemma hw_account_inv:
  assumes "hw_inv fin w" "distinct (map fst m)"
  shows "hw_inv fin (hw_account_loop m w) \<and> (\<forall>i. hw_books (hw_account_loop m w) i = hw_books w i + sm_size (summary_at m i))"
  using assms
proof (induction m arbitrary: w)
  case Nil
  then show ?case by (simp add: summary_at_def)
next
  case (Cons e m)
  obtain i s where e: "e = (i, s)" by (cases e)
  define l where "l = (case map_of (hw_summaries w) i of
      None \<Rightarrow> map_insert i \<lparr>ts_current = sm_size s, ts_prev = 0\<rparr> (hw_summaries w)
    | Some _ \<Rightarrow> map_modify i (\<lambda>t. t\<lparr>ts_current := ts_current t + sm_size s\<rparr>) (hw_summaries w))"
  define w1 where "w1 = w\<lparr>hw_changedSummaries := List.insert i (hw_changedSummaries w), hw_summaries := l\<rparr>"
  have step: "hw_account_loop (e # m) w = hw_account_loop m w1"
    by (simp add: e w1_def l_def split: option.split)
  have sum: "hw_sum w1 j = (if j = i then (hw_sum w i)\<lparr>ts_current := ts_current (hw_sum w i) + sm_size s\<rparr> else hw_sum w j)" for j
    by (auto simp: hw_sum_def w1_def l_def map_of_map_insert map_of_map_modify split: option.splits)
  obtain r ns where ok: "hw_ok fin (hw_changedSummaries w) w r ns" using Cons.prems(1) by (auto simp: hw_inv_def)
  have "hw_ok fin (hw_changedSummaries w1) w1 r ns"
    using ok unfolding hw_ok_def sum by (simp add: w1_def)
  then have "hw_inv fin w1" by (auto simp: hw_inv_def)
  from Cons.IH [OF this] have IH: "hw_inv fin (hw_account_loop (e # m) w)"
    "\<And>j. hw_books (hw_account_loop (e # m) w) j = hw_books w1 j + sm_size (summary_at m j)"
    using Cons.prems(2) unfolding step by simp_all
  have "map_of m i = None" using Cons.prems(2) by (simp add: e map_of_eq_None_iff)
  then have "hw_books w1 j + sm_size (summary_at m j) = hw_books w j + sm_size (summary_at (e # m) j)" for j
    by (simp add: hw_books_def sum e summary_at_def)
  then show ?case using IH by simp
qed

interpretation heaptrack: writer hw_AccountSnapshot hw_UpdateModules hw_FlushData
  "hw_inv fin" hw_books hw_part hw_view "hr_expected fin" "hw_room fin"
  for fin
proof unfold_locales
  fix i show "hw_part UpdateModules i = 0" "hw_part FlushData i = 0" by (simp_all add: hw_part_def)
next
  fix w and m :: "(u32 \<times> AllocSummary) list" and t assume "hw_inv fin w" "distinct (map fst m)"
  then show "hw_inv fin (hw_AccountSnapshot m t w)" using hw_account_inv by (simp add: hw_AccountSnapshot_def)
next
  fix w and m :: "(u32 \<times> AllocSummary) list" and t i assume "hw_inv fin w" "distinct (map fst m)"
  then show "hw_books (hw_AccountSnapshot m t w) i = hw_books w i + hw_part (AccountSnapshot m t) i"
    using hw_account_inv by (simp add: hw_AccountSnapshot_def hw_part_def call_part_def)
next
  fix w assume "hw_inv fin w"
  then show "hw_inv fin (hw_UpdateModules w)" by (simp add: hw_inv_def hw_ok_def hw_sum_def hw_UpdateModules_def)
next
  fix w i show "hw_books (hw_UpdateModules w) i = hw_books w i" by (simp add: hw_books_def hw_sum_def hw_UpdateModules_def)
next
  fix w x assume "hw_inv fin w" "hw_room fin x w"
  then show "\<exists>w'. hw_FlushData x w = Some w' \<and> hw_inv fin w' \<and>
      (\<forall>i. hw_books w' i = hw_books w i \<and> hw_view w' i = hr_expected fin i (hw_books w i))" by (rule hw_flush_inv)
qed

section \<open>The file\<close>

definition process_fits :: "hw_process \<Rightarrow> bool" where
  "process_fits pr \<longleftrightarrow> newline \<notin> set (hp_cmdline pr) \<and> (\<forall>link. hp_exe pr = Some link \<longrightarrow> newline \<notin> set link) \<and>
     unat (hp_pageSize pr) < 2 ^ 60 \<and> unat (hp_physPages pr) < 2 ^ 60"

lemma cmdline_chars: "set (cmdline_loop buf) \<subseteq> set buf"
proof (induction buf rule: cmdline_loop.induct)
  case (1 buf)
  have "set (tl xs) \<subseteq> set xs" for xs :: string by (cases xs) auto
  then show ?case
    using 1 by (subst cmdline_loop.simps) (auto dest!: set_takeWhileD set_dropWhileD subsetD)
qed

lemma other_line:
  assumes "WriteHexLine (Txt c # a # args) = Some s" "newline \<notin> set s" "CHR '' '' \<notin> set c" "c \<notin> {''t'', ''+'', ''-''}" "reads out r"
  shows "\<exists>out'. put_line (Txt c # a # args) out = Some out' \<and> reads out' r"
proof -
  obtain rest where s: "s = c @ CHR '' '' # rest" using assms(1) by (auto simp: bind_eq_Some_conv)
  show ?thesis using reads_line [OF assms(5,2)] assms(1) apply_line_other [OF assms(3,4)] by (simp add: put_line_def s)
qed

lemma exe_line:
  assumes "process_fits pr" "reads out r"
  shows "\<exists>out'. WriteExe pr out = Some out' \<and> reads out' r"
proof (cases "\<exists>link. hp_exe pr = Some link \<and> 0 < length (take 1023 link) \<and> length (take 1023 link) < 1023")
  case True
  then obtain link where l: "hp_exe pr = Some link" "0 < length (take 1023 link)" "length (take 1023 link) < 1023" by blast
  let ?b = "take 1023 link" let ?n = "takeWhile (\<lambda>c. c \<noteq> CHR 0x00) ?b"
  have "int (length ?b) < 2 ^ 60" using l(3) by simp
  from hex_num_plain [OF _ this] obtain d where d: "hex_arg_text (Num (int (length ?b))) = Some d" "newline \<notin> set d" by auto
  have "newline \<notin> set link" using assms(1) l(1) by (simp add: process_fits_def)
  then have "newline \<notin> set ?n" by (auto dest: set_takeWhileD in_set_takeD)
  then have nl: "newline \<notin> set (''x '' @ d @ '' '' @ ?n)" using d(2) by simp
  have line: "WriteHexLine [Txt ''x'', Num (int (length ?b)), Txt ?n] = Some (''x '' @ d @ '' '' @ ?n)"
    using d(1) by (simp del: hex_arg_text.simps(2) length_take)
  have "\<exists>out'. put_line [Txt ''x'', Num (int (length ?b)), Txt ?n] out = Some out' \<and> reads out' r"
    by (rule other_line [OF line nl _ _ assms(2)]) simp_all
  then show ?thesis unfolding WriteExe_def Let_def l(1) using l(2,3) by (simp only: option.case if_True simp_thms)
next
  case False
  then show ?thesis using assms(2) by (auto simp: WriteExe_def Let_def split: option.split)
qed

lemma hw_new:
  assumes "process_fits pr"
  shows "\<exists>w. HeaptrackWriter_new pr = Some w \<and> hw_inv fin w \<and> (\<forall>i. hw_books w i = 0) \<and> read_heaptrack (hw_out w) = hreader_new \<and>
    hw_summaries w = [] \<and> hw_changedSummaries w = [] \<and> hw_writtenTraces w = []"
proof -
  have o0: "reads [] hreader_new" unfolding reads_def by (intro exI [of _ "[]"]) (simp add: unlines_def)
  have line: "WriteHexLine [Txt ''v'', Num 0x10550, Num 3] = Some (''v '' @ hex_digits 0x10550 @ '' '' @ hex_digits 3)"
    by (simp add: WriteHexValue_iff)
  have nl: "newline \<notin> set (''v '' @ hex_digits 0x10550 @ '' '' @ hex_digits 3)" using hex_digits_plain(2) by simp
  have "\<exists>o1. WriteVersion [] = Some o1 \<and> reads o1 hreader_new"
    unfolding WriteVersion_def by (rule other_line [OF line nl _ _ o0]) simp_all
  then obtain o1 where o1: "WriteVersion [] = Some o1" "reads o1 hreader_new" by blast
  obtain o2 where o2: "WriteExe pr o1 = Some o2" "reads o2 hreader_new" using exe_line [OF assms o1(2)] by blast
  have "newline \<notin> set (cmdline_loop (take 4096 (hp_cmdline pr)))"
    using cmdline_chars assms by (auto simp: process_fits_def dest!: subsetD in_set_takeD)
  then have "reads (o2 @ (''X '' @ cmdline_loop (take 4096 (hp_cmdline pr))) @ [newline]) (apply_line hreader_new (''X '' @ cmdline_loop (take 4096 (hp_cmdline pr))))"
    by (intro reads_line [OF o2(2)]) simp
  then have o3: "reads (WriteCommandLine pr o2) hreader_new"
    using apply_line_other [of "''X''" hreader_new] by (simp add: WriteCommandLine_def)
  obtain a where a: "hex_arg_text (Num (uint (hp_pageSize pr))) = Some a" "newline \<notin> set a"
    by (rule u64_num_plain [of "hp_pageSize pr"]) (use assms in \<open>simp add: process_fits_def\<close>)
  obtain b where b: "hex_arg_text (Num (uint (hp_physPages pr))) = Some b" "newline \<notin> set b"
    by (rule u64_num_plain [of "hp_physPages pr"]) (use assms in \<open>simp add: process_fits_def\<close>)
  have "\<exists>o4. WriteSystemInfo pr (WriteCommandLine pr o2) = Some o4 \<and> reads o4 hreader_new"
    unfolding WriteSystemInfo_def
    by (rule other_line [of _ _ _ "''I '' @ a @ '' '' @ b"]) (use a b o3 in \<open>simp_all del: hex_arg_text.simps(2)\<close>)
  then obtain o4 where o4: "WriteSystemInfo pr (WriteCommandLine pr o2) = Some o4" "reads o4 hreader_new" by blast
  let ?w = "\<lparr>hw_out = o4, hw_summaries = [], hw_changedSummaries = [], hw_writtenTraces = [], hw_updateModules = True, hw_tree = StacktraceTree_new\<rparr>"
  have "HeaptrackWriter_new pr = Some ?w" using o1(1) o2(1) o4(1) by (simp add: HeaptrackWriter_new_def)
  moreover have "tree_ok [\<lparr>tn_id = 0, tn_parent = 0\<rparr>] StacktraceTree_new"
    by (auto simp: tree_ok_def ptrs_ok_def StacktraceTree_new_def)
  then have "hw_ok fin (hw_changedSummaries ?w) ?w hreader_new [\<lparr>tn_id = 0, tn_parent = 0\<rparr>]"
    using o4(2) by (simp add: hw_ok_def nodes_match_def hreader_new_def hw_sum_def live_entry_def)
  then have "hw_inv fin ?w" unfolding hw_inv_def by blast
  moreover have "hw_books ?w i = 0" for i by (simp add: hw_books_def hw_sum_def)
  moreover have "read_heaptrack (hw_out ?w) = hreader_new" using reads_read [OF o4(2)] by simp
  ultimately show ?thesis by (intro exI [of _ ?w]) simp
qed

abbreviation heaptrack_run :: "(writer_call \<times> surroundings) list \<Rightarrow> HeaptrackWriter \<Rightarrow> HeaptrackWriter option" where
  "heaptrack_run \<equiv> run_calls hw_AccountSnapshot hw_UpdateModules hw_FlushData"

abbreviation heaptrack_flushes_ok :: "(u32 \<Rightarrow> ptr list option) \<Rightarrow> (writer_call \<times> surroundings) list \<Rightarrow> HeaptrackWriter \<Rightarrow> bool" where
  "heaptrack_flushes_ok fin \<equiv> flushes_ok hw_AccountSnapshot hw_UpdateModules hw_FlushData (hw_room fin)"

lemma hw_parts_sum: "(\<Sum>c \<leftarrow> cs. hw_part c i) = sm_size (calls_sum cs (Some i))"
  by (induction cs) (simp_all add: calls_sum_def hw_part_def)

lemma heaptrack_run_shows:
  assumes "process_fits pr" "snapshots_distinct (map fst cs)" "heaptrack_flushes_ok fin cs (the (HeaptrackWriter_new pr))"
    and "cs \<noteq> []" "fst (last cs) = FlushData"
  shows "\<exists>w. HeaptrackWriter_new pr \<bind> heaptrack_run cs = Some w \<and>
    (\<forall>i. hr_shown (read_heaptrack (hw_out w)) i = hr_expected fin i (sm_size (calls_sum (map fst cs) (Some i))))"
proof -
  obtain w0 where w0: "HeaptrackWriter_new pr = Some w0" "hw_inv fin w0" "\<forall>i. hw_books w0 i = 0" using hw_new [OF assms(1)] by blast
  have "heaptrack_flushes_ok fin cs w0" using assms(3) w0(1) by simp
  from heaptrack.run_shows [OF w0(2) assms(2) this] obtain w where w: "heaptrack_run cs w0 = Some w"
    "\<forall>i. hw_books w i = hw_books w0 i + (\<Sum>c \<leftarrow> map fst cs. hw_part c i)" "\<forall>i. hw_view w i = hr_expected fin i (hw_books w i)"
    using assms(4,5) by blast
  have "hr_shown (read_heaptrack (hw_out w)) i = hr_expected fin i (sm_size (calls_sum (map fst cs) (Some i)))" for i
    using w(2,3) w0(3) by (simp only: hw_parts_sum flip: hw_view_def) simp
  then show ?thesis using w0(1) w(1) by simp
qed

section \<open>Properties\<close>

text \<open>
  The heaptrack file. Feed the writer, from its construction on, with any calls of the worker that end
  with a flush, where the snapshots are maps, names have no line breaks, numbers are below \<open>2 ^ 60\<close>, the
  finder knows the traces as \<open>fin\<close> says when they are written, and node numbers fit in 32 bits. Then all
  writes succeed, and a reader of the file has, for every identifier whose stack trace is known, one live
  allocation with the sum of all reported sizes and the frames of the trace (return addresses minus one),
  if that sum is positive, and none otherwise.
\<close>

theorem heaptrack_file_shows:
  assumes "process_fits pr" "snapshots_distinct (map fst cs)" "heaptrack_flushes_ok fin cs (the (HeaptrackWriter_new pr))"
    and "cs \<noteq> []" "fst (last cs) = FlushData"
  shows "\<exists>w. HeaptrackWriter_new pr \<bind> heaptrack_run cs = Some w \<and>
    (\<forall>i. hr_shown (read_heaptrack (hw_out w)) i = hr_expected fin i (sm_size (calls_sum (map fst cs) (Some i))))"
  using heaptrack_run_shows [OF assms] .

text \<open>A run with two flushes of one trace.\<close>

definition demo_hw_process :: hw_process where
  "demo_hw_process = \<lparr>hp_exe = Some ''/bin/p'', hp_cmdline = ''p'', hp_pageSize = 4096, hp_physPages = 1\<rparr>"

definition demo_hw_surroundings :: surroundings where
  "demo_hw_surroundings =
     \<lparr>sx_now = 1, sx_elapsed = 1, sx_maxrss = 1, sx_modules = [], sx_progname = ''p'',
      sx_finder = (\<lambda>i. if i = 5 then Some demo_trace else None)\<rparr>"

definition demo_hw_calls :: "(writer_call \<times> surroundings) list" where
  "demo_hw_calls =
     [(AccountSnapshot [(5, AllocSummary 8 16 1 1 8)] (AllocSummary 8 16 1 1 8), demo_hw_surroundings), (FlushData, demo_hw_surroundings)]"

lemma demo_hw_flushes:
  "heaptrack_flushes_ok (\<lambda>i. if i = 5 then Some [5, 4, 3, 2, 1] else None) demo_hw_calls (the (HeaptrackWriter_new demo_hw_process))"
proof -
  have fits: "process_fits demo_hw_process" by (simp add: process_fits_def demo_hw_process_def)
  obtain w where w: "HeaptrackWriter_new demo_hw_process = Some w" "read_heaptrack (hw_out w) = hreader_new"
    "hw_summaries w = []" "hw_changedSummaries w = []" "hw_writtenTraces w = []" using hw_new [OF fits] by blast
  then show ?thesis
    by (auto simp: demo_hw_calls_def demo_hw_surroundings_def hw_AccountSnapshot_def hw_room_def finder_fits_def hw_books_def hw_sum_def
        frames_len_def hreader_new_def map_insert_def split: option.split)
qed

theorem heaptrack_file_shows_witness:
  "\<exists>w. HeaptrackWriter_new demo_hw_process \<bind> heaptrack_run demo_hw_calls = Some w \<and>
    hr_shown (read_heaptrack (hw_out w)) 5 = Some (8, [4, 3, 2, 1, 0]) \<and> hr_shown (read_heaptrack (hw_out w)) 6 = None"
proof -
  let ?fin = "\<lambda>i :: u32. if i = 5 then Some [5, 4, 3, 2, 1 :: ptr] else None"
  have "process_fits demo_hw_process" by (simp add: process_fits_def demo_hw_process_def)
  from heaptrack_file_shows [OF this _ demo_hw_flushes] obtain w where
    w: "HeaptrackWriter_new demo_hw_process \<bind> heaptrack_run demo_hw_calls = Some w"
    "\<And>i. hr_shown (read_heaptrack (hw_out w)) i = hr_expected ?fin i (sm_size (calls_sum (map fst demo_hw_calls) (Some i)))"
    by (auto simp: demo_hw_calls_def snapshots_distinct_def)
  have "sm_size (calls_sum (map fst demo_hw_calls) (Some 5)) = 8"
    by (simp add: calls_sum_def demo_hw_calls_def call_part_def summary_at_def)
  then have "hr_expected ?fin 5 (sm_size (calls_sum (map fst demo_hw_calls) (Some 5))) = Some (8, [4, 3, 2, 1, 0])"
    by (simp add: hr_expected_def nonnull_def)
  then show ?thesis using w by (intro exI [of _ w]) (simp add: hr_expected_def)
qed

text \<open>
  C35. Hexadecimal numbers. Writing a number with \<open>WriteHexValue\<close> stays inside the buffer and the table of
  digits exactly for the numbers from 0 to below \<open>2 ^ 60\<close>, and the text then denotes the number: for
  larger values the terminating zero is written behind the buffer of 16 characters, although 16
  digits are enough for every 64-bit value.
\<close>

theorem WriteHexValue_bounds:
  "map_option hex_value (WriteHexValue v) = (if 0 \<le> v \<and> v < 2 ^ 60 then Some (nat v) else None)"
  unfolding WriteHexValue_iff by simp

end
