(* ===== verification/Writers_Adaptor.thy ===== *)
theory Writers_Adaptor
  imports Text_Writer Proto_File Heaptrack_File Config
begin

text \<open>
  The adaptor that hands every call of the worker to all writers, and the factory that makes the writers
  the configuration enables (\<open>src/source/memhawk/src/impl/writers/adaptor.h\<close>, \<open>factory.h\<close>).
\<close>

section \<open>The model\<close>

datatype any_writer = TextW TextWriter | ProtoW ProtobufWriter | HeaptrackW HeaptrackWriter

text \<open>What the writers are given besides the calls: the libraries, the order of the views and the settings.\<close>

record writers_env =
  we_codec :: codec
  we_ordered :: "(AllocSummary \<Rightarrow> int) \<Rightarrow> rows \<Rightarrow> rows"
  we_text :: TextWriterSettings

fun wr_UpdateModules :: "any_writer \<Rightarrow> any_writer" where
  "wr_UpdateModules (TextW w) = TextW (tw_UpdateModules w)"
| "wr_UpdateModules (ProtoW w) = ProtoW (pw_UpdateModules w)"
| "wr_UpdateModules (HeaptrackW w) = HeaptrackW (hw_UpdateModules w)"

fun wr_AccountSnapshot :: "rows \<Rightarrow> AllocSummary \<Rightarrow> any_writer \<Rightarrow> any_writer" where
  "wr_AccountSnapshot m t (TextW w) = TextW (tw_AccountSnapshot m t w)"
| "wr_AccountSnapshot m t (ProtoW w) = ProtoW (pw_AccountSnapshot m t w)"
| "wr_AccountSnapshot m t (HeaptrackW w) = HeaptrackW (hw_AccountSnapshot m t w)"

fun wr_FlushData :: "writers_env \<Rightarrow> surroundings \<Rightarrow> any_writer \<Rightarrow> any_writer option" where
  "wr_FlushData E x (TextW w) = Some (TextW (tw_FlushData (we_ordered E) (we_text E) x w))"
| "wr_FlushData E x (ProtoW w) = Some (ProtoW (pw_FlushData (we_codec E) x w))"
| "wr_FlushData E x (HeaptrackW w) = map_option HeaptrackW (hw_FlushData x w)"

definition ad_UpdateModules :: "any_writer list \<Rightarrow> any_writer list" where
  "ad_UpdateModules m_writers = map wr_UpdateModules m_writers"

definition ad_AccountSnapshot :: "rows \<Rightarrow> AllocSummary \<Rightarrow> any_writer list \<Rightarrow> any_writer list" where
  "ad_AccountSnapshot summaries tot m_writers = map (wr_AccountSnapshot summaries tot) m_writers"

fun ad_FlushData :: "writers_env \<Rightarrow> surroundings \<Rightarrow> any_writer list \<Rightarrow> any_writer list option" where
  "ad_FlushData E x [] = Some []"
| "ad_FlushData E x (wtr # m_writers) =
     do { wtr \<leftarrow> wr_FlushData E x wtr; m_writers \<leftarrow> ad_FlushData E x m_writers; Some (wtr # m_writers) }"

definition AddWriter :: "any_writer \<Rightarrow> any_writer list \<Rightarrow> any_writer list" where
  "AddWriter wtr m_writers = m_writers @ [wtr]"

text \<open>What the constructors of the writers ask the system for.\<close>

record process_facts =
  pf_info :: ProcessInfo
  pf_surroundings :: surroundings
  pf_process :: hw_process

definition CreateWritersAdaptor :: "codec \<Rightarrow> process_facts \<Rightarrow> cvar list \<Rightarrow> any_writer list option" where
  "CreateWritersAdaptor C P cfg =
     (let adaptor = [];
          adaptor = (if flag_at [''text_writer'', ''enabled''] cfg then AddWriter (TextW TextWriter_new) adaptor else adaptor);
          adaptor = (if flag_at [''proto_writer'', ''enabled''] cfg
                     then AddWriter (ProtoW (ProtobufWriter_new C (pf_info P) (pf_surroundings P))) adaptor else adaptor)
      in if flag_at [''heaptrack_writer'', ''enabled''] cfg
         then do { w \<leftarrow> HeaptrackWriter_new (pf_process P); Some (AddWriter (HeaptrackW w) adaptor) }
         else Some adaptor)"

section \<open>The adaptor and its writers\<close>

text \<open>
  One writer on its own. The adaptor leaves every writer in the state it reaches on its own with the same calls
  (\<open>adaptor_each\<close>), so that what is proved of a writer holds for it behind the adaptor.
\<close>

fun run_writer :: "writers_env \<Rightarrow> (writer_call \<times> surroundings) list \<Rightarrow> any_writer \<Rightarrow> any_writer option" where
  "run_writer E cs (TextW w) = map_option TextW (text_run (we_ordered E) (we_text E) cs w)"
| "run_writer E cs (ProtoW w) = map_option ProtoW (proto_run (we_codec E) cs w)"
| "run_writer E cs (HeaptrackW w) = map_option HeaptrackW (heaptrack_run cs w)"

fun each :: "('a \<Rightarrow> 'a option) \<Rightarrow> 'a list \<Rightarrow> 'a list option" where
  "each f [] = Some []"
| "each f (x # xs) = do { y \<leftarrow> f x; ys \<leftarrow> each f xs; Some (y # ys) }"

abbreviation adaptor_run :: "writers_env \<Rightarrow> (writer_call \<times> surroundings) list \<Rightarrow> any_writer list \<Rightarrow> any_writer list option" where
  "adaptor_run E \<equiv> run_calls ad_AccountSnapshot ad_UpdateModules (ad_FlushData E)"

lemma each_bind: "each (\<lambda>x. f x \<bind> g) xs = each f xs \<bind> each g"
proof (induction xs)
  case (Cons x xs)
  then show ?case by (cases "f x"; cases "each f xs"; cases "g (the (f x))") auto
qed simp

lemma each_Some [simp]: "each (\<lambda>x. Some (f x)) xs = Some (map f xs)"
  by (induction xs) auto

lemma ad_FlushData_each: "ad_FlushData E x ws = each (wr_FlushData E x) ws"
  by (induction ws) auto

lemma map_bind_option: "map_option f (m \<bind> g) = (m \<bind> (\<lambda>x. map_option f (g x)))"
  by (cases m) auto

definition one_call :: "writers_env \<Rightarrow> writer_call \<times> surroundings \<Rightarrow> any_writer \<Rightarrow> any_writer option" where
  "one_call E cx w =
     (case fst cx of AccountSnapshot m t \<Rightarrow> Some (wr_AccountSnapshot m t w) | UpdateModules \<Rightarrow> Some (wr_UpdateModules w)
      | FlushData \<Rightarrow> wr_FlushData E (snd cx) w)"

lemma one_call_simps:
  "one_call E (AccountSnapshot m t, x) = (\<lambda>w. Some (wr_AccountSnapshot m t w))"
  "one_call E (UpdateModules, x) = (\<lambda>w. Some (wr_UpdateModules w))" "one_call E (FlushData, x) = wr_FlushData E x"
  by (intro ext; simp add: one_call_def)+

lemma run_writer_Nil [simp]: "run_writer E [] w = Some w"
  by (cases w) simp_all

lemma run_writer_Cons: "run_writer E (cx # cs) w = one_call E cx w \<bind> run_writer E cs"
  by (cases cx; cases w; cases "fst cx") (auto simp: one_call_def map_bind_option split: option.split bind_splits)

lemma adaptor_Cons: "adaptor_run E (cx # cs) ws = each (one_call E cx) ws \<bind> adaptor_run E cs"
proof (cases cx)
  case (Pair c x)
  then show ?thesis
    by (cases c) (simp_all add: one_call_simps ad_AccountSnapshot_def ad_UpdateModules_def ad_FlushData_each)
qed

lemma adaptor_each: "adaptor_run E cs ws = each (run_writer E cs) ws"
proof (induction cs arbitrary: ws)
  case (Cons cx cs)
  have "run_writer E (cx # cs) = (\<lambda>w. one_call E cx w \<bind> run_writer E cs)" using run_writer_Cons by blast
  then have "each (run_writer E (cx # cs)) ws = each (one_call E cx) ws \<bind> each (run_writer E cs)" by (simp only: each_bind)
  moreover have "each (run_writer E cs) = adaptor_run E cs" using Cons by (intro ext) simp
  ultimately show ?case by (simp only: adaptor_Cons)
next
  case Nil
  have "run_writer E [] = Some" using run_writer_Nil by blast
  then show ?case using each_Some [of "\<lambda>w. w" ws] by simp
qed

section \<open>The default configuration\<close>

text \<open>With the default configuration there is one writer, the protobuf writer.\<close>

lemma default_writers: "CreateWritersAdaptor C P WritersConfig = Some [ProtoW (ProtobufWriter_new C (pf_info P) (pf_surroundings P))]"
  by (simp add: CreateWritersAdaptor_def AddWriter_def flag_at_def config_defs)

end
