(* ===== verification/Startup.thy ===== *)
theory Startup
  imports Logging Writers_Adaptor Hawk_Malloc
begin

text \<open>
  Loading and unloading of the profiler (\<open>src/source/memhawk/src/hawk_malloc.cpp\<close>, \<open>init_memhawk\<close> and
  \<open>deinit_memhawk\<close>): the original functions are looked up, the options are parsed, the name of the program is
  compared with the regular expression of the options, logging starts, and the profiler is constructed with
  the values of the configuration (\<open>impl/memhawk.cpp\<close>).

  The descriptors of the log and of the files of the writers are in the state of the system (\<open>Logging\<close>); what a
  writer has written is in its record.

  What lies outside of the sources is a record of arguments: the dynamic linker, the environment, the
  regular expressions of RE2 (a pattern is refused with a text, or it is a predicate on names), the system
  and the libraries of the writers. The ends of the process that the code asks for are values.
\<close>

section \<open>The model\<close>

record world =
  w_dlsym :: "string \<Rightarrow> ptr"
  w_getenv :: "string \<Rightarrow> string option"
  w_split :: "string \<Rightarrow> string list"
  w_RE2 :: "string \<Rightarrow> string + (string \<Rightarrow> bool)"
  w_program_invocation_name :: string
  w_identity :: identity
  w_refuses :: "string \<Rightarrow> bool"
  w_reason :: string
  w_codec :: codec
  w_facts :: process_facts

record 'l start =
  s_process :: "'l process"
  s_hooks :: "(string \<times> ptr) list"
  s_log :: log_state
  gl_unwind :: "cvar list"
  gl_memhawk :: "MemHawk option"
  s_writers :: "any_writer list option"
  s_atfork :: bool

datatype ending = Aborted string | ExitConfig config_result | ExitLog | Overrun

text \<open>Looking up the original of a function; without it the process aborts.\<close>

definition hook_init :: "world \<Rightarrow> string \<Rightarrow> 'l start \<Rightarrow> ending + 'l start" where
  "hook_init W identifier s =
     (let ret = w_dlsym W identifier
      in if ret = 0 then Inl (Aborted identifier) else Inr (s\<lparr>s_hooks := (identifier, ret) # s_hooks s\<rparr>))"

fun hook_inits :: "world \<Rightarrow> string list \<Rightarrow> 'l start \<Rightarrow> ending + 'l start" where
  "hook_inits W [] s = Inr s"
| "hook_inits W (f # fs) s = (case hook_init W f s of Inl e \<Rightarrow> Inl e | Inr s \<Rightarrow> hook_inits W fs s)"

definition InitDlHooks :: "world \<Rightarrow> 'l start \<Rightarrow> ending + 'l start" where
  "InitDlHooks W s =
     (if gl_dlInitialised (s_process s) then Inr s
      else case hook_inits W [''dlopen'', ''dlclose''] s of
        Inl e \<Rightarrow> Inl e
      | Inr s \<Rightarrow> Inr (s\<lparr>s_process := (s_process s)\<lparr>gl_dlInitialised := True\<rparr>\<rparr>))"

definition InitHooks :: "world \<Rightarrow> 'l start \<Rightarrow> ending + 'l start" where
  "InitHooks W s =
     (case InitDlHooks W s of
        Inl e \<Rightarrow> Inl e
      | Inr s \<Rightarrow> hook_inits W [''calloc'', ''malloc'', ''free'', ''realloc'', ''posix_memalign'', ''valloc'', ''aligned_alloc''] s)"

definition log_msg :: "LogLevel \<Rightarrow> string \<Rightarrow> string \<Rightarrow> 'l start \<Rightarrow> 'l start" where
  "log_msg lv func msg s = s\<lparr>s_log := LogEx \<lparr>ll_level = lv, ll_func = func, ll_message = msg\<rparr> (s_log s)\<rparr>"

definition CheckProgname :: "world \<Rightarrow> string \<Rightarrow> 'l start \<Rightarrow> bool \<times> 'l start" where
  "CheckProgname W prognameRegex s =
     (if prognameRegex = [] then (True, s)
      else case w_RE2 W prognameRegex of
        Inl err \<Rightarrow> (False, log_msg Error ''CheckProgname'' (''Incorrect progname regex: '' @ err) s)
      | Inr FullMatch \<Rightarrow> (FullMatch (w_program_invocation_name W), s))"

text \<open>A member of the configuration that is a struct.\<close>

fun struct_at :: "string \<Rightarrow> cvar list \<Rightarrow> cvar list" where
  "struct_at n [] = []"
| "struct_at n (CVar m r isSet v # fs) = struct_at n fs"
| "struct_at n (CStruct m r isSet gs # fs) = (if m = n then gs else struct_at n fs)"

text \<open>
  The constructor and \<open>PostponedConstruct\<close>. The sizes of the configuration have 64 bits; the trackers take them
  in 32 bits.
\<close>

definition MemHawk_of :: "cvar list \<Rightarrow> MemHawk" where
  "MemHawk_of m_cfg =
     MemHawk_new (ucast (size_at [''lru_size''] m_cfg)) (ucast (size_at [''collapse_depth''] m_cfg)) (unat (size_at [''max_postponed''] m_cfg))"

text \<open>
  The files that the constructors of the enabled writers open, in the order of the factory. The text writer
  has two and ignores its option for a name.
\<close>

definition filename_at :: "string list \<Rightarrow> cvar list \<Rightarrow> string \<Rightarrow> string" where
  "filename_at p cfg filename = (case var_at p cfg of Some (VOptString (Some n)) \<Rightarrow> n | _ \<Rightarrow> filename)"

definition text_writer_files :: "identity \<Rightarrow> log_state \<Rightarrow> string list" where
  "text_writer_files I g = [GetProcessLogName I ''summary'' ''log'' g, GetProcessLogName I ''stacktraces'' ''log'' g]"

definition proto_writer_file :: "identity \<Rightarrow> log_state \<Rightarrow> cvar list \<Rightarrow> string" where
  "proto_writer_file I g cfg = filename_at [''proto_writer'', ''filename''] cfg (GetProcessLogName I ''protobuf'' ''binpb'' g)"

definition heaptrack_writer_file :: "identity \<Rightarrow> log_state \<Rightarrow> cvar list \<Rightarrow> string" where
  "heaptrack_writer_file I g cfg = filename_at [''heaptrack_writer'', ''filename''] cfg (GetProcessLogName I ''heaptrack'' ''txt'' g)"

lemmas writer_file_defs = text_writer_files_def proto_writer_file_def heaptrack_writer_file_def

definition writer_files :: "identity \<Rightarrow> log_state \<Rightarrow> cvar list \<Rightarrow> string list" where
  "writer_files I g cfg =
     (if flag_at [''text_writer'', ''enabled''] cfg then text_writer_files I g else []) @
     (if flag_at [''proto_writer'', ''enabled''] cfg then [proto_writer_file I g cfg] else []) @
     (if flag_at [''heaptrack_writer'', ''enabled''] cfg then [heaptrack_writer_file I g cfg] else [])"

definition open_writers :: "world \<Rightarrow> cvar list \<Rightarrow> log_state \<Rightarrow> log_state" where
  "open_writers W cfg g = g\<lparr>lg_system := fold (ofstream_open (w_refuses W)) (writer_files (w_identity W) g cfg) (lg_system g)\<rparr>"

definition mh_PostponedConstruct :: "world \<Rightarrow> cvar list \<Rightarrow> 'l start \<Rightarrow> ending + 'l start" where
  "mh_PostponedConstruct W m_cfg s =
     (let s = log_msg Debug ''PostponedConstruct'' ''begin'' s;
          s = s\<lparr>gl_memhawk := Some (MemHawk_of m_cfg)\<rparr>
      in case (if flag_at [''tracking_worker''] m_cfg
               then map_option Some (CreateWritersAdaptor (w_codec W) (w_facts W) (struct_at ''writers'' m_cfg)) else Some None) of
           None \<Rightarrow> Inl Overrun
         | Some wtr \<Rightarrow>
             (let s = s\<lparr>s_writers := wtr,
                         s_log := (if flag_at [''tracking_worker''] m_cfg then open_writers W (struct_at ''writers'' m_cfg) (s_log s) else s_log s)\<rparr>;
                  s = log_msg Debug ''PostponedConstruct'' ''end'' s
              in Inr (log_msg Info ''PostponedConstruct'' ''MemHawk fully initialized'' s)))"

definition start_memhawk :: "world \<Rightarrow> 'l start \<Rightarrow> ending + 'l start" where
  "start_memhawk W s =
     (case InitHooks W s of
        Inl e \<Rightarrow> Inl e
      | Inr s \<Rightarrow>
          (case ParseConfig (w_split W) (w_getenv W ''MEMHAWK_OPTS'') of
             Returned cfg \<Rightarrow>
               (let (matches, s) = CheckProgname W (string_at [''progname_regex''] cfg) s
                in if matches
                   then case LogInit (w_refuses W) (w_reason W) (w_identity W) (struct_at ''logging'' cfg) (s_log s) of
                          Inl g \<Rightarrow> Inl ExitLog
                        | Inr g \<Rightarrow>
                            (let s = s\<lparr>s_log := g, gl_unwind := struct_at ''unwind'' cfg\<rparr>;
                                 s = log_msg Info ''init_memhawk'' (''['' @ show_nat (getpid (w_identity W)) @ '']'') s;
                                 s = log_msg Info ''MemHawk'' ''Start MemHawk()'' s;
                                 s = s\<lparr>s_process := (s_process s)\<lparr>gl_memhawkReady := True, gl_initialised := True\<rparr>\<rparr>
                             in case mh_PostponedConstruct W (struct_at ''memhawk'' cfg) s of
                                  Inl e \<Rightarrow> Inl e
                                | Inr s \<Rightarrow> Inr (s\<lparr>s_atfork := True\<rparr>))
                   else Inr (s\<lparr>s_process := (s_process s)\<lparr>gl_initialised := True\<rparr>,
                               s_log := (s_log s)\<lparr>gl_loggingLevel := level_value Off\<rparr>\<rparr>))
           | r \<Rightarrow> Inl (ExitConfig r)))"

text \<open>The process as the loader leaves it.\<close>

definition start_new :: "'l \<Rightarrow> system \<Rightarrow> 'l start" where
  "start_new l y =
     \<lparr>s_process = process_start l, s_hooks = [], s_log = log_start y, gl_unwind = UnwindConfig, gl_memhawk = None, s_writers = None,
      s_atfork = False\<rparr>"

text \<open>
  The lines of \<open>Stop\<close> once the worker has ended. The number of slots of a hash map and the text of the ratio of
  misses, a floating point number, are arguments.
\<close>

record print_args =
  pa_capacity :: "(u32 \<times> AllocSummary) list \<Rightarrow> nat"
  pa_ratio :: "u64 \<Rightarrow> u64 \<Rightarrow> string"

definition PrintTracker :: "print_args \<Rightarrow> ThreadTracker \<Rightarrow> string" where
  "PrintTracker F m_tracker =
     (let cacheMissRatio = (if m_cacheUsages m_tracker \<noteq> 0 then pa_ratio F (m_cacheMisses m_tracker) (m_cacheUsages m_tracker) else ''0.000'')
      in ''TrackerId: '' @ show_nat (unat (m_trackerId m_tracker)) @
         '', allocSummaries: ('' @ show_nat (length (m_allocSummaries m_tracker)) @ '','' @ show_nat (pa_capacity F (m_allocSummaries m_tracker)) @
         ''), lru: '' @ show_nat (lru_Size (m_lruStacktraces m_tracker)) @ '', cache: (miss-ratio: '' @ cacheMissRatio @
         '', misses: '' @ show_nat (unat (m_cacheMisses m_tracker)) @ '', usages: '' @ show_nat (unat (m_cacheUsages m_tracker)) @
         ''), allocs: '' @ show_nat (unat (m_totalAllocs m_tracker)) @ '', deallocs: '' @ show_nat (unat (m_totalDeallocs m_tracker)))"

definition tracker_Describe :: "Storage \<Rightarrow> string" where
  "tracker_Describe m_storage =
     ''StacktraceTracker: nodes: '' @ show_nat (length (nodes m_storage)) @ '', edges: '' @ show_nat (GetEdgesCount (tree m_storage)) @
     '', ptrMap: '' @ show_nat (GetPtrMapSize (tree m_storage))"

definition mh_Stop :: "print_args \<Rightarrow> MemHawk \<Rightarrow> 'l start \<Rightarrow> 'l start" where
  "mh_Stop F mh s =
     (let s = log_msg Info ''Stop'' ''Stopping memhawk tracker thread'' s;
          s = log_msg Info ''Stop'' (''Total trackers: '' @ show_nat (length (m_thTrackers mh)) @ '', empty: '' @
                show_nat (length (m_finishedTrackers mh)) @ '', max postponed: '' @ show_nat (m_maxPostponedSize mh)) s;
          s = log_msg Info ''Stop'' (''Inner traces: ('' @ show_nat (static_StacktracesCount (m_innerBtTracker mh)) @ '', '' @
                show_nat (GetStorageSize (m_innerBtTracker mh)) @ ''), external: '' @ show_nat (StacktracesCount (m_btTracker mh))) s;
          s = log_msg Info ''Describe'' (tracker_Describe (m_btTracker mh)) s;
          s = log_msg Info ''Stop'' ''ExternalTrackers'' s;
          s = fold (\<lambda>tracker. log_msg Info ''PrintTracker'' (PrintTracker F tracker)) (m_thTrackers mh) s;
          s = log_msg Info ''Stop'' ''ExitingThreadsTracker'' s;
          s = log_msg Info ''PrintTracker'' (PrintTracker F (m_exitingThreadsTracker mh)) s;
          s = log_msg Info ''Stop'' ''InnerTracker'' s
      in log_msg Info ''PrintTracker'' (PrintTracker F (m_innerTracker mh)) s)"

definition stop_memhawk :: "print_args \<Rightarrow> 'l start \<Rightarrow> 'l start" where
  "stop_memhawk F s =
     (let s = (case gl_memhawk s of
                 None \<Rightarrow> s
               | Some mh \<Rightarrow> mh_Stop F mh (s\<lparr>s_process := (s_process s)\<lparr>gl_memhawkReady := False\<rparr>\<rparr>))
      in s\<lparr>s_log := LogDeinit (s_log s)\<rparr>)"

section \<open>Open files\<close>

text \<open>The descriptors with the files they stand for.\<close>

abbreviation open_files :: "system \<Rightarrow> (nat \<times> string) list" where
  "open_files y \<equiv> map (\<lambda>e. (fst e, fst (snd e))) (sy_fds y)"

abbreviation fds_ok :: "system \<Rightarrow> bool" where
  "fds_ok y \<equiv> distinct (map fst (sy_fds y))"

lemma open_files_keys: "map fst (sy_fds y) = map fst (open_files y)"
  by simp

lemma open_files_write: "fds_ok y \<Longrightarrow> open_files (sys_write fd t y) = open_files y"
  by (auto simp: sys_write_def map_modify_def split: option.split)
    (metis eq_key_imp_eq_value map_of_SomeD fst_conv)

lemma log_kept [simp]: "gl_logFile (fold LogEx ls g) = gl_logFile g" "gl_loggingConfig (fold LogEx ls g) = gl_loggingConfig g"
  by (induction ls arbitrary: g) simp_all

lemma open_files_line: "fds_ok (lg_system g) \<Longrightarrow> open_files (lg_system (LogEx l g)) = open_files (lg_system g)"
  by (simp add: LogEx_def LogPrint_def open_files_write)

lemma open_files_lines: "fds_ok (lg_system g) \<Longrightarrow> open_files (lg_system (fold LogEx ls g)) = open_files (lg_system g)"
proof (induction ls arbitrary: g)
  case (Cons l ls)
  note one = open_files_line [OF Cons.prems, of l]
  then have "fds_ok (lg_system (LogEx l g))" using Cons.prems unfolding open_files_keys by simp
  from Cons.IH [OF this] show ?case using one by simp
qed simp

lemma open_files_streams:
  assumes "fds_ok y"
  shows "\<exists>ks. length ks = length (filter (\<lambda>n. \<not> r n) names) \<and> distinct (ks @ map fst (sy_fds y)) \<and>
    open_files (fold (ofstream_open r) names y) = zip ks (rev (filter (\<lambda>n. \<not> r n) names)) @ open_files y"
  using assms
proof (induction names arbitrary: y)
  case (Cons n names)
  show ?case
  proof (cases "r n")
    case True
    then have "ofstream_open r n y = y" by (simp add: ofstream_open_def)
    then show ?thesis using Cons.IH [OF Cons.prems] True by simp
  next
    case False
    let ?y = "ofstream_open r n y"
    have y: "sy_fds ?y = (free_fd y, (n, 0)) # sy_fds y" using False by (simp add: ofstream_open_def)
    then have "fds_ok ?y" using Cons.prems free_fd_fresh [of y] by simp
    from Cons.IH [OF this] obtain ks where "length ks = length (filter (\<lambda>n. \<not> r n) names)" "distinct (ks @ map fst (sy_fds ?y))"
      "open_files (fold (ofstream_open r) names ?y) = zip ks (rev (filter (\<lambda>n. \<not> r n) names)) @ open_files ?y" by blast
    then show ?thesis using False by (intro exI [of _ "ks @ [free_fd y]"]) (simp add: y)
  qed
qed simp

text \<open>
  From one state of the log to a later one: the log has gone on, and the files of a list were opened, each
  with a descriptor of its own.
\<close>

definition opened :: "string list \<Rightarrow> log_state \<Rightarrow> log_state \<Rightarrow> bool" where
  "opened names g g' \<longleftrightarrow> gl_logFile g' = gl_logFile g \<and> gl_loggingConfig g' = gl_loggingConfig g \<and>
     (fds_ok (lg_system g) \<longrightarrow>
       (\<exists>ks. length ks = length names \<and> distinct (ks @ map fst (sy_fds (lg_system g))) \<and>
         open_files (lg_system g') = zip ks (rev names) @ open_files (lg_system g)))"

lemma opened_lines: "opened [] g (fold LogEx ls g)"
  using open_files_lines [of g ls] by (simp add: opened_def)

lemma opened_line: "opened [] g (LogEx l g)"
  using opened_lines [of g "[l]"] by simp

lemma opened_trans:
  assumes "opened as g g1" "opened bs g1 g2"
  shows "opened (as @ bs) g g2"
proof -
  have "\<exists>ks. length ks = length (as @ bs) \<and> distinct (ks @ map fst (sy_fds (lg_system g))) \<and>
      open_files (lg_system g2) = zip ks (rev (as @ bs)) @ open_files (lg_system g)" if ok: "fds_ok (lg_system g)"
  proof -
    obtain k1 where k1: "length k1 = length as" "distinct (k1 @ map fst (sy_fds (lg_system g)))"
      "open_files (lg_system g1) = zip k1 (rev as) @ open_files (lg_system g)" using assms(1) ok unfolding opened_def by blast
    have "map fst (sy_fds (lg_system g1)) = k1 @ map fst (sy_fds (lg_system g))" unfolding open_files_keys k1(3) using k1(1) by simp
    then obtain k2 where "length k2 = length bs" "distinct (k2 @ k1 @ map fst (sy_fds (lg_system g)))"
      "open_files (lg_system g2) = zip k2 (rev bs) @ open_files (lg_system g1)" using assms(2) k1(2) unfolding opened_def by fastforce
    then show ?thesis using k1 by (intro exI [of _ "k2 @ k1"]) simp
  qed
  then show ?thesis using assms by (simp add: opened_def)
qed

lemma opened_writers: "opened (filter (\<lambda>n. \<not> w_refuses W n) (writer_files (w_identity W) g cfg)) g (open_writers W cfg g)"
  using open_files_streams [of "lg_system g" "w_refuses W" "writer_files (w_identity W) g cfg"] by (simp add: opened_def open_writers_def)

text \<open>The files that stay open with the profiler.\<close>

definition kept_files :: "world \<Rightarrow> cvar list \<Rightarrow> log_state \<Rightarrow> string list" where
  "kept_files W m_cfg g =
     (if flag_at [''tracking_worker''] m_cfg
      then filter (\<lambda>n. \<not> w_refuses W n) (writer_files (w_identity W) g (struct_at ''writers'' m_cfg)) else [])"

lemma kept_files_cong: "gl_loggingConfig g = gl_loggingConfig g' \<Longrightarrow> kept_files W m_cfg g = kept_files W m_cfg g'"
  by (simp add: kept_files_def writer_files_def writer_file_defs GetProcessLogName_def)

section \<open>Looking up the originals\<close>

lemma hook_inits_Inr:
  "hook_inits W fs s = Inr s' \<longleftrightarrow> (\<forall>f \<in> set fs. w_dlsym W f \<noteq> 0) \<and> s' = s\<lparr>s_hooks := rev (map (\<lambda>f. (f, w_dlsym W f)) fs) @ s_hooks s\<rparr>"
  by (induction fs arbitrary: s) (auto simp: hook_init_def Let_def)

definition original_functions :: "string list" where
  "original_functions =
     [''dlopen'', ''dlclose'', ''calloc'', ''malloc'', ''free'', ''realloc'', ''posix_memalign'', ''valloc'', ''aligned_alloc'']"

definition originals :: "world \<Rightarrow> (string \<times> ptr) list" where
  "originals W = rev (map (\<lambda>f. (f, w_dlsym W f)) original_functions)"

lemma InitHooks_Inr:
  assumes "\<not> gl_dlInitialised (s_process s)"
  shows "InitHooks W s = Inr s' \<longleftrightarrow> (\<forall>f \<in> set original_functions. w_dlsym W f \<noteq> 0) \<and>
    s' = s\<lparr>s_process := (s_process s)\<lparr>gl_dlInitialised := True\<rparr>, s_hooks := originals W @ s_hooks s\<rparr>"
proof -
  let ?dl = "[''dlopen'', ''dlclose'']" and ?rest = "[''calloc'', ''malloc'', ''free'', ''realloc'', ''posix_memalign'', ''valloc'', ''aligned_alloc'']"
  let ?s1 = "s\<lparr>s_hooks := rev (map (\<lambda>f. (f, w_dlsym W f)) ?dl) @ s_hooks s\<rparr>"
  have all: "original_functions = ?dl @ ?rest" by (simp add: original_functions_def)
  show ?thesis
  proof (cases "\<forall>f \<in> set ?dl. w_dlsym W f \<noteq> 0")
    case True
    then have "hook_inits W ?dl s = Inr ?s1" by (simp only: hook_inits_Inr)
    then have "InitHooks W s = hook_inits W ?rest (?s1\<lparr>s_process := (s_process s)\<lparr>gl_dlInitialised := True\<rparr>\<rparr>)"
      using assms by (simp add: InitHooks_def InitDlHooks_def)
    then show ?thesis using True by (simp only: hook_inits_Inr) (auto simp: all originals_def)
  next
    case False
    then obtain e where "hook_inits W ?dl s = Inl e" using hook_inits_Inr [of W ?dl s] by (cases "hook_inits W ?dl s") blast+
    then show ?thesis using False assms by (auto simp: InitHooks_def InitDlHooks_def all)
  qed
qed

section \<open>What a start leaves\<close>

lemma log_msg_sel [simp]:
  "s_process (log_msg lv f m s) = s_process s" "s_hooks (log_msg lv f m s) = s_hooks s" "gl_memhawk (log_msg lv f m s) = gl_memhawk s"
  "s_writers (log_msg lv f m s) = s_writers s" "gl_unwind (log_msg lv f m s) = gl_unwind s" "s_atfork (log_msg lv f m s) = s_atfork s"
  "s_log (log_msg lv f m s) = LogEx \<lparr>ll_level = lv, ll_func = f, ll_message = m\<rparr> (s_log s)"
  by (simp_all add: log_msg_def)

lemma CheckProgname_sel [simp]:
  "s_process (snd (CheckProgname W r s)) = s_process s" "gl_memhawk (snd (CheckProgname W r s)) = gl_memhawk s"
  "s_hooks (snd (CheckProgname W r s)) = s_hooks s" "s_writers (snd (CheckProgname W r s)) = s_writers s"
  by (simp_all add: CheckProgname_def split: sum.split)

lemma PostponedConstruct_Inr:
  assumes "mh_PostponedConstruct W m_cfg s = Inr s'"
  shows "s_process s' = s_process s" "gl_memhawk s' = Some (MemHawk_of m_cfg)" "s_hooks s' = s_hooks s"
    "flag_at [''tracking_worker''] m_cfg \<Longrightarrow> s_writers s' = CreateWritersAdaptor (w_codec W) (w_facts W) (struct_at ''writers'' m_cfg)"
    "opened (kept_files W m_cfg (s_log s)) (s_log s) (s_log s')"
proof -
  obtain wtr where w: "(if flag_at [''tracking_worker''] m_cfg
      then map_option Some (CreateWritersAdaptor (w_codec W) (w_facts W) (struct_at ''writers'' m_cfg)) else Some None) = Some wtr"
    using assms by (cases "if flag_at [''tracking_worker''] m_cfg
      then map_option Some (CreateWritersAdaptor (w_codec W) (w_facts W) (struct_at ''writers'' m_cfg)) else Some None")
      (simp_all add: mh_PostponedConstruct_def Let_def)
  let ?g1 = "LogEx \<lparr>ll_level = Debug, ll_func = ''PostponedConstruct'', ll_message = ''begin''\<rparr> (s_log s)"
  let ?g2 = "if flag_at [''tracking_worker''] m_cfg then open_writers W (struct_at ''writers'' m_cfg) ?g1 else ?g1"
  have s': "s' = log_msg Info ''PostponedConstruct'' ''MemHawk fully initialized'' (log_msg Debug ''PostponedConstruct'' ''end''
      ((log_msg Debug ''PostponedConstruct'' ''begin'' s)\<lparr>gl_memhawk := Some (MemHawk_of m_cfg), s_writers := wtr, s_log := ?g2\<rparr>))"
    using assms by (auto simp: mh_PostponedConstruct_def w Let_def)
  show "s_process s' = s_process s" "gl_memhawk s' = Some (MemHawk_of m_cfg)" "s_hooks s' = s_hooks s" by (simp_all add: s')
  show "flag_at [''tracking_worker''] m_cfg \<Longrightarrow> s_writers s' = CreateWritersAdaptor (w_codec W) (w_facts W) (struct_at ''writers'' m_cfg)"
    using w by (auto simp: s')
  have "kept_files W m_cfg ?g1 = kept_files W m_cfg (s_log s)" by (rule kept_files_cong) simp
  then have "opened (kept_files W m_cfg (s_log s)) ?g1 ?g2"
    using opened_writers [of W ?g1 "struct_at ''writers'' m_cfg"] opened_lines [of ?g1 "[]"] by (auto simp: kept_files_def)
  from opened_trans [OF opened_trans [OF opened_trans [OF opened_line this] opened_line] opened_line]
  show "opened (kept_files W m_cfg (s_log s)) (s_log s) (s_log s')" by (simp add: s')
qed

text \<open>When the profiler is meant for this program.\<close>

definition is_profiled :: "world \<Rightarrow> cvar list \<Rightarrow> bool" where
  "is_profiled W cfg \<longleftrightarrow>
     (let r = string_at [''progname_regex''] cfg
      in r = [] \<or> (case w_RE2 W r of Inl err \<Rightarrow> False | Inr FullMatch \<Rightarrow> FullMatch (w_program_invocation_name W)))"

lemma CheckProgname_result:
  "fst (CheckProgname W (string_at [''progname_regex''] cfg) s) \<longleftrightarrow> is_profiled W cfg"
  "is_profiled W cfg \<Longrightarrow> snd (CheckProgname W (string_at [''progname_regex''] cfg) s) = s"
  "\<exists>ls. s_log (snd (CheckProgname W r s)) = fold LogEx ls (s_log s)"
proof -
  show "fst (CheckProgname W (string_at [''progname_regex''] cfg) s) \<longleftrightarrow> is_profiled W cfg"
    "is_profiled W cfg \<Longrightarrow> snd (CheckProgname W (string_at [''progname_regex''] cfg) s) = s"
    by (auto simp: CheckProgname_def is_profiled_def Let_def split: sum.splits)
  let ?l = "\<lambda>err. \<lparr>ll_level = Error, ll_func = ''CheckProgname'', ll_message = ''Incorrect progname regex: '' @ err\<rparr>"
  have "s_log (snd (CheckProgname W r s)) = fold LogEx (if r = [] then [] else case w_RE2 W r of Inl err \<Rightarrow> [?l err] | Inr _ \<Rightarrow> []) (s_log s)"
    by (simp add: CheckProgname_def split: sum.split)
  then show "\<exists>ls. s_log (snd (CheckProgname W r s)) = fold LogEx ls (s_log s)" by (rule exI)
qed

abbreviation parsed :: "world \<Rightarrow> config_result" where
  "parsed W \<equiv> ParseConfig (w_split W) (w_getenv W ''MEMHAWK_OPTS'')"

abbreviation logging_start :: "world \<Rightarrow> cvar list \<Rightarrow> log_state \<Rightarrow> log_state + log_state" where
  "logging_start W cfg \<equiv> LogInit (w_refuses W) (w_reason W) (w_identity W) (struct_at ''logging'' cfg)"

lemma init_memhawk_alt:
  "init_memhawk m p = (if m then p\<lparr>gl_dlInitialised := True, gl_memhawkReady := True, gl_initialised := True\<rparr>
     else p\<lparr>gl_dlInitialised := True, gl_initialised := True\<rparr>)"
  by (simp add: init_memhawk_def Let_def)

lemma start_parsed:
  assumes "start_memhawk W s = Inr s'" "\<not> gl_dlInitialised (s_process s)"
  obtains cfg where "parsed W = Returned cfg" "\<forall>f \<in> set original_functions. w_dlsym W f \<noteq> 0"
    "InitHooks W s = Inr (s\<lparr>s_process := (s_process s)\<lparr>gl_dlInitialised := True\<rparr>, s_hooks := originals W @ s_hooks s\<rparr>)"
proof -
  obtain s1 where i: "InitHooks W s = Inr s1" using assms(1) by (auto simp: start_memhawk_def split: sum.splits)
  then obtain cfg where c: "parsed W = Returned cfg" using assms(1) by (auto simp: start_memhawk_def split: config_result.splits)
  show thesis using that [OF c] i InitHooks_Inr [OF assms(2), of W s1] by blast
qed

lemma start_profiled:
  assumes "start_memhawk W s = Inr s'" "\<not> gl_dlInitialised (s_process s)" "parsed W = Returned cfg" "is_profiled W cfg"
  obtains g where "logging_start W cfg (s_log s) = Inr g" "opened (kept_files W (struct_at ''memhawk'' cfg) g) g (s_log s')"
    "s_process s' = init_memhawk True (s_process s)" "gl_memhawk s' = Some (MemHawk_of (struct_at ''memhawk'' cfg))" "s_hooks s' = originals W @ s_hooks s"
    "flag_at [''tracking_worker''] (struct_at ''memhawk'' cfg) \<Longrightarrow>
      s_writers s' = CreateWritersAdaptor (w_codec W) (w_facts W) (struct_at ''writers'' (struct_at ''memhawk'' cfg))"
proof -
  let ?s1 = "s\<lparr>s_process := (s_process s)\<lparr>gl_dlInitialised := True\<rparr>, s_hooks := originals W @ s_hooks s\<rparr>"
  have i: "InitHooks W s = Inr ?s1" by (rule start_parsed [OF assms(1,2)])
  have c: "CheckProgname W (string_at [''progname_regex''] cfg) ?s1 = (True, ?s1)"
    using CheckProgname_result(1,2) [of W cfg ?s1] assms(4) by (intro prod_eqI) simp_all
  note run = assms(1) [unfolded start_memhawk_def i assms(3) sum.case config_result.case Let_def c prod.case if_True]
  obtain g where g: "logging_start W cfg (s_log s) = Inr g"
    using run by (cases "logging_start W cfg (s_log s)") simp_all
  let ?l1 = "\<lparr>ll_level = Info, ll_func = ''init_memhawk'', ll_message = ''['' @ show_nat (getpid (w_identity W)) @ '']''\<rparr>"
  let ?l2 = "\<lparr>ll_level = Info, ll_func = ''MemHawk'', ll_message = ''Start MemHawk()''\<rparr>"
  let ?s2 = "log_msg Info ''MemHawk'' ''Start MemHawk()'' (log_msg Info ''init_memhawk'' (''['' @ show_nat (getpid (w_identity W)) @ '']'')
    (?s1\<lparr>s_log := g, gl_unwind := struct_at ''unwind'' cfg\<rparr>))"
  define s3 where "s3 = ?s2\<lparr>s_process := (s_process ?s2)\<lparr>gl_memhawkReady := True, gl_initialised := True\<rparr>\<rparr>"
  have "(case mh_PostponedConstruct W (struct_at ''memhawk'' cfg) s3 of Inl e \<Rightarrow> Inl e | Inr s \<Rightarrow> Inr (s\<lparr>s_atfork := True\<rparr>)) = Inr s'"
    using run g unfolding s3_def by simp
  then obtain s4 where s4: "mh_PostponedConstruct W (struct_at ''memhawk'' cfg) s3 = Inr s4" "s' = s4\<lparr>s_atfork := True\<rparr>"
    by (cases "mh_PostponedConstruct W (struct_at ''memhawk'' cfg) s3") simp_all
  have s3: "s_log s3 = fold LogEx [?l1, ?l2] g" "s_process s3 = init_memhawk True (s_process s)" "s_hooks s3 = originals W @ s_hooks s"
    by (simp_all add: s3_def init_memhawk_alt)
  note P = PostponedConstruct_Inr [OF s4(1)]
  have "kept_files W (struct_at ''memhawk'' cfg) (s_log s3) = kept_files W (struct_at ''memhawk'' cfg) g"
    by (rule kept_files_cong) (simp add: s3(1))
  then have "opened (kept_files W (struct_at ''memhawk'' cfg) g) g (s_log s')"
    using opened_trans [OF opened_lines [of g "[?l1, ?l2]"]] P(5) s4(2) s3(1) by fastforce
  from that [OF g this] show thesis using P(1-4) s4(2) s3(2,3) by simp
qed

lemma start_not_profiled:
  assumes "start_memhawk W s = Inr s'" "\<not> gl_dlInitialised (s_process s)" "parsed W = Returned cfg" "\<not> is_profiled W cfg"
  obtains ls where "s_log s' = (fold LogEx ls (s_log s))\<lparr>gl_loggingLevel := level_value Off\<rparr>"
    "s_process s' = init_memhawk False (s_process s)" "gl_memhawk s' = gl_memhawk s" "s_hooks s' = originals W @ s_hooks s"
proof -
  let ?s1 = "s\<lparr>s_process := (s_process s)\<lparr>gl_dlInitialised := True\<rparr>, s_hooks := originals W @ s_hooks s\<rparr>"
  have i: "InitHooks W s = Inr ?s1" by (rule start_parsed [OF assms(1,2)])
  define s2 where "s2 = snd (CheckProgname W (string_at [''progname_regex''] cfg) ?s1)"
  then have c: "CheckProgname W (string_at [''progname_regex''] cfg) ?s1 = (False, s2)"
    using CheckProgname_result(1) [of W cfg ?s1] assms(4) by (intro prod_eqI) simp_all
  have s': "s' = s2\<lparr>s_process := (s_process s2)\<lparr>gl_initialised := True\<rparr>, s_log := (s_log s2)\<lparr>gl_loggingLevel := level_value Off\<rparr>\<rparr>"
    using assms(1) unfolding start_memhawk_def i assms(3) sum.case config_result.case Let_def c prod.case by simp
  obtain ls where "s_log s2 = fold LogEx ls (s_log s)" using CheckProgname_result(3) [of W _ ?s1] s2_def by auto
  then show thesis using that s' by (simp add: init_memhawk_alt s2_def)
qed

section \<open>Unloading\<close>

lemma open_files_deinit:
  "open_files (lg_system (LogDeinit g)) =
    (if flag_at [''main_log''] (gl_loggingConfig g) then filter (\<lambda>e. int (fst e) \<noteq> gl_logFile g) (open_files (lg_system g)) else open_files (lg_system g))"
  by (simp add: LogDeinit_def Let_def sys_close_def filter_map o_def)

lemma LogInit_open:
  assumes "LogInit refuses reason I cfg g0 = Inr g"
  shows "gl_loggingConfig g = cfg"
    "flag_at [''main_log''] cfg \<Longrightarrow> \<exists>fd name. gl_logFile g = int fd \<and> fd \<notin> fst ` set (sy_fds (lg_system g0)) \<and>
      open_files (lg_system g) = (fd, name) # open_files (lg_system g0)"
    "\<not> flag_at [''main_log''] cfg \<Longrightarrow> open_files (lg_system g) = open_files (lg_system g0)"
  using assms free_fd_fresh [of "lg_system g0"] by (auto simp: LogInit_def Let_def sys_open_def split: if_splits)

text \<open>After logging has ended, what was opened since it started is still there, except for the log itself.\<close>

lemma opened_deinit:
  assumes "LogInit refuses reason I cfg g0 = Inr g" "opened names g g'" "fds_ok (lg_system g0)"
  shows "\<exists>ks. length ks = length names \<and> distinct (ks @ map fst (sy_fds (lg_system g0))) \<and>
    open_files (lg_system (LogDeinit g')) = zip ks (rev names) @ open_files (lg_system g0)"
proof (cases "flag_at [''main_log''] cfg")
  case True
  obtain fd name where g: "gl_logFile g = int fd" "fd \<notin> fst ` set (sy_fds (lg_system g0))"
    "open_files (lg_system g) = (fd, name) # open_files (lg_system g0)" using LogInit_open(2) [OF assms(1) True] by (elim exE conjE) (rule that)
  have k: "map fst (sy_fds (lg_system g)) = fd # map fst (sy_fds (lg_system g0))" unfolding open_files_keys g(3) by simp
  then obtain ks where ks: "length ks = length names" "distinct (ks @ fd # map fst (sy_fds (lg_system g0)))"
    "open_files (lg_system g') = zip ks (rev names) @ (fd, name) # open_files (lg_system g0)"
    using assms(2,3) g(2,3) by (auto simp: opened_def)
  have "filter (\<lambda>e. int (fst e) \<noteq> int fd) (zip ks (rev names)) = zip ks (rev names)"
    using ks(2) by (auto simp: filter_id_conv dest: set_zip_leftD)
  moreover have "filter (\<lambda>e. int (fst e) \<noteq> int fd) (open_files (lg_system g0)) = open_files (lg_system g0)"
    using g(2) by (force simp: filter_id_conv)
  ultimately have "open_files (lg_system (LogDeinit g')) = zip ks (rev names) @ open_files (lg_system g0)"
    using assms(2) LogInit_open(1) [OF assms(1)] True ks(3) g(1) by (simp add: open_files_deinit opened_def)
  then show ?thesis using ks by auto
next
  case False
  then have o: "open_files (lg_system g) = open_files (lg_system g0)" by (rule LogInit_open(3) [OF assms(1)])
  then have k: "map fst (sy_fds (lg_system g)) = map fst (sy_fds (lg_system g0))" by (simp only: open_files_keys)
  show ?thesis using assms(2,3) LogInit_open(1) [OF assms(1)] False o unfolding opened_def k by (simp add: open_files_deinit)
qed

lemma mh_Stop_log: "\<exists>ls. s_log (mh_Stop F mh s) = fold LogEx ls (s_log s)"
proof -
  have one: "s_log (log_msg lv f m s) = fold LogEx [\<lparr>ll_level = lv, ll_func = f, ll_message = m\<rparr>] (s_log s)" for lv f m and s :: "'a start" by simp
  have many: "s_log (fold (\<lambda>t. log_msg lv f (h t)) ts s) = fold LogEx (map (\<lambda>t. \<lparr>ll_level = lv, ll_func = f, ll_message = h t\<rparr>) ts) (s_log s)"
    for lv f and h :: "ThreadTracker \<Rightarrow> string" and ts and s :: "'a start" by (induction ts arbitrary: s) simp_all
  show ?thesis unfolding mh_Stop_def Let_def one many fold_append [symmetric, unfolded o_def, THEN fun_cong] by (metis comp_apply fold_append)
qed

section \<open>The default configuration\<close>

lemma default_members:
  "struct_at ''logging'' MainConfig = LoggingConfig" "struct_at ''memhawk'' MainConfig = MemHawkConfig" "struct_at ''writers'' MemHawkConfig = WritersConfig"
  "string_at [''progname_regex''] MainConfig = []" "flag_at [''tracking_worker''] MemHawkConfig"
  by (simp_all add: MainConfig_def MemHawkConfig_def string_at_def flag_at_def)

lemma default_hawk: "MemHawk_of MemHawkConfig = MemHawk_new 256 8 512"
  by (simp add: MemHawk_of_def MemHawkConfig_def size_at_def)

lemma default_profiled: "is_profiled W MainConfig"
  by (simp add: is_profiled_def default_members)

lemma LogInit_accepts: "(\<And>n. \<not> refuses n) \<Longrightarrow> \<exists>g. LogInit refuses reason I cfg g0 = Inr g"
  by (simp add: LogInit_def Let_def sys_open_def)

lemma start_defaults:
  assumes "w_getenv W ''MEMHAWK_OPTS'' = None" "\<forall>f \<in> set original_functions. w_dlsym W f \<noteq> 0" "\<And>n. \<not> w_refuses W n"
  shows "\<exists>s. start_memhawk W (start_new l y) = Inr s"
proof -
  let ?s1 = "(start_new l y)\<lparr>s_process := (s_process (start_new l y))\<lparr>gl_dlInitialised := True\<rparr>, s_hooks := originals W @ s_hooks (start_new l y)\<rparr>"
  have i: "InitHooks W (start_new l y) = Inr ?s1"
    using assms(2) by (subst InitHooks_Inr) (simp_all add: start_new_def process_start_def)
  have p: "parsed W = Returned MainConfig" by (simp add: ParseConfig_def assms(1))
  have c: "CheckProgname W (string_at [''progname_regex''] MainConfig) ?s1 = (True, ?s1)" by (simp add: CheckProgname_def default_members)
  obtain g where g: "logging_start W MainConfig (s_log ?s1) = Inr g" using LogInit_accepts assms(3) by blast
  have f: "\<exists>s'. mh_PostponedConstruct W MemHawkConfig s = Inr s'" for s :: "'a start"
    by (simp add: mh_PostponedConstruct_def default_members default_writers Let_def)
  show ?thesis
    unfolding start_memhawk_def i p sum.case config_result.case Let_def c prod.case if_True g default_members(2)
    using f by (metis (no_types, lifting) old.sum.simps(6))
qed

lemma started_defaults:
  assumes "start_memhawk W (start_new l y) = Inr s" "w_getenv W ''MEMHAWK_OPTS'' = None"
  shows "gl_memhawk s = Some (MemHawk_new 256 8 512)"
    "s_writers s = Some [ProtoW (ProtobufWriter_new (w_codec W) (pf_info (w_facts W)) (pf_surroundings (w_facts W)))]"
    "s_process s = init_memhawk True (process_start l)" "gl_loggingConfig (s_log s) = LoggingConfig"
proof -
  have n: "\<not> gl_dlInitialised (s_process (start_new l y :: 'a start))" "s_process (start_new l y) = process_start l"
    by (simp_all add: start_new_def process_start_def)
  have p: "parsed W = Returned MainConfig" by (simp add: ParseConfig_def assms(2))
  note simps = default_members default_writers default_hawk n(2)
  show "gl_memhawk s = Some (MemHawk_new 256 8 512)"
    by (rule start_profiled [OF assms(1) n(1) p default_profiled]) (simp add: simps)
  show "s_writers s = Some [ProtoW (ProtobufWriter_new (w_codec W) (pf_info (w_facts W)) (pf_surroundings (w_facts W)))]"
    by (rule start_profiled [OF assms(1) n(1) p default_profiled]) (simp add: simps)
  show "s_process s = init_memhawk True (process_start l)"
    by (rule start_profiled [OF assms(1) n(1) p default_profiled]) (simp add: simps)
  show "gl_loggingConfig (s_log s) = LoggingConfig"
    by (rule start_profiled [OF assms(1) n(1) p default_profiled]) (simp add: opened_def LogInit_open(1) default_members)
qed

text \<open>The file of the protobuf writer is open, when the system grants it.\<close>

lemma LogInit_fds_ok:
  assumes "LogInit refuses reason I cfg g0 = Inr g" "fds_ok (lg_system g0)"
  shows "fds_ok (lg_system g)"
proof (cases "flag_at [''main_log''] cfg")
  case True
  from LogInit_open(2) [OF assms(1) True] show ?thesis using assms(2) by (elim exE conjE) (simp add: open_files_keys [of "lg_system g"] o_def)
next
  case False
  from LogInit_open(3) [OF assms(1) False] show ?thesis using assms(2) by (simp only: open_files_keys)
qed

lemma default_kept:
  assumes "gl_loggingConfig g = LoggingConfig" "\<not> w_refuses W (GetProcessLogName (w_identity W) ''protobuf'' ''binpb'' g)"
  shows "kept_files W MemHawkConfig g = [GetProcessLogName (w_identity W) ''protobuf'' ''binpb'' g]"
  using assms by (simp add: kept_files_def writer_files_def writer_file_defs filename_at_def default_members flag_at_def config_defs)

lemma started_proto_file:
  assumes "start_memhawk W (start_new l y) = Inr s" "w_getenv W ''MEMHAWK_OPTS'' = None" "fds_ok y"
    and "\<not> w_refuses W (GetProcessLogName (w_identity W) ''protobuf'' ''binpb'' (s_log s))"
  shows "\<exists>fd. (fd, GetProcessLogName (w_identity W) ''protobuf'' ''binpb'' (s_log s)) \<in> set (open_files (lg_system (s_log s)))"
proof -
  let ?name = "GetProcessLogName (w_identity W) ''protobuf'' ''binpb'' (s_log s)"
  have n: "\<not> gl_dlInitialised (s_process (start_new l y :: 'a start))" "s_log (start_new l y :: 'a start) = log_start y"
    by (simp_all add: start_new_def process_start_def)
  have p: "parsed W = Returned MainConfig" by (simp add: ParseConfig_def assms(2))
  obtain g where g: "logging_start W MainConfig (log_start y) = Inr g" "opened (kept_files W MemHawkConfig g) g (s_log s)"
    using start_profiled [OF assms(1) n(1) p default_profiled] unfolding n(2) default_members by metis
  have "kept_files W MemHawkConfig g = kept_files W MemHawkConfig (s_log s)" using g(2) by (intro kept_files_cong) (simp add: opened_def)
  then have k: "kept_files W MemHawkConfig g = [?name]" using default_kept [OF started_defaults(4) [OF assms(1,2)] assms(4)] by simp
  have "fds_ok (lg_system g)" using LogInit_fds_ok [OF g(1)] assms(3) by (simp add: log_start_def)
  then obtain ks where "length ks = 1" "open_files (lg_system (s_log s)) = zip ks [?name] @ open_files (lg_system g)"
    using g(2) unfolding k opened_def by auto
  then show ?thesis by (auto simp: length_Suc_conv)
qed

section \<open>Properties\<close>

text \<open>
  C4. Starting refines the step of the hooks. When the constructor of the library returns, all original
  functions were found, the options were accepted, and the process is in the state that the model of the
  hooks has after its initialisation. The profiler exists exactly when the name of the program matches,
  and then it is the one that the configuration describes.
\<close>

theorem start_refines_init:
  assumes "start_memhawk W (start_new l y) = Inr s"
  shows "\<exists>cfg. ParseConfig (w_split W) (w_getenv W ''MEMHAWK_OPTS'') = Returned cfg \<and>
    s_process s = init_memhawk (is_profiled W cfg) (process_start l) \<and>
    gl_memhawk s = (if is_profiled W cfg then Some (MemHawk_of (struct_at ''memhawk'' cfg)) else None) \<and>
    (\<forall>f \<in> set original_functions. \<exists>a. a \<noteq> 0 \<and> map_of (s_hooks s) f = Some a)"
proof -
  have n: "\<not> gl_dlInitialised (s_process (start_new l y :: 'a start))" "s_process (start_new l y) = process_start l"
    "gl_memhawk (start_new l y :: 'a start) = None" "s_hooks (start_new l y :: 'a start) = []" by (simp_all add: start_new_def process_start_def)
  obtain cfg where cfg: "parsed W = Returned cfg" "\<forall>f \<in> set original_functions. w_dlsym W f \<noteq> 0" by (rule start_parsed [OF assms n(1)])
  have "distinct original_functions" by (simp add: original_functions_def)
  then have "map_of (originals W) f = Some (w_dlsym W f)" if "f \<in> set original_functions" for f
    using that by (simp add: originals_def map_of_eq_Some_iff rev_map [symmetric] o_def)
  then have h: "\<forall>f \<in> set original_functions. \<exists>a. a \<noteq> 0 \<and> map_of (originals W) f = Some a" using cfg(2) by blast
  show ?thesis
  proof (cases "is_profiled W cfg")
    case True
    then show ?thesis using start_profiled [OF assms n(1) cfg(1) True] cfg(1) h n by (metis append_Nil2)
  next
    case False
    then show ?thesis using start_not_profiled [OF assms n(1) cfg(1) False] cfg(1) h n by (metis append_Nil2)
  qed
qed

text \<open>The system after some lines were logged and the library was unloaded.\<close>

abbreviation unloaded :: "print_args \<Rightarrow> log_line list \<Rightarrow> 'l start \<Rightarrow> system" where
  "unloaded F ls s \<equiv> lg_system (s_log (stop_memhawk F (s\<lparr>s_log := fold LogEx ls (s_log s)\<rparr>)))"

text \<open>
  C5. Descriptors. Take a process from the loading of the library to its unloading, with any lines logged in
  between. If it is profiled, then it has afterwards the descriptors it had before and, since the profiler
  is not destroyed, one more for each file of the enabled writers that could be opened: the descriptor of
  the log is closed, those of the writers are not. If it is not profiled, because its name does not match,
  then unloading closes the standard error output, which the library never opened.
\<close>

theorem unload_descriptors:
  assumes "start_memhawk W (start_new l y) = Inr s" "distinct (map fst (sy_fds y))"
  shows "\<exists>cfg. ParseConfig (w_split W) (w_getenv W ''MEMHAWK_OPTS'') = Returned cfg \<and>
    (if gl_memhawk s = None then open_files (unloaded F ls s) = filter (\<lambda>e. fst e \<noteq> 2) (open_files y)
     else \<exists>ks. length ks = length (kept_files W (struct_at ''memhawk'' cfg) (s_log s)) \<and> distinct (ks @ map fst (sy_fds y)) \<and>
       open_files (unloaded F ls s) = zip ks (rev (kept_files W (struct_at ''memhawk'' cfg) (s_log s))) @ open_files y)"
proof -
  have n: "\<not> gl_dlInitialised (s_process (start_new l y :: 'a start))" "gl_memhawk (start_new l y :: 'a start) = None"
    "s_log (start_new l y :: 'a start) = log_start y" by (simp_all add: start_new_def process_start_def)
  obtain cfg where cfg: "parsed W = Returned cfg" by (rule start_parsed [OF assms(1) n(1)])
  show ?thesis
  proof (cases "is_profiled W cfg")
    case True
    let ?ns = "kept_files W (struct_at ''memhawk'' cfg)"
    obtain g where g: "logging_start W cfg (log_start y) = Inr g" "opened (?ns g) g (s_log s)" "gl_memhawk s \<noteq> None"
      using start_profiled [OF assms(1) n(1) cfg True] unfolding n(3) by (metis option.distinct(1))
    then obtain mh where mh: "gl_memhawk s = Some mh" by blast
    let ?t = "s\<lparr>s_log := fold LogEx ls (s_log s), s_process := (s_process s)\<lparr>gl_memhawkReady := False\<rparr>\<rparr>"
    obtain ls1 where l: "s_log (mh_Stop F mh ?t) = fold LogEx ls1 (fold LogEx ls (s_log s))" using mh_Stop_log [of F mh ?t] by auto
    have "opened (?ns g) g (fold LogEx ls1 (fold LogEx ls (s_log s)))"
      using opened_trans [OF opened_trans [OF g(2) opened_lines] opened_lines] by simp
    from opened_deinit [OF g(1) this] assms(2) obtain ks where "length ks = length (?ns g)" "distinct (ks @ map fst (sy_fds y))"
      "open_files (lg_system (LogDeinit (fold LogEx ls1 (fold LogEx ls (s_log s))))) = zip ks (rev (?ns g)) @ open_files y"
      by (auto simp: log_start_def)
    moreover have "unloaded F ls s = lg_system (LogDeinit (fold LogEx ls1 (fold LogEx ls (s_log s))))" using mh l by (simp add: stop_memhawk_def)
    moreover have "?ns g = ?ns (s_log s)" using g(2) by (intro kept_files_cong) (simp add: opened_def)
    ultimately show ?thesis using mh cfg by auto
  next
    case False
    obtain ls0 where s: "s_log s = (fold LogEx ls0 (log_start y))\<lparr>gl_loggingLevel := level_value Off\<rparr>" "gl_memhawk s = None"
      using start_not_profiled [OF assms(1) n(1) cfg False] unfolding n by metis
    have "opened [] (log_start y) (fold LogEx ls0 (log_start y))" by (rule opened_lines)
    then have "open_files (lg_system (s_log s)) = open_files y" using assms(2) s(1) by (simp add: opened_def log_start_def)
    moreover from this have "fds_ok (lg_system (s_log s))" using assms(2) unfolding open_files_keys by simp
    ultimately have "open_files (lg_system (fold LogEx ls (s_log s))) = open_files y" by (simp add: open_files_lines)
    then have "open_files (unloaded F ls s) = filter (\<lambda>e. fst e \<noteq> 2) (open_files y)"
      using s by (simp add: stop_memhawk_def open_files_deinit log_start_def demo_config)
    then show ?thesis using s(2) cfg by simp
  qed
qed

text \<open>
  The default configuration starts. Without options, when the original functions exist and the log can
  be opened, the constructor of the library returns; the profiler has a cache of 256 traces, collapses
  recursion up to depth 8, has room for 512 postponed operations, and writes the protobuf file only.
\<close>

theorem default_start:
  assumes "w_getenv W ''MEMHAWK_OPTS'' = None" "\<forall>f \<in> set original_functions. w_dlsym W f \<noteq> 0" "\<And>n. \<not> w_refuses W n"
  shows "\<exists>s. start_memhawk W (start_new l y) = Inr s \<and> s_process s = init_memhawk True (process_start l) \<and>
    gl_memhawk s = Some (MemHawk_new 256 8 512) \<and>
    s_writers s = Some [ProtoW (ProtobufWriter_new (w_codec W) (pf_info (w_facts W)) (pf_surroundings (w_facts W)))]"
proof -
  obtain s where s: "start_memhawk W (start_new l y) = Inr s" using start_defaults [OF assms, of l y] by blast
  then show ?thesis using started_defaults [OF s assms(1)] by blast
qed

text \<open>A world in which everything is found and granted, without and with an option that names another program.\<close>

definition demo_world :: world where
  "demo_world =
     \<lparr>w_dlsym = \<lambda>_. 1, w_getenv = \<lambda>_. None, w_split = split_at CHR '':'', w_RE2 = \<lambda>r. Inr (\<lambda>n. n = r),
      w_program_invocation_name = ''prog'', w_identity = demo_identity, w_refuses = \<lambda>_. False, w_reason = [], w_codec = plain_codec,
      w_facts = \<lparr>pf_info = demo_info, pf_surroundings = demo_surroundings, pf_process = demo_hw_process\<rparr>\<rparr>"

definition other_world :: world where
  "other_world = demo_world\<lparr>w_getenv := \<lambda>_. Some ''progname_regex=other''\<rparr>"

lemma demo_world_sel [simp]:
  "w_getenv demo_world = (\<lambda>_. None)" "w_dlsym demo_world = (\<lambda>_. 1)" "w_refuses demo_world = (\<lambda>_. False)" "w_codec demo_world = plain_codec"
  by (simp_all add: demo_world_def)

lemma other_parsed:
  obtains cfg where "parsed other_world = Returned cfg" "\<not> is_profiled other_world cfg"
proof -
  have v: "var_at [''progname_regex''] MainConfig = Some (VString [])" by (simp add: config_defs)
  obtain cfg where c: "parse_elems [''progname_regex=other''] MainConfig = (cfg, True, [])"
    "\<And>q v. var_at q MainConfig = Some v \<Longrightarrow>
      var_at q cfg = (case map_of [([''progname_regex''], ''other'')] q of None \<Rightarrow> Some v | Some s \<Rightarrow> ParseValue s v)"
    using parse_assignments [OF MainConfig_names, of "[([''progname_regex''], ''other'')]"] v by (auto simp: assignment_def)
  have at: "size_at track_depth cfg = 32" "size_at max_postponed cfg = 512" "flag_at [''help''] cfg = False" "string_at [''progname_regex''] cfg = ''other''"
    using c(2) [OF v] c(2) [of max_postponed "VSize 512"] c(2) [of "[''help'']" "VBool False"] c(2) [of track_depth "VSize 32"]
    by (simp_all add: size_at_def flag_at_def string_at_def config_defs)
  have "ParseStruct (split_at CHR '':'') ''progname_regex=other'' MainConfig = (cfg, True, [])"
    using ParseStruct_valid [OF MainConfig_optional, of "split_at CHR '':''" "''progname_regex=other''"] c(1) by simp
  then have "parsed other_world = Returned cfg"
    using at by (simp add: other_world_def demo_world_def ParseConfig_def ValidateConfig_def MaxUnwindDepth_cfg_def MinUnwindDepth_def MinPostponedSize_def)
  then show thesis using that at(4) by (simp add: is_profiled_def other_world_def demo_world_def)
qed

lemma other_start: obtains s where "start_memhawk other_world (start_new () demo_system) = Inr s" "gl_memhawk s = None"
proof -
  let ?s = "start_new () demo_system"
  let ?s1 = "?s\<lparr>s_process := (s_process ?s)\<lparr>gl_dlInitialised := True\<rparr>, s_hooks := originals other_world @ s_hooks ?s\<rparr>"
  obtain cfg where cfg: "parsed other_world = Returned cfg" "\<not> is_profiled other_world cfg" by (rule other_parsed)
  have i: "InitHooks other_world ?s = Inr ?s1"
    by (subst InitHooks_Inr) (simp_all add: start_new_def process_start_def other_world_def)
  obtain s2 where c: "CheckProgname other_world (string_at [''progname_regex''] cfg) ?s1 = (False, s2)"
    using CheckProgname_result(1) [of other_world cfg ?s1] cfg(2) by (cases "CheckProgname other_world (string_at [''progname_regex''] cfg) ?s1") simp
  obtain s where s: "start_memhawk other_world ?s = Inr s"
    unfolding start_memhawk_def i cfg(1) sum.case config_result.case Let_def c prod.case by simp
  have "\<not> gl_dlInitialised (s_process ?s)" "gl_memhawk ?s = None" by (simp_all add: start_new_def process_start_def)
  then show thesis using that [OF s] start_not_profiled [OF s _ cfg] by metis
qed

theorem start_refines_init_witness:
  "\<exists>s cfg. start_memhawk other_world (start_new () demo_system) = Inr s \<and>
     s_process s = init_memhawk (is_profiled other_world cfg) (process_start ()) \<and> gl_memhawk s = None"
  by (rule other_start) (use start_refines_init [of other_world "()" demo_system] in metis)

definition demo_print :: print_args where
  "demo_print = \<lparr>pa_capacity = length, pa_ratio = \<lambda>_ _. ''0.500''\<rparr>"

theorem unload_descriptors_witness:
  "\<exists>s t. start_memhawk other_world (start_new () demo_system) = Inr s \<and> gl_memhawk s = None \<and>
     open_files demo_system = [(0, ''tty''), (1, ''tty''), (2, ''tty'')] \<and>
     open_files (unloaded demo_print demo_lines s) = [(0, ''tty''), (1, ''tty'')] \<and>
     start_memhawk demo_world (start_new () demo_system) = Inr t \<and>
     (\<exists>k. open_files (unloaded demo_print demo_lines t) =
       [(k, ''.//memhawk_prog_7_protobuf.binpb''), (0, ''tty''), (1, ''tty''), (2, ''tty'')])"
proof -
  obtain s where s: "start_memhawk other_world (start_new () demo_system) = Inr s" "gl_memhawk s = None" by (rule other_start)
  obtain t where t: "start_memhawk demo_world (start_new () demo_system) = Inr t" using start_defaults [of demo_world "()" demo_system] by auto
  have d: "distinct (map fst (sy_fds demo_system))" by (simp add: demo_system_def)
  have o: "open_files (unloaded demo_print demo_lines s) = [(0, ''tty''), (1, ''tty'')]"
    using unload_descriptors [OF s(1) d, of demo_print demo_lines] s(2) by (simp add: demo_system_def)
  have "gl_memhawk t \<noteq> None" "kept_files demo_world MemHawkConfig (s_log t) = [''.//memhawk_prog_7_protobuf.binpb'']"
    using started_defaults(1,4) [OF t]
    by (simp_all add: kept_files_def writer_files_def writer_file_defs filename_at_def GetProcessLogName_def default_members flag_at_def config_defs
        string_at_def demo_world_def demo_identity_def show_seven)
  then obtain ks where "length ks = 1"
      "open_files (unloaded demo_print demo_lines t) = zip ks [''.//memhawk_prog_7_protobuf.binpb''] @ open_files demo_system"
    using unload_descriptors [OF t d, of demo_print demo_lines] by (auto simp: ParseConfig_def default_members)
  then have "\<exists>k. open_files (unloaded demo_print demo_lines t) = [(k, ''.//memhawk_prog_7_protobuf.binpb''), (0, ''tty''), (1, ''tty''), (2, ''tty'')]"
    by (auto simp: length_Suc_conv demo_system_def)
  then show ?thesis using s o t by (auto simp: demo_system_def)
qed

theorem default_start_witness:
  "\<exists>s. start_memhawk demo_world (start_new () demo_system) = Inr s \<and> gl_memhawk s = Some (MemHawk_new 256 8 512)"
  using default_start [of demo_world "()" demo_system] by auto

end
