(* ===== verification/Config_Text.thy ===== *)
theory Config_Text
  imports Logging
begin

text \<open>
  What the configuration prints (\<open>src/source/memhawk/src/impl/config.cpp\<close>, \<open>config/describe_struct.h\<close>,
  \<open>logging_level.h\<close>): the messages about options that cannot be used, and the help text with all variables and
  their values. The text of a value is compared with what the parser reads.
\<close>

section \<open>The model\<close>

fun Describe_value :: "cvalue \<Rightarrow> string" where
  "Describe_value (VBool b) = (if b then ''true'' else ''false'')"
| "Describe_value (VSize n) = show_nat (unat n)"
| "Describe_value (VLevel l) = DescribeLevel l"
| "Describe_value (VString s) = s"
| "Describe_value (VOptString (Some s)) = s"
| "Describe_value (VOptString None) = ''{}''"

definition OnKey :: "string \<times> cvalue \<Rightarrow> string" where
  "OnKey ctx = fst ctx @ '' = '' @ Describe_value (snd ctx) @ [CHR 0x0A]"

definition OnError :: "ParseError \<Rightarrow> string" where
  "OnError err =
     (case pe_type err of
        FieldNotFound \<Rightarrow> ''Failed to find field: '' @ pe_field err @ '', during parsing key: '' @ pe_key err @ [CHR 0x0A]
      | ValueNotParsed \<Rightarrow>
          ''Failed to parse value: '' @ pe_value err @ '', field: '' @ pe_field err @ '', during parsing key: '' @ pe_key err @ [CHR 0x0A]
      | ValueNotFound \<Rightarrow> ''Incorrect option format: '' @ pe_key err @ '', failed to find value'' @ [CHR 0x0A]
      | RequiredFieldMissing \<Rightarrow> ''Required field missing, key: '' @ pe_key err @ '', field: '' @ pe_field err @ [CHR 0x0A])"

text \<open>The messages of \<open>ValidateConfig\<close>; they have no end of line.\<close>

fun validate_message :: "cfg_message \<Rightarrow> string" where
  "validate_message (DepthAbove n) = ''Can't set track depth more than: '' @ show_nat (unat n)"
| "validate_message (DepthBelow n) = ''Can't set track depth less than: '' @ show_nat (unat n)"
| "validate_message (PostponedBelow n) = ''Can't set postponed size less than: '' @ show_nat (unat n)"

text \<open>Everything \<open>ParseConfig\<close> prints to the standard error output.\<close>

definition ParseConfig_output :: "(string \<Rightarrow> string list) \<Rightarrow> string option \<Rightarrow> string" where
  "ParseConfig_output split env =
     (case env of
        None \<Rightarrow> []
      | Some str \<Rightarrow>
          (let (cfg, ok, errs) = ParseStruct split str MainConfig;
               out = concat (map OnError errs)
           in if \<not> ok then out
              else let (cfg, valid, msgs) = ValidateConfig cfg;
                       out = out @ concat (map validate_message msgs)
                   in if \<not> valid then out
                      else if flag_at [''help''] cfg
                      then out @ ''full set of fields in config:'' @ [CHR 0x0A] @ concat (map OnKey (DescribeStruct MainConfig []))
                      else out))"

section \<open>Values\<close>

text \<open>The values whose text the parser reads back.\<close>

fun readable :: "cvalue \<Rightarrow> bool" where
  "readable (VLevel l) = False"
| "readable (VOptString None) = False"
| "readable v = True"

lemma parse_integral_show: "lo \<le> int n \<Longrightarrow> int n \<le> hi \<Longrightarrow> parse_integral b lo hi (show_nat n) = Some (int n)"
  using from_chars_nat [of "[]" lo n hi b] by (simp add: parse_integral_def stops_def)

lemma size_in_range: "int (unat (n :: u64)) \<le> 2 ^ 64 - 1"
proof -
  have "uint n < 2 ^ 64" using uint_lt2p [of n] by simp
  then show ?thesis by simp
qed

lemma readable_roundtrip: "readable v \<Longrightarrow> kind_of w = kind_of v \<Longrightarrow> ParseValue (Describe_value v) w = Some v"
proof -
  assume r: "readable v" "kind_of w = kind_of v"
  have "ParseValue (Describe_value v) v = Some v"
    using r(1)
  proof (cases v)
    case (VSize n)
    have "parse_integral False 0 (2 ^ 64 - 1) (show_nat (unat n)) = Some (int (unat n))"
      by (rule parse_integral_show [OF _ size_in_range]) simp
    then show ?thesis using VSize by simp
  next
    case (VOptString t)
    then show ?thesis using r(1) by (cases t) simp_all
  qed simp_all
  then show ?thesis using ParseValue_kind_cong [OF r(2)] by simp
qed

lemma level_unreadable: "ParseValue (Describe_value (VLevel l)) (VLevel m) = None"
  by (simp add: parse_integral_def from_chars_def is_digit_def)

section \<open>Paths of a described configuration\<close>

fun paths :: "cvar list \<Rightarrow> (string list \<times> cvalue) list" where
  "paths [] = []"
| "paths (CStruct n r isSet fs # rest) = map (\<lambda>(p, v). (n # p, v)) (paths fs) @ paths rest"
| "paths (CVar n r isSet v # rest) = ([n], v) # paths rest"

lemma join_by_snoc: "kp \<noteq> [] \<Longrightarrow> join_by c (kp @ [n]) = join_by c kp @ c # n"
  by (induction c kp rule: join_by.induct) (auto simp: neq_Nil_conv)

lemma join_by_nonempty: "kp \<noteq> [] \<Longrightarrow> \<forall>m \<in> set kp. m \<noteq> [] \<Longrightarrow> join_by c kp \<noteq> []"
  by (induction c kp rule: join_by.induct) auto

lemma full_path_join:
  assumes "\<forall>m \<in> set kp. m \<noteq> []"
  shows "full_path (join_by CHR ''.'' kp) n = join_by CHR ''.'' (kp @ [n])"
  using assms join_by_nonempty [of kp "CHR ''.''"] by (cases "kp = []") (simp_all add: join_by_snoc)

lemma paths_described:
  assumes "names_ok fs" "\<forall>m \<in> set kp. m \<noteq> []"
  shows "DescribeStruct fs (join_by CHR ''.'' kp) = map (\<lambda>(p, v). (join_by CHR ''.'' (kp @ p), v)) (paths fs)"
  using assms
proof (induction fs arbitrary: kp rule: paths.induct)
  case (2 n r isSet fs rest)
  then have "n \<noteq> []" by (simp add: plain_name_def)
  then show ?case using 2 by (simp add: full_path_join del: full_path.simps) (simp add: case_prod_unfold)
next
  case (3 n r isSet v rest)
  then show ?case by (simp add: full_path_join del: full_path.simps)
qed simp

lemma paths_head: "(p, v) \<in> set (paths fs) \<Longrightarrow> p \<noteq> [] \<and> hd p \<in> cv_name ` set fs"
  by (induction fs arbitrary: p rule: paths.induct) auto

lemma paths_var_at:
  assumes "names_ok fs"
  shows "(p, v) \<in> set (paths fs) \<longleftrightarrow> var_at p fs = Some v"
  using assms
proof (induction p fs rule: var_at.induct)
  case (2 f fs)
  then show ?case using paths_head [of "[]" v "f # fs"] by auto
next
  case (3 n p m r isSet w fs)
  then show ?case using paths_head [of "n # p" v fs] by auto
next
  case (4 n p m r isSet gs fs)
  then show ?case using paths_head [of "n # p" v fs] by (auto simp: image_iff case_prod_unfold intro: bexI [of _ "(p, v)"])
qed simp

lemma paths_distinct: "names_ok fs \<Longrightarrow> distinct (map fst (paths fs))"
proof (induction fs rule: paths.induct)
  case (2 n r isSet fs rest)
  have "fst ` set (map (\<lambda>(p, v). (n # p, v)) (paths fs)) \<inter> fst ` set (paths rest) = {}"
    using 2(3) paths_head [of _ _ rest] by fastforce
  moreover have "distinct (map fst (map (\<lambda>(p, v). (n # p, v)) (paths fs)))"
    using 2 by (simp add: o_def case_prod_unfold distinct_map inj_on_def)
  ultimately show ?case using 2 by (simp add: image_image)
next
  case (3 n r isSet v rest)
  then show ?case using paths_head [of _ _ rest] by fastforce
qed simp

section \<open>The options of a configuration\<close>

text \<open>A configuration written as options: the help lines of its readable values.\<close>

definition as_options :: "cvar list \<Rightarrow> string" where
  "as_options c =
     join_by CHR '':'' (map (\<lambda>(k, v). k @ ''='' @ Describe_value v) (filter (\<lambda>(k, v). readable v) (DescribeStruct c [])))"

definition assigned :: "cvar list \<Rightarrow> (string list \<times> string) list" where
  "assigned c = map (\<lambda>(p, v). (p, Describe_value v)) (filter (\<lambda>(p, v). readable v) (paths c))"

lemma as_options_assigned: "names_ok c \<Longrightarrow> as_options c = join_by CHR '':'' (map assignment (assigned c))"
  using paths_described [of c "[]"]
  by (simp add: as_options_def assigned_def filter_map o_def case_prod_unfold assignment_def)

lemma assigned_lookup:
  assumes "names_ok c" "var_at q c = Some v"
  shows "map_of (rev (assigned c)) q = (if readable v then Some (Describe_value v) else None)"
proof -
  have keys: "map fst (assigned c) = map fst (filter (\<lambda>(p, v). readable v) (paths c))" by (simp add: assigned_def o_def case_prod_unfold)
  have "distinct (map fst (assigned c))" unfolding keys using paths_distinct [OF assms(1)] by (rule distinct_map_filter)
  then have "map_of (rev (assigned c)) q = Some t \<longleftrightarrow> (q, t) \<in> set (assigned c)" for t by (simp add: rev_map [symmetric])
  moreover have "(q, t) \<in> set (assigned c) \<longleftrightarrow> readable v \<and> t = Describe_value v" for t
    using assms paths_var_at [OF assms(1), of q] by (force simp: assigned_def)
  ultimately show ?thesis by (cases "map_of (rev (assigned c)) q") auto
qed

section \<open>Properties\<close>

text \<open>
  C37. Printing and parsing. Take any values of the configuration, without colons in the texts, and write the
  lines of the help text of their readable values as options: they are accepted without an error, and every
  variable gets back exactly its value. The other values are the levels of the log, whose names the parser
  refuses, and file names that are not set; they stay at their defaults.
\<close>

theorem described_config_reparses:
  assumes "split_ok split" "map skeleton c = map skeleton MainConfig" "\<forall>kv \<in> set (DescribeStruct c []). CHR '':'' \<notin> set (Describe_value (snd kv))"
  shows "(\<exists>cfg. ParseStruct split (as_options c) MainConfig = (cfg, True, []) \<and>
      (\<forall>q v. var_at q c = Some v \<longrightarrow> var_at q cfg = (if readable v then Some v else var_at q MainConfig))) \<and>
    (\<forall>l m. ParseValue (Describe_value (VLevel l)) (VLevel m) = None)"
proof -
  have names: "names_ok c" using assms(2) names_ok_skeleton [of c] names_ok_skeleton [of MainConfig] MainConfig_names by simp
  have kinds: "map_option kind_of (var_at p c) = map_option kind_of (var_at p MainConfig)" for p
    using var_at_skeleton [of p c] var_at_skeleton [of p MainConfig] assms(2) by simp
  have twin: "\<exists>w. var_at p MainConfig = Some w \<and> kind_of w = kind_of v" if "var_at p c = Some v" for p v
    using kinds [of p] that by (cases "var_at p MainConfig") auto
  obtain b where b: "var_at [''help''] c = Some (VBool b)"
  proof -
    have "var_at [''help''] MainConfig = Some (VBool False)" by (simp add: config_defs)
    with kinds [of "[''help'']"] obtain v where "var_at [''help''] c = Some v" "kind_of v = VBool False" by auto
    then show thesis using that by (cases v) auto
  qed
  have ne: "assigned c \<noteq> []" using assigned_lookup [OF names b] by auto
  have ok: "CHR '':'' \<notin> set (snd a) \<and> (\<exists>v. var_at (fst a) MainConfig = Some v \<and> ParseValue (snd a) v \<noteq> None)" if a: "a \<in> set (assigned c)" for a
  proof -
    obtain v where v: "(fst a, v) \<in> set (paths c)" "readable v" "snd a = Describe_value v" using a by (auto simp: assigned_def)
    have "(join_by CHR ''.'' (fst a), v) \<in> set (DescribeStruct c [])" using paths_described [OF names, of "[]"] v(1) by force
    then have "CHR '':'' \<notin> set (snd a)" using assms(3) v(3) by force
    moreover obtain w where "var_at (fst a) MainConfig = Some w" "kind_of w = kind_of v"
      using twin v(1) paths_var_at [OF names] by blast
    ultimately show ?thesis using readable_roundtrip [OF v(2)] v(3) by auto
  qed
  obtain cfg where cfg: "ParseStruct split (as_options c) MainConfig = (cfg, True, [])"
    "\<And>q v. var_at q MainConfig = Some v \<Longrightarrow>
      var_at q cfg = (case map_of (rev (assigned c)) q of None \<Rightarrow> Some v | Some s \<Rightarrow> ParseValue s v)"
    using options_parse [OF assms(1) ne] ok unfolding as_options_assigned [OF names] by blast
  have "var_at q cfg = (if readable v then Some v else var_at q MainConfig)" if q: "var_at q c = Some v" for q v
    using twin [OF q] cfg(2) assigned_lookup [OF names q] readable_roundtrip [of v] by auto
  then show ?thesis using cfg(1) level_unreadable by blast
qed

lemma show_nat_no_colon: "CHR '':'' \<notin> set (show_nat n)"
  using show_nat_digits [of n] by (auto simp: is_digit_def)

theorem described_config_reparses_witness:
  "\<exists>cfg. ParseStruct (split_at CHR '':'') (as_options (put_at [''unwind'', ''track_depth''] (VSize 16) MainConfig)) MainConfig = (cfg, True, []) \<and>
     var_at [''unwind'', ''track_depth''] cfg = Some (VSize 16) \<and> var_at [''logging'', ''log_level''] cfg = Some (VLevel 2)"
proof -
  let ?c = "put_at [''unwind'', ''track_depth''] (VSize 16) MainConfig"
  have "map skeleton ?c = map skeleton MainConfig" by (simp add: config_defs)
  moreover have "\<forall>kv \<in> set (DescribeStruct ?c []). CHR '':'' \<notin> set (Describe_value (snd kv))" by (simp add: config_defs show_nat_no_colon)
  ultimately obtain cfg where "ParseStruct (split_at CHR '':'') (as_options ?c) MainConfig = (cfg, True, [])"
    "\<And>q v. var_at q ?c = Some v \<Longrightarrow> var_at q cfg = (if readable v then Some v else var_at q MainConfig)"
    using described_config_reparses [OF split_at_ok] by blast
  moreover have "var_at [''unwind'', ''track_depth''] ?c = Some (VSize 16)" "var_at [''logging'', ''log_level''] ?c = Some (VLevel 2)"
    "var_at [''logging'', ''log_level''] MainConfig = Some (VLevel 2)" by (simp_all add: config_defs)
  ultimately show ?thesis by auto
qed

end
