(* ===== verification/Tracker_Dump.thy ===== *)
theory Tracker_Dump
  imports Logging Hex_Lines Stacktrace_Tree Static_Tracker
begin

text \<open>
  The text of a stack trace (\<open>src/source/memhawk/src/impl/stacktrace.cpp\<close>, \<open>Describe\<close>) and the files that the
  destructors of the two stores of traces write (\<open>impl/trackers/stacktrace_tracker.cpp\<close>,
  \<open>stacktrace_tracker_static.cpp\<close>). The names and positions that libunwind and the dynamic linker know for an
  address are arguments. A destructor gives the name and the text of the file, or nothing when dumping is
  switched off.
\<close>

section \<open>The model\<close>

record symbols =
  sb_proc_name :: "ptr \<Rightarrow> string"
  sb_elf_filename :: "ptr \<Rightarrow> string \<times> u64"
  sb_dladdr :: "ptr \<Rightarrow> ptr option"

definition Describe_frame :: "symbols \<Rightarrow> ptr \<Rightarrow> string" where
  "Describe_frame Y ip =
     (let buf = sb_proc_name Y ip;
          (elfName, offset) = sb_elf_filename Y ip;
          offset = (case sb_dladdr Y ip of None \<Rightarrow> offset | Some dli_fbase \<Rightarrow> ip - dli_fbase)
      in ''0x'' @ hex_digits (unat ip) @ '': '' @ elfName @ '' + 0x'' @ hex_digits (unat offset) @ '' : '' @ buf @ [CHR 0x0A])"

definition Stacktrace_Describe :: "symbols \<Rightarrow> Stacktrace \<Rightarrow> string" where
  "Stacktrace_Describe Y st = concat (map (Describe_frame Y) (GetTrace st))"

definition dump_entry :: "nat \<Rightarrow> string \<Rightarrow> string" where
  "dump_entry traceId traceStr = ''traceId: '' @ show_nat traceId @ [CHR 0x0A] @ traceStr @ [CHR 0x0A, CHR 0x0A]"

fun dump_loop :: "(u32 \<Rightarrow> Stacktrace option) \<Rightarrow> symbols \<Rightarrow> u32 list \<Rightarrow> string option" where
  "dump_loop get Y [] = Some []"
| "dump_loop get Y (traceId # rest) =
     do { stacktrace \<leftarrow> get traceId;
          result \<leftarrow> dump_loop get Y rest;
          Some (dump_entry (unat traceId) (Stacktrace_Describe Y stacktrace) @ result) }"

definition dump_filename :: "identity \<Rightarrow> string \<Rightarrow> log_state \<Rightarrow> cvar list \<Rightarrow> string" where
  "dump_filename I name g m_cfg =
     (case var_at [''filename''] m_cfg of Some (VOptString (Some f)) \<Rightarrow> f | _ \<Rightarrow> GetProcessLogName I name ''log'' g)"

definition tracker_destroy ::
  "symbols \<Rightarrow> ptr list \<Rightarrow> identity \<Rightarrow> log_state \<Rightarrow> cvar list \<Rightarrow> Storage \<Rightarrow> (string \<times> string) option option" where
  "tracker_destroy Y mem I g m_cfg s =
     (if \<not> flag_at [''dump''] m_cfg then Some None
      else do { result \<leftarrow> dump_loop (GetStacktrace mem s) Y (leafsId s);
                Some (Some (dump_filename I ''external_stacktraces'' g m_cfg, ''External stacktraces:'' @ [CHR 0x0A] @ result)) })"

definition static_destroy ::
  "symbols \<Rightarrow> ptr list \<Rightarrow> identity \<Rightarrow> log_state \<Rightarrow> cvar list \<Rightarrow> static_tracker \<Rightarrow> (string \<times> string) option option" where
  "static_destroy Y mem I g m_cfg s =
     (if \<not> flag_at [''dump''] m_cfg then Some None
      else do { result \<leftarrow> dump_loop (static_GetStacktrace mem s) Y (map of_nat [0 ..< unat (ss_size s)]);
                Some (Some (dump_filename I ''inner_stacktraces'' g m_cfg, ''Inner stacktraces:'' @ [CHR 0x0A] @ result)) })"

section \<open>The loop\<close>

definition entry_text :: "symbols \<Rightarrow> u32 \<times> ptr list \<Rightarrow> string" where
  "entry_text Y e = dump_entry (unat (fst e)) (concat (map (Describe_frame Y) (snd e)))"

lemma dump_loop_entries:
  assumes "\<And>i. i \<in> set is \<Longrightarrow> \<exists>st. get i = Some st \<and> GetTrace st = f i"
  shows "dump_loop get Y is = Some (concat (map (\<lambda>i. entry_text Y (i, f i)) is))"
  using assms
proof (induction "is")
  case (Cons i "is")
  obtain st where "get i = Some st" "GetTrace st = f i" using Cons.prems [of i] by auto
  then show ?case using Cons by (simp add: entry_text_def Stacktrace_Describe_def)
qed simp

section \<open>Properties\<close>

lemma run_leafs: "tracker_run hist s \<Longrightarrow> set (leafsId s) = snd ` set hist \<and> distinct (leafsId s)"
proof (induction rule: tracker_run.induct)
  case start
  then show ?case by (simp add: PostponedConstruct_def split: prod.split)
next
  case (insert hist s st s' i)
  have "leafsId s' = List.insert i (leafsId s)" using insert.hyps(4) by (auto simp: InsertStacktrace_def split: prod.splits)
  then show ?case using insert.IH by auto
qed

text \<open>
  The dump of the application's traces. After any insertions, when dumping is switched on, the
  destructor of the store writes one entry for every identifier that an insertion returned, and no other:
  the number of the entry is the identifier, and its lines describe the frames of the trace in order.
\<close>

theorem external_dump_complete:
  assumes "tracker_run hist s" "length mem = MaxUnwindDepth" "flag_at [''dump''] m_cfg"
  shows "\<exists>ds. tracker_destroy Y mem I g m_cfg s =
      Some (Some (dump_filename I ''external_stacktraces'' g m_cfg, ''External stacktraces:'' @ [CHR 0x0A] @ concat (map (entry_text Y) ds))) \<and>
    distinct (map fst ds) \<and> set ds = {(i, filter (\<lambda>p. p \<noteq> 0) frames) |i frames. (frames, i) \<in> set hist}"
proof -
  let ?f = "\<lambda>i. node_path (nodes s) (tree s) (unat i)" and ?ds = "map (\<lambda>i. (i, node_path (nodes s) (tree s) (unat i))) (leafsId s)"
  have ok: "tracker_ok s" and names: "\<forall>(xs, i) \<in> set hist. tracker_recall s i = Some (nonnull xs)"
    using tracker_run_names [OF assms(1)] by auto
  have leafs: "set (leafsId s) = snd ` set hist" "distinct (leafsId s)" using run_leafs [OF assms(1)] by auto
  have "dump_loop (GetStacktrace mem s) Y (leafsId s) = Some (concat (map (\<lambda>i. entry_text Y (i, ?f i)) (leafsId s)))"
    using GetStacktrace_spec [OF ok _ assms(2)] by (intro dump_loop_entries) blast
  then have "tracker_destroy Y mem I g m_cfg s =
      Some (Some (dump_filename I ''external_stacktraces'' g m_cfg, ''External stacktraces:'' @ [CHR 0x0A] @ concat (map (entry_text Y) ?ds)))"
    using assms(3) by (simp add: tracker_destroy_def o_def)
  moreover have "?f i = filter (\<lambda>p. p \<noteq> 0) xs" if "(xs, i) \<in> set hist" for xs i
  proof -
    have "tracker_recall s i = Some (nonnull xs)" using names that by blast
    then show ?thesis by (auto simp: tracker_recall_eq [OF ok] nonnull_def split: if_splits)
  qed
  then have "set ?ds = {(i, filter (\<lambda>p. p \<noteq> 0) frames) |i frames. (frames, i) \<in> set hist}" by (force simp: leafs(1))
  moreover have "distinct (map fst ?ds)" using leafs(2) by (simp add: o_def)
  ultimately show ?thesis by blast
qed

definition demo_symbols :: symbols where
  "demo_symbols = \<lparr>sb_proc_name = \<lambda>_. ''f'', sb_elf_filename = \<lambda>_. (''a.out'', 0), sb_dladdr = \<lambda>_. Some 0\<rparr>"

definition dump_config :: "cvar list" where
  "dump_config = put_at [''dump''] (VBool True) StacktraceTrackerConfig"

lemma dump_config_on: "flag_at [''dump''] dump_config"
  by (simp add: dump_config_def StacktraceTrackerConfig_def flag_at_def)

theorem external_dump_complete_witness:
  "\<exists>ds name. tracker_destroy demo_symbols (replicate 64 0) demo_identity (log_start demo_system) dump_config demo_storage =
     Some (Some (name, ''External stacktraces:'' @ [CHR 0x0A] @ concat (map (entry_text demo_symbols) ds))) \<and> (5, [5, 4, 3, 2, 1]) \<in> set ds"
proof -
  have len: "length (replicate 64 0 :: ptr list) = MaxUnwindDepth" by (simp add: MaxUnwindDepth_def)
  obtain ds where ds: "tracker_destroy demo_symbols (replicate 64 0) demo_identity (log_start demo_system) dump_config demo_storage =
      Some (Some (dump_filename demo_identity ''external_stacktraces'' (log_start demo_system) dump_config,
        ''External stacktraces:'' @ [CHR 0x0A] @ concat (map (entry_text demo_symbols) ds)))"
    "set ds = {(i, filter (\<lambda>p. p \<noteq> 0) frames) |i frames. (frames, i) \<in> set [([5, 4, 3, 2, 1], 5)]}"
    using external_dump_complete [OF demo_storage_run len dump_config_on, of demo_symbols demo_identity "log_start demo_system"]
    by (elim exE conjE) (rule that)
  have "(5, [5, 4, 3, 2, 1]) \<in> set ds" unfolding ds(2) by simp
  then show ?thesis using ds(1) by blast
qed

lemma position_word: "i < unat (ss_size s) \<Longrightarrow> static_ok h s \<Longrightarrow> unat (of_nat i :: u32) = i"
  by (simp add: static_ok_def static_consts unat_of_nat take_bit_nat_eq_self)

lemma static_entries:
  assumes "static_ok h s" "length mem = MaxUnwindDepth"
  obtains f where "\<And>i. i < unat (ss_size s) \<Longrightarrow> stored s i (f (of_nat i))"
    "dump_loop (static_GetStacktrace mem s) Y (map of_nat [0 ..< unat (ss_size s)]) =
      Some (concat (map (\<lambda>i. entry_text Y (i, f i)) (map of_nat [0 ..< unat (ss_size s)])))"
proof -
  define f where "f = (\<lambda>i :: u32. SOME xs. stored s (unat i) xs)"
  have st: "stored s i (f (of_nat i))" if i: "i < unat (ss_size s)" for i
  proof -
    have "\<exists>xs. stored s i xs" using i assms(1) by (simp add: static_ok_def)
    then show ?thesis unfolding f_def position_word [OF i assms(1)] by (rule someI_ex)
  qed
  have "dump_loop (static_GetStacktrace mem s) Y (map of_nat [0 ..< unat (ss_size s)]) =
      Some (concat (map (\<lambda>i. entry_text Y (i, f i)) (map of_nat [0 ..< unat (ss_size s)])))"
  proof (rule dump_loop_entries)
    fix i :: u32
    assume "i \<in> set (map of_nat [0 ..< unat (ss_size s)])"
    then obtain k where "k < unat (ss_size s)" "i = of_nat k" by auto
    then have "stored s (unat i) (f i)" using st position_word [OF _ assms(1)] by simp
    from static_GetStacktrace_stored [OF assms(1) this assms(2)]
    show "\<exists>t. static_GetStacktrace mem s i = Some t \<and> GetTrace t = f i" by blast
  qed
  then show thesis using that st by blast
qed

lemma flagged_not_position:
  assumes "IsFixedTrackerId j" "static_ok h s"
  shows "j \<notin> of_nat ` {0 ..< unat (ss_size s)}"
proof
  assume "j \<in> of_nat ` {0 ..< unat (ss_size s)}"
  then obtain i where i: "i < unat (ss_size s)" "j = of_nat i" by auto
  then have "i div 2 ^ 31 = 0" using assms(2) by (simp add: static_ok_def static_consts)
  then have "\<not> bit i 31" by (simp add: bit_iff_odd)
  then show False using assms(1) i(2) by (simp add: IsFixedTrackerId_bit bit_of_nat_iff)
qed

text \<open>
  C38. The dump of the profiler's own traces. When dumping is switched on, the destructor of the fixed store
  writes the entries 0, 1, 2 and so on, and the trace behind an identifier is among them. But its entry
  has the position in the store as its number: the identifier itself, which the profiler puts into its
  records and reports, is the number of no entry.
\<close>

theorem inner_dump_numbers:
  assumes "static_run h hist s" "length mem = MaxUnwindDepth" "flag_at [''dump''] m_cfg" "(frames, j) \<in> set hist" "j \<noteq> UnknownTraceId"
  shows "\<exists>ds. static_destroy Y mem I g m_cfg s =
      Some (Some (dump_filename I ''inner_stacktraces'' g m_cfg, ''Inner stacktraces:'' @ [CHR 0x0A] @ concat (map (entry_text Y) ds))) \<and>
    map fst ds = map of_nat [0 ..< static_StacktracesCount s] \<and>
    (j XOR FixedTrackerIdFlag, take MaxStacktraceLength frames) \<in> set ds \<and> j \<notin> set (map fst ds)"
proof -
  let ?is = "map of_nat [0 ..< unat (ss_size s)] :: u32 list" and ?k = "unat (j XOR FixedTrackerIdFlag)"
  have ok: "static_ok h s" and n: "static.names s frames j" using static_run_names [OF assms(1)] assms(4) by auto
  have j: "IsFixedTrackerId j" "stored s ?k (take MaxStacktraceLength frames)"
    using n ok assms(5) by (simp_all add: static.names_def static_recall_iff)
  obtain f where f: "\<And>i. i < unat (ss_size s) \<Longrightarrow> stored s i (f (of_nat i))"
    "dump_loop (static_GetStacktrace mem s) Y ?is = Some (concat (map (\<lambda>i. entry_text Y (i, f i)) ?is))" using static_entries [OF ok assms(2)] by blast
  let ?ds = "map (\<lambda>i. (i, f i)) ?is"
  have k: "?k < unat (ss_size s)" using j(2) by (simp add: stored_def)
  have "f (of_nat ?k) = take MaxStacktraceLength frames" by (rule stored_unique [OF f(1) [OF k] j(2)])
  then have "(j XOR FixedTrackerIdFlag, take MaxStacktraceLength frames) \<in> set ?ds" using k by (auto simp: image_iff intro!: bexI [of _ ?k])
  moreover have "static_destroy Y mem I g m_cfg s =
      Some (Some (dump_filename I ''inner_stacktraces'' g m_cfg, ''Inner stacktraces:'' @ [CHR 0x0A] @ concat (map (entry_text Y) ?ds)))"
    using assms(3) f(2) by (simp add: static_destroy_def o_def)
  moreover have "map fst ?ds = map of_nat [0 ..< static_StacktracesCount s]" by (simp add: o_def static_StacktracesCount_def)
  moreover have "j \<notin> set (map fst ?ds)" using flagged_not_position [OF j(1) ok] by (simp add: image_image)
  ultimately show ?thesis by blast
qed

theorem inner_dump_numbers_witness:
  "\<exists>s ds name. static_run demo_hash [([5, 4, 3, 2, 1], FixedTrackerIdFlag)] s \<and>
     static_destroy demo_symbols (replicate 64 0) demo_identity (log_start demo_system) dump_config s =
       Some (Some (name, ''Inner stacktraces:'' @ [CHR 0x0A] @ concat (map (entry_text demo_symbols) ds))) \<and>
     (0, [5, 4, 3, 2, 1]) \<in> set ds \<and> FixedTrackerIdFlag \<notin> set (map fst ds)"
proof -
  have len: "length (replicate 64 0 :: ptr list) = MaxUnwindDepth" by (simp add: MaxUnwindDepth_def)
  obtain s where s: "static_InsertStacktrace demo_hash StaticStacktraceTracker demo_trace = Some (s, FixedTrackerIdFlag)"
    using demo_static_insert by blast
  have "static_run demo_hash ([] @ [(GetTrace demo_trace, FixedTrackerIdFlag)]) s"
    by (rule static_run.insert [OF static_run.start _ s]) simp
  then have run: "static_run demo_hash [([5, 4, 3, 2, 1], FixedTrackerIdFlag)] s" by simp
  have six: "take MaxStacktraceLength [5, 4, 3, 2, 1 :: ptr] = [5, 4, 3, 2, 1]" by (simp add: MaxStacktraceLength_def)
  note inner = inner_dump_numbers [OF run len dump_config_on, of "[5, 4, 3, 2, 1]" FixedTrackerIdFlag demo_symbols demo_identity "log_start demo_system",
      unfolded six xor_self_eq]
  show ?thesis using run inner flag_known by auto
qed

end
