(* ===== verification/Spec2Isabelle.thy ===== *)
theory Spec2Isabelle
  imports Worker_Loop Owned_Guards Fork_Locks Hawk_Safety Flame_Main Startup Config_Text Tracker_Dump
begin

text \<open>
  Verification of MemHawk, a heap profiler for Linux processes, and of its flame graph tool.

  \<^bold>\<open>The program.\<close> MemHawk is loaded into a process and replaces the allocation functions of the C library
  (\<open>src/source/memhawk/src/hawk_malloc.cpp\<close>). Every block gets a header below the address the user sees. The
  hooks unwind the stack and tell the profiler object (\<open>impl/memhawk.cpp\<close>) of every allocation,
  reallocation and deallocation. Per thread a tracker (\<open>impl/thread_tracker.cpp\<close>) turns the stack trace into
  an identifier, with a cache in front of a store of traces (\<open>impl/trackers\<close>), and sums sizes per identifier.
  The profiler's own allocations go to a store of fixed size and, when they happen inside another one,
  to a queue. A worker thread collects the sums and hands them to the writers (\<open>impl/writers\<close>), which keep
  the running totals and write a protobuf, a heaptrack or a text file. Options come from an environment
  variable (\<open>impl/config.cpp\<close>). The flame graph tool (\<open>src/source/flamegraph\<close>) reads lines of values and
  paths and prints the heaviest prefixes.

  \<^bold>\<open>The theories\<close> (paths below \<open>src/source/memhawk/src\<close> unless another is given):

  \<^item> \<open>MH_Prelude\<close>: machine integers, checked array access (\<open>rd\<close>, \<open>wr\<close>), maps as association lists
    (\<open>map_insert\<close>, \<open>map_modify\<close>), shared lemmas. \<open>Text_Numbers\<close>: decimal numbers and separators in text.
  \<^item> \<open>Algo\<close> (\<open>impl/algo.cpp\<close>): the three routines that collapse recursion in a trace; memory safety, equality
    of the optimised ones, and that only repeated blocks are dropped.
  \<^item> \<open>Bit_Packing\<close> (\<open>impl/compression.cpp\<close>): compression of addresses; round trip within the buffer.
  \<^item> \<open>Alloc_Info\<close> (\<open>impl/alloc_info.h\<close>), \<open>Lru_Cache\<close> (\<open>impl/lru_cache.h\<close>), \<open>Stacktrace\<close> (\<open>impl/stacktrace.cpp\<close>,
    \<open>impl/recursion_guard.h\<close>): sums that wrap, the cache with its order of eviction, traces as windows.
  \<^item> \<open>Tracker_Interface\<close> (\<open>impl/i_stacktrace_tracker.h\<close>): the stores of traces as a locale, interpreted by
    \<open>Stacktrace_Tree\<close> (\<open>impl/stacktrace_tree.h\<close>, \<open>impl/trackers/stacktrace_tracker.cpp\<close>) and \<open>Static_Tracker\<close>
    (\<open>impl/trackers/stacktrace_tracker_static.cpp\<close>); a stored trace is read back, identifiers are canonical.
  \<^item> \<open>Thread_Tracker\<close> (\<open>impl/thread_tracker.cpp\<close>): written against the interfaces of the cache and the store.
  \<^item> \<open>Mem_Hawk\<close> (\<open>impl/memhawk.cpp\<close>): the whole profiler object; runs of it are the relation \<open>mh_run\<close>, whose
    invariant says that every tracker is in use by one thread or finished and that nothing recorded is lost between the trackers, the
    queue and the reports. \<open>Worker_Loop\<close>: the loop of the worker thread and \<open>Stop\<close> as interleaved steps.
    \<open>Owned_Guards\<close> (\<open>impl/owned_guards.h\<close>): the race between a guard and its owner, with the exchange and the
    call of a callback as separate steps. \<open>Fork_Locks\<close> (\<open>impl/spinlock.h\<close> and the fork handlers).
  \<^item> \<open>Hawk_Malloc\<close> (\<open>hawk_malloc.cpp\<close>): every allocation function; \<open>Hawk_Heap\<close>, \<open>Hawk_Run\<close>, \<open>Hawk_Safety\<close>: the
    contract of the C library, the invariant of headers and live blocks, runs of a process that uses the
    functions properly, and the guarantees. \<open>Startup\<close> (\<open>init_memhawk\<close>, \<open>deinit_memhawk\<close>): loading and unloading, from
    the lookup of the original functions and the options to the profiler, its writers with their files and its
    last log lines; it refines the step \<open>init_memhawk\<close> of \<open>Hawk_Malloc\<close>, and says which descriptors stay open.
  \<^item> \<open>Writer_Interface\<close> (\<open>impl/writers/i_writer.h\<close>): the writers as a locale: books, and what a reader of the
    output sees after a flush. Interpreted by \<open>Proto_File\<close> (over \<open>Proto_Writer\<close> and, for examples, the codec
    \<open>Byte_Codec\<close>; \<open>proto_writer.cpp\<close>), \<open>Heaptrack_File\<close> (over \<open>Heaptrack_Writer\<close> and \<open>Hex_Lines\<close>;
    \<open>heaptrack_writer.cpp\<close>) and \<open>Text_Writer\<close> (\<open>text_writer.cpp\<close>). \<open>Writers_Adaptor\<close> (\<open>adaptor.h\<close>, \<open>factory.h\<close>).
  \<^item> \<open>Config_Parse\<close> (\<open>impl/config/\<close>) and \<open>Config\<close> (\<open>impl/config.h\<close>, \<open>impl/config.cpp\<close>): the parser of options over
    trees of variables, and the configuration of the profiler. \<open>Config_Text\<close>: its messages and its help text,
    and what of it the parser reads back. \<open>Logging\<close> (\<open>impl/logging.cpp\<close>, \<open>impl/logging_level.h\<close>): the log over files and
    descriptors of the system, and the names of all files. \<open>Tracker_Dump\<close>: the text of a stack trace and the dumps
    of the two stores.
  \<^item> \<open>Flame_Trie\<close>, \<open>Flame_Top\<close>, \<open>Flame_Stats\<close>, \<open>Flame_Main\<close> (\<open>src/source/flamegraph/src\<close>): the compressed trie, the
    selection of the heaviest prefixes, the counts of its nodes, the program with its input and output.
  \<^item> This theory: the properties that span components, from loading the library and a call of \<open>malloc\<close> to what
    a reader finds in the file of the protobuf writer.

  \<^bold>\<open>How the code is modelled.\<close> Classes are records with the names of their members, operations are functions
  on them, and every branch is there. Undefined behaviour (access outside an array, a null pointer, a
  division by zero) is \<open>None\<close>; so \<open>Some\<close> in a theorem is a statement of safety. Unsigned integers are words and
  wrap; the signed fields of \<open>AllocSummary\<close> are words read with \<open>sint\<close>. What runs under a lock is one step;
  where threads can interfere in between, the steps are separate and a relation interleaves them
  (\<open>Mem_Hawk\<close>, \<open>Worker_Loop\<close>, \<open>Owned_Guards\<close>). Hash maps and sets are association lists and distinct lists;
  no theorem depends on their order. Code of other libraries is an argument with its documented behaviour as
  a hypothesis: the C library and \<open>mmap\<close> (\<open>setting_ok\<close>), the unwinders, hashes, serialisation and compression
  (\<open>codec_ok\<close>), the order of the views of Boost's index (\<open>ordered_ok\<close>), Boost's splitting (\<open>split_ok\<close>), the
  choice of \<open>std::priority_queue\<close> among equal items.

  \<^bold>\<open>Bounds.\<close> Loops are structural recursions, functions with a measure, or partial functions whose termination
  is part of the theorems. The two recursions of the trie, \<open>RetrieveNodes\<close> and \<open>stats_dfs\<close>, have the number of
  nodes as fuel, which no path from the root exceeds; the theorems say that they return. Identifiers and node numbers are 32-bit counters: theorems that
  need them distinct assume room (\<open>tracker_roomy\<close>, \<open>insert_room\<close>, the conditions at each flush). The depth for
  collapsing is below \<open>2 ^ 32 - 1\<close>, for which the loop of the optimised routine ends.

  \<^bold>\<open>Not modelled.\<close> Messages that are logged in the middle of an operation, with no effect but the line (the log
  itself, and the lines of loading and unloading, are modelled); the contents of a writer's file in the state of the system
  (they are in the record of the writer; the system has the files and their descriptors); the layout of floating point numbers in the
  text report; signal masks; destruction of static objects; weak memory orders of atomics; the tests; the
  tools in other languages. The dynamic linker, the regular expressions and the symbols of libunwind are
  calls of libraries and arguments of the definitions that use them.
\<close>

section \<open>The hooks and the profiler\<close>

lemma run_id_not_reserved:
  assumes "mh_run e (MemHawk_new lru depth maxPostponed) ids log mh" "0 < unat lru" "unat depth < 2 ^ 32 - 1"
    and "(isExternal, frames, i) \<in> set ids" "tracker_roomy (m_btTracker mh)"
  shows "i \<noteq> InvalidTraceId"
proof
  assume "i = InvalidTraceId"
  then have max: "unat i = 2 ^ 32 - 1"
    by (simp add: InvalidTraceId_def unsigned_minus_1_eq_mask mask_eq_exp_minus_1)
  have ok: "tracker_ok (m_btTracker mh)" "static_ok (hash_words e) (m_innerBtTracker mh)"
    using mh_run_books(1) [OF assms(1-3)] by (simp_all add: mh_ok_def stores_ok_def)
  have names: "id_names mh isExternal frames i" using mh_run_books(4) [OF assms(1-3)] assms(4) by blast
  show False
  proof (cases isExternal)
    case True
    then have "i \<in> set (leafsId (m_btTracker mh))"
      using names by (auto simp: id_names_def tracker.names_def tracker_recall_eq [OF ok(1)] split: if_splits)
    then have "unat i < length (nodes (m_btTracker mh))" using ok(1) by (simp add: tracker_ok_def)
    then show False using max assms(5) by (simp add: tracker_roomy_def MaxUnwindDepth_def)
  next
    case False
    then have "i = UnknownTraceId \<or> stored (m_innerBtTracker mh) (unat (i XOR FixedTrackerIdFlag)) (take MaxStacktraceLength frames)"
      using names by (auto simp: id_names_def static.names_def static_recall_iff [OF ok(2)])
    then have "unat (i XOR FixedTrackerIdFlag) \<le> 513"
      using ok(2) by (auto simp: stored_def static_ok_def static_consts UnknownTraceId_flag)
    then show False using \<open>i = InvalidTraceId\<close> by (simp add: InvalidTraceId_def FixedTrackerIdFlag_def)
  qed
qed

text \<open>
  C30. The reserved identifier is never handed out: as long as the tree tracker has room for a trace, no
  identifier that MemHawk puts in an allocation record, for the application or for itself, is the one
  that marks the blocks from before initialisation. So \<open>hawk_free\<close> and \<open>hawk_realloc\<close> never take a block
  of the C library for a mapping.
\<close>

theorem reserved_id_never_assigned:
  assumes "mh_run e (MemHawk_new lru depth maxPostponed) ids log mh" "0 < unat lru" "unat depth < 2 ^ 32 - 1"
    and "(isExternal, frames, i) \<in> set ids" "tracker_roomy (m_btTracker mh)"
  shows "i \<noteq> InvalidTraceId"
  using run_id_not_reserved [OF assms] .

lemma worker_report_live:
  assumes "setting_ok L mid blocks maps l0" "hawk_reach L mid l0 live p" "gl_memhawkReady p"
    and "mh_run e (MemHawk_new lru depth maxPostponed) ids (call_log p) mh" "0 < unat lru" "unat depth < 2 ^ 32 - 1"
  shows "same_live (reported (TrackingWorker_round mh) i + delta_sum (map postponed_event (m_postponed mh)) i) (live_sum live i)"
proof -
  have "reported (TrackingWorker_round mh) i + delta_sum (map postponed_event (m_postponed mh)) i = told p i"
    using mh_run_books(2) [OF mh_run.worker [OF assms(4)] assms(5,6), of i]
    by (simp add: TrackingWorker_round_books add.commute told_def)
  then show ?thesis using reach_inv [OF assms(1,2)] assms(3) by (simp add: heap_inv_def heap_ok_def)
qed

lemma round_writer_calls:
  assumes "mh_run e (MemHawk_new lru depth maxPostponed) ids log mh" "0 < unat lru" "unat depth < 2 ^ 32 - 1"
    and "map fst cs = writer_calls (TrackingWorker_round mh)"
  shows "snapshots_distinct (map fst cs)" "cs \<noteq> []" "fst (last cs) = FlushData"
    "calls_sum (map fst cs) (Some i) = reported (TrackingWorker_round mh) i"
proof -
  have ok: "books_ok mh" using mh_run_books(1) [OF assms(1-3)] by (simp add: mh_ok_def)
  note rc = round_calls [OF ok mh_run_calls [OF assms(1-3)], folded assms(4)]
  show "snapshots_distinct (map fst cs)" by (rule rc(1))
  show "cs \<noteq> []" using rc(3) by simp
  then show "fst (last cs) = FlushData" using rc(2) by (simp add: last_map)
  show "calls_sum (map fst cs) (Some i) = reported (TrackingWorker_round mh) i"
    by (simp add: assms(4) calls_sum_def call_part_def reported_def)
qed

lemma default_sizes: "0 < unat (256 :: u32)" "unat (8 :: u32) < 2 ^ 32 - 1"
  by simp_all

text \<open>
  C3. From the hooks to the report. Take a process that uses the allocation functions properly and a
  profiler that has recorded what the hooks told it. Then for every stack trace identifier, what one more
  round of the worker reports, together with what is still postponed, has the size, the overhead and the
  number of blocks of exactly the live memory with that identifier.
\<close>

theorem profiler_reports_live_memory:
  assumes "setting_ok L mid blocks maps l0" "hawk_reach L mid l0 live p" "gl_memhawkReady p"
    and "mh_run e (MemHawk_new lru depth maxPostponed) ids (call_log p) mh" "0 < unat lru" "unat depth < 2 ^ 32 - 1"
  shows "same_live (reported (TrackingWorker_round mh) i + delta_sum (map postponed_event (m_postponed mh)) i) (live_sum live i)"
  using worker_report_live [OF assms] .

text \<open>
  C1. From loading the library to the file. Let the library be loaded into a process without options, and
  let the process use the allocation functions properly. Then the constructor of the library has installed
  the protobuf writer and no other (the heaptrack writer is off by default in the sources, although
  \<open>docs/heaptrack_mode.md\<close> says that it is on). If the system grants the file, it is open; the writer processes,
  through the adaptor, the calls of the worker of the profiler that was started, up to the end of one more
  round. The file of the writer can be read, and for every identifier
  the summary that the reader finds, together with what is still postponed, has the size, the overhead and
  the number of blocks of exactly the live memory with that identifier.
\<close>

theorem file_reports_live_memory:
  assumes "setting_ok L mid blocks maps l0" "hawk_reach L mid l0 live p" "gl_memhawkReady p"
    and "start_memhawk W (start_new l0 y) = Inr s" "w_getenv W ''MEMHAWK_OPTS'' = None" "gl_memhawk s = Some mh0"
    and "mh_run e mh0 ids (call_log p) mh" "map fst cs = writer_calls (TrackingWorker_round mh)"
    and "distinct (map fst (sy_fds y))" "\<not> w_refuses W (GetProcessLogName (w_identity W) ''protobuf'' ''binpb'' (s_log s))"
    and "codec_ok (w_codec W) D" "we_codec E = w_codec W" "length (payload (w_codec W) (MsgProcess (pf_info (w_facts W)))) < 2 ^ 64"
    and "proto_room (w_codec W) fin (pf_surroundings (w_facts W))
      (pw_AccountSnapshot [(0, 0)] 0 (WriteProcessInfo (w_codec W) (pf_info (w_facts W)) ProtobufWriter_empty))"
    and "proto_flushes_ok (w_codec W) fin cs (ProtobufWriter_new (w_codec W) (pf_info (w_facts W)) (pf_surroundings (w_facts W)))"
  shows "\<exists>fd w r. (fd, GetProcessLogName (w_identity W) ''protobuf'' ''binpb'' (s_log s)) \<in> set (open_files (lg_system (s_log s))) \<and>
    s_writers s \<bind> adaptor_run E cs = Some [ProtoW w] \<and> read_file D (pw_out w) = Some r \<and>
    same_live (shown_summary r (Some i) + delta_sum (map postponed_event (m_postponed mh)) i) (live_sum live i)"
proof -
  let ?w0 = "ProtobufWriter_new (w_codec W) (pf_info (w_facts W)) (pf_surroundings (w_facts W))"
  note st = started_defaults [OF assms(4,5)]
  have run: "mh_run e (MemHawk_new 256 8 512) ids (call_log p) mh" using assms(6,7) st(1) by simp
  note calls = round_writer_calls [OF run default_sizes assms(8)]
  from proto_run_file [OF assms(11,13,14) calls(1) assms(15) calls(2,3)]
  obtain w r where w: "proto_run (w_codec W) cs ?w0 = Some w" "read_file D (pw_out w) = Some r"
    "shown_summary r (Some i) = calls_sum (map fst cs) (Some i)" by blast
  have "shown_summary r (Some i) = reported (TrackingWorker_round mh) i" using w(3) calls(4) by simp
  then have "same_live (shown_summary r (Some i) + delta_sum (map postponed_event (m_postponed mh)) i) (live_sum live i)"
    using worker_report_live [OF assms(1-3) run default_sizes, of i] by simp
  moreover have "s_writers s \<bind> adaptor_run E cs = Some [ProtoW w]" using w(1) assms(12) by (simp add: st(2) adaptor_each)
  ultimately show ?thesis using w(2) started_proto_file [OF assms(4,5,9,10)] by blast
qed

text \<open>
  C2. From the hooks to the heaptrack file. In the same setting, let the heaptrack writer process the calls
  of the worker up to the end of one more round, when no operation is postponed. Then all its writes
  succeed, and a reader of its file finds for every identifier with a known stack trace one live allocation
  with the frames of the trace and exactly as many bytes as the process has live under that identifier, and
  none where that number is zero.
\<close>

theorem heaptrack_reports_live_memory:
  assumes "setting_ok L mid blocks maps l0" "hawk_reach L mid l0 live p" "gl_memhawkReady p"
    and "mh_run e (MemHawk_new lru depth maxPostponed) ids (call_log p) mh" "0 < unat lru" "unat depth < 2 ^ 32 - 1"
    and "map fst cs = writer_calls (TrackingWorker_round mh)" "m_postponed mh = []"
    and "process_fits pr" "heaptrack_flushes_ok fin cs (the (HeaptrackWriter_new pr))"
  shows "\<exists>w. HeaptrackWriter_new pr \<bind> heaptrack_run cs = Some w \<and>
    (\<forall>i. hr_shown (read_heaptrack (hw_out w)) i = hr_expected fin i (sm_size (live_sum live i)))"
proof -
  note calls = round_writer_calls [OF assms(4-7)]
  from heaptrack_run_shows [OF assms(9) calls(1) assms(10) calls(2,3)] obtain w where
    w: "HeaptrackWriter_new pr \<bind> heaptrack_run cs = Some w"
    "\<forall>i. hr_shown (read_heaptrack (hw_out w)) i = hr_expected fin i (sm_size (calls_sum (map fst cs) (Some i)))" by blast
  have "sm_size (calls_sum (map fst cs) (Some i)) = sm_size (live_sum live i)" for i
    using worker_report_live [OF assms(1-6), of i] assms(8) by (simp add: calls(4) same_live_def delta_sum_def)
  then show ?thesis using w by simp
qed

theorem reserved_id_never_assigned_witness:
  "\<exists>i mh log. mh_run demo_env (MemHawk_new 256 demo_depth 512) [(True, [5, 4, 3, 2, 1], i)] log mh \<and> i \<noteq> InvalidTraceId"
proof -
  obtain i mh log where r: "mh_run demo_env (MemHawk_new 256 demo_depth 512) [(True, [5, 4, 3, 2, 1], i)] log mh"
    "length (nodes (m_btTracker mh)) \<le> 65"
    using demo_run unfolding demo_hawk_def by blast
  then have "tracker_roomy (m_btTracker mh)" by (simp add: tracker_roomy_def MaxUnwindDepth_def)
  from reserved_id_never_assigned [OF r(1) demo_lru demo_depth_ok _ this] r(1) show ?thesis by fastforce
qed

text \<open>A process that allocates eight bytes under the identifier \<open>i\<close>.\<close>

definition one_block :: "u32 \<Rightarrow> small process" where
  "one_block i = fst (hawk_malloc small_libc (\<lambda>_ _. i) 8 (init_memhawk True (process_start ([], []))))"

lemma one_block_run:
  "hawk_malloc small_libc (\<lambda>_ _. i) 8 (init_memhawk True (process_start ([], []))) = (one_block i, 4112)"
  "load_info (one_block i) 4112 = Some \<lparr>ai_size = 8, ai_offset = 16, ai_traceId = i\<rparr>"
  "gl_memhawkReady (one_block i)" "call_log (one_block i) = [Alloc ((mk_AllocInfo 8 16)\<lparr>ai_traceId := i\<rparr>)]"
  by (simp_all add: one_block_def hawk_malloc_def process_start_def small_libc_def place_def
      top_of_def AdditionalSize_def Let_def load_info_def store_info_def init_memhawk_def small_alloc_def
      TrackAllocation_def mk_AllocInfo_def call_log_def)

lemma one_block_reach:
  "hawk_reach small_libc (\<lambda>_ _. i) ([], []) [(4112, \<lparr>ai_size = 8, ai_offset = 16, ai_traceId = i\<rparr>)] (one_block i)"
proof -
  have "hawk_reach small_libc (\<lambda>_ _. i) ([], []) [] (init_memhawk True (process_start ([], [])))"
    by (rule hawk_reach.init [OF hawk_reach.start]) (simp add: process_start_def)
  then have "hawk_reach small_libc (\<lambda>_ _. i) ([], [])
      (live_after (op_of (E_malloc 8)) (one_block i) (obtained (Pointer 4112)) []) (one_block i)"
    by (rule hawk_reach.call) (simp_all add: op_of_def one_block_run)
  then show ?thesis by (simp add: op_of_def with_block_def one_block_run)
qed

lemma one_block_size:
  "i \<noteq> InvalidTraceId \<Longrightarrow> sm_size (live_sum [(4112, \<lparr>ai_size = 8, ai_offset = 16, ai_traceId = i\<rparr>)] i) = 8"
  by (simp add: live_sum_def on_heap_def at_id_def live_delta_def)

theorem profiler_reports_live_memory_witness:
  "\<exists>i mh. same_live (reported (TrackingWorker_round mh) i + delta_sum (map postponed_event (m_postponed mh)) i)
     (live_sum [(4112, \<lparr>ai_size = 8, ai_offset = 16, ai_traceId = i\<rparr>)] i) \<and> gl_memhawkReady (one_block i)"
proof -
  obtain i mh where r: "mh_run demo_env (MemHawk_new 256 demo_depth 512) [(True, [5, 4, 3, 2, 1], i)] (call_log (one_block i)) mh"
    "length (nodes (m_btTracker mh)) \<le> 65"
    using demo_run unfolding demo_hawk_def one_block_run by blast
  then have "tracker_roomy (m_btTracker mh)" by (simp add: tracker_roomy_def MaxUnwindDepth_def)
  from run_id_not_reserved [OF r(1) demo_lru demo_depth_ok _ this] have "i \<noteq> InvalidTraceId" by simp
  then have "setting_ok small_libc (\<lambda>_ _. i) small_blocks small_maps ([], [])" by (rule small_setting)
  from profiler_reports_live_memory [OF this one_block_reach one_block_run(3) r(1) demo_lru demo_depth_ok, of i]
  show ?thesis using one_block_run(3) by blast
qed

text \<open>
  One more round after the allocation: the reserved identifier is not used, so the setting is proper, and
  the report is of eight bytes.
\<close>

lemma one_block_round:
  obtains i mh s t where "mh_run demo_env (MemHawk_new 256 demo_depth 512) [(True, [5, 4, 3, 2, 1], i)] (call_log (one_block i)) mh"
    "setting_ok small_libc (\<lambda>_ _. i) small_blocks small_maps ([], [])" "m_postponed mh = []" "sm_size s = 8"
    "writer_calls (TrackingWorker_round mh) = [AccountSnapshot [(i, s)] t, AccountSnapshot [] 0, AccountSnapshot [] 0, UpdateModules, FlushData]"
proof -
  obtain i mh s t where r: "mh_run demo_env (MemHawk_new 256 demo_depth 512) [(True, [5, 4, 3, 2, 1], i)] (call_log (one_block i)) mh"
    "length (nodes (m_btTracker mh)) \<le> 65" "m_postponed mh = []"
    "writer_calls (TrackingWorker_round mh) = [AccountSnapshot [(i, s)] t, AccountSnapshot [] 0, AccountSnapshot [] 0, UpdateModules, FlushData]"
    using demo_run unfolding demo_hawk_def one_block_run by blast
  then have "tracker_roomy (m_btTracker mh)" by (simp add: tracker_roomy_def MaxUnwindDepth_def)
  from run_id_not_reserved [OF r(1) demo_lru demo_depth_ok _ this] have "i \<noteq> InvalidTraceId" by simp
  then have set: "setting_ok small_libc (\<lambda>_ _. i) small_blocks small_maps ([], [])" by (rule small_setting)
  have "reported (TrackingWorker_round mh) i = s" using r(4) by (simp add: reported_def summary_at_def)
  then have "sm_size s = sm_size (live_sum [(4112, \<lparr>ai_size = 8, ai_offset = 16, ai_traceId = i\<rparr>)] i)"
    using worker_report_live [OF set one_block_reach one_block_run(3) r(1) demo_lru demo_depth_ok, of i] r(3)
    by (simp add: same_live_def delta_sum_def)
  also have "\<dots> = 8" using one_block_size \<open>i \<noteq> InvalidTraceId\<close> by simp
  finally show thesis using that r set by blast
qed

text \<open>Surroundings in which no stack trace is known, and in which every one is.\<close>

definition quiet :: surroundings where
  "quiet = demo_surroundings\<lparr>sx_finder := \<lambda>_. None\<rparr>"

definition knowing :: surroundings where
  "knowing = demo_surroundings\<lparr>sx_finder := \<lambda>_. Some demo_trace\<rparr>"

definition demo_writers :: writers_env where
  "demo_writers = \<lparr>we_codec = plain_codec, we_ordered = sort_rows, we_text = demo_text_settings\<rparr>"

definition quiet_world :: world where
  "quiet_world = demo_world\<lparr>w_facts := \<lparr>pf_info = demo_info, pf_surroundings = quiet, pf_process = demo_hw_process\<rparr>\<rparr>"

lemma quiet_world_sel [simp]:
  "we_codec demo_writers = plain_codec" "w_codec quiet_world = plain_codec" "pf_info (w_facts quiet_world) = demo_info"
  "pf_surroundings (w_facts quiet_world) = quiet" "w_getenv quiet_world = (\<lambda>_. None)"
  by (simp_all add: demo_writers_def quiet_world_def)

lemma quiet_start_world: obtains s where "start_memhawk quiet_world (start_new l y) = Inr s"
  using start_defaults [of quiet_world l y] by (auto simp: quiet_world_def)

abbreviation one_round :: "u32 \<Rightarrow> AllocSummary \<Rightarrow> AllocSummary \<Rightarrow> surroundings \<Rightarrow> (writer_call \<times> surroundings) list" where
  "one_round i s t x \<equiv> map (\<lambda>c. (c, x)) [AccountSnapshot [(i, s)] t, AccountSnapshot [] 0, AccountSnapshot [] 0, UpdateModules, FlushData]"

lemma quiet_start:
  "proto_room plain_codec (\<lambda>_. None) quiet (pw_AccountSnapshot [(0, 0)] 0 (WriteProcessInfo plain_codec demo_info ProtobufWriter_empty))"
  by (simp add: proto_room_def quiet_def demo_defs)

lemma quiet_flushes:
  "proto_flushes_ok plain_codec (\<lambda>_. None) (one_round i s t quiet) (ProtobufWriter_new plain_codec demo_info quiet)"
  by (cases "i = 0") (simp_all add: ProtobufWriter_new_def proto_room_def quiet_def demo_defs map_modify_def)

lemma knowing_flushes:
  assumes "sm_size s = 8"
  shows "heaptrack_flushes_ok (\<lambda>_. Some [5, 4, 3, 2, 1]) (one_round i s t knowing) (the (HeaptrackWriter_new demo_hw_process))"
proof -
  have fits: "process_fits demo_hw_process" by (simp add: process_fits_def demo_hw_process_def)
  obtain w where w: "HeaptrackWriter_new demo_hw_process = Some w" "read_heaptrack (hw_out w) = hreader_new"
    "hw_summaries w = []" "hw_changedSummaries w = []" "hw_writtenTraces w = []" using hw_new [OF fits] by blast
  then show ?thesis
    using assms
    by (auto simp: knowing_def demo_surroundings_def hw_AccountSnapshot_def hw_UpdateModules_def hw_room_def finder_fits_def hw_books_def
        hw_sum_def frames_len_def hreader_new_def map_insert_def split: option.split)
qed

theorem file_reports_live_memory_witness:
  "\<exists>(s :: small start) fd i mh cs w r. start_memhawk quiet_world (start_new ([], []) demo_system) = Inr s \<and>
     (fd, GetProcessLogName (w_identity quiet_world) ''protobuf'' ''binpb'' (s_log s)) \<in> set (open_files (lg_system (s_log s))) \<and>
     s_writers s \<bind> adaptor_run demo_writers cs = Some [ProtoW w] \<and>
     read_file plain_decoder (pw_out w) = Some r \<and> map fst cs = writer_calls (TrackingWorker_round mh) \<and>
     same_live (shown_summary r (Some i) + delta_sum (map postponed_event (m_postponed mh)) i)
       (live_sum [(4112, \<lparr>ai_size = 8, ai_offset = 16, ai_traceId = i\<rparr>)] i)"
proof -
  obtain i mh s t where r: "mh_run demo_env (MemHawk_new 256 8 512) [(True, [5, 4, 3, 2, 1], i)] (call_log (one_block i)) mh"
    "setting_ok small_libc (\<lambda>_ _. i) small_blocks small_maps ([], [])" "m_postponed mh = []" "sm_size s = 8"
    "writer_calls (TrackingWorker_round mh) = [AccountSnapshot [(i, s)] t, AccountSnapshot [] 0, AccountSnapshot [] 0, UpdateModules, FlushData]"
    by (rule one_block_round [unfolded demo_depth_def])
  obtain st :: "small start" where st: "start_memhawk quiet_world (start_new ([], []) demo_system) = Inr st" by (rule quiet_start_world)
  have hawk: "gl_memhawk st = Some (MemHawk_new 256 8 512)" using started_defaults(1) [OF st] by simp
  have calls: "map fst (one_round i s t quiet) = writer_calls (TrackingWorker_round mh)" by (simp add: r(5))
  note whole = file_reports_live_memory [where E = demo_writers and W = quiet_world, unfolded quiet_world_sel]
  have sys: "distinct (map fst (sy_fds demo_system))" "\<not> w_refuses quiet_world n" for n by (simp_all add: demo_system_def quiet_world_def)
  from whole [OF r(2) one_block_reach one_block_run(3) st refl hawk r(1) calls sys plain_codec_ok refl demo_start(1) quiet_start quiet_flushes, of i]
  obtain fd w r where "(fd, GetProcessLogName (w_identity quiet_world) ''protobuf'' ''binpb'' (s_log st)) \<in> set (open_files (lg_system (s_log st)))"
    "s_writers st \<bind> adaptor_run demo_writers (one_round i s t quiet) = Some [ProtoW w]"
    "read_file plain_decoder (pw_out w) = Some r"
    "same_live (shown_summary r (Some i) + delta_sum (map postponed_event (m_postponed mh)) i)
       (live_sum [(4112, \<lparr>ai_size = 8, ai_offset = 16, ai_traceId = i\<rparr>)] i)" by (elim exE conjE) (rule that)
  then show ?thesis using calls st by (intro exI conjI)
qed

theorem heaptrack_reports_live_memory_witness:
  "\<exists>i cs w. HeaptrackWriter_new demo_hw_process \<bind> heaptrack_run cs = Some w \<and>
     hr_shown (read_heaptrack (hw_out w)) i =
       hr_expected (\<lambda>_. Some [5, 4, 3, 2, 1]) i (sm_size (live_sum [(4112, \<lparr>ai_size = 8, ai_offset = 16, ai_traceId = i\<rparr>)] i))"
proof -
  obtain i mh s t where r: "mh_run demo_env (MemHawk_new 256 demo_depth 512) [(True, [5, 4, 3, 2, 1], i)] (call_log (one_block i)) mh"
    "setting_ok small_libc (\<lambda>_ _. i) small_blocks small_maps ([], [])" "m_postponed mh = []" "sm_size s = 8"
    "writer_calls (TrackingWorker_round mh) = [AccountSnapshot [(i, s)] t, AccountSnapshot [] 0, AccountSnapshot [] 0, UpdateModules, FlushData]"
    by (rule one_block_round)
  have calls: "map fst (one_round i s t knowing) = writer_calls (TrackingWorker_round mh)" by (simp add: r(5))
  have fits: "process_fits demo_hw_process" by (simp add: process_fits_def demo_hw_process_def)
  from heaptrack_reports_live_memory [OF r(2) one_block_reach one_block_run(3) r(1) demo_lru demo_depth_ok calls r(3) fits
      knowing_flushes [OF r(4)]]
  obtain w where "HeaptrackWriter_new demo_hw_process \<bind> heaptrack_run (one_round i s t knowing) = Some w"
    "\<forall>j. hr_shown (read_heaptrack (hw_out w)) j =
       hr_expected (\<lambda>_. Some [5, 4, 3, 2, 1]) j (sm_size (live_sum [(4112, \<lparr>ai_size = 8, ai_offset = 16, ai_traceId = i\<rparr>)] j))"
    by (elim exE conjE) (rule that)
  then show ?thesis by blast
qed

end
